(* ===== verification/Prelude.thy ===== *)
theory Prelude
  imports Main "HOL-Library.Monad_Syntax"
begin

text \<open>
  Shared material of the development: the lemma collections the components
  extend, iteration of queue operations, and facts on \<open>mod\<close>-indexed
  arrays that both ring buffers of the program (\<^verbatim>\<open>src/queue.c\<close> and
  \<^verbatim>\<open>papps/pfscan-1.0/pqueue.c\<close>) use.

  Conventions.  A C function that may end the process (a failed \<^verbatim>\<open>assert\<close>,
  an access outside an array, a division by zero) returns an \<open>option\<close>, with
  \<open>None\<close> for the ended process; sequencing is \<^const>\<open>Option.bind\<close>, written in
  \<open>do\<close> notation.  A \<^verbatim>\<open>void *\<close> is a natural number and \<^verbatim>\<open>NULL\<close> is \<open>0\<close>.
\<close>

named_theorems rt_defs \<open>definitions of the runtime's operations\<close>
named_theorems rt_simps \<open>rewrite rules for the runtime's state\<close>

section \<open>Pointers\<close>

type_synonym ptr = nat

abbreviation (input) NULL :: ptr where
  "NULL \<equiv> 0"

section \<open>Iterated queue operations\<close>

text \<open>\<open>iter_del del n q\<close> takes \<open>n\<close> items off a queue, \<open>iter_add add xs q\<close> adds the
  items of \<open>xs\<close> one by one; both stop with \<open>None\<close> where an operation does.\<close>

fun iter_del :: "('q \<Rightarrow> ('a \<times> 'q) option) \<Rightarrow> nat \<Rightarrow> 'q \<Rightarrow> ('a list \<times> 'q) option" where
  "iter_del del 0 q = Some ([], q)"
| "iter_del del (Suc n) q = do {
     (x, q1) \<leftarrow> del q;
     (xs, q2) \<leftarrow> iter_del del n q1;
     Some (x # xs, q2)
   }"

fun iter_add :: "('q \<Rightarrow> 'a \<Rightarrow> (int \<times> 'q) option) \<Rightarrow> 'a list \<Rightarrow> 'q \<Rightarrow> (int list \<times> 'q) option" where
  "iter_add add [] q = Some ([], q)"
| "iter_add add (x # xs) q = do {
     (r, q1) \<leftarrow> add q x;
     (rs, q2) \<leftarrow> iter_add add xs q1;
     Some (r # rs, q2)
   }"

section \<open>Bounded FIFO queues: the contract\<close>

text \<open>
  What the clients of a bounded queue rely on: a list view, a capacity, and for
  each operation its effect on the view.  \<open>add\<close> answers \<open>1\<close> when it stored the
  item; \<open>del\<close> returns the oldest item.
\<close>

locale fifo_store =
  fixes inv :: "'q \<Rightarrow> bool"
    and lst :: "'q \<Rightarrow> 'a list"
    and cap :: "'q \<Rightarrow> nat"
    and add :: "'q \<Rightarrow> 'a \<Rightarrow> (int \<times> 'q) option"
    and del :: "'q \<Rightarrow> ('a \<times> 'q) option"
  assumes len_cap: "inv q \<Longrightarrow> length (lst q) \<le> cap q"
    and add_room: "inv q \<Longrightarrow> length (lst q) < cap q \<Longrightarrow>
      \<exists>q'. add q x = Some (1, q') \<and> inv q' \<and> lst q' = lst q @ [x] \<and> cap q' = cap q"
    and del_cons: "inv q \<Longrightarrow> lst q = x # xs \<Longrightarrow>
      \<exists>q'. del q = Some (x, q') \<and> inv q' \<and> lst q' = xs \<and> cap q' = cap q"
begin

lemma iter_del_view:
  "inv q \<Longrightarrow> n \<le> length (lst q) \<Longrightarrow>
    \<exists>q'. iter_del del n q = Some (take n (lst q), q') \<and> inv q' \<and> lst q' = drop n (lst q)
      \<and> cap q' = cap q"
proof (induction n arbitrary: q)
  case 0
  then show ?case by simp
next
  case (Suc n)
  then obtain x xs where view: "lst q = x # xs" by (cases "lst q") auto
  with Suc.prems del_cons obtain q1 where
    q1: "del q = Some (x, q1)" "inv q1" "lst q1 = xs" "cap q1 = cap q" by blast
  from Suc.prems view q1(3) have "n \<le> length (lst q1)" by simp
  from Suc.IH [OF q1(2) this] obtain q2 where
    "iter_del del n q1 = Some (take n xs, q2)" "inv q2" "lst q2 = drop n xs" "cap q2 = cap q"
    using q1(3,4) by auto
  with q1(1) view show ?case by auto
qed

lemma iter_add_view:
  "inv q \<Longrightarrow> length (lst q) + length xs \<le> cap q \<Longrightarrow>
    \<exists>q'. iter_add add xs q = Some (replicate (length xs) 1, q') \<and> inv q'
      \<and> lst q' = lst q @ xs \<and> cap q' = cap q"
proof (induction xs arbitrary: q)
  case Nil
  then show ?case by simp
next
  case (Cons x xs)
  then have "length (lst q) < cap q" by simp
  with Cons.prems(1) add_room obtain q1 where
    q1: "add q x = Some (1, q1)" "inv q1" "lst q1 = lst q @ [x]" "cap q1 = cap q" by blast
  from Cons.prems(2) q1(3,4) have "length (lst q1) + length xs \<le> cap q1" by simp
  from Cons.IH [OF q1(2) this] obtain q2 where
    "iter_add add xs q1 = Some (replicate (length xs) 1, q2)" "inv q2"
    "lst q2 = lst q @ x # xs" "cap q2 = cap q"
    using q1(3,4) by auto
  with q1(1) show ?case by auto
qed

text \<open>Items leave in the order they entered: adding a batch and then taking
  everything out gives what was there followed by the batch.\<close>

lemma fifo_roundtrip:
  assumes "inv q" and "length (lst q) + length xs \<le> cap q"
  shows "\<exists>q1 q2. iter_add add xs q = Some (replicate (length xs) 1, q1)
    \<and> iter_del del (length (lst q) + length xs) q1 = Some (lst q @ xs, q2)
    \<and> inv q2 \<and> lst q2 = []"
proof -
  from iter_add_view [OF assms] obtain q1 where
    q1: "iter_add add xs q = Some (replicate (length xs) 1, q1)" "inv q1" "lst q1 = lst q @ xs"
    by blast
  from q1(3) have "length (lst q) + length xs \<le> length (lst q1)" by simp
  from iter_del_view [OF q1(2) this] q1 show ?thesis by auto
qed

end

text \<open>A queue that answers instead of blocking: \<open>0\<close> when it is full, \<open>null\<close> when it is
  empty.\<close>

locale bounded_fifo = fifo_store +
  fixes null
  assumes add_full: "inv q \<Longrightarrow> length (lst q) = cap q \<Longrightarrow> add q x = Some (0, q)"
    and del_empty: "inv q \<Longrightarrow> lst q = [] \<Longrightarrow> del q = Some (null, q)"
begin

lemma add_result:
  "inv q \<Longrightarrow> \<exists>q'. add q x = Some (if length (lst q) < cap q then 1 else 0, q') \<and> inv q'
    \<and> lst q' = (if length (lst q) < cap q then lst q @ [x] else lst q)"
  using add_room [of q x] add_full [of q x] len_cap [of q] by (cases "length (lst q) < cap q") auto

end

section \<open>Modular indices\<close>

lemma Suc_mod_eq: "i < n \<Longrightarrow> Suc i mod n = (if Suc i = n then 0 else Suc i)"
  by auto

lemma mod_add_shift: "(Suc h mod n + k) mod n = (h + Suc k) mod (n::nat)"
  by (simp add: mod_add_left_eq)

lemma mod_index_inj:
  assumes "i < n" "j < n" "(h + i) mod n = (h + j) mod (n::nat)"
  shows "i = j"
proof -
  from assms(3) have "int n dvd int (h + i) - int (h + j)"
    by (metis mod_eq_dvd_iff zmod_int)
  then have "int n dvd int i - int j" by simp
  with assms(1,2) show ?thesis
    by (metis mod_eq_dvd_iff mod_less of_nat_eq_iff zmod_int)
qed

section \<open>Arrays with bounds\<close>

text \<open>Reading and writing \<open>a[i]\<close> with a signed index; outside the array the program has no
  defined behaviour and the model answers \<open>None\<close>.\<close>

definition rd :: "'a list \<Rightarrow> int \<Rightarrow> 'a option" where
  "rd xs i = (if 0 \<le> i \<and> i < int (length xs) then Some (xs ! nat i) else None)"

definition wr :: "'a list \<Rightarrow> int \<Rightarrow> 'a \<Rightarrow> 'a list option" where
  "wr xs i v = (if 0 \<le> i \<and> i < int (length xs) then Some (xs[nat i := v]) else None)"

lemma rd_in [simp]: "0 \<le> i \<Longrightarrow> i < int (length xs) \<Longrightarrow> rd xs i = Some (xs ! nat i)"
  by (simp add: rd_def)

lemma wr_in [simp]: "0 \<le> i \<Longrightarrow> i < int (length xs) \<Longrightarrow> wr xs i v = Some (xs[nat i := v])"
  by (simp add: wr_def)

lemma wr_length: "wr xs i v = Some ys \<Longrightarrow> length ys = length xs"
  by (auto simp: wr_def split: if_splits)

section \<open>Counting loops\<close>

text \<open>\<open>for_each f is s\<close> runs the body \<open>f\<close> for every value of the loop variable in turn.  The two
  rules are loop invariants for \<^verbatim>\<open>for (i = lo; i <= hi; i++)\<close> and
  \<^verbatim>\<open>for (i = hi; i >= lo; i--)\<close>.\<close>

primrec for_each :: "('i \<Rightarrow> 's \<Rightarrow> 's option) \<Rightarrow> 'i list \<Rightarrow> 's \<Rightarrow> 's option" where
  "for_each f [] s = Some s"
| "for_each f (i # js) s = do { s' \<leftarrow> f i s; for_each f js s' }"

lemma for_up:
  assumes "lo \<le> hi + 1" "I lo s"
    and "\<And>i s. lo \<le> i \<Longrightarrow> i \<le> hi \<Longrightarrow> I i s \<Longrightarrow> \<exists>s'. f i s = Some s' \<and> I (i + 1) s'"
  shows "\<exists>s'. for_each f [lo..hi] s = Some s' \<and> I (hi + 1 :: int) s'"
  using assms
proof (induction "nat (hi + 1 - lo)" arbitrary: lo s)
  case 0
  then have "lo = hi + 1" by simp
  with "0.prems" show ?case by simp
next
  case (Suc n)
  then have le: "lo \<le> hi" by linarith
  with Suc.prems(3) [of lo s] Suc.prems(2) obtain s' where s': "f lo s = Some s'" "I (lo + 1) s'" by auto
  with Suc.hyps(1) [of "lo + 1" s'] Suc.hyps(2) Suc.prems(3) le
  show ?case by (simp add: upto_rec1)
qed

lemma for_down:
  assumes "lo \<le> hi + 1" "I hi s"
    and "\<And>i s. lo \<le> i \<Longrightarrow> i \<le> hi \<Longrightarrow> I i s \<Longrightarrow> \<exists>s'. f i s = Some s' \<and> I (i - 1) s'"
  shows "\<exists>s'. for_each f (rev [lo..hi]) s = Some s' \<and> I (lo - 1 :: int) s'"
  using assms
proof (induction "nat (hi + 1 - lo)" arbitrary: hi s)
  case 0
  then have "hi = lo - 1" by simp
  with "0.prems" show ?case by simp
next
  case (Suc n)
  then have le: "lo \<le> hi" by linarith
  with Suc.prems(3) [of hi s] Suc.prems(2) obtain s' where s': "f hi s = Some s'" "I (hi - 1) s'" by auto
  with Suc.hyps(1) [of "hi - 1" s'] Suc.hyps(2) Suc.prems(3) le
  show ?case by (simp add: upto_rec2)
qed

end
