(* ===== verification/TQueue.thy ===== *)
theory TQueue
  imports Prelude
begin

text \<open>
  The ring buffer of \<^verbatim>\<open>src/queue.c\<close>.  One slot stays free: \<open>head = tail\<close> means
  empty, and a queue of \<open>qsize\<close> slots stores at most \<open>qsize - 1\<close> items.  The block
  \<^verbatim>\<open>malloc\<close> returns is modelled as zeros; no operation reads a slot it has not
  written first, which the list view shows.  \<^verbatim>\<open>%\<close> by a zero \<open>qsize\<close> (a queue after
  \<^verbatim>\<open>DestroyQ\<close>) traps and is \<open>None\<close>.
\<close>

section \<open>Data and operations\<close>

record TQueue =
  head :: nat
  tail :: nat
  array :: "ptr list"
  qsize :: nat

definition InitQ :: "nat \<Rightarrow> TQueue" where
  "InitQ n = \<lparr>head = 0, tail = 0, array = replicate n NULL, qsize = n\<rparr>"

definition InitQ2 :: "TQueue \<Rightarrow> TQueue" where
  "InitQ2 src = \<lparr>head = head src, tail = tail src,
     array = take (qsize src) (array src), qsize = qsize src\<rparr>"

definition AddQ :: "TQueue \<Rightarrow> ptr \<Rightarrow> (int \<times> TQueue) option" where
  "AddQ q item =
     (if qsize q = 0 then None
      else if (tail q + 1) mod qsize q = head q then Some (0, q)
      else if \<not> tail q < length (array q) then None
      else Some (1, q\<lparr>array := (array q)[tail q := item], tail := (tail q + 1) mod qsize q\<rparr>))"

definition DelQ :: "TQueue \<Rightarrow> (ptr \<times> TQueue) option" where
  "DelQ q =
     (if head q = tail q then Some (NULL, q)
      else if qsize q = 0 \<or> \<not> head q < length (array q) then None
      else Some (array q ! head q, q\<lparr>head := (head q + 1) mod qsize q\<rparr>))"

definition GetHeadQ :: "TQueue \<Rightarrow> ptr option" where
  "GetHeadQ q =
     (if head q = tail q then Some NULL
      else if \<not> head q < length (array q) then None
      else Some (array q ! head q))"

definition IsEmptyQ :: "TQueue \<Rightarrow> int" where
  "IsEmptyQ q = (if head q = tail q then 1 else 0)"

text \<open>\<^verbatim>\<open>ClearQ\<close> empties the queue and frees the items when asked to; the model
  returns the pointers passed to \<^verbatim>\<open>free\<close>, in order.\<close>

partial_function (option) ClearQ :: "TQueue \<Rightarrow> int \<Rightarrow> (ptr list \<times> TQueue) option" where
  "ClearQ q freeObjs =
     (if IsEmptyQ q = 0 then do {
        (itm, q1) \<leftarrow> DelQ q;
        (freed, q2) \<leftarrow> ClearQ q1 freeObjs;
        Some (if freeObjs = 1 then itm # freed else freed, q2)
      } else Some ([], q))"

definition DestroyQ :: "TQueue \<Rightarrow> TQueue" where
  "DestroyQ q = q\<lparr>qsize := 0, array := []\<rparr>"

section \<open>View and invariant\<close>

definition qwf :: "TQueue \<Rightarrow> bool" where
  "qwf q \<longleftrightarrow> head q < qsize q \<and> tail q < qsize q \<and> length (array q) = qsize q"

definition qlen :: "TQueue \<Rightarrow> nat" where
  "qlen q = (tail q + (qsize q - head q)) mod qsize q"

definition qlist :: "TQueue \<Rightarrow> ptr list" where
  "qlist q = map (\<lambda>k. array q ! ((head q + k) mod qsize q)) [0..<qlen q]"

abbreviation qcap :: "TQueue \<Rightarrow> nat" where
  "qcap q \<equiv> qsize q - 1"

lemma length_qlist [simp]: "length (qlist q) = qlen q"
  by (simp add: qlist_def)

lemma qlen_alt: "qwf q \<Longrightarrow> qlen q = (if head q \<le> tail q then tail q - head q
    else qsize q + tail q - head q)"
  by (auto simp: qlen_def qwf_def mod_if)

lemma qlen_cap: "qwf q \<Longrightarrow> qlen q \<le> qcap q"
  by (simp add: qlen_alt) (auto simp: qwf_def)

lemma qlen_0_iff: "qwf q \<Longrightarrow> qlen q = 0 \<longleftrightarrow> head q = tail q"
  by (simp add: qlen_alt) (auto simp: qwf_def)

lemma qlist_Nil_iff: "qwf q \<Longrightarrow> qlist q = [] \<longleftrightarrow> head q = tail q"
  using qlen_0_iff [of q] by (metis length_0_conv length_qlist)

lemma qfull_iff: "qwf q \<Longrightarrow> (tail q + 1) mod qsize q = head q \<longleftrightarrow> qlen q = qcap q"
  by (auto simp: qlen_alt Suc_mod_eq qwf_def split: if_splits)

lemma tail_index: "qwf q \<Longrightarrow> (head q + qlen q) mod qsize q = tail q"
  by (auto simp: qlen_alt qwf_def)

lemma qwf_InitQ [simp]: "0 < n \<Longrightarrow> qwf (InitQ n)"
  and qlist_InitQ [simp]: "qlist (InitQ n) = []"
  and qsize_InitQ [simp]: "qsize (InitQ n) = n"
  by (simp_all add: qwf_def InitQ_def qlist_def qlen_def)

lemma AddQ_full: "qwf q \<Longrightarrow> qlen q = qcap q \<Longrightarrow> AddQ q x = Some (0, q)"
  using qfull_iff [of q] by (auto simp: AddQ_def qwf_def)

lemma AddQ_room:
  assumes wf: "qwf q" and room: "qlen q < qcap q"
  shows "\<exists>q'. AddQ q x = Some (1, q') \<and> qwf q' \<and> qlist q' = qlist q @ [x] \<and> qsize q' = qsize q"
proof -
  let ?q' = "q\<lparr>array := (array q)[tail q := x], tail := (tail q + 1) mod qsize q\<rparr>"
  have add: "AddQ q x = Some (1, ?q')"
    using wf room qfull_iff [OF wf] by (auto simp: AddQ_def qwf_def)
  have wf': "qwf ?q'" using wf by (auto simp: qwf_def)
  have len: "qlen ?q' = Suc (qlen q)"
    using room qlen_alt [OF wf'] qlen_alt [OF wf] wf
    by (auto simp: Suc_mod_eq qwf_def split: if_splits)
  have old: "tail q \<noteq> (head q + k) mod qsize q" if "k < qlen q" for k
  proof -
    from room have "qlen q < qsize q" by simp
    with that show ?thesis
      using mod_index_inj [of k "qsize q" "qlen q" "head q"] tail_index [OF wf] by auto
  qed
  have "qlist ?q' = qlist q @ [x]"
    using old tail_index [OF wf] wf len by (simp add: qlist_def qwf_def)
  with add wf' show ?thesis by simp
qed

lemma DelQ_empty: "qwf q \<Longrightarrow> qlist q = [] \<Longrightarrow> DelQ q = Some (NULL, q)"
  by (simp add: DelQ_def qlist_Nil_iff)

lemma DelQ_Cons:
  assumes wf: "qwf q" and view: "qlist q = x # xs"
  shows "\<exists>q'. DelQ q = Some (x, q') \<and> qwf q' \<and> qlist q' = xs \<and> qsize q' = qsize q"
proof -
  let ?q' = "q\<lparr>head := (head q + 1) mod qsize q\<rparr>"
  from view have ne: "head q \<noteq> tail q" using qlist_Nil_iff [OF wf] by auto
  from view have len: "qlen q = Suc (length xs)" by (metis length_Cons length_qlist)
  have wf': "qwf ?q'" using wf by (auto simp: qwf_def)
  have len': "qlen ?q' = length xs"
    using len ne qlen_alt [OF wf'] qlen_alt [OF wf] wf
    by (auto simp: Suc_mod_eq qwf_def split: if_splits)
  have "x # xs = map (\<lambda>k. array q ! ((head q + k) mod qsize q)) (0 # map Suc [0..<length xs])"
    using view by (simp only: qlist_def len upt_conv_Cons map_Suc_upt zero_less_Suc)
  then have x: "x = array q ! head q"
    and xs: "xs = map (\<lambda>k. array q ! ((head q + Suc k) mod qsize q)) [0..<length xs]"
    using wf by (auto simp: qwf_def comp_def)
  have "qlist ?q' = xs"
    using len' by (subst xs) (simp add: qlist_def mod_add_left_eq)
  with x ne wf wf' show ?thesis by (auto simp: DelQ_def qwf_def)
qed

lemma GetHeadQ_view:
  "qwf q \<Longrightarrow> GetHeadQ q = Some (case qlist q of [] \<Rightarrow> NULL | x # _ \<Rightarrow> x)"
  using DelQ_Cons [of q] qlist_Nil_iff [of q]
  by (auto simp: GetHeadQ_def DelQ_def qwf_def split: list.splits)

lemma IsEmptyQ_view: "qwf q \<Longrightarrow> IsEmptyQ q = (if qlist q = [] then 1 else 0)"
  by (simp add: IsEmptyQ_def qlist_Nil_iff)

interpretation tq: bounded_fifo qwf qlist qcap AddQ DelQ NULL
proof unfold_locales
  show "length (qlist q) \<le> qcap q" if "qwf q" for q using qlen_cap [OF that] by simp
  show "\<exists>q'. AddQ q x = Some (1, q') \<and> qwf q' \<and> qlist q' = qlist q @ [x] \<and> qcap q' = qcap q"
    if "qwf q" "length (qlist q) < qcap q" for q x
    using AddQ_room [of q x] that by auto
  show "AddQ q x = Some (0, q)" if "qwf q" "length (qlist q) = qcap q" for q x
    using AddQ_full [of q x] that by simp
  show "DelQ q = Some (NULL, q)" if "qwf q" "qlist q = []" for q
    using that by (rule DelQ_empty)
  show "\<exists>q'. DelQ q = Some (x, q') \<and> qwf q' \<and> qlist q' = xs \<and> qcap q' = qcap q"
    if "qwf q" "qlist q = x # xs" for q x xs
    using DelQ_Cons [OF that] by auto
qed

lemma qlist_InitQ2: "qwf q \<Longrightarrow> qwf (InitQ2 q) \<and> qlist (InitQ2 q) = qlist q"
  by (auto simp: InitQ2_def qwf_def qlist_def qlen_def)

text \<open>\<^verbatim>\<open>ClearQ\<close> returns: its loop takes one item per round.\<close>

lemma ClearQ_view:
  "qwf q \<Longrightarrow> \<exists>q'. ClearQ q f = Some (if f = 1 then qlist q else [], q') \<and> qwf q' \<and> qlist q' = []"
proof (induction "qlist q" arbitrary: q)
  case Nil
  then show ?case by (subst ClearQ.simps) (auto simp: IsEmptyQ_view)
next
  case (Cons x xs)
  from DelQ_Cons [OF Cons.prems Cons.hyps(2) [symmetric]] obtain q1 where
    q1: "DelQ q = Some (x, q1)" "qwf q1" "qlist q1 = xs" by auto
  with Cons.hyps(1) [of q1] obtain q2 where
    "ClearQ q1 f = Some (if f = 1 then xs else [], q2)" "qwf q2" "qlist q2 = []" by auto
  with q1 Cons.prems Cons.hyps(2) [symmetric] show ?case
    by (subst ClearQ.simps) (auto simp: IsEmptyQ_view)
qed

lemma iter_add_append:
  "iter_add add (xs @ ys) q = do {
     (rs, q1) \<leftarrow> iter_add add xs q; (rs', q2) \<leftarrow> iter_add add ys q1; Some (rs @ rs', q2) }"
  by (induction xs arbitrary: q) (auto split: bind_splits)

section \<open>Properties\<close>

text \<open>C27. The queue is first-in first-out: from any well-formed state, adding a batch that
  fits and then removing everything returns the old items followed by the batch, and
  leaves the queue empty.\<close>

theorem queue_fifo:
  assumes "qwf q" and "qlen q + length xs \<le> qcap q"
  shows "\<exists>q1 q2. iter_add AddQ xs q = Some (replicate (length xs) 1, q1)
    \<and> iter_del DelQ (qlen q + length xs) q1 = Some (qlist q @ xs, q2)
    \<and> qwf q2 \<and> IsEmptyQ q2 = 1"
  using tq.fifo_roundtrip [OF assms(1), of xs] assms(2) IsEmptyQ_view by fastforce

theorem queue_fifo_witness:
  "\<exists>q1 q2. iter_add AddQ [7, 8, 9] (InitQ 4) = Some ([1, 1, 1], q1)
    \<and> iter_del DelQ 3 q1 = Some ([7, 8, 9], q2) \<and> IsEmptyQ q2 = 1"
proof -
  have len: "qlen (InitQ 4) = 0" by (simp add: qlen_def InitQ_def)
  from queue_fifo [of "InitQ 4" "[7, 8, 9]"] show ?thesis
    by (auto simp: len numeral_3_eq_3 simp del: iter_add.simps iter_del.simps)
qed

text \<open>A queue of \<open>n\<close> slots stores \<open>n - 1\<close> items: of \<open>n\<close> items added to an empty queue
  the last is refused with result 0 and lost, which no caller in \<^verbatim>\<open>dpthread.c\<close> looks
  at.\<close>

theorem queue_refuses_last:
  assumes "length xs = n" and "0 < n"
  shows "\<exists>q. iter_add AddQ (xs @ [x]) (InitQ (Suc n)) = Some (replicate n 1 @ [0], q) \<and> qlist q = xs"
proof -
  have "qlen (InitQ (Suc n)) = 0" by (simp add: qlen_def InitQ_def)
  with tq.iter_add_view [of "InitQ (Suc n)" xs] assms(1) obtain q where
    q: "iter_add AddQ xs (InitQ (Suc n)) = Some (replicate n 1, q)" "qwf q" "qlist q = xs" "qcap q = n"
    by auto
  with AddQ_full [of q x] assms(1) have "AddQ q x = Some (0, q)" using length_qlist [of q] by simp
  with q show ?thesis by (simp add: iter_add_append)
qed

theorem queue_refuses_last_witness:
  "\<exists>q. iter_add AddQ [5, 6, 7] (InitQ 3) = Some ([1, 1, 0], q) \<and> qlist q = [5, 6]"
  using queue_refuses_last [of "[5, 6]" 2 7] by (simp add: numeral_2_eq_2 numeral_3_eq_3)

text \<open>\<^verbatim>\<open>ClearQ\<close> terminates, leaves the queue empty, and frees exactly the stored items,
  each once and in order, when asked to free them, and nothing otherwise.\<close>

theorem clear_frees_stored:
  assumes "qwf q"
  shows "\<exists>q'. ClearQ q freeObjs = Some (if freeObjs = 1 then qlist q else [], q') \<and> qwf q' \<and> qlist q' = []"
  using assms by (rule ClearQ_view)

theorem clear_frees_stored_witness:
  "\<exists>q'. ClearQ \<lparr>head = 3, tail = 1, array = [8, 0, 0, 7], qsize = 4\<rparr> 1 = Some ([7, 8], q') \<and> qlist q' = []"
proof -
  let ?q = "\<lparr>head = 3, tail = 1, array = [8, 0, 0, 7], qsize = 4\<rparr>"
  have "qwf ?q" by (simp add: qwf_def)
  moreover have "qlist ?q = [7, 8]" by (simp add: qlist_def qlen_def upt_rec)
  ultimately show ?thesis using clear_frees_stored [of ?q 1] by auto
qed

end
