(* ===== verification/Runtime.thy ===== *)
theory Runtime
  imports TQueue
begin

text \<open>
  The state of the deterministic runtime (\<^verbatim>\<open>src/dpthread.c\<close>, \<^verbatim>\<open>include/dpthread.h\<close>) and
  the logical clock of a thread.

  A clock is \<^verbatim>\<open>hw_clock + sw_clock\<close> while the thread's performance counter is
  stopped and \<^verbatim>\<open>counter + sw_clock\<close> while it runs.  The counter is kernel state
  (\<open>kperf\<close>): \<open>pv_raw\<close>, \<open>pv_time_enabled\<close> and \<open>pv_time_running\<close> are what
  \<^verbatim>\<open>read\<close> returns in \<^verbatim>\<open>values[]\<close>, \<open>pv_on\<close> is what the two \<^verbatim>\<open>ioctl\<close>s switch.

  \<open>sysconf_nprocs\<close> and \<open>pfm_ok\<close> are what the system answers: the number of
  processors, and whether the performance counters can be opened (the code exits
  with \<^verbatim>\<open>errx\<close> otherwise); \<open>pthread_handle i\<close> is the \<^verbatim>\<open>pthread_t\<close> that
  \<^verbatim>\<open>pthread_create\<close> stores for the thread with id \<open>i\<close>.

  Thread-local variables are indexed by \<^verbatim>\<open>myid\<close>, which is the argument \<open>me\<close> of
  every operation.  Mutexes and condition variables are reached by address: those
  of the program, the pair inside \<^verbatim>\<open>wa[i]\<close> and the pair inside a barrier.  A pthread
  mutex is its holder (\<open>None\<close> when free).  Log output is not modelled; the \<^verbatim>\<open>assert\<close>
  of \<^verbatim>\<open>DBG\<close> is.  Clocks are \<open>int\<close>: they are \<^verbatim>\<open>int64_t\<close> in the code, whose overflow is
  undefined, and the asserts against \<^verbatim>\<open>MAX_LOGICAL_CLOCK\<close> keep them far below
  \<open>2 ^ 63\<close> (theory \<open>Cond\<close>).
\<close>

section \<open>Constants and data\<close>

definition MAX_THR :: nat where
  "MAX_THR = 128"

definition MAX_LOGICAL_CLOCK :: int where
  "MAX_LOGICAL_CLOCK = 20000000000000"

definition EBUSY :: int where
  "EBUSY = 16"

datatype fds_state = FdsNull | FdsOpen | FdsFreed

record worker_args =
  w_func :: nat
  w_arg :: nat
  w_id :: nat
  w_tid :: nat
  w_fds :: fds_state
  hw_clock :: int
  sw_clock :: int
  hw_clock_enabled :: bool
  finished :: bool
  started :: bool
  last_exit_logical_time :: int
  nondet_count :: int

record thread_local =
  my_det_clock :: int
  my_det_enabled :: bool
  hw_read :: int
  cache_read :: int
  barrier_count :: int
  lock_count :: int
  perf_wait_turn_cnt :: int
  perf_enable_cnt :: int
  perf_disable_cnt :: int
  retval :: int

record det_mutex =
  mx_id :: int
  mx_mutex :: "nat option"
  released_logical_time :: int
  owner :: int
  ref :: int
  mx_queue :: TQueue

record det_cond =
  cd_id :: int
  cd_queue :: TQueue
  waiter :: "nat \<Rightarrow> det_mutex"

record det_barrier =
  br_id :: int
  target_count :: int
  wait_count :: int

datatype maddr = Mutex nat | ThreadLock nat | BarrierMutex nat

datatype caddr = CondVar nat | ThreadCond nat | BarrierCond nat

record perf_counter =
  pv_raw :: int
  pv_time_enabled :: int
  pv_time_running :: int
  pv_on :: bool

record rt =
  wa :: "nat \<Rightarrow> worker_args"
  max_thr :: nat
  num_thr :: nat
  last_sync_logical_time :: int
  tls :: "nat \<Rightarrow> thread_local"
  g_lock_count :: int
  g_barr_count :: int
  g_cond_count :: int
  mutexes :: "maddr \<Rightarrow> det_mutex"
  conds :: "caddr \<Rightarrow> det_cond"
  barriers :: "nat \<Rightarrow> det_barrier"
  kperf :: "nat \<Rightarrow> perf_counter"
  pthread_done :: "nat \<Rightarrow> bool"
  num_processors :: nat
  debug_level :: int
  sysconf_nprocs :: nat
  pfm_ok :: bool
  pthread_handle :: "nat \<Rightarrow> nat"

abbreviation upd_wa :: "nat \<Rightarrow> (worker_args \<Rightarrow> worker_args) \<Rightarrow> rt \<Rightarrow> rt" where
  "upd_wa i f s \<equiv> s\<lparr>wa := (wa s)(i := f (wa s i))\<rparr>"

abbreviation upd_tls :: "nat \<Rightarrow> (thread_local \<Rightarrow> thread_local) \<Rightarrow> rt \<Rightarrow> rt" where
  "upd_tls i f s \<equiv> s\<lparr>tls := (tls s)(i := f (tls s i))\<rparr>"

abbreviation upd_mutex :: "maddr \<Rightarrow> (det_mutex \<Rightarrow> det_mutex) \<Rightarrow> rt \<Rightarrow> rt" where
  "upd_mutex m f s \<equiv> s\<lparr>mutexes := (mutexes s)(m := f (mutexes s m))\<rparr>"

abbreviation upd_cond :: "caddr \<Rightarrow> (det_cond \<Rightarrow> det_cond) \<Rightarrow> rt \<Rightarrow> rt" where
  "upd_cond c f s \<equiv> s\<lparr>conds := (conds s)(c := f (conds s c))\<rparr>"

abbreviation upd_barrier :: "nat \<Rightarrow> (det_barrier \<Rightarrow> det_barrier) \<Rightarrow> rt \<Rightarrow> rt" where
  "upd_barrier b f s \<equiv> s\<lparr>barriers := (barriers s)(b := f (barriers s b))\<rparr>"

abbreviation upd_perf :: "nat \<Rightarrow> (perf_counter \<Rightarrow> perf_counter) \<Rightarrow> rt \<Rightarrow> rt" where
  "upd_perf i f s \<equiv> s\<lparr>kperf := (kperf s)(i := f (kperf s i))\<rparr>"

section \<open>Assertions\<close>

definition c_assert :: "bool \<Rightarrow> unit option" where
  "c_assert b = (if b then Some () else None)"

text \<open>\<^verbatim>\<open>DBG\<close> asserts that the caller's counter is stopped before it prints.\<close>

definition DBG :: "nat \<Rightarrow> rt \<Rightarrow> unit option" where
  "DBG me s = c_assert (\<not> hw_clock_enabled (wa s me))"

lemma c_assert_simps [simp]:
  "c_assert True = Some ()" "c_assert False = None"
  "c_assert b = Some u \<longleftrightarrow> b" "c_assert b = None \<longleftrightarrow> \<not> b"
  by (simp_all add: c_assert_def)

lemma c_assert_bind [simp]: "c_assert b \<bind> f = (if b then f () else None)"
  by (simp add: c_assert_def)

lemma DBG_iff [simp]: "DBG me s = (if hw_clock_enabled (wa s me) then None else Some ())"
  by (simp add: DBG_def c_assert_def)

section \<open>Reading and setting clocks\<close>

definition GET_CLOCK :: "rt \<Rightarrow> nat \<Rightarrow> int" where
  "GET_CLOCK s i = sw_clock (wa s i) + hw_clock (wa s i)"

definition SET_CLOCK :: "nat \<Rightarrow> int \<Rightarrow> rt \<Rightarrow> rt" where
  "SET_CLOCK i clock s = upd_wa i (\<lambda>w. w\<lparr>sw_clock := clock - hw_clock w\<rparr>) s"

definition add_sw_clock :: "nat \<Rightarrow> int \<Rightarrow> rt \<Rightarrow> rt" where
  "add_sw_clock i incr s = upd_wa i (\<lambda>w. w\<lparr>sw_clock := sw_clock w + incr\<rparr>) s"

definition read_count1 :: "nat \<Rightarrow> nat \<Rightarrow> rt \<Rightarrow> int option" where
  "read_count1 me i s =
     (if w_fds (wa s i) \<noteq> FdsOpen then None
      else if pv_time_enabled (kperf s i) \<noteq> pv_time_running (kperf s i)
      then do { DBG me s; Some (pv_raw (kperf s i)) }
      else Some (pv_raw (kperf s i)))"

definition read_count :: "nat \<Rightarrow> nat \<Rightarrow> rt \<Rightarrow> int option" where
  "read_count me i s = read_count1 me i s"

definition get_logical_clock :: "nat \<Rightarrow> nat \<Rightarrow> rt \<Rightarrow> (int \<times> rt) option" where
  "get_logical_clock me i s =
     (if \<not> hw_clock_enabled (wa s i) then do {
        DBG me s;
        Some (GET_CLOCK s i, upd_tls me (\<lambda>l. l\<lparr>cache_read := cache_read l + 1\<rparr>) s)
      } else do {
        hw \<leftarrow> read_count me i s;
        Some (hw + sw_clock (wa s i), upd_tls me (\<lambda>l. l\<lparr>hw_read := hw_read l + 1\<rparr>) s)
      })"

section \<open>Starting and stopping the counter\<close>

definition enable_performance_counter :: "nat \<Rightarrow> rt \<Rightarrow> rt option" where
  "enable_performance_counter me s =
     (case w_fds (wa s me) of
        FdsNull \<Rightarrow> Some s
      | FdsOpen \<Rightarrow> Some (upd_perf me (\<lambda>p. p\<lparr>pv_on := True\<rparr>) s)
      | FdsFreed \<Rightarrow> None)"

definition disable_performance_counter :: "nat \<Rightarrow> rt \<Rightarrow> rt option" where
  "disable_performance_counter me s =
     (case w_fds (wa s me) of
        FdsNull \<Rightarrow> Some s
      | FdsOpen \<Rightarrow> Some (upd_perf me (\<lambda>p. p\<lparr>pv_on := False\<rparr>) s)
      | FdsFreed \<Rightarrow> None)"

definition enable_logical_clock :: "nat \<Rightarrow> rt \<Rightarrow> (int \<times> rt) option" where
  "enable_logical_clock me s =
     (if w_fds (wa s me) = FdsNull then Some (-1, s)
      else if hw_clock_enabled (wa s me) then Some (-1, s)
      else do {
        DBG me s;
        let s = upd_wa me (\<lambda>w. w\<lparr>hw_clock_enabled := True\<rparr>) s;
        s \<leftarrow> enable_performance_counter me s;
        Some (0, upd_tls me (\<lambda>l. l\<lparr>perf_enable_cnt := perf_enable_cnt l + 1\<rparr>) s)
      })"

definition disable_logical_clock :: "nat \<Rightarrow> rt \<Rightarrow> (int \<times> rt) option" where
  "disable_logical_clock me s =
     (if w_fds (wa s me) = FdsNull then Some (-1, s)
      else if \<not> hw_clock_enabled (wa s me) then Some (-1, s)
      else do {
        s \<leftarrow> disable_performance_counter me s;
        c \<leftarrow> read_count me me s;
        let s = upd_wa me (\<lambda>w. w\<lparr>hw_clock := c\<rparr>) s;
        let s = upd_wa me (\<lambda>w. w\<lparr>hw_clock_enabled := False\<rparr>) s;
        DBG me s;
        Some (0, upd_tls me (\<lambda>l. l\<lparr>perf_disable_cnt := perf_disable_cnt l + 1\<rparr>) s)
      })"

text \<open>The idiom \<^verbatim>\<open>if ( lret == 0 ) enable_logical_clock();\<close> that ends most operations.\<close>

definition resume_clock :: "nat \<Rightarrow> int \<Rightarrow> rt \<Rightarrow> rt option" where
  "resume_clock me lret s =
     (if lret = 0 then map_option snd (enable_logical_clock me s) else Some s)"

text \<open>What the kernel does while the thread runs user code: \<open>n\<close> more counted events,
  if the counter is on.\<close>

definition count_events :: "nat \<Rightarrow> nat \<Rightarrow> rt \<Rightarrow> rt" where
  "count_events i n s =
     (if pv_on (kperf s i) then upd_perf i (\<lambda>p. p\<lparr>pv_raw := pv_raw p + int n\<rparr>) s else s)"

section \<open>Clock operations of the interface\<close>

definition det_is_enabled :: "nat \<Rightarrow> rt \<Rightarrow> bool" where
  "det_is_enabled me s = (if num_thr s \<le> 1 then False else my_det_enabled (tls s me))"

definition det_get_pid :: "nat \<Rightarrow> nat" where
  "det_get_pid me = me"

definition det_increase_logical_clock :: "nat \<Rightarrow> int \<Rightarrow> rt \<Rightarrow> (int \<times> rt) option" where
  "det_increase_logical_clock me incr s =
     (if \<not> det_is_enabled me s then Some (-1, s) else Some (0, add_sw_clock me incr s))"

definition det_enable_logical_clock :: "nat \<Rightarrow> int \<Rightarrow> rt \<Rightarrow> (int \<times> rt) option" where
  "det_enable_logical_clock me incr s =
     (if \<not> det_is_enabled me s then Some (-1, s)
      else enable_logical_clock me (add_sw_clock me incr s))"

definition det_disable_logical_clock :: "nat \<Rightarrow> rt \<Rightarrow> (int \<times> rt) option" where
  "det_disable_logical_clock me s =
     (if \<not> det_is_enabled me s then Some (-1, s) else disable_logical_clock me s)"

definition det_exit_logical_clock :: "nat \<Rightarrow> rt \<Rightarrow> (int \<times> rt) option" where
  "det_exit_logical_clock me s =
     (if \<not> det_is_enabled me s then Some (-1, s)
      else Some (0, SET_CLOCK me MAX_LOGICAL_CLOCK
             (upd_wa me (\<lambda>w. w\<lparr>last_exit_logical_time := GET_CLOCK s me\<rparr>) s)))"

definition det_adjust_logical_clock :: "nat \<Rightarrow> rt \<Rightarrow> (int \<times> rt) option" where
  "det_adjust_logical_clock me s =
     (if \<not> det_is_enabled me s then Some (-1, s)
      else if last_sync_logical_time s > last_exit_logical_time (wa s me) then do {
        (lret, s) \<leftarrow> disable_logical_clock me s;
        let s = SET_CLOCK me (last_sync_logical_time s) s;
        let s = upd_wa me (\<lambda>w. w\<lparr>nondet_count := nondet_count w + 1\<rparr>) s;
        DBG me s;
        s \<leftarrow> resume_clock me lret s;
        Some (0, s)
      } else Some (0, SET_CLOCK me (last_exit_logical_time (wa s me)) s))"

section \<open>Initialisation\<close>

definition zero_worker :: worker_args where
  "zero_worker = \<lparr>w_func = 0, w_arg = 0, w_id = 0, w_tid = 0, w_fds = FdsNull,
     hw_clock = 0, sw_clock = 0, hw_clock_enabled = False, finished = False, started = False,
     last_exit_logical_time = 0, nondet_count = 0\<rparr>"

definition zero_queue :: TQueue where
  "zero_queue = \<lparr>head = 0, tail = 0, array = [], qsize = 0\<rparr>"

definition zero_mutex :: det_mutex where
  "zero_mutex = \<lparr>mx_id = 0, mx_mutex = None, released_logical_time = 0, owner = 0, ref = 0,
     mx_queue = zero_queue\<rparr>"

definition zero_cond :: det_cond where
  "zero_cond = \<lparr>cd_id = 0, cd_queue = zero_queue, waiter = (\<lambda>_. zero_mutex)\<rparr>"

definition fresh_counter :: perf_counter where
  "fresh_counter = \<lparr>pv_raw = 0, pv_time_enabled = 0, pv_time_running = 0, pv_on = False\<rparr>"

definition open_pfm_counter :: "nat \<Rightarrow> nat \<Rightarrow> rt \<Rightarrow> rt option" where
  "open_pfm_counter me i s = do {
     DBG me s;
     c_assert (pfm_ok s);
     Some (upd_perf i (\<lambda>_. fresh_counter) (upd_wa i (\<lambda>w. w\<lparr>w_fds := FdsOpen\<rparr>) s))
   }"

definition memset_wa :: "rt \<Rightarrow> rt" where
  "memset_wa s = s\<lparr>wa := (\<lambda>i. if i < MAX_THR then zero_worker else wa s i),
     mutexes := (\<lambda>m. case m of ThreadLock i \<Rightarrow> if i < MAX_THR then zero_mutex else mutexes s m
                              | _ \<Rightarrow> mutexes s m),
     conds := (\<lambda>c. case c of ThreadCond i \<Rightarrow> if i < MAX_THR then zero_cond else conds s c
                              | _ \<Rightarrow> conds s c)\<rparr>"

definition det_init :: "nat \<Rightarrow> rt \<Rightarrow> rt option" where
  "det_init me s = do {
     let s = s\<lparr>num_processors := sysconf_nprocs s\<rparr>;
     c_assert (num_processors s > 0);
     c_assert (pfm_ok s);
     let s = memset_wa s;
     c_assert (max_thr s = 0);
     let me = 0;
     let s = upd_tls me (\<lambda>l. l\<lparr>my_det_enabled := True, my_det_clock := 0\<rparr>) s;
     let s = s\<lparr>max_thr := 1, num_thr := 1\<rparr>;
     let s = upd_wa me (\<lambda>w. w\<lparr>w_id := me, w_func := 0, w_arg := 0, sw_clock := 0, hw_clock := 0,
               hw_clock_enabled := False\<rparr>) s;
     s \<leftarrow> open_pfm_counter me me s;
     DBG me s;
     Some s
   }"

text \<open>\<^verbatim>\<open>if ( max_thr == 0 ) det_init(0, NULL);\<close>\<close>

definition lazy_init :: "nat \<Rightarrow> rt \<Rightarrow> rt option" where
  "lazy_init me s = (if max_thr s = 0 then det_init me s else Some s)"

definition det_set_debug :: "int \<Rightarrow> rt \<Rightarrow> rt" where
  "det_set_debug level s = s\<lparr>debug_level := level\<rparr>"

definition det_get_clock :: "nat \<Rightarrow> rt \<Rightarrow> (int \<times> rt) option" where
  "det_get_clock me s = do {
     s \<leftarrow> lazy_init me s;
     (lret, s) \<leftarrow> disable_logical_clock me s;
     (ret, s) \<leftarrow> get_logical_clock me me s;
     s \<leftarrow> resume_clock me lret s;
     Some (ret, s)
   }"

text \<open>\<open>pthread_sigmask\<close> is a call outside the runtime: its result is the argument \<open>r\<close>.\<close>

definition det_sigmask :: "nat \<Rightarrow> int \<Rightarrow> rt \<Rightarrow> (int \<times> rt) option" where
  "det_sigmask me r s = do {
     s \<leftarrow> lazy_init me s;
     (lret, s) \<leftarrow> disable_logical_clock me s;
     s \<leftarrow> resume_clock me lret s;
     Some (r, s)
   }"

definition det_enable :: "nat \<Rightarrow> rt \<Rightarrow> rt option" where
  "det_enable me s = do {
     c_assert (max_thr s > 0);
     c_assert (\<not> my_det_enabled (tls s me));
     DBG me s;
     let s = SET_CLOCK me (my_det_clock (tls s me)) s;
     let s = upd_tls me (\<lambda>l. l\<lparr>my_det_enabled := True\<rparr>) s;
     (_, s) \<leftarrow> enable_logical_clock me s;
     Some s
   }"

definition det_disable :: "nat \<Rightarrow> rt \<Rightarrow> rt option" where
  "det_disable me s = do {
     s \<leftarrow> lazy_init me s;
     c_assert (my_det_enabled (tls s me));
     (_, s) \<leftarrow> disable_logical_clock me s;
     (c, s) \<leftarrow> get_logical_clock me me s;
     let s = upd_tls me (\<lambda>l. l\<lparr>my_det_clock := c\<rparr>) s;
     let s = SET_CLOCK me MAX_LOGICAL_CLOCK s;
     let s = upd_tls me (\<lambda>l. l\<lparr>my_det_enabled := False\<rparr>) s;
     DBG me s;
     Some s
   }"

text \<open>The clock effect of \<^verbatim>\<open>det_dbg\<close> (\<open>r\<close> is the result of \<^verbatim>\<open>vfprintf\<close>) and of
  \<^verbatim>\<open>det_print_stat\<close>.\<close>

definition det_dbg :: "nat \<Rightarrow> int \<Rightarrow> rt \<Rightarrow> (int \<times> rt) option" where
  "det_dbg me r s = do {
     s \<leftarrow> lazy_init me s;
     (lret, s) \<leftarrow> disable_logical_clock me s;
     (_, s) \<leftarrow> get_logical_clock me me s;
     let s = add_sw_clock me 1 s;
     s \<leftarrow> resume_clock me lret s;
     Some (r, s)
   }"

definition det_print_stat :: "nat \<Rightarrow> rt \<Rightarrow> rt option" where
  "det_print_stat me s = do {
     (lret, s) \<leftarrow> disable_logical_clock me s;
     DBG me s;
     resume_clock me lret s
   }"

section \<open>The logical clock\<close>

definition lclock :: "rt \<Rightarrow> nat \<Rightarrow> int" where
  "lclock s i = (if hw_clock_enabled (wa s i) then pv_raw (kperf s i) else hw_clock (wa s i))
     + sw_clock (wa s i)"

text \<open>A counter that is running has its descriptors open and was never multiplexed; a
  stopped one has its last value recorded in \<open>hw_clock\<close>.\<close>

definition clk_ok :: "rt \<Rightarrow> nat \<Rightarrow> bool" where
  "clk_ok s i \<longleftrightarrow> pv_time_enabled (kperf s i) = pv_time_running (kperf s i) \<and>
     (hw_clock_enabled (wa s i) \<longrightarrow> w_fds (wa s i) = FdsOpen \<and> pv_on (kperf s i)) \<and>
     (\<not> hw_clock_enabled (wa s i) \<longrightarrow> \<not> pv_on (kperf s i) \<and>
        (w_fds (wa s i) = FdsOpen \<longrightarrow> hw_clock (wa s i) = pv_raw (kperf s i)))"

text \<open>The effect of stopping and of starting the counter, as functions of the state.\<close>

definition stop_clock :: "nat \<Rightarrow> rt \<Rightarrow> rt" where
  "stop_clock me s =
     (if hw_clock_enabled (wa s me) then
        upd_tls me (\<lambda>l. l\<lparr>perf_disable_cnt := perf_disable_cnt l + 1\<rparr>)
         (upd_wa me (\<lambda>w. w\<lparr>hw_clock := pv_raw (kperf s me), hw_clock_enabled := False\<rparr>)
           (upd_perf me (\<lambda>p. p\<lparr>pv_on := False\<rparr>) s))
      else s)"

definition start_clock :: "nat \<Rightarrow> rt \<Rightarrow> rt" where
  "start_clock me s =
     (if w_fds (wa s me) = FdsOpen \<and> \<not> hw_clock_enabled (wa s me) then
        upd_tls me (\<lambda>l. l\<lparr>perf_enable_cnt := perf_enable_cnt l + 1\<rparr>)
         (upd_wa me (\<lambda>w. w\<lparr>hw_clock_enabled := True\<rparr>)
           (upd_perf me (\<lambda>p. p\<lparr>pv_on := True\<rparr>) s))
      else s)"

lemma disable_eq:
  "clk_ok s me \<Longrightarrow> disable_logical_clock me s =
     Some (if hw_clock_enabled (wa s me) then 0 else -1, stop_clock me s)"
  by (simp add: disable_logical_clock_def stop_clock_def clk_ok_def disable_performance_counter_def
      read_count_def read_count1_def Let_def split: fds_state.splits)

lemma enable_eq:
  "w_fds (wa s me) \<noteq> FdsFreed \<Longrightarrow> enable_logical_clock me s =
     Some (if w_fds (wa s me) = FdsOpen \<and> \<not> hw_clock_enabled (wa s me) then 0 else -1,
       start_clock me s)"
  by (cases "w_fds (wa s me)") (simp_all add: enable_logical_clock_def start_clock_def
      enable_performance_counter_def Let_def)

lemma resume_eq:
  "w_fds (wa s me) \<noteq> FdsFreed \<Longrightarrow>
    resume_clock me lret s = Some (if lret = 0 then start_clock me s else s)"
  by (simp add: resume_clock_def enable_eq)

text \<open>Stopping and starting the counter touches nothing but the counter.\<close>

lemma stop_clock_frame [simp]:
  "max_thr (stop_clock me s) = max_thr s" "num_thr (stop_clock me s) = num_thr s"
  "mutexes (stop_clock me s) = mutexes s" "conds (stop_clock me s) = conds s"
  "barriers (stop_clock me s) = barriers s"
  "last_sync_logical_time (stop_clock me s) = last_sync_logical_time s"
  "g_lock_count (stop_clock me s) = g_lock_count s"
  "g_cond_count (stop_clock me s) = g_cond_count s"
  "w_fds (wa (stop_clock me s) i) = w_fds (wa s i)"
  "sw_clock (wa (stop_clock me s) i) = sw_clock (wa s i)"
  "started (wa (stop_clock me s) i) = started (wa s i)"
  "finished (wa (stop_clock me s) i) = finished (wa s i)"
  "last_exit_logical_time (wa (stop_clock me s) i) = last_exit_logical_time (wa s i)"
  "my_det_enabled (tls (stop_clock me s) i) = my_det_enabled (tls s i)"
  "my_det_clock (tls (stop_clock me s) i) = my_det_clock (tls s i)"
  "pv_raw (kperf (stop_clock me s) i) = pv_raw (kperf s i)"
  "det_is_enabled i (stop_clock me s) = det_is_enabled i s"
  "hw_clock_enabled (wa (stop_clock me s) i) = (hw_clock_enabled (wa s i) \<and> i \<noteq> me)"
  by (simp_all add: stop_clock_def det_is_enabled_def)

lemma start_clock_frame [simp]:
  "max_thr (start_clock me s) = max_thr s" "num_thr (start_clock me s) = num_thr s"
  "mutexes (start_clock me s) = mutexes s" "conds (start_clock me s) = conds s"
  "barriers (start_clock me s) = barriers s"
  "last_sync_logical_time (start_clock me s) = last_sync_logical_time s"
  "g_lock_count (start_clock me s) = g_lock_count s"
  "g_cond_count (start_clock me s) = g_cond_count s"
  "w_fds (wa (start_clock me s) i) = w_fds (wa s i)"
  "sw_clock (wa (start_clock me s) i) = sw_clock (wa s i)"
  "started (wa (start_clock me s) i) = started (wa s i)"
  "finished (wa (start_clock me s) i) = finished (wa s i)"
  "last_exit_logical_time (wa (start_clock me s) i) = last_exit_logical_time (wa s i)"
  "my_det_enabled (tls (start_clock me s) i) = my_det_enabled (tls s i)"
  "my_det_clock (tls (start_clock me s) i) = my_det_clock (tls s i)"
  "pv_raw (kperf (start_clock me s) i) = pv_raw (kperf s i)"
  "det_is_enabled i (start_clock me s) = det_is_enabled i s"
  "hw_clock_enabled (wa (start_clock me s) i) =
    (hw_clock_enabled (wa s i) \<or> (i = me \<and> w_fds (wa s i) = FdsOpen))"
  by (auto simp add: start_clock_def det_is_enabled_def)

lemma lclock_stop [simp]: "lclock (stop_clock me s) i = lclock s i"
  by (simp add: lclock_def stop_clock_def)

lemma lclock_start [simp]: "clk_ok s me \<Longrightarrow> lclock (start_clock me s) i = lclock s i"
  by (simp add: lclock_def start_clock_def clk_ok_def)

lemma clk_ok_stop [simp]: "clk_ok s i \<Longrightarrow> clk_ok (stop_clock me s) i"
  by (auto simp: clk_ok_def stop_clock_def)

lemma clk_ok_start [simp]: "clk_ok s i \<Longrightarrow> clk_ok (start_clock me s) i"
  by (auto simp: clk_ok_def start_clock_def)

lemma lclock_GET_CLOCK: "\<not> hw_clock_enabled (wa s i) \<Longrightarrow> GET_CLOCK s i = lclock s i"
  by (simp add: lclock_def GET_CLOCK_def)

lemma lclock_add_sw [simp]:
  "lclock (add_sw_clock me n s) i = lclock s i + (if i = me then n else 0)"
  by (simp add: lclock_def add_sw_clock_def)

lemma lclock_SET_CLOCK:
  "\<not> hw_clock_enabled (wa s me) \<Longrightarrow> lclock (SET_CLOCK me c s) i = (if i = me then c else lclock s i)"
  by (simp add: lclock_def SET_CLOCK_def)

lemma clk_ok_upd [simp]:
  "clk_ok (add_sw_clock me n s) i = clk_ok s i" "clk_ok (SET_CLOCK me c s) i = clk_ok s i"
  by (simp_all add: clk_ok_def add_sw_clock_def SET_CLOCK_def)

lemma add_sw_frame [simp]:
  "max_thr (add_sw_clock me n s) = max_thr s" "num_thr (add_sw_clock me n s) = num_thr s"
  "mutexes (add_sw_clock me n s) = mutexes s" "conds (add_sw_clock me n s) = conds s"
  "barriers (add_sw_clock me n s) = barriers s" "kperf (add_sw_clock me n s) = kperf s"
  "last_sync_logical_time (add_sw_clock me n s) = last_sync_logical_time s"
  "tls (add_sw_clock me n s) = tls s"
  "w_fds (wa (add_sw_clock me n s) i) = w_fds (wa s i)"
  "hw_clock (wa (add_sw_clock me n s) i) = hw_clock (wa s i)"
  "hw_clock_enabled (wa (add_sw_clock me n s) i) = hw_clock_enabled (wa s i)"
  "started (wa (add_sw_clock me n s) i) = started (wa s i)"
  "finished (wa (add_sw_clock me n s) i) = finished (wa s i)"
  "det_is_enabled i (add_sw_clock me n s) = det_is_enabled i s"
  by (simp_all add: add_sw_clock_def det_is_enabled_def)

lemma SET_CLOCK_frame [simp]:
  "tls (SET_CLOCK me c s) = tls s" "max_thr (SET_CLOCK me c s) = max_thr s"
  "num_thr (SET_CLOCK me c s) = num_thr s" "kperf (SET_CLOCK me c s) = kperf s"
  "hw_clock_enabled (wa (SET_CLOCK me c s) i) = hw_clock_enabled (wa s i)"
  "w_fds (wa (SET_CLOCK me c s) i) = w_fds (wa s i)"
  "last_sync_logical_time (SET_CLOCK me c s) = last_sync_logical_time s"
  "last_exit_logical_time (wa (SET_CLOCK me c s) i) = last_exit_logical_time (wa s i)"
  by (simp_all add: SET_CLOCK_def)

lemma get_logical_clock_eq:
  assumes "clk_ok s i" and "\<not> hw_clock_enabled (wa s me)"
  shows "\<exists>l. get_logical_clock me i s = Some (lclock s i, s\<lparr>tls := (tls s)(me := l)\<rparr>)
    \<and> my_det_enabled l = my_det_enabled (tls s me) \<and> my_det_clock l = my_det_clock (tls s me)"
  using assms
  by (auto simp: get_logical_clock_def lclock_def clk_ok_def GET_CLOCK_def read_count_def read_count1_def)

lemma lclock_count_events:
  "clk_ok s i \<Longrightarrow> lclock (count_events i n s) j =
     lclock s j + (if j = i \<and> hw_clock_enabled (wa s i) then int n else 0)"
  by (auto simp: lclock_def count_events_def clk_ok_def split: if_splits)

lemma clk_ok_count_events [simp]: "clk_ok s j \<Longrightarrow> clk_ok (count_events i n s) j"
  by (auto simp: clk_ok_def count_events_def)

section \<open>A state\<close>

text \<open>Two running threads at clock 5 and no locks taken, for examples.\<close>

definition demo_rt :: rt where
  "demo_rt = \<lparr>wa = (\<lambda>i. zero_worker\<lparr>w_fds := FdsOpen, hw_clock_enabled := True, sw_clock := 5\<rparr>),
     max_thr = 2, num_thr = 2, last_sync_logical_time = 0,
     tls = (\<lambda>i. \<lparr>my_det_clock = 0, my_det_enabled = True, hw_read = 0, cache_read = 0,
       barrier_count = 0, lock_count = 0, perf_wait_turn_cnt = 0, perf_enable_cnt = 0,
       perf_disable_cnt = 0, retval = 0\<rparr>),
     g_lock_count = 1, g_barr_count = 0, g_cond_count = 0,
     mutexes = (\<lambda>m. zero_mutex\<lparr>mx_id := 1, owner := -1, mx_queue := InitQ MAX_THR\<rparr>),
     conds = (\<lambda>c. zero_cond), barriers = (\<lambda>b. \<lparr>br_id = 0, target_count = 0, wait_count = 0\<rparr>),
     kperf = (\<lambda>i. fresh_counter\<lparr>pv_on := True\<rparr>), pthread_done = (\<lambda>i. False),
     num_processors = 1, debug_level = 0, sysconf_nprocs = 1, pfm_ok = True,
     pthread_handle = (\<lambda>i. i + 1)\<rparr>"

lemma clk_ok_demo: "clk_ok demo_rt i"
  by (simp add: clk_ok_def demo_rt_def zero_worker_def fresh_counter_def)

lemma lclock_demo [simp]: "lclock demo_rt i = 5"
  by (simp add: lclock_def demo_rt_def zero_worker_def fresh_counter_def)

lemma demo_sel [simp]: "max_thr demo_rt = 2" "hw_clock_enabled (wa demo_rt i)"
  by (simp_all add: demo_rt_def)

text \<open>C20. Reading, stopping and restarting the counter never moves a logical clock: the
  counter value that was running before is in \<^verbatim>\<open>hw_clock\<close> afterwards, so that
  \<^verbatim>\<open>get_logical_clock\<close> gives the same time before, between and after, for every thread.\<close>

theorem clock_continuity:
  assumes "clk_ok s me" and "w_fds (wa s me) = FdsOpen" and "hw_clock_enabled (wa s me)"
  shows "\<exists>s1 s2. disable_logical_clock me s = Some (0, s1) \<and> resume_clock me 0 s1 = Some s2
    \<and> \<not> hw_clock_enabled (wa s1 me) \<and> hw_clock_enabled (wa s2 me) \<and> clk_ok s1 me \<and> clk_ok s2 me
    \<and> (\<forall>i. lclock s1 i = lclock s i \<and> lclock s2 i = lclock s i) \<and> GET_CLOCK s1 me = lclock s me"
proof -
  have "\<not> hw_clock_enabled (wa (stop_clock me s) me)" by simp
  with lclock_GET_CLOCK [OF this] assms show ?thesis
    by (intro exI [of _ "stop_clock me s"] exI [of _ "start_clock me (stop_clock me s)"])
      (simp add: disable_eq resume_eq)
qed

theorem clock_continuity_witness:
  "\<exists>s1 s2. disable_logical_clock 0 demo_rt = Some (0, s1) \<and> resume_clock 0 0 s1 = Some s2
    \<and> (\<forall>i. lclock s1 i = 5 \<and> lclock s2 i = 5) \<and> GET_CLOCK s1 0 = 5"
proof -
  have "w_fds (wa demo_rt 0) = FdsOpen" by (simp add: demo_rt_def)
  from clock_continuity [OF clk_ok_demo this demo_sel(2)] show ?thesis by auto
qed

text \<open>C21. Leaving the deterministic world and coming back: while determinism is disabled
  for a thread its clock is \<^verbatim>\<open>MAX_LOGICAL_CLOCK\<close>, so that nobody waits for it, and
  \<^verbatim>\<open>det_enable\<close> gives it exactly the clock it had when it called \<^verbatim>\<open>det_disable\<close>; no other
  clock changes.\<close>

theorem disable_enable_roundtrip:
  assumes "clk_ok s me" and "w_fds (wa s me) = FdsOpen" and "my_det_enabled (tls s me)" and "max_thr s > 0"
  shows "\<exists>s1 s2. det_disable me s = Some s1 \<and> lclock s1 = (lclock s)(me := MAX_LOGICAL_CLOCK)
    \<and> \<not> my_det_enabled (tls s1 me) \<and> det_enable me s1 = Some s2 \<and> lclock s2 = lclock s
    \<and> my_det_enabled (tls s2 me)"
proof -
  let ?s = "stop_clock me s"
  from get_logical_clock_eq [of ?s me me] assms(1) obtain l where
    l: "get_logical_clock me me ?s = Some (lclock s me, ?s\<lparr>tls := (tls ?s)(me := l)\<rparr>)" by auto
  let ?s1 = "SET_CLOCK me MAX_LOGICAL_CLOCK
    (?s\<lparr>tls := (tls ?s)(me := l\<lparr>my_det_clock := lclock s me, my_det_enabled := False\<rparr>)\<rparr>)"
  have d: "det_disable me s = Some ?s1"
    using assms l by (simp add: det_disable_def lazy_init_def disable_eq SET_CLOCK_def)
  have tls [simp]: "lclock (t\<lparr>tls := f\<rparr>) = lclock t" for t :: rt and f by (simp add: lclock_def fun_eq_iff)
  have c1: "lclock ?s1 = (lclock s)(me := MAX_LOGICAL_CLOCK)"
    by (auto simp: fun_eq_iff lclock_SET_CLOCK)
  let ?s2 = "(SET_CLOCK me (lclock s me) ?s1)
    \<lparr>tls := (tls ?s1)(me := l\<lparr>my_det_clock := lclock s me, my_det_enabled := True\<rparr>)\<rparr>"
  have "clk_ok ?s2 me" using clk_ok_stop [OF assms(1), of me] by (simp add: clk_ok_def SET_CLOCK_def)
  then have "lclock (start_clock me ?s2) = lclock ?s2" by (simp add: fun_eq_iff)
  also have "\<dots> = lclock s" by (auto simp: fun_eq_iff lclock_SET_CLOCK)
  finally have c2: "lclock (start_clock me ?s2) = lclock s" .
  have "det_enable me ?s1 = Some (start_clock me ?s2)"
    using assms by (simp add: det_enable_def enable_eq SET_CLOCK_def)
  with d c1 c2 show ?thesis
    by (intro exI [of _ ?s1] exI [of _ "start_clock me ?s2"]) (simp add: SET_CLOCK_def)
qed

theorem disable_enable_roundtrip_witness:
  "\<exists>s1 s2. det_disable 0 demo_rt = Some s1 \<and> lclock s1 0 = MAX_LOGICAL_CLOCK
    \<and> det_enable 0 s1 = Some s2 \<and> lclock s2 0 = 5"
  using disable_enable_roundtrip [of demo_rt 0] clk_ok_demo [of 0]
  by (auto simp: demo_rt_def [THEN arg_cong, of "\<lambda>s. w_fds (wa s 0)"] demo_rt_def [THEN arg_cong, of "\<lambda>s. my_det_enabled (tls s 0)"])

text \<open>A clock that runs backwards.  \<^verbatim>\<open>det_exit_logical_clock\<close> records the clock of a
  running counter with the value \<^verbatim>\<open>hw_clock\<close> had when the counter last stopped.  When a
  later synchronisation lies after that stale time but before the thread's true clock,
  \<^verbatim>\<open>det_adjust_logical_clock\<close> sets the clock to it, and the thread has lost time.\<close>

theorem adjust_runs_backwards:
  assumes "clk_ok s me" and "w_fds (wa s me) = FdsOpen" and "hw_clock_enabled (wa s me)" and "det_is_enabled me s"
    and "GET_CLOCK s me < last_sync_logical_time s" and "last_sync_logical_time s < lclock s me"
  shows "\<exists>s1 s2. det_exit_logical_clock me s = Some (0, s1) \<and> det_adjust_logical_clock me s1 = Some (0, s2)
    \<and> lclock s2 me = last_sync_logical_time s \<and> lclock s2 me < lclock s me"
proof -
  let ?s1 = "SET_CLOCK me MAX_LOGICAL_CLOCK (upd_wa me (\<lambda>w. w\<lparr>last_exit_logical_time := GET_CLOCK s me\<rparr>) s)"
  have e: "det_exit_logical_clock me s = Some (0, ?s1)" using assms(4) by (simp add: det_exit_logical_clock_def)
  have ok: "clk_ok ?s1 me" and en: "det_is_enabled me ?s1"
    using assms(1,4) by (simp_all add: clk_ok_def SET_CLOCK_def det_is_enabled_def split: if_splits)
  let ?t = "stop_clock me ?s1"
  let ?u = "upd_wa me (\<lambda>w. w\<lparr>nondet_count := nondet_count w + 1\<rparr>)
    (SET_CLOCK me (last_sync_logical_time s) ?t)"
  have "clk_ok ?u me" using clk_ok_stop [OF ok, of me] by (simp add: clk_ok_def SET_CLOCK_def)
  moreover have "lclock ?u me = last_sync_logical_time s" by (simp add: lclock_def SET_CLOCK_def)
  moreover have "last_sync_logical_time ?s1 = last_sync_logical_time s"
    "last_exit_logical_time (wa ?s1 me) = GET_CLOCK s me" "w_fds (wa ?s1 me) = FdsOpen"
    "hw_clock_enabled (wa ?s1 me)"
    using assms(2,3) by (simp_all add: SET_CLOCK_def)
  moreover from this ok en assms(5) have "det_adjust_logical_clock me ?s1 = Some (0, start_clock me ?u)"
    by (simp add: det_adjust_logical_clock_def disable_eq resume_eq SET_CLOCK_def)
  ultimately show ?thesis using e assms(6) by auto
qed

text \<open>Thread 0 has counted 20 events since its counter last stopped.\<close>

definition demo_ahead :: rt where
  "demo_ahead = count_events 0 20 (demo_rt\<lparr>last_sync_logical_time := 12\<rparr>)"

theorem adjust_runs_backwards_witness:
  "lclock demo_ahead 0 = 25 \<and> (\<exists>s1 s2. det_exit_logical_clock 0 demo_ahead = Some (0, s1)
    \<and> det_adjust_logical_clock 0 s1 = Some (0, s2) \<and> lclock s2 0 = 12)"
proof -
  have *: "clk_ok demo_ahead 0" "w_fds (wa demo_ahead 0) = FdsOpen" "hw_clock_enabled (wa demo_ahead 0)"
    "det_is_enabled 0 demo_ahead" "last_sync_logical_time demo_ahead = 12" "lclock demo_ahead 0 = 25"
    "GET_CLOCK demo_ahead 0 = 5"
    by (simp_all add: demo_ahead_def demo_rt_def count_events_def clk_ok_def lclock_def GET_CLOCK_def
        zero_worker_def fresh_counter_def det_is_enabled_def)
  from adjust_runs_backwards [OF *(1-4)] * show ?thesis by auto
qed

end
