(* ===== verification/Turn.thy ===== *)
theory Turn
  imports Runtime
begin

text \<open>
  \<^verbatim>\<open>wait_for_turn\<close> of \<^verbatim>\<open>src/dpthread.c\<close>: a thread may go on when no other thread is
  behind it, that is, has a smaller clock, or an equal clock and a smaller id.

  Two models of the function.  \<open>wait_for_turn\<close> is one pass of the scan with no other
  thread running in between (\<open>None\<close> as the turn says that the pass would jump to
  \<^verbatim>\<open>retry\<close>); the other operations use it as their guard.  \<open>wft_step\<close> is the same code
  one shared read at a time, so that other threads may run between the reads;
  \<open>wft_path_sound\<close> shows that it still only returns to a thread that has the turn.
\<close>

section \<open>The scan\<close>

definition behind :: "int \<Rightarrow> nat \<Rightarrow> int \<Rightarrow> nat \<Rightarrow> bool" where
  "behind my_clock me other_clock other \<longleftrightarrow>
     other_clock < my_clock \<or> (other_clock = my_clock \<and> me > other)"

function scan :: "nat \<Rightarrow> int \<Rightarrow> nat \<Rightarrow> nat \<Rightarrow> rt \<Rightarrow> (bool \<times> rt) option" where
  "scan me my_clock nthreads i s =
     (if i < nthreads then do {
        let id = (me + i) mod nthreads;
        (other_clock, s) \<leftarrow> get_logical_clock me id s;
        if behind my_clock me other_clock id then Some (False, s)
        else scan me my_clock nthreads (Suc i) s
      } else Some (True, s))"
  by pat_completeness auto
termination
  by (relation "measure (\<lambda>(me, my_clock, nthreads, i, s). nthreads - i)") auto

declare scan.simps [simp del]

definition wait_for_turn :: "nat \<Rightarrow> rt \<Rightarrow> (int option \<times> rt) option" where
  "wait_for_turn me s =
     (if max_thr s = 0 then Some (Some 0, s)
      else do {
        c_assert (\<not> hw_clock_enabled (wa s me));
        (my_clock, s) \<leftarrow> get_logical_clock me me s;
        (ok, s) \<leftarrow> scan me my_clock (max_thr s) 1 s;
        if \<not> ok then Some (None, s)
        else do {
          DBG me s;
          Some (Some my_clock,
            upd_tls me (\<lambda>l. l\<lparr>perf_wait_turn_cnt := perf_wait_turn_cnt l + 1\<rparr>) s)
        }
      })"

section \<open>Having the turn\<close>

definition has_turn :: "rt \<Rightarrow> nat \<Rightarrow> bool" where
  "has_turn s me \<longleftrightarrow>
     list_all (\<lambda>id. id = me \<or> \<not> behind (lclock s me) me (lclock s id) id) [0..<max_thr s]"

lemma has_turn_iff:
  "has_turn s me \<longleftrightarrow>
     (\<forall>id < max_thr s. id \<noteq> me \<longrightarrow> \<not> behind (lclock s me) me (lclock s id) id)"
  by (auto simp: has_turn_def list_all_iff)

text \<open>The order the turn follows: clock first, then thread id.\<close>

lemma behind_total: "i \<noteq> j \<Longrightarrow> behind a i b j \<longleftrightarrow> \<not> behind b j a i"
  by (auto simp: behind_def)

lemma not_behind_trans:
  "\<not> behind a i b j \<Longrightarrow> \<not> behind b j c k \<Longrightarrow> \<not> behind a i c k"
  by (auto simp: behind_def)

lemma not_behind_mono: "\<not> behind a i b j \<Longrightarrow> b \<le> b' \<Longrightarrow> \<not> behind a i b' j"
  by (auto simp: behind_def)

lemma turn_unique:
  "has_turn s i \<Longrightarrow> has_turn s j \<Longrightarrow> i < max_thr s \<Longrightarrow> j < max_thr s \<Longrightarrow> i = j"
  unfolding has_turn_iff using behind_total [of i j] by metis

lemma turn_among:
  "finite A \<Longrightarrow> A \<noteq> {} \<Longrightarrow> \<exists>i\<in>A. \<forall>j\<in>A. j \<noteq> i \<longrightarrow> \<not> behind (c i) i (c j) (j :: nat)"
proof (induction A rule: finite_ne_induct)
  case (singleton x)
  then show ?case by simp
next
  case (insert x F)
  then obtain i where i: "i \<in> F" "\<forall>j\<in>F. j \<noteq> i \<longrightarrow> \<not> behind (c i) i (c j) j" by blast
  show ?case
  proof (cases "behind (c i) i (c x) x")
    case True
    from insert.hyps i(1) have "x \<noteq> i" by blast
    with True have xi: "\<not> behind (c x) x (c i) i" using behind_total [of x i] by blast
    with i have "\<forall>j\<in>insert x F. j \<noteq> x \<longrightarrow> \<not> behind (c x) x (c j) j"
      by (metis insertE not_behind_trans)
    then show ?thesis by blast
  next
    case False
    with i show ?thesis by blast
  qed
qed

lemma turn_exists: "0 < max_thr s \<Longrightarrow> \<exists>i < max_thr s. has_turn s i"
  using turn_among [of "{..<max_thr s}" "lclock s"] by (force simp: has_turn_iff)

text \<open>The ids the scan visits are all ids but the caller's.\<close>

lemma scan_ids:
  assumes "me < (n :: nat)"
  shows "(\<lambda>k. (me + k) mod n) ` {1..<n} = {..<n} - {me}"
proof (intro equalityI subsetI)
  fix x assume "x \<in> (\<lambda>k. (me + k) mod n) ` {1..<n}"
  then obtain k where k: "x = (me + k) mod n" "1 \<le> k" "k < n" by auto
  have "x \<noteq> me"
  proof
    assume "x = me"
    with k assms have "(me + k) mod n = (me + 0) mod n" by simp
    with k assms mod_index_inj [of k n 0 me] show False by simp
  qed
  with k assms show "x \<in> {..<n} - {me}" by simp
next
  fix x assume x: "x \<in> {..<n} - {me}"
  let ?k = "(x + (n - me)) mod n"
  from x assms have "(me + ?k) mod n = x"
    by (simp add: mod_add_right_eq)
  moreover from x assms have "?k \<noteq> 0"
    by (auto simp: mod_if split: if_splits)
  moreover have "?k < n" using assms by simp
  ultimately show "x \<in> (\<lambda>k. (me + k) mod n) ` {1..<n}"
    by (intro image_eqI [of _ _ ?k]) auto
qed

lemma scan_eq:
  assumes "\<And>id. id < n \<Longrightarrow> clk_ok s id" and "\<not> hw_clock_enabled (wa s me)" and "0 < n"
  shows "\<exists>l. scan me c n i s =
      Some (\<forall>k. i \<le> k \<and> k < n \<longrightarrow> \<not> behind c me (lclock s ((me + k) mod n)) ((me + k) mod n),
        s\<lparr>tls := (tls s)(me := l)\<rparr>)
    \<and> my_det_enabled l = my_det_enabled (tls s me)
    \<and> my_det_clock l = my_det_clock (tls s me)"
  using assms
proof (induction me c n i s rule: scan.induct)
  case (1 me c n i s)
  show ?case
  proof (cases "i < n")
    case False
    then show ?thesis
      by (subst scan.simps, intro exI [of _ "tls s me"]) auto
  next
    case True
    let ?id = "(me + i) mod n"
    from "1.prems" have "clk_ok s ?id" by simp
    from get_logical_clock_eq [OF this "1.prems"(2)] obtain l where
      l: "get_logical_clock me ?id s = Some (lclock s ?id, s\<lparr>tls := (tls s)(me := l)\<rparr>)"
      "my_det_enabled l = my_det_enabled (tls s me)" "my_det_clock l = my_det_clock (tls s me)"
      by blast
    show ?thesis
    proof (cases "behind c me (lclock s ?id) ?id")
      case beh: True
      with True l show ?thesis
        by (subst scan.simps) (auto simp: Let_def)
    next
      case ahead: False
      let ?s = "s\<lparr>tls := (tls s)(me := l)\<rparr>"
      have clk: "lclock ?s j = lclock s j" for j by (simp add: lclock_def)
      have "clk_ok ?s id" if "id < n" for id using "1.prems"(1) [OF that] by (simp add: clk_ok_def)
      then have "\<exists>l'. scan me c n (Suc i) ?s =
          Some (\<forall>k. Suc i \<le> k \<and> k < n \<longrightarrow> \<not> behind c me (lclock ?s ((me + k) mod n)) ((me + k) mod n),
            ?s\<lparr>tls := (tls ?s)(me := l')\<rparr>)
        \<and> my_det_enabled l' = my_det_enabled (tls ?s me)
        \<and> my_det_clock l' = my_det_clock (tls ?s me)"
        using "1.prems"(2,3) by (intro "1.IH" [OF True refl l(1) refl ahead]) auto
      then obtain l' where l': "scan me c n (Suc i) ?s =
          Some (\<forall>k. Suc i \<le> k \<and> k < n \<longrightarrow> \<not> behind c me (lclock s ((me + k) mod n)) ((me + k) mod n),
            s\<lparr>tls := (tls s)(me := l')\<rparr>)"
        "my_det_enabled l' = my_det_enabled (tls s me)" "my_det_clock l' = my_det_clock (tls s me)"
        using l(2,3) unfolding clk by auto
      have "(\<forall>k. Suc i \<le> k \<and> k < n \<longrightarrow> \<not> behind c me (lclock s ((me + k) mod n)) ((me + k) mod n)) =
        (\<forall>k. i \<le> k \<and> k < n \<longrightarrow> \<not> behind c me (lclock s ((me + k) mod n)) ((me + k) mod n))"
        using ahead by (metis Suc_leI Suc_leD le_neq_implies_less)
      with l' True l(1) ahead show ?thesis
        by (subst scan.simps) (auto simp: Let_def)
    qed
  qed
qed

text \<open>One pass answers exactly whether the caller has the turn, and changes nothing
  but the caller's statistics.\<close>

lemma wait_for_turn_eq:
  assumes ok: "\<And>id. id < max_thr s \<Longrightarrow> clk_ok s id" and me: "me < max_thr s"
    and off: "\<not> hw_clock_enabled (wa s me)"
  shows "\<exists>l. wait_for_turn me s =
      Some (if has_turn s me then Some (lclock s me) else None, s\<lparr>tls := (tls s)(me := l)\<rparr>)
    \<and> my_det_enabled l = my_det_enabled (tls s me)
    \<and> my_det_clock l = my_det_clock (tls s me)"
proof -
  from get_logical_clock_eq [OF ok [OF me] off] obtain l where
    l: "get_logical_clock me me s = Some (lclock s me, s\<lparr>tls := (tls s)(me := l)\<rparr>)"
    "my_det_enabled l = my_det_enabled (tls s me)" "my_det_clock l = my_det_clock (tls s me)"
    by blast
  let ?s = "s\<lparr>tls := (tls s)(me := l)\<rparr>"
  have clk: "lclock ?s j = lclock s j" for j by (simp add: lclock_def)
  have "clk_ok ?s id" if "id < max_thr s" for id using ok [OF that] by (simp add: clk_ok_def)
  with scan_eq [of "max_thr s" ?s me "lclock s me" 1] me off l(2,3) obtain l' where
    l': "scan me (lclock s me) (max_thr s) 1 ?s = Some (\<forall>k. 1 \<le> k \<and> k < max_thr s \<longrightarrow>
        \<not> behind (lclock s me) me (lclock s ((me + k) mod max_thr s)) ((me + k) mod max_thr s),
        s\<lparr>tls := (tls s)(me := l')\<rparr>)"
    "my_det_enabled l' = my_det_enabled (tls s me)" "my_det_clock l' = my_det_clock (tls s me)"
    by (auto simp: clk)
  have "(\<forall>k. 1 \<le> k \<and> k < max_thr s \<longrightarrow>
        \<not> behind (lclock s me) me (lclock s ((me + k) mod max_thr s)) ((me + k) mod max_thr s))
    = (\<forall>id \<in> (\<lambda>k. (me + k) mod max_thr s) ` {1..<max_thr s}.
        \<not> behind (lclock s me) me (lclock s id) id)"
    by auto
  also have "\<dots> = has_turn s me"
    unfolding scan_ids [OF me] has_turn_iff by auto
  finally have *: "scan me (lclock s me) (max_thr s) 1 ?s =
      Some (has_turn s me, s\<lparr>tls := (tls s)(me := l')\<rparr>)"
    using l'(1) by simp
  with l me off l'(2,3) show ?thesis
    by (auto simp: wait_for_turn_def)
qed

section \<open>The scan with other threads running\<close>

text \<open>\<open>wft_step\<close> is \<^verbatim>\<open>wait_for_turn\<close> cut at its reads of shared variables.  The
  constructors name the places in the code: entry, the label \<^verbatim>\<open>retry\<close>, the head of
  the loop with its \<^verbatim>\<open>i\<close>, the test after the loop, and the return.\<close>

datatype wft_pc = WStart | WRetry int | WScan int nat nat | WCheck int nat | WRet int

fun wft_step :: "nat \<Rightarrow> wft_pc \<Rightarrow> rt \<Rightarrow> (wft_pc \<times> rt) option" where
  "wft_step me WStart s =
     (if max_thr s = 0 then Some (WRet 0, s)
      else do {
        c_assert (\<not> hw_clock_enabled (wa s me));
        (my_clock, s) \<leftarrow> get_logical_clock me me s;
        Some (WRetry my_clock, s)
      })"
| "wft_step me (WRetry my_clock) s = Some (WScan my_clock (max_thr s) 1, s)"
| "wft_step me (WScan my_clock nthreads i) s =
     (if i < nthreads then do {
        let id = (me + i) mod nthreads;
        (other_clock, s) \<leftarrow> get_logical_clock me id s;
        Some (if behind my_clock me other_clock id then WRetry my_clock
              else WScan my_clock nthreads (Suc i), s)
      } else Some (WCheck my_clock nthreads, s))"
| "wft_step me (WCheck my_clock nthreads) s =
     (if max_thr s \<noteq> nthreads then do { DBG me s; Some (WRetry my_clock, s) }
      else do {
        DBG me s;
        Some (WRet my_clock,
          upd_tls me (\<lambda>l. l\<lparr>perf_wait_turn_cnt := perf_wait_turn_cnt l + 1\<rparr>) s)
      })"
| "wft_step me (WRet my_clock) s = Some (WRet my_clock, s)"

fun wft_run :: "nat \<Rightarrow> nat \<Rightarrow> wft_pc \<Rightarrow> rt \<Rightarrow> (wft_pc \<times> rt) option" where
  "wft_run 0 me pc s = Some (pc, s)"
| "wft_run (Suc n) me pc s = do { (pc, s) \<leftarrow> wft_step me pc s; wft_run n me pc s }"

text \<open>What the other threads may do meanwhile: their clocks only grow, they leave the
  caller's clock alone, and a thread they create starts after one of them.\<close>

definition rely :: "nat \<Rightarrow> rt \<Rightarrow> rt \<Rightarrow> bool" where
  "rely me s t \<longleftrightarrow> max_thr s \<le> max_thr t \<and> wa t me = wa s me \<and> kperf t me = kperf s me
     \<and> list_all (\<lambda>id. id = me \<or> lclock s id \<le> lclock t id) [0..<max_thr s]
     \<and> list_all (\<lambda>id. list_ex (\<lambda>j. j \<noteq> me \<and> lclock s j < lclock t id) [0..<max_thr s])
         [max_thr s..<max_thr t]
     \<and> list_all (clk_ok t) [0..<max_thr t]"

inductive wft_path :: "nat \<Rightarrow> wft_pc \<Rightarrow> rt \<Rightarrow> wft_pc \<Rightarrow> rt \<Rightarrow> bool" for me pc s where
  wft_refl: "wft_path me pc s pc s"
| wft_own: "wft_path me pc s pc1 s1 \<Longrightarrow> wft_step me pc1 s1 = Some (pc2, s2) \<Longrightarrow>
     wft_path me pc s pc2 s2"
| wft_env: "wft_path me pc s pc1 s1 \<Longrightarrow> rely me s1 s2 \<Longrightarrow> wft_path me pc s pc1 s2"

lemma relyD:
  assumes "rely me s t"
  shows "max_thr s \<le> max_thr t" "wa t me = wa s me" "kperf t me = kperf s me"
    "\<And>id. id < max_thr s \<Longrightarrow> id \<noteq> me \<Longrightarrow> lclock s id \<le> lclock t id"
    "\<And>id. max_thr s \<le> id \<Longrightarrow> id < max_thr t \<Longrightarrow> \<exists>j < max_thr s. j \<noteq> me \<and> lclock s j < lclock t id"
    "\<And>id. id < max_thr t \<Longrightarrow> clk_ok t id"
    "lclock t me = lclock s me"
proof -
  show "max_thr s \<le> max_thr t" "wa t me = wa s me" "kperf t me = kperf s me"
    using assms by (simp_all add: rely_def)
  then show "lclock t me = lclock s me" by (simp add: lclock_def)
  show "lclock s id \<le> lclock t id" if "id < max_thr s" "id \<noteq> me" for id
    using assms that by (auto simp: rely_def list_all_iff)
  show "\<exists>j < max_thr s. j \<noteq> me \<and> lclock s j < lclock t id"
    if "max_thr s \<le> id" "id < max_thr t" for id
    using assms that unfolding rely_def list_all_iff list_ex_iff by fastforce
  show "clk_ok t id" if "id < max_thr t" for id
    using assms that by (auto simp: rely_def list_all_iff)
qed

text \<open>A thread keeps the turn until it advances its own clock.\<close>

lemma turn_stable:
  assumes "has_turn s me" and "me < max_thr s" and "rely me s t"
  shows "has_turn t me"
  unfolding has_turn_iff
proof (intro allI impI)
  fix id assume id: "id < max_thr t" "id \<noteq> me"
  have turn: "\<not> behind (lclock s me) me (lclock s j) j" if "j < max_thr s" "j \<noteq> me" for j
    using assms(1) that by (simp add: has_turn_iff)
  show "\<not> behind (lclock t me) me (lclock t id) id"
  proof (cases "id < max_thr s")
    case True
    with id turn [of id] relyD(4,7) [OF assms(3)] show ?thesis
      by (metis not_behind_mono)
  next
    case False
    with id relyD(5) [OF assms(3), of id] obtain j where
      "j < max_thr s" "j \<noteq> me" "lclock s j < lclock t id" by auto
    with turn [of j] relyD(7) [OF assms(3)] show ?thesis
      by (auto simp: behind_def)
  qed
qed

text \<open>What is known at each place of the code.\<close>

fun wft_known :: "nat \<Rightarrow> wft_pc \<Rightarrow> rt \<Rightarrow> bool" where
  "wft_known me WStart s = True"
| "wft_known me (WRetry c) s = (c = lclock s me)"
| "wft_known me (WScan c n i) s = (c = lclock s me \<and> me < n \<and> n \<le> max_thr s \<and> 1 \<le> i \<and>
     (\<forall>k. 1 \<le> k \<and> k < i \<and> k < n \<longrightarrow> \<not> behind c me (lclock s ((me + k) mod n)) ((me + k) mod n)))"
| "wft_known me (WCheck c n) s = (c = lclock s me \<and> me < n \<and> n \<le> max_thr s \<and>
     (\<forall>k. 1 \<le> k \<and> k < n \<longrightarrow> \<not> behind c me (lclock s ((me + k) mod n)) ((me + k) mod n)))"
| "wft_known me (WRet c) s = (c = lclock s me \<and> has_turn s me)"

definition wft_pre :: "nat \<Rightarrow> rt \<Rightarrow> bool" where
  "wft_pre me s \<longleftrightarrow> me < max_thr s \<and> \<not> hw_clock_enabled (wa s me) \<and> list_all (clk_ok s) [0..<max_thr s]"

lemma wft_preD:
  "wft_pre me s \<Longrightarrow> me < max_thr s" "wft_pre me s \<Longrightarrow> \<not> hw_clock_enabled (wa s me)"
  "wft_pre me s \<Longrightarrow> k < max_thr s \<Longrightarrow> clk_ok s k"
  by (auto simp: wft_pre_def list_all_iff)

lemma wft_tls [simp]:
  "wft_pre me (s\<lparr>tls := f\<rparr>) = wft_pre me s" "lclock (s\<lparr>tls := f\<rparr>) = lclock s"
  "has_turn (s\<lparr>tls := f\<rparr>) = has_turn s" "wft_known me pc (s\<lparr>tls := f\<rparr>) = wft_known me pc s"
proof -
  show clk: "lclock (s\<lparr>tls := f\<rparr>) = lclock s" by (auto simp: lclock_def)
  have ok: "clk_ok (s\<lparr>tls := f\<rparr>) = clk_ok s" by (auto simp: clk_ok_def fun_eq_iff)
  show "wft_pre me (s\<lparr>tls := f\<rparr>) = wft_pre me s" by (simp add: wft_pre_def ok)
  show turn: "has_turn (s\<lparr>tls := f\<rparr>) = has_turn s" by (auto simp: has_turn_def clk fun_eq_iff)
  show "wft_known me pc (s\<lparr>tls := f\<rparr>) = wft_known me pc s" by (cases pc) (simp_all add: clk turn)
qed

lemma scan_complete:
  assumes "me < n"
    and "\<forall>k. 1 \<le> k \<and> k < n \<longrightarrow> \<not> behind c me (lclock s ((me + k) mod n)) ((me + k) mod n)"
  shows "\<forall>id < n. id \<noteq> me \<longrightarrow> \<not> behind c me (lclock s id) id"
proof (intro allI impI)
  fix id assume "id < n" "id \<noteq> me"
  then have "id \<in> (\<lambda>k. (me + k) mod n) ` {1..<n}" using scan_ids [OF assms(1)] by auto
  then show "\<not> behind c me (lclock s id) id" using assms(2) by auto
qed

lemma wft_step_known:
  assumes pre: "wft_pre me s" and known: "wft_known me pc s"
  shows "\<exists>pc' l. wft_step me pc s = Some (pc', s\<lparr>tls := (tls s)(me := l)\<rparr>) \<and> wft_known me pc' s"
proof (cases pc)
  case WStart
  from wft_preD [OF pre] get_logical_clock_eq [of s me me] obtain l where
    "get_logical_clock me me s = Some (lclock s me, s\<lparr>tls := (tls s)(me := l)\<rparr>)" by auto
  with WStart wft_preD [OF pre] show ?thesis by auto
next
  case (WRetry c)
  with known wft_preD [OF pre] show ?thesis
    by (auto intro: exI [of _ "tls s me"])
next
  case (WScan c n i)
  show ?thesis
  proof (cases "i < n")
    case True
    let ?id = "(me + i) mod n"
    from WScan known have "?id < max_thr s" by (auto intro: less_le_trans [of _ n])
    with wft_preD [OF pre] get_logical_clock_eq [of s ?id me] obtain l where
      "get_logical_clock me ?id s = Some (lclock s ?id, s\<lparr>tls := (tls s)(me := l)\<rparr>)" by auto
    with True WScan known show ?thesis by (auto simp: Let_def less_Suc_eq)
  next
    case False
    with WScan known show ?thesis by (auto intro!: exI [of _ "tls s me"])
  qed
next
  case (WCheck c n)
  with known wft_preD [OF pre] scan_complete [of me n c s] show ?thesis
    by (auto simp: has_turn_iff intro: exI [of _ "tls s me"])
next
  case (WRet c)
  with known show ?thesis by (auto intro!: exI [of _ "tls s me"])
qed

lemma rely_known:
  assumes pre: "wft_pre me s" and known: "wft_known me pc s" and r: "rely me s t"
  shows "wft_pre me t \<and> wft_known me pc t"
proof
  show "wft_pre me t"
    using relyD [OF r] wft_preD [OF pre] by (auto simp: wft_pre_def list_all_iff intro: less_le_trans)
  have scanned: "\<not> behind (lclock s me) me (lclock t ((me + k) mod n)) ((me + k) mod n)"
    if "me < n" "n \<le> max_thr s" "1 \<le> k" "k < n"
      "\<not> behind (lclock s me) me (lclock s ((me + k) mod n)) ((me + k) mod n)" for k n
  proof -
    have "(me + k) mod n \<in> {..<n} - {me}" using that scan_ids [of me n] by force
    moreover from this that(2) have "(me + k) mod n < max_thr s" by auto
    ultimately show ?thesis
      using not_behind_mono [OF that(5)] relyD(4) [OF r, of "(me + k) mod n"] by blast
  qed
  show "wft_known me pc t"
    using known scanned relyD [OF r] turn_stable [OF _ wft_preD(1) [OF pre] r]
    by (cases pc) (auto intro: order_trans)
qed

lemma wft_path_known:
  "wft_path me pc s pc' t \<Longrightarrow> wft_pre me s \<Longrightarrow> wft_known me pc s \<Longrightarrow>
    wft_pre me t \<and> wft_known me pc' t"
proof (induction rule: wft_path.induct)
  case wft_refl
  then show ?case by simp
next
  case (wft_own pc1 s1 pc2 s2)
  then have "wft_pre me s1" "wft_known me pc1 s1" by auto
  from wft_step_known [OF this] wft_own.hyps(2) this show ?case by auto
next
  case (wft_env pc1 s1 s2)
  then show ?case using rely_known by blast
qed

text \<open>Run alone, the code returns to a thread that has the turn, within one pass.\<close>

lemma wft_run_scan:
  "has_turn s me \<Longrightarrow> wft_pre me s \<Longrightarrow> 1 \<le> i \<Longrightarrow> i \<le> max_thr s \<Longrightarrow>
    \<exists>l. wft_run (max_thr s - i + 2) me (WScan (lclock s me) (max_thr s) i) s =
      Some (WRet (lclock s me), s\<lparr>tls := (tls s)(me := l)\<rparr>)"
proof (induction "max_thr s - i" arbitrary: i s)
  case 0
  then have "i = max_thr s" by simp
  with 0 show ?case using wft_preD [of me s]
    by (intro exI [of _ "(tls s me)\<lparr>perf_wait_turn_cnt := perf_wait_turn_cnt (tls s me) + 1\<rparr>"])
      (simp add: numeral_2_eq_2 fun_upd_def)
next
  case (Suc d)
  let ?id = "(me + i) mod max_thr s"
  from Suc.hyps(2) Suc.prems(2) wft_preD [of me s] get_logical_clock_eq [of s ?id me] obtain l where
    l: "get_logical_clock me ?id s = Some (lclock s ?id, s\<lparr>tls := (tls s)(me := l)\<rparr>)"
    by fastforce
  let ?s = "s\<lparr>tls := (tls s)(me := l)\<rparr>"
  have "?id \<in> {..<max_thr s} - {me}"
    using Suc.hyps(2) Suc.prems(3) wft_preD(1) [OF Suc.prems(2)] scan_ids [of me "max_thr s"] by force
  with Suc.prems(1) have "\<not> behind (lclock s me) me (lclock s ?id) ?id" by (simp add: has_turn_iff)
  with l Suc.hyps(2) have step: "wft_step me (WScan (lclock s me) (max_thr s) i) s =
      Some (WScan (lclock s me) (max_thr s) (Suc i), ?s)"
    by (simp add: Let_def)
  have "\<exists>l'. wft_run (max_thr ?s - Suc i + 2) me (WScan (lclock ?s me) (max_thr ?s) (Suc i)) ?s =
      Some (WRet (lclock ?s me), ?s\<lparr>tls := (tls ?s)(me := l')\<rparr>)"
    using Suc.hyps(2) Suc.prems by (intro Suc.hyps(1)) simp_all
  then obtain l' where
    "wft_run (max_thr s - Suc i + 2) me (WScan (lclock s me) (max_thr s) (Suc i)) ?s =
      Some (WRet (lclock s me), s\<lparr>tls := (tls s)(me := l')\<rparr>)"
    by (auto simp del: wft_run.simps add_2_eq_Suc')
  moreover have "max_thr s - i + 2 = Suc (max_thr s - Suc i + 2)" using Suc.hyps(2) by simp
  ultimately show ?case using step by (auto simp del: wft_step.simps add_2_eq_Suc')
qed

lemma wft_run_turn:
  assumes "has_turn s me" and "wft_pre me s"
  shows "\<exists>l. wft_run (max_thr s + 3) me WStart s =
    Some (WRet (lclock s me), s\<lparr>tls := (tls s)(me := l)\<rparr>)"
proof -
  from wft_preD [OF assms(2)] get_logical_clock_eq [of s me me] obtain l where
    l: "get_logical_clock me me s = Some (lclock s me, s\<lparr>tls := (tls s)(me := l)\<rparr>)" by auto
  let ?s = "s\<lparr>tls := (tls s)(me := l)\<rparr>"
  have "\<exists>l'. wft_run (max_thr ?s - 1 + 2) me (WScan (lclock ?s me) (max_thr ?s) 1) ?s =
      Some (WRet (lclock ?s me), ?s\<lparr>tls := (tls ?s)(me := l')\<rparr>)"
    using assms wft_preD(1) [OF assms(2)] by (intro wft_run_scan) simp_all
  then obtain l' where "wft_run (max_thr s - 1 + 2) me (WScan (lclock s me) (max_thr s) 1) ?s =
      Some (WRet (lclock s me), s\<lparr>tls := (tls s)(me := l')\<rparr>)"
    by (auto simp del: wft_run.simps add_2_eq_Suc')
  moreover have "wft_run (Suc (Suc n)) me WStart s =
      wft_run n me (WScan (lclock s me) (max_thr s) 1) ?s" for n
    using l wft_preD [OF assms(2)] by auto
  moreover have "max_thr s + 3 = Suc (Suc (max_thr s - 1 + 2))"
    using wft_preD(1) [OF assms(2)] by simp
  ultimately show ?thesis by metis
qed

lemma wft_path_trans:
  "wft_path me pc1 s1 pc2 s2 \<Longrightarrow> wft_path me pc s pc1 s1 \<Longrightarrow> wft_path me pc s pc2 s2"
  by (induction rule: wft_path.induct) (auto intro: wft_path.intros)

lemma wft_run_path: "wft_run n me pc s = Some (pc', s') \<Longrightarrow> wft_path me pc s pc' s'"
proof (induction n arbitrary: pc s)
  case 0
  then show ?case by (auto intro: wft_path.wft_refl)
next
  case (Suc n)
  then obtain pc1 s1 where "wft_step me pc s = Some (pc1, s1)" "wft_path me pc1 s1 pc' s'"
    by (auto split: bind_splits)
  then show ?case
    by (meson wft_path.wft_own wft_path.wft_refl wft_path_trans)
qed

section \<open>Properties\<close>



text \<open>C16. \<^verbatim>\<open>wait_for_turn\<close> returns: a thread that has the turn leaves the function after one
  pass, \<open>max_thr + 3\<close> steps, with its clock, and changes only its own statistics.\<close>

theorem wait_for_turn_returns:
  assumes "has_turn s me" and "wft_pre me s"
  shows "\<exists>l. wft_run (max_thr s + 3) me WStart s =
    Some (WRet (lclock s me), s\<lparr>tls := (tls s)(me := l)\<rparr>)"
  using assms by (rule wft_run_turn)

theorem wait_for_turn_returns_witness:
  "\<exists>l. wft_run 5 0 WStart (stop_clock 0 demo_rt) =
    Some (WRet 5, (stop_clock 0 demo_rt)\<lparr>tls := (tls (stop_clock 0 demo_rt))(0 := l)\<rparr>)"
proof -
  have two: "[0..<2] = [0, 1 :: nat]" by (simp add: upt_rec)
  have "has_turn (stop_clock 0 demo_rt) 0" by (simp add: has_turn_def two behind_def)
  moreover have "wft_pre 0 (stop_clock 0 demo_rt)" using clk_ok_demo by (simp add: wft_pre_def two)
  ultimately show ?thesis using wait_for_turn_returns [of "stop_clock 0 demo_rt" 0] by simp
qed

text \<open>C17. At any moment exactly one thread has the turn.\<close>

theorem one_turn:
  assumes "0 < max_thr s"
  shows "\<exists>!i. i < max_thr s \<and> has_turn s i"
  using turn_exists [OF assms] turn_unique by blast

theorem one_turn_witness: "\<exists>!i. i < max_thr demo_rt \<and> has_turn demo_rt i"
  using one_turn [of demo_rt] by simp

end
