(* ===== verification/Mutex.thy ===== *)
theory Mutex
  imports Turn
begin

text \<open>
  Mutexes of \<^verbatim>\<open>src/dpthread.c\<close>: \<^verbatim>\<open>det_lock_init\<close>, \<^verbatim>\<open>det_lock\<close>, \<^verbatim>\<open>det_trylock\<close> and
  \<^verbatim>\<open>det_unlock_and_incr_clock\<close>, with the configuration the file fixes
  (\<^verbatim>\<open>USE_NESTED_LOCK\<close> and \<^verbatim>\<open>USE_MUTEX_RECURSIVE\<close> on, \<^verbatim>\<open>USE_DET_FASTFORWARD\<close> off).

  An operation that may wait is cut where it waits.  The pieces are named by \<open>mstep\<close>,
  the places in the code where a thread can stand; each piece maps the state to a new
  state and to what the thread does next.  A piece that starts with
  \<^verbatim>\<open>wait_for_turn\<close> or with a blocking pthread call runs only when that call can return
  (\<open>ready\<close> in theory \<open>Machine\<close>); where it cannot, the piece is not started.
  \<^verbatim>\<open>det_unlock\<close> is cut once more, in front of \<^verbatim>\<open>pthread_mutex_unlock\<close> and in front of
  the clock increment, because another thread may try the mutex there.  Within a
  piece no other thread runs: a shared variable a piece uses is one that no other
  thread writes at that time (the caller has the turn, or owns the mutex), or a clock,
  whose other readers see it grow.
\<close>

section \<open>Places in the code\<close>

datatype mstep =
    Work nat
  | Lock maddr | LockQ maddr int | LockTry maddr int int | LockSpin maddr int | PLock maddr
  | TryLock maddr | TryLockTurn maddr int
  | Unlock maddr int | UnlockP maddr int int | UnlockEnd int int
  | CondWait caddr maddr | CondBlock caddr int
  | CondSignal caddr | CondBroadcast caddr | BroadcastLoop caddr int
  | BarrierWait nat | BarrierBody nat int | BarrierEnd int
  | Create nat nat | CreateTurn nat nat int | CreateCheck nat | Resume int
  | WorkerStart nat | WorkerStarted nat
  | Exit | ExitMark | ExitEnd
  | Join nat | JoinCheck nat | JoinEnd nat int
  | Cancel nat | CancelMark nat | CancelEnd nat

type_synonym piece = "(rt \<times> mstep list) option"

section \<open>Initialisation\<close>

definition det_lock_init :: "nat \<Rightarrow> maddr \<Rightarrow> rt \<Rightarrow> rt option" where
  "det_lock_init me m s = do {
     s \<leftarrow> lazy_init me s;
     (lret, s) \<leftarrow> disable_logical_clock me s;
     let s = s\<lparr>g_lock_count := g_lock_count s + 1\<rparr>;
     let s = upd_mutex m (\<lambda>_. \<lparr>mx_id = g_lock_count s, mx_mutex = None, released_logical_time = 0,
               owner = -1, ref = 0, mx_queue = InitQ MAX_THR\<rparr>) s;
     DBG me s;
     resume_clock me lret s
   }"

section \<open>Locking\<close>

text \<open>The end of \<^verbatim>\<open>det_lock\<close>, from the label \<^verbatim>\<open>out\<close>.\<close>

definition det_lock_out :: "nat \<Rightarrow> int \<Rightarrow> rt \<Rightarrow> piece" where
  "det_lock_out me lret s = do {
     let s = add_sw_clock me 1 s;
     s \<leftarrow> resume_clock me lret s;
     Some (upd_tls me (\<lambda>l. l\<lparr>lock_count := lock_count l + 1, retval := 0\<rparr>) s, [])
   }"

definition det_lock :: "nat \<Rightarrow> maddr \<Rightarrow> rt \<Rightarrow> piece" where
  "det_lock me m s = do {
     s \<leftarrow> (if mx_id (mutexes s m) < 0 then det_lock_init me m s else Some s);
     c_assert (mx_id (mutexes s m) > 0);
     if \<not> det_is_enabled me s then Some (s, [PLock m])
     else do {
       (lret, s) \<leftarrow> disable_logical_clock me s;
       if ref (mutexes s m) > 0 \<and> owner (mutexes s m) = int me
       then det_lock_out me lret (upd_mutex m (\<lambda>x. x\<lparr>ref := ref x + 1\<rparr>) s)
       else do { DBG me s; Some (s, [LockQ m lret]) }
     }
   }"

text \<open>\<^verbatim>\<open>pthread_mutex_lock\<close> and \<^verbatim>\<open>pthread_mutex_unlock\<close> on the mutex inside.\<close>

definition pthread_lock :: "nat \<Rightarrow> maddr \<Rightarrow> rt \<Rightarrow> piece" where
  "pthread_lock me m s =
     Some (upd_tls me (\<lambda>l. l\<lparr>retval := 0\<rparr>) (upd_mutex m (\<lambda>x. x\<lparr>mx_mutex := Some me\<rparr>) s), [])"

definition pthread_unlock :: "maddr \<Rightarrow> rt \<Rightarrow> rt" where
  "pthread_unlock m s = upd_mutex m (\<lambda>x. x\<lparr>mx_mutex := None\<rparr>) s"

text \<open>\<^verbatim>\<open>clock = wait_for_turn(); AddQ(...)\<close>.\<close>

definition det_lock_queue :: "nat \<Rightarrow> maddr \<Rightarrow> int \<Rightarrow> rt \<Rightarrow> piece" where
  "det_lock_queue me m lret s = do {
     (turn, s) \<leftarrow> wait_for_turn me s;
     clock \<leftarrow> turn;
     (_, q) \<leftarrow> AddQ (mx_queue (mutexes s m)) me;
     Some (upd_mutex m (\<lambda>x. x\<lparr>mx_queue := q\<rparr>) s, [LockTry m lret clock])
   }"

text \<open>The part of the loop body that counts a failed round, and the code after the
  loop.\<close>

definition det_lock_fail :: "nat \<Rightarrow> maddr \<Rightarrow> int \<Rightarrow> rt \<Rightarrow> piece" where
  "det_lock_fail me m lret s = do {
     c_assert (GET_CLOCK s me < MAX_LOGICAL_CLOCK);
     DBG me s;
     Some (add_sw_clock me 1 s, [LockSpin m lret])
   }"

definition det_lock_acquired :: "nat \<Rightarrow> maddr \<Rightarrow> int \<Rightarrow> rt \<Rightarrow> piece" where
  "det_lock_acquired me m lret s = do {
     c_assert (GET_CLOCK s me < MAX_LOGICAL_CLOCK);
     DBG me s;
     let s = s\<lparr>last_sync_logical_time := GET_CLOCK s me\<rparr>;
     (_, q) \<leftarrow> DelQ (mx_queue (mutexes s m));
     det_lock_out me lret (upd_mutex m (\<lambda>x. x\<lparr>mx_queue := q\<rparr>) s)
   }"

definition det_lock_try :: "nat \<Rightarrow> maddr \<Rightarrow> int \<Rightarrow> int \<Rightarrow> rt \<Rightarrow> piece" where
  "det_lock_try me m lret clock s = do {
     h \<leftarrow> GetHeadQ (mx_queue (mutexes s m));
     if h = me \<and> mx_mutex (mutexes s m) = None then do {
       let s = upd_mutex m (\<lambda>x. x\<lparr>mx_mutex := Some me\<rparr>) s;
       let last_release = released_logical_time (mutexes s m);
       DBG me s;
       if last_release \<ge> clock then do {
         DBG me s;
         det_lock_fail me m lret (pthread_unlock m s)
       } else do {
         DBG me s;
         det_lock_acquired me m lret (upd_mutex m (\<lambda>x. x\<lparr>owner := int me, ref := 1\<rparr>) s)
       }
     } else det_lock_fail me m lret s
   }"

definition det_lock_spin :: "nat \<Rightarrow> maddr \<Rightarrow> int \<Rightarrow> rt \<Rightarrow> piece" where
  "det_lock_spin me m lret s = do {
     (turn, s) \<leftarrow> wait_for_turn me s;
     clock \<leftarrow> turn;
     Some (s, [LockTry m lret clock])
   }"

section \<open>Trying\<close>

definition det_trylock :: "nat \<Rightarrow> maddr \<Rightarrow> rt \<Rightarrow> piece" where
  "det_trylock me m s = do {
     c_assert (mx_id (mutexes s m) > 0);
     if \<not> det_is_enabled me s then Some (s, [PLock m])
     else do {
       (lret, s) \<leftarrow> disable_logical_clock me s;
       DBG me s;
       if ref (mutexes s m) > 0 \<and> owner (mutexes s m) = int me
       then do {
         let s = add_sw_clock me 1 (upd_mutex m (\<lambda>x. x\<lparr>ref := ref x + 1\<rparr>) s);
         s \<leftarrow> resume_clock me lret s;
         Some (upd_tls me (\<lambda>l. l\<lparr>retval := 0\<rparr>) s, [])
       }
       else Some (s, [TryLockTurn m lret])
     }
   }"

text \<open>The decision between \<^verbatim>\<open>AddQ\<close> and the update of \<^verbatim>\<open>last_sync_logical_time\<close>: the
  value of \<^verbatim>\<open>ret\<close> and the state.\<close>

definition det_trylock_attempt :: "nat \<Rightarrow> maddr \<Rightarrow> int \<Rightarrow> rt \<Rightarrow> (int \<times> rt) option" where
  "det_trylock_attempt me m clock s = do {
     h \<leftarrow> GetHeadQ (mx_queue (mutexes s m));
     if h \<noteq> me then Some (0, s)
     else if mx_mutex (mutexes s m) \<noteq> None then Some (EBUSY, s)
     else do {
       let s = upd_mutex m (\<lambda>x. x\<lparr>mx_mutex := Some me\<rparr>) s;
       DBG me s;
       if released_logical_time (mutexes s m) \<ge> clock then do {
         DBG me s;
         Some (EBUSY, pthread_unlock m s)
       } else Some (0, upd_mutex m (\<lambda>x. x\<lparr>owner := int me, ref := 1\<rparr>) s)
     }
   }"

definition det_trylock_turn :: "nat \<Rightarrow> maddr \<Rightarrow> int \<Rightarrow> rt \<Rightarrow> piece" where
  "det_trylock_turn me m lret s = do {
     (turn, s) \<leftarrow> wait_for_turn me s;
     clock \<leftarrow> turn;
     (_, q) \<leftarrow> AddQ (mx_queue (mutexes s m)) me;
     let s = upd_mutex m (\<lambda>x. x\<lparr>mx_queue := q\<rparr>) s;
     (r, s) \<leftarrow> det_trylock_attempt me m clock s;
     c_assert (GET_CLOCK s me < MAX_LOGICAL_CLOCK);
     let s = s\<lparr>last_sync_logical_time := GET_CLOCK s me\<rparr>;
     s \<leftarrow> (if r = 0 then do {
             DBG me s;
             let s = upd_tls me (\<lambda>l. l\<lparr>lock_count := lock_count l + 1\<rparr>) s;
             (_, q) \<leftarrow> DelQ (mx_queue (mutexes s m));
             Some (upd_mutex m (\<lambda>x. x\<lparr>mx_queue := q\<rparr>) s)
           } else do { DBG me s; Some s });
     let s = add_sw_clock me 1 s;
     s \<leftarrow> resume_clock me lret s;
     Some (upd_tls me (\<lambda>l. l\<lparr>retval := r\<rparr>) s, [])
   }"

section \<open>Unlocking\<close>

definition det_unlock_and_incr_clock :: "nat \<Rightarrow> maddr \<Rightarrow> int \<Rightarrow> rt \<Rightarrow> piece" where
  "det_unlock_and_incr_clock me m incr s = do {
     c_assert (mx_id (mutexes s m) > 0);
     if \<not> det_is_enabled me s
     then Some (upd_tls me (\<lambda>l. l\<lparr>retval := 0\<rparr>) (pthread_unlock m s), [])
     else do {
       c_assert (max_thr s > 0);
       (lret, s) \<leftarrow> disable_logical_clock me s;
       let s = upd_mutex m (\<lambda>x. x\<lparr>ref := ref x - 1\<rparr>) s;
       if ref (mutexes s m) > 0 then Some (s, [UnlockEnd lret incr])
       else do {
         let s = upd_mutex m (\<lambda>x. x\<lparr>owner := -1\<rparr>) s;
         (c, s) \<leftarrow> get_logical_clock me me s;
         let s = upd_mutex m (\<lambda>x. x\<lparr>released_logical_time := c\<rparr>) s;
         DBG me s;
         let s = s\<lparr>last_sync_logical_time := GET_CLOCK s me\<rparr>;
         Some (s, [UnlockP m lret incr])
       }
     }
   }"

definition det_unlock_release :: "maddr \<Rightarrow> int \<Rightarrow> int \<Rightarrow> rt \<Rightarrow> piece" where
  "det_unlock_release m lret incr s = Some (pthread_unlock m s, [UnlockEnd lret incr])"

definition det_unlock_out :: "nat \<Rightarrow> int \<Rightarrow> int \<Rightarrow> rt \<Rightarrow> piece" where
  "det_unlock_out me lret incr s = do {
     let s = add_sw_clock me incr s;
     s \<leftarrow> resume_clock me lret s;
     Some (upd_tls me (\<lambda>l. l\<lparr>retval := 0\<rparr>) s, [])
   }"

definition det_unlock :: "nat \<Rightarrow> maddr \<Rightarrow> rt \<Rightarrow> piece" where
  "det_unlock me m s = det_unlock_and_incr_clock me m 1 s"

end
