(* ===== verification/Cond.thy ===== *)
theory Cond
  imports Mutex
begin

text \<open>
  Condition variables and barriers of \<^verbatim>\<open>src/dpthread.c\<close>.  A condition variable has one
  pthread mutex per thread, \<^verbatim>\<open>waiter[i]\<close>, used as a binary semaphore: it is created
  locked, the waiting thread locks it again to sleep, and a signal unlocks it.  Its
  queue holds pointers to these entries; \<open>waiter_ptr i\<close> stands for the address of
  \<^verbatim>\<open>waiter[i]\<close>, which is not \<^verbatim>\<open>NULL\<close>.
\<close>

section \<open>Condition variables\<close>

definition waiter_ptr :: "nat \<Rightarrow> ptr" where
  "waiter_ptr i = Suc i"

definition waiter_of :: "ptr \<Rightarrow> nat" where
  "waiter_of p = p - 1"

definition det_cond_init :: "nat \<Rightarrow> caddr \<Rightarrow> rt \<Rightarrow> rt option" where
  "det_cond_init me c s = do {
     s \<leftarrow> lazy_init me s;
     (lret, s) \<leftarrow> disable_logical_clock me s;
     let s = upd_cond c (\<lambda>d. d\<lparr>cd_queue := InitQ MAX_THR,
               waiter := (\<lambda>i. if i < MAX_THR
                              then (waiter d i)\<lparr>mx_id := int i, mx_mutex := Some me\<rparr>
                              else waiter d i)\<rparr>) s;
     let s = s\<lparr>g_cond_count := g_cond_count s + 1\<rparr>;
     let s = upd_cond c (\<lambda>d. d\<lparr>cd_id := g_cond_count s\<rparr>) s;
     DBG me s;
     resume_clock me lret s
   }"

definition det_cond_wait :: "nat \<Rightarrow> caddr \<Rightarrow> maddr \<Rightarrow> rt \<Rightarrow> piece" where
  "det_cond_wait me c m s = do {
     (lret, s) \<leftarrow> disable_logical_clock me s;
     DBG me s;
     (_, q) \<leftarrow> AddQ (cd_queue (conds s c)) (waiter_ptr me);
     Some (upd_cond c (\<lambda>d. d\<lparr>cd_queue := q\<rparr>) s,
       [Unlock m MAX_LOGICAL_CLOCK, CondBlock c lret, Lock m])
   }"

text \<open>After \<^verbatim>\<open>pthread_mutex_lock(&lock->mutex)\<close> has returned.\<close>

definition det_cond_wake :: "nat \<Rightarrow> caddr \<Rightarrow> int \<Rightarrow> rt \<Rightarrow> piece" where
  "det_cond_wake me c lret s = do {
     let s = upd_cond c (\<lambda>d. d\<lparr>waiter := (waiter d)(me := (waiter d me)\<lparr>mx_mutex := Some me\<rparr>)\<rparr>) s;
     c_assert (GET_CLOCK s me < MAX_LOGICAL_CLOCK);
     DBG me s;
     s \<leftarrow> resume_clock me lret s;
     Some (s, [])
   }"

definition det_cond_signal :: "nat \<Rightarrow> caddr \<Rightarrow> rt \<Rightarrow> rt option" where
  "det_cond_signal me c s = do {
     (lret, s) \<leftarrow> disable_logical_clock me s;
     (clock, s) \<leftarrow> get_logical_clock me me s;
     c_assert (clock < MAX_LOGICAL_CLOCK);
     s \<leftarrow> (if IsEmptyQ (cd_queue (conds s c)) = 0 then do {
             (p, q) \<leftarrow> DelQ (cd_queue (conds s c));
             c_assert (p \<noteq> NULL);
             let w = waiter_of p;
             let s = upd_cond c (\<lambda>d. d\<lparr>cd_queue := q\<rparr>) s;
             let s = SET_CLOCK (nat (mx_id (waiter (conds s c) w))) clock s;
             let s = upd_cond c (\<lambda>d. d\<lparr>waiter := (waiter d)(w := (waiter d w)\<lparr>mx_mutex := None\<rparr>)\<rparr>) s;
             DBG me s;
             Some s
           } else Some s);
     let s = add_sw_clock me 1 s;
     resume_clock me lret s
   }"

text \<open>The loop of \<^verbatim>\<open>det_cond_broadcast\<close>, and the whole function run without
  interruption.\<close>

partial_function (option) broadcast_loop :: "nat \<Rightarrow> caddr \<Rightarrow> rt \<Rightarrow> rt option" where
  "broadcast_loop me c s =
     (if IsEmptyQ (cd_queue (conds s c)) = 0 then do {
        s \<leftarrow> det_cond_signal me c s;
        broadcast_loop me c s
      } else Some s)"

definition det_cond_broadcast :: "nat \<Rightarrow> caddr \<Rightarrow> rt \<Rightarrow> rt option" where
  "det_cond_broadcast me c s = do {
     (lret, s) \<leftarrow> disable_logical_clock me s;
     s \<leftarrow> broadcast_loop me c s;
     resume_clock me lret s
   }"

text \<open>The same function in pieces, one signal at a time.\<close>

definition broadcast_enter :: "nat \<Rightarrow> caddr \<Rightarrow> rt \<Rightarrow> piece" where
  "broadcast_enter me c s = do {
     (lret, s) \<leftarrow> disable_logical_clock me s;
     Some (s, [BroadcastLoop c lret])
   }"

definition broadcast_round :: "nat \<Rightarrow> caddr \<Rightarrow> int \<Rightarrow> rt \<Rightarrow> piece" where
  "broadcast_round me c lret s =
     (if IsEmptyQ (cd_queue (conds s c)) = 0 then do {
        s \<leftarrow> det_cond_signal me c s;
        Some (s, [BroadcastLoop c lret])
      } else do {
        s \<leftarrow> resume_clock me lret s;
        Some (s, [])
      })"

section \<open>Barriers\<close>

definition det_barrier_init :: "nat \<Rightarrow> nat \<Rightarrow> int \<Rightarrow> rt \<Rightarrow> rt option" where
  "det_barrier_init me b count s = do {
     s \<leftarrow> lazy_init me s;
     let s = upd_barrier b (\<lambda>x. x\<lparr>target_count := count, wait_count := 0\<rparr>) s;
     let s = s\<lparr>g_barr_count := g_barr_count s + 1\<rparr>;
     let s = upd_barrier b (\<lambda>x. x\<lparr>br_id := g_barr_count s\<rparr>) s;
     s \<leftarrow> det_lock_init me (BarrierMutex b) s;
     s \<leftarrow> det_cond_init me (BarrierCond b) s;
     DBG me s;
     DBG me s;
     Some s
   }"

definition det_barrier_wait :: "nat \<Rightarrow> nat \<Rightarrow> rt \<Rightarrow> piece" where
  "det_barrier_wait me b s = do {
     (lret, s) \<leftarrow> disable_logical_clock me s;
     DBG me s;
     Some (s, [Lock (BarrierMutex b), BarrierBody b lret])
   }"

text \<open>The body, once \<^verbatim>\<open>wait_mutex\<close> is held.\<close>

definition det_barrier_body :: "nat \<Rightarrow> nat \<Rightarrow> int \<Rightarrow> rt \<Rightarrow> piece" where
  "det_barrier_body me b lret s = do {
     c_assert (max_thr s > 0);
     let s = upd_barrier b (\<lambda>x. x\<lparr>wait_count := wait_count x + 1\<rparr>) s;
     let finish = [Unlock (BarrierMutex b) 1, BarrierEnd lret];
     if wait_count (barriers s b) = target_count (barriers s b)
     then Some (upd_barrier b (\<lambda>x. x\<lparr>wait_count := 0\<rparr>) s, CondBroadcast (BarrierCond b) # finish)
     else Some (s, CondWait (BarrierCond b) (BarrierMutex b) # finish)
   }"

definition det_barrier_end :: "nat \<Rightarrow> int \<Rightarrow> rt \<Rightarrow> piece" where
  "det_barrier_end me lret s = do {
     DBG me s;
     s \<leftarrow> resume_clock me lret s;
     Some (upd_tls me (\<lambda>l. l\<lparr>barrier_count := barrier_count l + 1\<rparr>) s, [])
   }"


section \<open>Waiting and waking\<close>

text \<open>A condition variable after \<^verbatim>\<open>det_cond_init\<close>: the queue is in order and entry \<open>i\<close> of
  \<^verbatim>\<open>waiter\<close> carries the id \<open>i\<close>.  \<open>waiting\<close> is the list of the threads that wait.\<close>

definition waiting :: "det_cond \<Rightarrow> nat list" where
  "waiting d = map waiter_of (qlist (cd_queue d))"

definition cond_ok :: "det_cond \<Rightarrow> bool" where
  "cond_ok d \<longleftrightarrow> qwf (cd_queue d) \<and> qsize (cd_queue d) = MAX_THR
     \<and> list_all (\<lambda>p. p \<noteq> NULL \<and> waiter_of p < MAX_THR) (qlist (cd_queue d))
     \<and> list_all (\<lambda>i. mx_id (waiter d i) = int i) [0..<MAX_THR]"

lemma waiter_of_ptr [simp]: "waiter_of (waiter_ptr i) = i" "waiter_ptr i \<noteq> NULL"
  by (simp_all add: waiter_of_def waiter_ptr_def)

lemma cond_okD:
  assumes "cond_ok d"
  shows "qwf (cd_queue d)" "qsize (cd_queue d) = MAX_THR" "i < MAX_THR \<Longrightarrow> mx_id (waiter d i) = int i"
    "p \<in> set (qlist (cd_queue d)) \<Longrightarrow> p \<noteq> NULL \<and> waiter_of p < MAX_THR"
  using assms by (auto simp: cond_ok_def list_all_iff)

lemma IsEmptyQ_waiting: "cond_ok d \<Longrightarrow> IsEmptyQ (cd_queue d) = 0 \<longleftrightarrow> waiting d \<noteq> []"
  using IsEmptyQ_view [of "cd_queue d"] by (auto simp: cond_okD(1) waiting_def)

text \<open>What changes besides the clocks: nothing that decides how a clock is read.\<close>

definition same_counters :: "rt \<Rightarrow> rt \<Rightarrow> bool" where
  "same_counters s s' \<longleftrightarrow> kperf s' = kperf s \<and> max_thr s' = max_thr s \<and> mutexes s' = mutexes s
     \<and> (\<forall>i. hw_clock_enabled (wa s' i) = hw_clock_enabled (wa s i) \<and> w_fds (wa s' i) = w_fds (wa s i)
          \<and> hw_clock (wa s' i) = hw_clock (wa s i))"

lemma same_counters_trans: "same_counters s t \<Longrightarrow> same_counters t u \<Longrightarrow> same_counters s u"
  by (simp add: same_counters_def)

lemma clk_ok_same: "same_counters s s' \<Longrightarrow> clk_ok s' i = clk_ok s i"
  by (simp add: same_counters_def clk_ok_def)

lemma stopped_lclock: "\<not> hw_clock_enabled (wa s i) \<Longrightarrow> lclock s i = hw_clock (wa s i) + sw_clock (wa s i)"
  by (simp add: lclock_def)

lemma signal_nobody:
  assumes "clk_ok s me" and "\<not> hw_clock_enabled (wa s me)" and "lclock s me < MAX_LOGICAL_CLOCK"
    and "cond_ok (conds s c)" and "waiting (conds s c) = []"
  shows "\<exists>s'. det_cond_signal me c s = Some s' \<and> conds s' = conds s \<and> same_counters s s'
    \<and> lclock s' = (lclock s)(me := lclock s me + 1)"
proof -
  from get_logical_clock_eq [OF assms(1,2)] obtain l where
    l: "get_logical_clock me me s = Some (lclock s me, s\<lparr>tls := (tls s)(me := l)\<rparr>)" by blast
  have "IsEmptyQ (cd_queue (conds s c)) \<noteq> 0" using IsEmptyQ_waiting assms(4,5) by blast
  with l assms(1-3) have "det_cond_signal me c s = Some (add_sw_clock me 1 (s\<lparr>tls := (tls s)(me := l)\<rparr>))"
    by (simp add: det_cond_signal_def disable_eq stop_clock_def resume_clock_def)
  then show ?thesis
    by (auto simp: same_counters_def fun_eq_iff)
qed

lemma signal_first:
  assumes ok: "clk_ok s me" and off: "\<not> hw_clock_enabled (wa s me)" and t: "lclock s me < MAX_LOGICAL_CLOCK"
    and cd: "cond_ok (conds s c)" and ws: "waiting (conds s c) = w # ws"
    and w: "\<not> hw_clock_enabled (wa s w)" "w \<noteq> me"
  shows "\<exists>s'. det_cond_signal me c s = Some s' \<and> same_counters s s'
    \<and> conds s' = (conds s)(c := conds s' c) \<and> cond_ok (conds s' c) \<and> waiting (conds s' c) = ws
    \<and> waiter (conds s' c) = (waiter (conds s c))(w := (waiter (conds s c) w)\<lparr>mx_mutex := None\<rparr>)
    \<and> lclock s' = (lclock s)(w := lclock s me, me := lclock s me + 1)"
proof -
  let ?d = "conds s c"
  from get_logical_clock_eq [OF ok off] obtain l where
    l: "get_logical_clock me me s = Some (lclock s me, s\<lparr>tls := (tls s)(me := l)\<rparr>)" by blast
  from ws obtain p ps where p: "qlist (cd_queue ?d) = p # ps" "w = waiter_of p" "ws = map waiter_of ps"
    by (auto simp: waiting_def)
  with cond_okD(4) [OF cd, of p] have pw: "p \<noteq> NULL" "w < MAX_THR" by auto
  from DelQ_Cons [OF cond_okD(1) [OF cd] p(1)] cond_okD(2) [OF cd] obtain q' where
    q': "DelQ (cd_queue ?d) = Some (p, q')" "qwf q'" "qlist q' = ps" "qsize q' = MAX_THR" by auto
  have ne: "IsEmptyQ (cd_queue ?d) = 0" using IsEmptyQ_waiting [OF cd] ws by simp
  have idw: "nat (mx_id (waiter ?d (waiter_of p))) = w" using cond_okD(3) [OF cd pw(2)] p(2) by simp
  let ?d' = "?d\<lparr>cd_queue := q', waiter := (waiter ?d)(w := (waiter ?d w)\<lparr>mx_mutex := None\<rparr>)\<rparr>"
  let ?s = "(SET_CLOCK w (lclock s me) (s\<lparr>tls := (tls s)(me := l), conds := (conds s)(c := ?d\<lparr>cd_queue := q'\<rparr>)\<rparr>))
      \<lparr>conds := (conds s)(c := ?d')\<rparr>"
  have "det_cond_signal me c s = Some (add_sw_clock me 1 ?s)"
    using l ne q'(1) pw(1) idw off t ok w p(2)
    by (simp add: det_cond_signal_def disable_eq stop_clock_def resume_clock_def SET_CLOCK_def Let_def)
  moreover have "cond_ok ?d'"
    using q' cd p(1) by (auto simp: cond_ok_def list_all_iff)
  moreover have "waiting ?d' = ws" using q'(3) p(3) by (simp add: waiting_def)
  moreover have "lclock (add_sw_clock me 1 ?s) = (lclock s)(w := lclock s me, me := lclock s me + 1)"
    using w off by (auto simp: fun_eq_iff lclock_def add_sw_clock_def SET_CLOCK_def)
  moreover have "same_counters s (add_sw_clock me 1 ?s)"
    by (simp add: same_counters_def SET_CLOCK_def)
  ultimately show ?thesis
    by (intro exI [of _ "add_sw_clock me 1 ?s"]) (simp add: SET_CLOCK_def)
qed

text \<open>All the signals of a broadcast.\<close>

lemma broadcast_loop_all:
  assumes "clk_ok s me" and "\<not> hw_clock_enabled (wa s me)" and "cond_ok (conds s c)"
    and "waiting (conds s c) = ws" and "distinct ws" and "me \<notin> set ws"
    and "\<And>w. w \<in> set ws \<Longrightarrow> \<not> hw_clock_enabled (wa s w)"
    and "lclock s me + int (length ws) \<le> MAX_LOGICAL_CLOCK"
  shows "\<exists>s'. broadcast_loop me c s = Some s' \<and> same_counters s s'
    \<and> cond_ok (conds s' c) \<and> waiting (conds s' c) = []
    \<and> (\<forall>i. mx_mutex (waiter (conds s' c) i) =
         (if i \<in> set ws then None else mx_mutex (waiter (conds s c) i)))
    \<and> (\<forall>k < length ws. lclock s' (ws ! k) = lclock s me + int k)
    \<and> lclock s' me = lclock s me + int (length ws)
    \<and> (\<forall>i. i \<noteq> me \<and> i \<notin> set ws \<longrightarrow> lclock s' i = lclock s i)"
  using assms
proof (induction ws arbitrary: s)
  case Nil
  then have "broadcast_loop me c s = Some s"
    by (subst broadcast_loop.simps) (auto simp: IsEmptyQ_waiting)
  with Nil show ?case by (auto simp: same_counters_def)
next
  case (Cons w ws)
  have "\<exists>t. det_cond_signal me c s = Some t \<and> same_counters s t
    \<and> conds t = (conds s)(c := conds t c) \<and> cond_ok (conds t c) \<and> waiting (conds t c) = ws
    \<and> waiter (conds t c) = (waiter (conds s c))(w := (waiter (conds s c) w)\<lparr>mx_mutex := None\<rparr>)
    \<and> lclock t = (lclock s)(w := lclock s me, me := lclock s me + 1)"
    using Cons.prems by (intro signal_first) auto
  then obtain t where t: "det_cond_signal me c s = Some t" "same_counters s t"
    "cond_ok (conds t c)" "waiting (conds t c) = ws"
    "waiter (conds t c) = (waiter (conds s c))(w := (waiter (conds s c) w)\<lparr>mx_mutex := None\<rparr>)"
    "lclock t = (lclock s)(w := lclock s me, me := lclock s me + 1)" by blast
  have hw: "hw_clock_enabled (wa t i) = hw_clock_enabled (wa s i)" for i
    using t(2) by (simp add: same_counters_def)
  have "\<exists>s'. broadcast_loop me c t = Some s' \<and> same_counters t s'
    \<and> cond_ok (conds s' c) \<and> waiting (conds s' c) = []
    \<and> (\<forall>i. mx_mutex (waiter (conds s' c) i) =
         (if i \<in> set ws then None else mx_mutex (waiter (conds t c) i)))
    \<and> (\<forall>k < length ws. lclock s' (ws ! k) = lclock t me + int k)
    \<and> lclock s' me = lclock t me + int (length ws)
    \<and> (\<forall>i. i \<noteq> me \<and> i \<notin> set ws \<longrightarrow> lclock s' i = lclock t i)"
    using Cons.prems t(3,4,6) by (intro Cons.IH) (auto simp: hw clk_ok_same [OF t(2)])
  then obtain s' where s': "broadcast_loop me c t = Some s'" "same_counters t s'"
    "cond_ok (conds s' c)" "waiting (conds s' c) = []"
    "\<forall>i. mx_mutex (waiter (conds s' c) i) = (if i \<in> set ws then None else mx_mutex (waiter (conds t c) i))"
    "\<forall>k < length ws. lclock s' (ws ! k) = lclock t me + int k"
    "lclock s' me = lclock t me + int (length ws)"
    "\<forall>i. i \<noteq> me \<and> i \<notin> set ws \<longrightarrow> lclock s' i = lclock t i" by blast
  have "broadcast_loop me c s = Some s'"
    using s'(1) t(1) Cons.prems(3,4) by (subst broadcast_loop.simps) (simp add: IsEmptyQ_waiting)
  moreover have "lclock s' ((w # ws) ! k) = lclock s me + int k" if "k < length (w # ws)" for k
    using that s'(6,8) t(6) Cons.prems(5,6) by (cases k) auto
  moreover have "mx_mutex (waiter (conds s' c) i) =
      (if i \<in> set (w # ws) then None else mx_mutex (waiter (conds s c) i))" for i
    using s'(5) t(5) by simp
  ultimately show ?case
    using s' t(6) same_counters_trans [OF t(2) s'(2)] by auto
qed

lemma signal_running:
  assumes "clk_ok s me" and "w_fds (wa s me) = FdsOpen" and "hw_clock_enabled (wa s me)"
  shows "det_cond_signal me c s = map_option (start_clock me) (det_cond_signal me c (stop_clock me s))"
proof -
  let ?s = "stop_clock me s"
  have ok: "clk_ok ?s me" using assms(1) by simp
  from get_logical_clock_eq [OF ok, of me] obtain l where
    l: "get_logical_clock me me ?s = Some (lclock s me, ?s\<lparr>tls := (tls ?s)(me := l)\<rparr>)" by auto
  show ?thesis
    using assms l ok
    by (auto simp: det_cond_signal_def disable_eq resume_eq resume_clock_def enable_eq SET_CLOCK_def
        stop_clock_def [of me "stop_clock me s"] Let_def split: bind_splits if_splits)
qed

section \<open>A condition variable with two waiting threads\<close>

definition demo_cond :: det_cond where
  "demo_cond = \<lparr>cd_id = 1,
     cd_queue = \<lparr>head = 0, tail = 2, array = [waiter_ptr 2, waiter_ptr 1] @ replicate 126 NULL, qsize = 128\<rparr>,
     waiter = (\<lambda>i. zero_mutex\<lparr>mx_id := int i, mx_mutex := Some i\<rparr>)\<rparr>"

definition demo_wait :: rt where
  "demo_wait = demo_rt\<lparr>max_thr := 3, num_thr := 3,
     wa := (\<lambda>i. if i = 0 then wa demo_rt 0
               else (wa demo_rt i)\<lparr>hw_clock_enabled := False, sw_clock := 20000000000005\<rparr>),
     kperf := (\<lambda>i. if i = 0 then kperf demo_rt 0 else fresh_counter),
     conds := (\<lambda>c. demo_cond)\<rparr>"

lemma demo_wait_ok:
  "cond_ok demo_cond" "waiting demo_cond = [2, 1]" "clk_ok demo_wait i" "conds demo_wait c = demo_cond"
  "w_fds (wa demo_wait i) = FdsOpen" "hw_clock_enabled (wa demo_wait i) = (i = 0)"
  "lclock demo_wait i = (if i = 0 then 5 else 20000000000005)"
proof -
  have two: "[0..<2] = [0, 1 :: nat]" by (simp add: upt_rec)
  have q: "qlist (cd_queue demo_cond) = [waiter_ptr 2, waiter_ptr 1]"
    by (simp add: demo_cond_def qlist_def qlen_def two)
  then show "waiting demo_cond = [2, 1]" by (simp add: waiting_def)
  show "cond_ok demo_cond" using q
    by (simp add: cond_ok_def list_all_iff) (simp add: demo_cond_def qwf_def MAX_THR_def waiter_ptr_def)
  show "conds demo_wait c = demo_cond" by (simp add: demo_wait_def)
  show "clk_ok demo_wait i" "w_fds (wa demo_wait i) = FdsOpen" "hw_clock_enabled (wa demo_wait i) = (i = 0)"
    "lclock demo_wait i = (if i = 0 then 5 else 20000000000005)"
    by (auto simp: demo_wait_def demo_rt_def zero_worker_def fresh_counter_def clk_ok_def lclock_def)
qed

section \<open>Properties\<close>

text \<open>C18. \<^verbatim>\<open>det_cond_signal\<close> wakes the thread that has waited longest and no other: it frees
  that thread's semaphore, sets its clock to the caller's, leaves the rest of the queue
  in order, advances the caller's clock by one, and touches no other clock.\<close>

theorem signal_wakes_longest:
  assumes "clk_ok s me" and "w_fds (wa s me) = FdsOpen" and "hw_clock_enabled (wa s me)"
    and "lclock s me < MAX_LOGICAL_CLOCK"
    and "cond_ok (conds s c)" and "waiting (conds s c) = w # ws" and "\<not> hw_clock_enabled (wa s w)"
  shows "\<exists>s'. det_cond_signal me c s = Some s' \<and> waiting (conds s' c) = ws
    \<and> waiter (conds s' c) = (waiter (conds s c))(w := (waiter (conds s c) w)\<lparr>mx_mutex := None\<rparr>)
    \<and> lclock s' = (lclock s)(w := lclock s me, me := lclock s me + 1)
    \<and> cond_ok (conds s' c) \<and> hw_clock_enabled (wa s' me)"
proof -
  let ?s = "stop_clock me s"
  from assms(3,7) have wme: "w \<noteq> me" by blast
  have "\<exists>t. det_cond_signal me c ?s = Some t \<and> same_counters ?s t
    \<and> conds t = (conds ?s)(c := conds t c) \<and> cond_ok (conds t c) \<and> waiting (conds t c) = ws
    \<and> waiter (conds t c) = (waiter (conds ?s c))(w := (waiter (conds ?s c) w)\<lparr>mx_mutex := None\<rparr>)
    \<and> lclock t = (lclock ?s)(w := lclock ?s me, me := lclock ?s me + 1)"
    using assms wme by (intro signal_first) auto
  then obtain t where t: "det_cond_signal me c ?s = Some t" "same_counters ?s t" "cond_ok (conds t c)"
    "waiting (conds t c) = ws"
    "waiter (conds t c) = (waiter (conds s c))(w := (waiter (conds s c) w)\<lparr>mx_mutex := None\<rparr>)"
    "lclock t = (lclock ?s)(w := lclock ?s me, me := lclock ?s me + 1)" by auto
  have "clk_ok t me" using clk_ok_same [OF t(2)] assms(1) by simp
  moreover have "w_fds (wa t me) = FdsOpen" using t(2) assms(2) by (simp add: same_counters_def)
  moreover have "lclock ?s = lclock s" by (simp add: fun_eq_iff)
  moreover have "lclock (start_clock me t) = lclock t" using \<open>clk_ok t me\<close> by (simp add: fun_eq_iff)
  ultimately show ?thesis
    using t signal_running [OF assms(1-3), of c] by (intro exI [of _ "start_clock me t"]) simp
qed

theorem signal_wakes_longest_witness:
  "\<exists>s'. det_cond_signal 0 (CondVar 0) demo_wait = Some s' \<and> waiting (conds s' (CondVar 0)) = [1]
    \<and> lclock s' 2 = 5 \<and> lclock s' 0 = 6 \<and> mx_mutex (waiter (conds s' (CondVar 0)) 2) = None"
  using signal_wakes_longest [of demo_wait 0 "CondVar 0" 2 "[1]"] demo_wait_ok
  by (auto simp: MAX_LOGICAL_CLOCK_def)

text \<open>C19. \<^verbatim>\<open>det_cond_broadcast\<close> returns and wakes everyone: afterwards the queue is empty,
  the semaphore of every thread that waited is free, and they get different clocks in
  the order in which they came, starting at the caller's clock; the caller comes last.\<close>

theorem broadcast_wakes_all:
  assumes "clk_ok s me" and "w_fds (wa s me) = FdsOpen" and "hw_clock_enabled (wa s me)"
    and "cond_ok (conds s c)" and "waiting (conds s c) = ws" and "distinct ws"
    and "\<And>w. w \<in> set ws \<Longrightarrow> \<not> hw_clock_enabled (wa s w)"
    and "lclock s me + int (length ws) \<le> MAX_LOGICAL_CLOCK"
  shows "\<exists>s'. det_cond_broadcast me c s = Some s' \<and> waiting (conds s' c) = []
    \<and> (\<forall>i. mx_mutex (waiter (conds s' c) i) =
         (if i \<in> set ws then None else mx_mutex (waiter (conds s c) i)))
    \<and> (\<forall>k < length ws. lclock s' (ws ! k) = lclock s me + int k)
    \<and> lclock s' me = lclock s me + int (length ws)
    \<and> (\<forall>i. i \<noteq> me \<and> i \<notin> set ws \<longrightarrow> lclock s' i = lclock s i)"
proof -
  let ?s = "stop_clock me s"
  have me: "me \<notin> set ws" using assms(3,7) by blast
  have "\<exists>t. broadcast_loop me c ?s = Some t \<and> same_counters ?s t
    \<and> cond_ok (conds t c) \<and> waiting (conds t c) = []
    \<and> (\<forall>i. mx_mutex (waiter (conds t c) i) =
         (if i \<in> set ws then None else mx_mutex (waiter (conds ?s c) i)))
    \<and> (\<forall>k < length ws. lclock t (ws ! k) = lclock ?s me + int k)
    \<and> lclock t me = lclock ?s me + int (length ws)
    \<and> (\<forall>i. i \<noteq> me \<and> i \<notin> set ws \<longrightarrow> lclock t i = lclock ?s i)"
    using assms me by (intro broadcast_loop_all) auto
  then obtain t where t: "broadcast_loop me c ?s = Some t" "same_counters ?s t"
    "waiting (conds t c) = []"
    "\<forall>i. mx_mutex (waiter (conds t c) i) = (if i \<in> set ws then None else mx_mutex (waiter (conds s c) i))"
    "\<forall>k < length ws. lclock t (ws ! k) = lclock s me + int k"
    "lclock t me = lclock s me + int (length ws)"
    "\<forall>i. i \<noteq> me \<and> i \<notin> set ws \<longrightarrow> lclock t i = lclock s i" by auto
  have "clk_ok t me" using clk_ok_same [OF t(2)] assms(1) by simp
  moreover have "w_fds (wa t me) = FdsOpen" using t(2) assms(2) by (simp add: same_counters_def)
  moreover have "det_cond_broadcast me c s = Some (start_clock me t)"
    using t(1) assms(1,3) \<open>w_fds (wa t me) = FdsOpen\<close>
    by (simp add: det_cond_broadcast_def disable_eq resume_eq)
  ultimately show ?thesis using t by simp
qed

theorem broadcast_wakes_all_witness:
  "\<exists>s'. det_cond_broadcast 0 (CondVar 0) demo_wait = Some s' \<and> waiting (conds s' (CondVar 0)) = []
    \<and> lclock s' 2 = 5 \<and> lclock s' 1 = 6 \<and> lclock s' 0 = 7"
proof -
  have "lclock demo_wait 0 + int (length [2, 1 :: nat]) \<le> MAX_LOGICAL_CLOCK"
    using demo_wait_ok(7) [of 0] by (simp add: MAX_LOGICAL_CLOCK_def)
  moreover have "\<not> hw_clock_enabled (wa demo_wait w)" if "w \<in> set [2, 1]" for w
    using that demo_wait_ok(6) [of w] by auto
  ultimately obtain s' where s': "det_cond_broadcast 0 (CondVar 0) demo_wait = Some s'"
    "waiting (conds s' (CondVar 0)) = []"
    "\<forall>k < length [2, 1 :: nat]. lclock s' ([2, 1] ! k) = lclock demo_wait 0 + int k"
    "lclock s' 0 = lclock demo_wait 0 + int (length [2, 1 :: nat])"
    using broadcast_wakes_all [of demo_wait 0 "CondVar 0" "[2, 1]"] demo_wait_ok by auto
  from s'(3) have "lclock s' 2 = 5" "lclock s' 1 = 6"
    using demo_wait_ok(7) [of 0] by (auto dest: spec [of _ 0] spec [of _ 1])
  with s' show ?thesis using demo_wait_ok(7) [of 0] by auto
qed

end
