(* ===== verification/Threads.thy ===== *)
theory Threads
  imports Cond
begin

text \<open>
  Threads of \<^verbatim>\<open>src/dpthread.c\<close>: \<^verbatim>\<open>det_create\<close>, \<^verbatim>\<open>worker_thread\<close>, \<^verbatim>\<open>det_exit\<close>,
  \<^verbatim>\<open>det_join\<close> and \<^verbatim>\<open>det_cancel\<close>.  \<^verbatim>\<open>wa\<close> has \<^verbatim>\<open>MAX_THR\<close> entries; using a larger
  index ends the model's run with \<open>None\<close>.  CPU affinity and the scheduling policy are
  not modelled, nor is the point at which a cancelled thread stops.
\<close>

section \<open>Creating threads\<close>

definition det_create :: "nat \<Rightarrow> nat \<Rightarrow> nat \<Rightarrow> rt \<Rightarrow> piece" where
  "det_create me f a s = do {
     s \<leftarrow> lazy_init me s;
     s \<leftarrow> (if num_thr s \<le> 1 then map_option snd (enable_logical_clock me s) else Some s);
     (lret, s) \<leftarrow> disable_logical_clock me s;
     DBG me s;
     Some (s, [CreateTurn f a lret])
   }"

definition det_create_turn :: "nat \<Rightarrow> nat \<Rightarrow> nat \<Rightarrow> int \<Rightarrow> rt \<Rightarrow> piece" where
  "det_create_turn me f a lret s = do {
     (turn, s) \<leftarrow> wait_for_turn me s;
     _ \<leftarrow> turn;
     let new = max_thr s;
     let s = s\<lparr>max_thr := max_thr s + 1, num_thr := num_thr s + 1\<rparr>;
     c_assert (new < MAX_THR);
     let s = upd_wa new (\<lambda>w. w\<lparr>w_id := new, w_func := f, w_arg := a\<rparr>) s;
     (c, s) \<leftarrow> get_logical_clock me me s;
     let s = upd_wa new (\<lambda>w. w\<lparr>sw_clock := c + 1, hw_clock := 0, last_exit_logical_time := 0,
               finished := False, started := False\<rparr>) s;
     s \<leftarrow> det_lock_init me (ThreadLock new) s;
     s \<leftarrow> det_cond_init me (ThreadCond new) s;
     let s = upd_wa new (\<lambda>w. w\<lparr>nondet_count := 0\<rparr>) s;
     DBG me s;
     let s = upd_wa new (\<lambda>w. w\<lparr>w_tid := pthread_handle s new\<rparr>) s;
     Some (s, [Lock (ThreadLock new), CreateCheck new, Unlock (ThreadLock new) 1, Resume lret])
   }"

definition det_create_check :: "nat \<Rightarrow> rt \<Rightarrow> piece" where
  "det_create_check new s =
     Some (s, if \<not> started (wa s new) then [CondWait (ThreadCond new) (ThreadLock new)] else [])"

definition resume_piece :: "nat \<Rightarrow> int \<Rightarrow> rt \<Rightarrow> piece" where
  "resume_piece me lret s = do { s \<leftarrow> resume_clock me lret s; Some (s, []) }"

text \<open>\<^verbatim>\<open>worker_thread\<close> up to the call of the user's function and after it; \<open>body\<close> is what
  that function does.\<close>

definition worker_thread :: "nat \<Rightarrow> mstep list \<Rightarrow> rt \<Rightarrow> piece" where
  "worker_thread me body s = do {
     let s = upd_tls me (\<lambda>l. l\<lparr>my_det_enabled := True, my_det_clock := 0\<rparr>) s;
     c_assert (num_processors s > 0);
     s \<leftarrow> open_pfm_counter me me s;
     (_, s) \<leftarrow> enable_logical_clock me s;
     s \<leftarrow> enable_performance_counter me s;
     Some (s, [Lock (ThreadLock me), WorkerStarted me, CondSignal (ThreadCond me),
               Unlock (ThreadLock me) 1] @ body @ [Exit])
   }"

definition worker_started :: "nat \<Rightarrow> rt \<Rightarrow> piece" where
  "worker_started i s = Some (upd_wa i (\<lambda>w. w\<lparr>started := True\<rparr>) s, [])"

section \<open>Ending threads\<close>

definition det_exit :: "nat \<Rightarrow> rt \<Rightarrow> piece" where
  "det_exit me s = Some (s, [Lock (ThreadLock me), ExitMark, CondSignal (ThreadCond me),
     Unlock (ThreadLock me) MAX_LOGICAL_CLOCK, ExitEnd])"

definition exit_mark :: "nat \<Rightarrow> rt \<Rightarrow> piece" where
  "exit_mark i s = Some (upd_wa i (\<lambda>w. w\<lparr>finished := True\<rparr>) s, [])"

definition det_exit_end :: "nat \<Rightarrow> rt \<Rightarrow> piece" where
  "det_exit_end me s = do {
     (_, s) \<leftarrow> disable_logical_clock me s;
     s \<leftarrow> disable_performance_counter me s;
     let s = upd_wa me (\<lambda>w. w\<lparr>w_fds := FdsFreed\<rparr>) s;
     DBG me s;
     Some (s\<lparr>pthread_done := (pthread_done s)(me := True)\<rparr>, [])
   }"

text \<open>\<^verbatim>\<open>for ( i = 0; i < MAX_THR; i++ ) ... break\<close>: the first entry with this handle,
  or \<^verbatim>\<open>MAX_THR\<close>.\<close>

function find_thread :: "rt \<Rightarrow> nat \<Rightarrow> nat \<Rightarrow> nat" where
  "find_thread s threadid i =
     (if i < MAX_THR then if w_tid (wa s i) = threadid then i else find_thread s threadid (Suc i)
      else i)"
  by pat_completeness auto
termination
  by (relation "measure (\<lambda>(s, threadid, i). MAX_THR - i)") auto

declare find_thread.simps [simp del]

definition det_join :: "nat \<Rightarrow> nat \<Rightarrow> rt \<Rightarrow> piece" where
  "det_join me threadid s = do {
     (lret, s) \<leftarrow> disable_logical_clock me s;
     let i = find_thread s threadid 0;
     c_assert (i < MAX_THR);
     DBG me s;
     Some (s, [Lock (ThreadLock i), JoinCheck i, Unlock (ThreadLock i) 1, JoinEnd i lret])
   }"

definition det_join_check :: "nat \<Rightarrow> rt \<Rightarrow> piece" where
  "det_join_check i s =
     Some (s, if \<not> finished (wa s i) then [CondWait (ThreadCond i) (ThreadLock i)] else [])"

text \<open>After \<^verbatim>\<open>pthread_join\<close> has returned.  \<^verbatim>\<open>num_thr\<close> is unsigned: its decrement wraps.\<close>

definition det_join_end :: "nat \<Rightarrow> int \<Rightarrow> rt \<Rightarrow> piece" where
  "det_join_end me lret s = do {
     DBG me s;
     let s = s\<lparr>num_thr := (num_thr s + (2 ^ 32 - 1)) mod 2 ^ 32\<rparr>;
     s \<leftarrow> resume_clock me lret s;
     s \<leftarrow> (if num_thr s \<le> 1 then map_option snd (disable_logical_clock me s) else Some s);
     Some (s, [])
   }"

text \<open>When no entry has the handle, \<^verbatim>\<open>det_cancel\<close> leaves its search loop with
  \<open>i = MAX_THR\<close> and \<^verbatim>\<open>w\<close> on the last entry.\<close>

definition det_cancel :: "nat \<Rightarrow> rt \<Rightarrow> piece" where
  "det_cancel threadid s =
     (let i = find_thread s threadid 0; w = min i (MAX_THR - 1)
      in Some (s, [Lock (ThreadLock w), CancelMark w, CondSignal (ThreadCond w),
                   Unlock (ThreadLock w) 1, CancelEnd i]))"

definition det_cancel_end :: "nat \<Rightarrow> nat \<Rightarrow> rt \<Rightarrow> piece" where
  "det_cancel_end me i s = do {
     (lret, s) \<leftarrow> disable_logical_clock me s;
     c_assert (i < MAX_THR);
     let s = SET_CLOCK i (MAX_LOGICAL_CLOCK * 2) s;
     DBG me s;
     s \<leftarrow> resume_clock me lret s;
     Some (s, [])
   }"

end
