(* ===== verification/Machine.thy ===== *)
theory Machine
  imports Threads
begin

text \<open>
  The runtime as a transition system.  \<open>exec\<close> runs the piece of code at one place,
  \<open>ready\<close> says whether the wait in front of that piece is over, and \<open>mach_step\<close> lets
  the scheduler choose any thread whose next piece is ready.  A machine state is the
  runtime state with what each thread still has to do.
\<close>

section \<open>One piece\<close>

fun exec :: "(nat \<Rightarrow> nat \<Rightarrow> mstep list) \<Rightarrow> mstep \<Rightarrow> nat \<Rightarrow> rt \<Rightarrow> piece" where
  "exec prog (Work n) me s = Some (count_events me n s, [])"
| "exec prog (Lock m) me s = det_lock me m s"
| "exec prog (LockQ m lret) me s = det_lock_queue me m lret s"
| "exec prog (LockTry m lret clock) me s = det_lock_try me m lret clock s"
| "exec prog (LockSpin m lret) me s = det_lock_spin me m lret s"
| "exec prog (PLock m) me s = pthread_lock me m s"
| "exec prog (TryLock m) me s = det_trylock me m s"
| "exec prog (TryLockTurn m lret) me s = det_trylock_turn me m lret s"
| "exec prog (Unlock m incr) me s = det_unlock_and_incr_clock me m incr s"
| "exec prog (UnlockP m lret incr) me s = det_unlock_release m lret incr s"
| "exec prog (UnlockEnd lret incr) me s = det_unlock_out me lret incr s"
| "exec prog (CondWait c m) me s = det_cond_wait me c m s"
| "exec prog (CondBlock c lret) me s = det_cond_wake me c lret s"
| "exec prog (CondSignal c) me s = map_option (\<lambda>s. (s, [])) (det_cond_signal me c s)"
| "exec prog (CondBroadcast c) me s = broadcast_enter me c s"
| "exec prog (BroadcastLoop c lret) me s = broadcast_round me c lret s"
| "exec prog (BarrierWait b) me s = det_barrier_wait me b s"
| "exec prog (BarrierBody b lret) me s = det_barrier_body me b lret s"
| "exec prog (BarrierEnd lret) me s = det_barrier_end me lret s"
| "exec prog (Create f a) me s = det_create me f a s"
| "exec prog (CreateTurn f a lret) me s = det_create_turn me f a lret s"
| "exec prog (CreateCheck new) me s = det_create_check new s"
| "exec prog (Resume lret) me s = resume_piece me lret s"
| "exec prog (WorkerStart i) me s = worker_thread me (prog (w_func (wa s i)) (w_arg (wa s i))) s"
| "exec prog (WorkerStarted i) me s = worker_started i s"
| "exec prog Exit me s = det_exit me s"
| "exec prog ExitMark me s = exit_mark me s"
| "exec prog ExitEnd me s = det_exit_end me s"
| "exec prog (Join t) me s = det_join me t s"
| "exec prog (JoinCheck i) me s = det_join_check i s"
| "exec prog (JoinEnd i lret) me s = det_join_end me lret s"
| "exec prog (Cancel t) me s = det_cancel t s"
| "exec prog (CancelMark i) me s = exit_mark i s"
| "exec prog (CancelEnd i) me s = det_cancel_end me i s"

text \<open>The waits: for the turn, for a pthread mutex, for the end of a thread.\<close>

definition turn_comes :: "nat \<Rightarrow> rt \<Rightarrow> bool" where
  "turn_comes me s = (case wait_for_turn me s of Some (None, _) \<Rightarrow> False | _ \<Rightarrow> True)"

fun ready :: "mstep \<Rightarrow> nat \<Rightarrow> rt \<Rightarrow> bool" where
  "ready (LockQ m lret) me s = turn_comes me s"
| "ready (LockSpin m lret) me s = turn_comes me s"
| "ready (TryLockTurn m lret) me s = turn_comes me s"
| "ready (CreateTurn f a lret) me s = turn_comes me s"
| "ready (PLock m) me s = (mx_mutex (mutexes s m) = None)"
| "ready (CondBlock c lret) me s = (mx_mutex (waiter (conds s c) me) = None)"
| "ready (JoinEnd i lret) me s = pthread_done s i"
| "ready _ me s = True"

section \<open>Threads together\<close>

record mach =
  m_rt :: rt
  m_todo :: "nat \<Rightarrow> mstep list"

text \<open>A new thread starts in \<^verbatim>\<open>worker_thread\<close> once \<^verbatim>\<open>pthread_create\<close> was called.\<close>

fun spawned :: "mstep \<Rightarrow> rt \<Rightarrow> (nat \<Rightarrow> mstep list) \<Rightarrow> nat \<Rightarrow> mstep list" where
  "spawned (CreateTurn f a lret) s todo = todo(max_thr s := [WorkerStart (max_thr s)])"
| "spawned _ s todo = todo"

definition mach_exec :: "(nat \<Rightarrow> nat \<Rightarrow> mstep list) \<Rightarrow> nat \<Rightarrow> mach \<Rightarrow> mach option" where
  "mach_exec prog i M =
     (case m_todo M i of
        [] \<Rightarrow> None
      | x # rest \<Rightarrow>
          (if ready x i (m_rt M)
           then do {
             (s, next) \<leftarrow> exec prog x i (m_rt M);
             Some \<lparr>m_rt = s, m_todo = (spawned x (m_rt M) (m_todo M))(i := next @ rest)\<rparr>
           }
           else None))"

inductive mach_step :: "(nat \<Rightarrow> nat \<Rightarrow> mstep list) \<Rightarrow> mach \<Rightarrow> mach \<Rightarrow> bool" for prog where
  step: "mach_exec prog i M = Some M' \<Longrightarrow> mach_step prog M M'"

text \<open>A run with a given schedule: the list names the thread that takes each step.\<close>

fun mach_run :: "(nat \<Rightarrow> nat \<Rightarrow> mstep list) \<Rightarrow> nat list \<Rightarrow> mach \<Rightarrow> mach option" where
  "mach_run prog [] M = Some M"
| "mach_run prog (i # is) M = do { M \<leftarrow> mach_exec prog i M; mach_run prog is M }"

inductive_cases mach_stepE: "mach_step prog M M'"

lemma mach_run_steps: "mach_run prog is M = Some M' \<Longrightarrow> (mach_step prog)\<^sup>*\<^sup>* M M'"
  by (induction "is" arbitrary: M)
    (auto split: bind_splits intro: mach_step.step converse_rtranclp_into_rtranclp)

lemma steps_mach_run: "(mach_step prog)\<^sup>*\<^sup>* M M' \<Longrightarrow> \<exists>is. mach_run prog is M = Some M'"
proof (induction rule: converse_rtranclp_induct)
  case base
  then show ?case by (auto intro: exI [of _ "[]"])
next
  case (step M1 M2)
  then obtain i "is" where "mach_exec prog i M1 = Some M2" "mach_run prog is M2 = Some M'"
    by (auto elim: mach_stepE)
  then show ?case by (auto intro: exI [of _ "i # is"])
qed

end
