(* ===== verification/Confluence.thy ===== *)
theory Confluence
  imports Prelude "HOL-Library.Multiset"
begin

text \<open>
  Scheduling in general: a system of threads is a partial function that says what a
  step of thread \<open>i\<close> does.  When the steps of two different threads can always be
  taken in either order with the same result, the scheduler has no influence on how
  the system ends.
\<close>

fun sched_run :: "(nat \<Rightarrow> 'c \<Rightarrow> 'c option) \<Rightarrow> nat list \<Rightarrow> 'c \<Rightarrow> 'c option" where
  "sched_run step [] c = Some c"
| "sched_run step (i # sch) c = do { c \<leftarrow> step i c; sched_run step sch c }"

definition stuck :: "(nat \<Rightarrow> 'c \<Rightarrow> 'c option) \<Rightarrow> 'c \<Rightarrow> bool" where
  "stuck step c \<longleftrightarrow> (\<forall>i. step i c = None)"

lemma sched_run_append:
  "sched_run step (sch @ js) c = sched_run step sch c \<bind> sched_run step js"
  by (induction sch arbitrary: c) (auto split: bind_splits)

lemma sched_run_inv:
  assumes "\<And>i c c'. Q c \<Longrightarrow> step i c = Some c' \<Longrightarrow> Q c'"
  shows "Q c \<Longrightarrow> sched_run step sch c = Some c' \<Longrightarrow> Q c'"
  by (induction sch arbitrary: c) (auto split: bind_splits dest: assms)

locale commuting_steps =
  fixes step :: "nat \<Rightarrow> 'c \<Rightarrow> 'c option" and inv :: "'c \<Rightarrow> bool"
  assumes inv_step: "inv c \<Longrightarrow> step i c = Some c' \<Longrightarrow> inv c'"
    and commute: "inv c \<Longrightarrow> i \<noteq> j \<Longrightarrow> step i c = Some a \<Longrightarrow> step j c = Some b \<Longrightarrow>
      \<exists>d. step j a = Some d \<and> step i b = Some d"
begin

lemma take_first:
  assumes "inv c" and "sched_run step sch c = Some a" and "stuck step a" and "step j c = Some b"
  shows "\<exists>ks. sched_run step ks b = Some a \<and> add_mset j (mset ks) = mset sch"
  using assms
proof (induction sch arbitrary: c b)
  case Nil
  then show ?case by (simp add: stuck_def)
next
  case (Cons i sch)
  then obtain c1 where c1: "step i c = Some c1" "sched_run step sch c1 = Some a"
    by (auto split: bind_splits)
  show ?case
  proof (cases "i = j")
    case True
    with c1 Cons.prems(4) show ?thesis by auto
  next
    case False
    with commute Cons.prems(1,4) c1(1) obtain d where d: "step j c1 = Some d" "step i b = Some d"
      by blast
    from inv_step Cons.prems(1) c1(1) have "inv c1" by blast
    from Cons.IH [OF this c1(2) Cons.prems(3) d(1)] obtain ks where
      "sched_run step ks d = Some a" "add_mset j (mset ks) = mset sch" by blast
    with d(2) have "sched_run step (i # ks) b = Some a \<and> add_mset j (mset (i # ks)) = mset (i # sch)"
      by (auto simp: add_mset_commute)
    then show ?thesis by blast
  qed
qed

text \<open>Every run can be completed to the one final state, in the same steps.\<close>

lemma joins:
  assumes "inv c" and "sched_run step sch c = Some a" and "stuck step a" and "sched_run step js c = Some b"
  shows "\<exists>ks. sched_run step ks b = Some a \<and> mset js + mset ks = mset sch"
  using assms
proof (induction js arbitrary: c sch)
  case Nil
  then show ?case by auto
next
  case (Cons j js)
  then obtain c1 where c1: "step j c = Some c1" "sched_run step js c1 = Some b"
    by (auto split: bind_splits)
  from take_first [OF Cons.prems(1-3) c1(1)] obtain ks where
    ks: "sched_run step ks c1 = Some a" "add_mset j (mset ks) = mset sch" by blast
  from inv_step Cons.prems(1) c1(1) have "inv c1" by blast
  from Cons.IH [OF this ks(1) Cons.prems(3) c1(2)] ks(2) show ?case by auto
qed

lemma unique_end:
  assumes "inv c" and "sched_run step sch c = Some a" and "stuck step a"
    and "sched_run step js c = Some b" and "stuck step b"
  shows "a = b \<and> mset sch = mset js"
proof -
  from joins [OF assms(1-4)] obtain ks where
    ks: "sched_run step ks b = Some a" "mset js + mset ks = mset sch" by blast
  from ks(1) assms(5) have "ks = []"
    by (cases ks) (auto simp: stuck_def)
  with ks show ?thesis by simp
qed

lemma bounded_length:
  assumes "inv c" and "sched_run step sch c = Some a" and "stuck step a" and "sched_run step js c = Some b"
  shows "length js \<le> length sch"
  using joins [OF assms] by (metis le_add1 size_mset size_union)

end

text \<open>A system whose states map to those of another, step by step.\<close>

locale simulation =
  fixes cstep :: "nat \<Rightarrow> 'c \<Rightarrow> 'c option" and astep :: "nat \<Rightarrow> 'a \<Rightarrow> 'a option"
    and abstr :: "'c \<Rightarrow> 'a" and cinv :: "'c \<Rightarrow> bool" and ainv :: "'a \<Rightarrow> bool"
  assumes sim: "cinv c \<Longrightarrow> ainv (abstr c) \<Longrightarrow> map_option abstr (cstep i c) = astep i (abstr c)"
    and cinv_step: "cinv c \<Longrightarrow> ainv (abstr c) \<Longrightarrow> cstep i c = Some c' \<Longrightarrow> cinv c'"
    and ainv_step: "ainv a \<Longrightarrow> astep i a = Some a' \<Longrightarrow> ainv a'"
begin

lemma inv_run:
  "cinv c \<Longrightarrow> ainv (abstr c) \<Longrightarrow> sched_run cstep sch c = Some c' \<Longrightarrow> cinv c' \<and> ainv (abstr c')"
proof (induction sch arbitrary: c)
  case (Cons i sch)
  from Cons.prems(3) obtain c1 where c1: "cstep i c = Some c1" "sched_run cstep sch c1 = Some c'"
    by (auto split: bind_splits)
  from sim [OF Cons.prems(1,2), of i] c1(1) have "astep i (abstr c) = Some (abstr c1)" by simp
  with ainv_step Cons.prems(2) have "ainv (abstr c1)" by blast
  with Cons.IH [OF cinv_step [OF Cons.prems(1,2) c1(1)] _ c1(2)] show ?case by blast
qed simp

lemma sim_run:
  assumes "cinv c" and "ainv (abstr c)"
  shows "map_option abstr (sched_run cstep sch c) = sched_run astep sch (abstr c)"
  using assms
proof (induction sch arbitrary: c)
  case (Cons i sch)
  note one = sim [OF Cons.prems, of i]
  show ?case
  proof (cases "cstep i c")
    case None
    with one show ?thesis by simp
  next
    case (Some c1)
    with one have a1: "astep i (abstr c) = Some (abstr c1)" by simp
    with ainv_step Cons.prems(2) have "ainv (abstr c1)" by blast
    with Cons.IH [OF cinv_step [OF Cons.prems Some]] Some a1 show ?thesis by simp
  qed
qed simp

lemma sim_stuck:
  assumes "cinv c" and "ainv (abstr c)"
  shows "stuck cstep c \<longleftrightarrow> stuck astep (abstr c)"
  using sim [OF assms] unfolding stuck_def by (metis map_option_is_None)

end

end
