(* ===== verification/Client.thy ===== *)
theory Client
  imports Machine Confluence
begin

text \<open>
  Programs that use the mutexes.  A thread computes on local state, calls
  \<^verbatim>\<open>det_lock\<close> and \<^verbatim>\<open>det_unlock_and_incr_clock\<close> (\<^verbatim>\<open>det_unlock\<close> when the increment is 1;
  a thread that ends leaves with \<^verbatim>\<open>MAX_LOGICAL_CLOCK\<close>), and touches the data that
  belongs to a mutex while it holds it; what it does next may depend on all it has
  read.  \<open>client_step\<close> is one
  step of one thread over any implementation of the calls, so that the same programs
  run over the code's model and over its specification.

  \<open>dep\<close> counts the calls of \<^verbatim>\<open>det_lock\<close> that returned minus the calls of
  the unlock function, and \<open>lockg\<close> records the acquisitions with their logical time; both
  only observe.
\<close>

datatype ('l, 'd) action =
    Done
  | Compute nat 'l
  | DoLock maddr 'l
  | DoUnlock maddr nat 'l
  | Access maddr "'l \<Rightarrow> 'd \<Rightarrow> 'l \<times> 'd"

record ('s, 'l, 'd) cfg =
  st :: 's
  cont :: "nat \<Rightarrow> mstep list"
  loc :: "nat \<Rightarrow> 'l"
  dat :: "maddr \<Rightarrow> 'd"
  dep :: "nat \<Rightarrow> maddr \<Rightarrow> nat"
  lockg :: "(int \<times> nat \<times> maddr) list"

text \<open>A lock call returns from the re-entrant path or from a successful attempt.\<close>

fun locked :: "mstep \<Rightarrow> mstep list \<Rightarrow> (maddr \<Rightarrow> nat) \<Rightarrow> maddr \<Rightarrow> nat" where
  "locked (Lock m) [] d = d(m := Suc (d m))"
| "locked (LockTry m lret c) [] d = d(m := Suc (d m))"
| "locked _ _ d = d"

fun acquired :: "mstep \<Rightarrow> mstep list \<Rightarrow> nat \<Rightarrow> (int \<times> nat \<times> maddr) list" where
  "acquired (LockTry m lret c) [] i = [(c, i, m)]"
| "acquired _ _ i = []"

definition client_step ::
  "('s \<Rightarrow> nat) \<Rightarrow> (mstep \<Rightarrow> nat \<Rightarrow> 's \<Rightarrow> bool) \<Rightarrow> (mstep \<Rightarrow> nat \<Rightarrow> 's \<Rightarrow> ('s \<times> mstep list) option) \<Rightarrow>
   (nat \<Rightarrow> nat \<Rightarrow> 's \<Rightarrow> 's) \<Rightarrow> (nat \<Rightarrow> 'l \<Rightarrow> ('l, 'd) action) \<Rightarrow>
   nat \<Rightarrow> ('s, 'l, 'd) cfg \<Rightarrow> ('s, 'l, 'd) cfg option" where
  "client_step thr rdy ex wrk P i C =
     (if \<not> i < thr (st C) then None
      else case cont C i of
        [] \<Rightarrow> (case P i (loc C i) of
            Done \<Rightarrow> None
          | Compute n l \<Rightarrow> Some (C\<lparr>st := wrk i n (st C), loc := (loc C)(i := l)\<rparr>)
          | DoLock m l \<Rightarrow> Some (C\<lparr>cont := (cont C)(i := [Lock m]), loc := (loc C)(i := l)\<rparr>)
          | DoUnlock m n l \<Rightarrow>
              (if dep C i m = 0 then None
               else Some (C\<lparr>cont := (cont C)(i := [Unlock m (int n)]), loc := (loc C)(i := l),
                      dep := (dep C)(i := (dep C i)(m := dep C i m - 1))\<rparr>))
          | Access m f \<Rightarrow>
              (if dep C i m = 0 then None
               else case f (loc C i) (dat C m) of (l, d) \<Rightarrow>
                 Some (C\<lparr>loc := (loc C)(i := l), dat := (dat C)(m := d)\<rparr>)))
      | x # rest \<Rightarrow>
          (if rdy x i (st C) then do {
             (s, next) \<leftarrow> ex x i (st C);
             Some (C\<lparr>st := s, cont := (cont C)(i := next @ rest),
               dep := (dep C)(i := locked x next (dep C i)),
               lockg := lockg C @ acquired x next i\<rparr>)
           } else None))"

text \<open>Programs over the code's model.\<close>

definition code_exec :: "mstep \<Rightarrow> nat \<Rightarrow> rt \<Rightarrow> piece" where
  "code_exec = exec (\<lambda>_ _. [])"

definition code_step :: "(nat \<Rightarrow> 'l \<Rightarrow> ('l, 'd) action) \<Rightarrow> nat \<Rightarrow> (rt, 'l, 'd) cfg \<Rightarrow> (rt, 'l, 'd) cfg option" where
  "code_step = client_step max_thr ready code_exec count_events"

end
