(* ===== verification/Arbiter.thy ===== *)
theory Arbiter
  imports Client
begin

text \<open>
  The specification of the mutexes: threads have clocks, a mutex has a holder, a
  nesting count, the time of its last release and a list of waiting threads, and a
  lock is granted by logical time only.  There is no performance counter, no ring
  buffer and no statistics.  \<open>decide\<close> says what a piece of code does; \<open>mop\<close> is the
  change it makes to a mutex.
\<close>

section \<open>State and steps\<close>

record amx =
  a_live :: bool
  a_holder :: "nat option"
  a_rel :: int
  a_owner :: int
  a_ref :: int
  a_queue :: "nat list"

record ast =
  a_clk :: "nat \<Rightarrow> int"
  a_run :: "nat \<Rightarrow> bool"
  a_thr :: nat
  a_mx :: "maddr \<Rightarrow> amx"

datatype mop =
    Keep | Enqueue maddr | Acquire maddr | Relock maddr | Unref maddr | Release maddr int | Free maddr

fun mop_at :: "mop \<Rightarrow> maddr option" where
  "mop_at Keep = None"
| "mop_at (Enqueue m) = Some m"
| "mop_at (Acquire m) = Some m"
| "mop_at (Relock m) = Some m"
| "mop_at (Unref m) = Some m"
| "mop_at (Release m c) = Some m"
| "mop_at (Free m) = Some m"

fun touch :: "nat \<Rightarrow> mop \<Rightarrow> amx \<Rightarrow> amx" where
  "touch i Keep x = x"
| "touch i (Enqueue m) x = x\<lparr>a_queue := a_queue x @ [i]\<rparr>"
| "touch i (Acquire m) x =
     x\<lparr>a_holder := Some i, a_owner := int i, a_ref := 1, a_queue := tl (a_queue x)\<rparr>"
| "touch i (Relock m) x = x\<lparr>a_ref := a_ref x + 1\<rparr>"
| "touch i (Unref m) x = x\<lparr>a_ref := a_ref x - 1\<rparr>"
| "touch i (Release m c) x = x\<lparr>a_ref := a_ref x - 1, a_owner := -1, a_rel := c\<rparr>"
| "touch i (Free m) x = x\<lparr>a_holder := None\<rparr>"

definition do_mop :: "nat \<Rightarrow> mop \<Rightarrow> (maddr \<Rightarrow> amx) \<Rightarrow> maddr \<Rightarrow> amx" where
  "do_mop i p f = (case mop_at p of None \<Rightarrow> f | Some m \<Rightarrow> f(m := touch i p (f m)))"

definition aturn :: "ast \<Rightarrow> nat \<Rightarrow> bool" where
  "aturn a i \<longleftrightarrow> (\<forall>j < a_thr a. j \<noteq> i \<longrightarrow> \<not> behind (a_clk a i) i (a_clk a j) j)"

definition grantable :: "amx \<Rightarrow> nat \<Rightarrow> int \<Rightarrow> bool" where
  "grantable x i c \<longleftrightarrow> a_queue x \<noteq> [] \<and> hd (a_queue x) = i \<and> a_holder x = None \<and> a_rel x < c"

definition stopped :: "bool \<Rightarrow> int" where
  "stopped r = (if r then 0 else -1)"

text \<open>The change of the mutex, the time that passes, whether the clock runs afterwards,
  and what comes next.\<close>

fun decide :: "mstep \<Rightarrow> nat \<Rightarrow> ast \<Rightarrow> (mop \<times> int \<times> bool \<times> mstep list) option" where
  "decide (Lock m) i a =
     (if \<not> a_live (a_mx a m) then None
      else if a_ref (a_mx a m) > 0 \<and> a_owner (a_mx a m) = int i then Some (Relock m, 1, a_run a i, [])
      else Some (Keep, 0, False, [LockQ m (stopped (a_run a i))]))"
| "decide (LockQ m lret) i a =
     (if aturn a i then Some (Enqueue m, 0, False, [LockTry m lret (a_clk a i)]) else None)"
| "decide (LockTry m lret c) i a =
     (if a_clk a i \<ge> MAX_LOGICAL_CLOCK then None
      else if grantable (a_mx a m) i c then Some (Acquire m, 1, lret = 0, [])
      else Some (Keep, 1, False, [LockSpin m lret]))"
| "decide (LockSpin m lret) i a =
     (if aturn a i then Some (Keep, 0, False, [LockTry m lret (a_clk a i)]) else None)"
| "decide (Unlock m incr) i a =
     (if \<not> a_live (a_mx a m) then None
      else if a_ref (a_mx a m) > 1 then Some (Unref m, 0, False, [UnlockEnd (stopped (a_run a i)) incr])
      else Some (Release m (a_clk a i), 0, False, [UnlockP m (stopped (a_run a i)) incr]))"
| "decide (UnlockP m lret incr) i a = Some (Free m, 0, False, [UnlockEnd lret incr])"
| "decide (UnlockEnd lret incr) i a = Some (Keep, incr, lret = 0, [])"
| "decide _ i a = None"

definition effect :: "nat \<Rightarrow> mop \<Rightarrow> int \<Rightarrow> bool \<Rightarrow> ast \<Rightarrow> ast" where
  "effect i p d r a = a\<lparr>a_clk := (a_clk a)(i := a_clk a i + d), a_run := (a_run a)(i := r),
     a_mx := do_mop i p (a_mx a)\<rparr>"

definition aexec :: "mstep \<Rightarrow> nat \<Rightarrow> ast \<Rightarrow> (ast \<times> mstep list) option" where
  "aexec x i a = map_option (\<lambda>(p, d, r, next). (effect i p d r a, next)) (decide x i a)"

definition awork :: "nat \<Rightarrow> nat \<Rightarrow> ast \<Rightarrow> ast" where
  "awork i n a = effect i Keep (if a_run a i then int n else 0) (a_run a i) a"

definition spec_step :: "(nat \<Rightarrow> 'l \<Rightarrow> ('l, 'd) action) \<Rightarrow> nat \<Rightarrow> (ast, 'l, 'd) cfg \<Rightarrow> (ast, 'l, 'd) cfg option" where
  "spec_step = client_step a_thr (\<lambda>x i a. True) aexec awork"

section \<open>A step as a change\<close>

record ('l, 'd) change =
  c_mop :: mop
  c_time :: int
  c_run :: bool
  c_cont :: "mstep list"
  c_loc :: 'l
  c_dep :: "maddr \<Rightarrow> nat"
  c_dat :: "(maddr \<times> 'd) option"
  c_log :: "(int \<times> nat \<times> maddr) list"

definition make_change :: "nat \<Rightarrow> ('l, 'd) change \<Rightarrow> (ast, 'l, 'd) cfg \<Rightarrow> (ast, 'l, 'd) cfg" where
  "make_change i e C = C\<lparr>st := effect i (c_mop e) (c_time e) (c_run e) (st C),
     cont := (cont C)(i := c_cont e), loc := (loc C)(i := c_loc e), dep := (dep C)(i := c_dep e),
     dat := (case c_dat e of None \<Rightarrow> dat C | Some (m, d) \<Rightarrow> (dat C)(m := d)),
     lockg := lockg C @ c_log e\<rparr>"

definition change_of :: "(nat \<Rightarrow> 'l \<Rightarrow> ('l, 'd) action) \<Rightarrow> nat \<Rightarrow> (ast, 'l, 'd) cfg \<Rightarrow> ('l, 'd) change option" where
  "change_of P i C =
     (let a = st C; r = a_run a i; l = loc C i; d = dep C i in
      if \<not> i < a_thr a then None
      else case cont C i of
        [] \<Rightarrow> (case P i l of
            Done \<Rightarrow> None
          | Compute n l' \<Rightarrow> Some \<lparr>c_mop = Keep, c_time = (if r then int n else 0), c_run = r,
              c_cont = [], c_loc = l', c_dep = d, c_dat = None, c_log = []\<rparr>
          | DoLock m l' \<Rightarrow> Some \<lparr>c_mop = Keep, c_time = 0, c_run = r,
              c_cont = [Lock m], c_loc = l', c_dep = d, c_dat = None, c_log = []\<rparr>
          | DoUnlock m n l' \<Rightarrow>
              (if d m = 0 then None
               else Some \<lparr>c_mop = Keep, c_time = 0, c_run = r,
                 c_cont = [Unlock m (int n)], c_loc = l', c_dep = d(m := d m - 1), c_dat = None, c_log = []\<rparr>)
          | Access m f \<Rightarrow>
              (if d m = 0 then None
               else case f l (dat C m) of (l', v) \<Rightarrow>
                 Some \<lparr>c_mop = Keep, c_time = 0, c_run = r,
                   c_cont = [], c_loc = l', c_dep = d, c_dat = Some (m, v), c_log = []\<rparr>))
      | x # rest \<Rightarrow> map_option (\<lambda>(p, t, r', next).
            \<lparr>c_mop = p, c_time = t, c_run = r', c_cont = next @ rest, c_loc = l,
             c_dep = locked x next d, c_dat = None, c_log = acquired x next i\<rparr>) (decide x i a))"

lemma do_mop_Keep [simp]: "do_mop i Keep f = f"
  by (simp add: do_mop_def)

lemma do_mop_apply: "do_mop i p f m = (if mop_at p = Some m then touch i p (f m) else f m)"
  by (simp add: do_mop_def split: option.splits)

lemma effect_none [simp]: "effect i Keep 0 (a_run a i) a = a"
  by (simp add: effect_def)

lemma spec_step_change: "spec_step P i C = map_option (\<lambda>e. make_change i e C) (change_of P i C)"
proof (cases "cont C i")
  case Nil
  then have "(cont C)(i := []) = cont C" by (simp add: fun_upd_idem)
  with Nil show ?thesis
    by (cases "P i (loc C i)"; cases C)
      (auto simp: spec_step_def client_step_def change_of_def make_change_def awork_def
        Let_def split: prod.splits)
next
  case (Cons x rest)
  then show ?thesis
    by (cases "decide x i (st C)"; cases C)
      (auto simp: spec_step_def client_step_def change_of_def make_change_def aexec_def Let_def
        split: prod.splits)
qed

lemma effect_sel [simp]:
  "a_thr (effect i p t r a) = a_thr a" "a_mx (effect i p t r a) = do_mop i p (a_mx a)"
  "a_clk (effect i p t r a) = (a_clk a)(i := a_clk a i + t)" "a_run (effect i p t r a) = (a_run a)(i := r)"
  by (simp_all add: effect_def)

lemma make_change_sel [simp]:
  "st (make_change i e C) = effect i (c_mop e) (c_time e) (c_run e) (st C)"
  "cont (make_change i e C) = (cont C)(i := c_cont e)" "loc (make_change i e C) = (loc C)(i := c_loc e)"
  "dep (make_change i e C) = (dep C)(i := c_dep e)" "lockg (make_change i e C) = lockg C @ c_log e"
  "dat (make_change i e C) = (case c_dat e of None \<Rightarrow> dat C | Some (m, d) \<Rightarrow> (dat C)(m := d))"
  by (simp_all add: make_change_def)

section \<open>The invariant\<close>

text \<open>What is true of a thread by its place in the code.\<close>

fun place_ok :: "ast \<Rightarrow> nat \<Rightarrow> mstep list \<Rightarrow> bool" where
  "place_ok a i [] = True"
| "place_ok a i [Lock m] = True"
| "place_ok a i [LockQ m lret] = (\<not> a_run a i \<and> a_live (a_mx a m))"
| "place_ok a i [LockTry m lret c] =
     (\<not> a_run a i \<and> a_live (a_mx a m) \<and> aturn a i \<and> c = a_clk a i
      \<and> i \<in> set (a_queue (a_mx a m)))"
| "place_ok a i [LockSpin m lret] =
     (\<not> a_run a i \<and> a_live (a_mx a m) \<and> i \<in> set (a_queue (a_mx a m)))"
| "place_ok a i [Unlock m incr] = (0 \<le> incr)"
| "place_ok a i [UnlockP m lret incr] = (\<not> a_run a i \<and> 0 \<le> incr \<and>
     a_holder (a_mx a m) = Some i \<and> a_rel (a_mx a m) = a_clk a i \<and> a_ref (a_mx a m) = 0)"
| "place_ok a i [UnlockEnd lret incr] = (\<not> a_run a i \<and> 0 \<le> incr)"
| "place_ok a i _ = False"

lemma place_okE [consumes 1, case_names Lock LockQ LockTry LockSpin Unlock UnlockP UnlockEnd]:
  assumes "place_ok a i (x # rest)"
  obtains m where "x = Lock m" "rest = []"
  | m lret where "x = LockQ m lret" "rest = []" "\<not> a_run a i" "a_live (a_mx a m)"
  | m lret c where "x = LockTry m lret c" "rest = []" "\<not> a_run a i" "aturn a i" "c = a_clk a i"
      "a_live (a_mx a m)" "i \<in> set (a_queue (a_mx a m))"
  | m lret where "x = LockSpin m lret" "rest = []" "\<not> a_run a i" "a_live (a_mx a m)"
      "i \<in> set (a_queue (a_mx a m))"
  | m incr where "x = Unlock m incr" "rest = []" "0 \<le> incr"
  | m lret incr where "x = UnlockP m lret incr" "rest = []" "0 \<le> incr" "\<not> a_run a i" "a_holder (a_mx a m) = Some i"
      "a_rel (a_mx a m) = a_clk a i" "a_ref (a_mx a m) = 0"
  | lret incr where "x = UnlockEnd lret incr" "rest = []" "0 \<le> incr" "\<not> a_run a i"
  using assms by (cases "(a, i, x # rest)" rule: place_ok.cases) auto

fun waits_for :: "maddr \<Rightarrow> mstep list \<Rightarrow> bool" where
  "waits_for m [LockTry m' lret c] = (m' = m)"
| "waits_for m [LockSpin m' lret] = (m' = m)"
| "waits_for m _ = False"

text \<open>How often a thread holds a mutex, the call of \<^verbatim>\<open>det_unlock\<close> included that has not
  started yet.\<close>

fun unlocks :: "maddr \<Rightarrow> mstep list \<Rightarrow> bool" where
  "unlocks m [Unlock m' incr] = (m' = m)"
| "unlocks m _ = False"

definition holds :: "('s, 'l, 'd) cfg \<Rightarrow> nat \<Rightarrow> maddr \<Rightarrow> nat" where
  "holds C i m = dep C i m + (if unlocks m (cont C i) then 1 else 0)"

definition mx_ok :: "(ast, 'l, 'd) cfg \<Rightarrow> maddr \<Rightarrow> bool" where
  "mx_ok C m \<longleftrightarrow> (let x = a_mx (st C) m in
     0 \<le> a_ref x \<and> distinct (a_queue x)
     \<and> (\<forall>i \<in> set (a_queue x). i < a_thr (st C) \<and> waits_for m (cont C i))
     \<and> (\<forall>i. holds C i m > 0 \<longrightarrow> a_owner x = int i \<and> a_ref x = int (holds C i m) \<and> a_holder x = Some i)
     \<and> (a_ref x > 0 \<longrightarrow> (\<exists>i. holds C i m > 0)))"

definition spec_inv :: "(ast, 'l, 'd) cfg \<Rightarrow> bool" where
  "spec_inv C \<longleftrightarrow> (\<forall>i. place_ok (st C) i (cont C i)) \<and> (\<forall>m. mx_ok C m)"

lemma spec_invD:
  assumes "spec_inv C"
  shows "place_ok (st C) i (cont C i)" "mx_ok C m"
  using assms by (simp_all add: spec_inv_def)

lemma mx_okD:
  assumes "mx_ok C m"
  shows "0 \<le> a_ref (a_mx (st C) m)" "distinct (a_queue (a_mx (st C) m))"
    "\<And>i. i \<in> set (a_queue (a_mx (st C) m)) \<Longrightarrow> i < a_thr (st C) \<and> waits_for m (cont C i)"
    "\<And>i. holds C i m > 0 \<Longrightarrow> a_owner (a_mx (st C) m) = int i
       \<and> a_ref (a_mx (st C) m) = int (holds C i m) \<and> a_holder (a_mx (st C) m) = Some i"
    "a_ref (a_mx (st C) m) > 0 \<Longrightarrow> \<exists>i. holds C i m > 0"
  using assms by (auto simp: mx_ok_def Let_def)

lemma owner_holds:
  assumes "mx_ok C m" and "a_ref (a_mx (st C) m) > 0" and "a_owner (a_mx (st C) m) = int i"
  shows "a_ref (a_mx (st C) m) = int (holds C i m)" "a_holder (a_mx (st C) m) = Some i"
proof -
  from mx_okD(5) [OF assms(1,2)] obtain j where j: "holds C j m > 0" by blast
  with mx_okD(4) [OF assms(1) j] assms(3) have "i = j" by simp
  with mx_okD(4) [OF assms(1) j]
  show "a_ref (a_mx (st C) m) = int (holds C i m)" "a_holder (a_mx (st C) m) = Some i" by simp_all
qed

text \<open>When a thread may change a mutex.\<close>

fun mop_legal :: "ast \<Rightarrow> nat \<Rightarrow> mop \<Rightarrow> bool" where
  "mop_legal a i Keep = True"
| "mop_legal a i (Enqueue m) = aturn a i"
| "mop_legal a i (Acquire m) = (aturn a i \<and> grantable (a_mx a m) i (a_clk a i))"
| "mop_legal a i (Relock m) =
     (a_owner (a_mx a m) = int i \<and> a_ref (a_mx a m) > 0 \<and> a_holder (a_mx a m) = Some i)"
| "mop_legal a i (Unref m) =
     (a_owner (a_mx a m) = int i \<and> a_ref (a_mx a m) > 1 \<and> a_holder (a_mx a m) = Some i)"
| "mop_legal a i (Release m c) =
     (a_owner (a_mx a m) = int i \<and> a_ref (a_mx a m) = 1 \<and> a_holder (a_mx a m) = Some i \<and> c = a_clk a i)"
| "mop_legal a i (Free m) =
     (a_holder (a_mx a m) = Some i \<and> a_rel (a_mx a m) = a_clk a i \<and> a_ref (a_mx a m) = 0)"

definition legal :: "nat \<Rightarrow> ('l, 'd) change \<Rightarrow> (ast, 'l, 'd) cfg \<Rightarrow> bool" where
  "legal i e C \<longleftrightarrow> i < a_thr (st C) \<and> 0 \<le> c_time e \<and> mop_legal (st C) i (c_mop e)
     \<and> (\<forall>m d. c_dat e = Some (m, d) \<longrightarrow> dep C i m > 0)
     \<and> (c_log e \<noteq> [] \<longrightarrow> aturn (st C) i)"

lemma change_legal:
  assumes inv: "spec_inv C" and ch: "change_of P i C = Some e"
  shows "legal i e C"
proof (cases "cont C i")
  case Nil
  with ch show ?thesis
    by (auto simp: change_of_def legal_def Let_def split: action.splits if_splits prod.splits)
next
  case (Cons x rest)
  note place = spec_invD(1) [OF inv, of i]
  have own: "a_owner (a_mx (st C) m) = int i \<and> a_ref (a_mx (st C) m) = int (holds C i m)
      \<and> a_holder (a_mx (st C) m) = Some i \<and> holds C i m > 0" if "unlocks m (cont C i)" for m
    using mx_okD(4) [OF spec_invD(2) [OF inv], of i m] that by (simp add: holds_def)
  have re: "a_holder (a_mx (st C) m) = Some i"
    if "a_ref (a_mx (st C) m) > 0" "a_owner (a_mx (st C) m) = int i" for m
    using owner_holds(2) [OF spec_invD(2) [OF inv] that] .
  from place ch Cons own re show ?thesis
    by (cases "(st C, i, cont C i)" rule: place_ok.cases)
      (auto simp: change_of_def legal_def Let_def split: if_splits)
qed

section \<open>Steps of different threads commute\<close>

lemma aturn_later:
  "aturn a j \<Longrightarrow> i \<noteq> j \<Longrightarrow> 0 \<le> t \<Longrightarrow> aturn (effect i p t r a) j"
  by (auto simp: aturn_def behind_def)

lemma aturn_unique: "aturn a i \<Longrightarrow> aturn a j \<Longrightarrow> i < a_thr a \<Longrightarrow> j < a_thr a \<Longrightarrow> i = j"
  unfolding aturn_def using behind_total [of i j] by metis

lemma aturn_clk: "aturn a j \<Longrightarrow> i < a_thr a \<Longrightarrow> a_clk a j \<le> a_clk a i"
  by (cases "i = j") (auto simp: aturn_def behind_def not_less)

text \<open>What a thread can tell about a mutex does not change under the steps of others.\<close>

lemma owner_stable:
  assumes inv: "spec_inv C" and ij: "i \<noteq> j" and leg: "mop_legal (st C) i p"
  shows "(a_ref (do_mop i p (a_mx (st C)) m) > 0 \<and> a_owner (do_mop i p (a_mx (st C)) m) = int j) =
    (a_ref (a_mx (st C) m) > 0 \<and> a_owner (a_mx (st C) m) = int j)"
  using owner_holds(2) [OF spec_invD(2) [OF inv], of m j] ij leg
  by (cases p) (auto simp: grantable_def do_mop_apply)

lemma ref_stable:
  assumes "i \<noteq> j" and "mop_legal (st C) i p" and "a_holder (a_mx (st C) m) = Some j"
    and "a_owner (a_mx (st C) m) = int j"
  shows "a_ref (do_mop i p (a_mx (st C)) m) = a_ref (a_mx (st C) m)"
  using assms by (cases p) (auto simp: grantable_def do_mop_apply)

lemma grant_stable:
  assumes ij: "i \<noteq> j" and leg: "mop_legal a i p" and thr: "i < a_thr a" "j < a_thr a"
    and turn: "aturn a j"
  shows "grantable (do_mop i p (a_mx a) m) j (a_clk a j) = grantable (a_mx a m) j (a_clk a j)"
  using ij leg aturn_unique [OF turn _ thr(2,1)] aturn_clk [OF turn thr(1)]
  by (cases p) (auto simp: grantable_def do_mop_apply)

lemma live_stable [simp]: "a_live (do_mop i p f m) = a_live (f m)"
  by (cases p) (auto simp: do_mop_apply)

lemma decide_stable:
  assumes inv: "spec_inv C" and ij: "i \<noteq> j" and leg: "legal i e C"
    and cj: "cont C j = x # rest" and j: "j < a_thr (st C)" and dec: "decide x j (st C) = Some z"
  shows "decide x j (st (make_change i e C)) = Some z"
proof -
  from leg have i: "i < a_thr (st C)" and t: "0 \<le> c_time e" and p: "mop_legal (st C) i (c_mop e)"
    by (auto simp: legal_def)
  note place = spec_invD(1) [OF inv, of j]
  note stable = owner_stable [OF inv ij p] grant_stable [OF ij p i j]
    aturn_later [OF _ ij t, of "st C" "c_mop e" "c_run e"]
  have ref: "a_ref (do_mop i (c_mop e) (a_mx (st C)) m) = a_ref (a_mx (st C) m)"
    if "unlocks m (cont C j)" for m
    using mx_okD(4) [OF spec_invD(2) [OF inv], of j m] that ref_stable [OF ij p]
    by (simp add: holds_def)
  from place cj dec stable ref ij show ?thesis
    by (cases "(st C, j, cont C j)" rule: place_ok.cases) (auto split: if_splits)
qed

lemma change_stable:
  assumes inv: "spec_inv C" and ij: "i \<noteq> j" and leg: "legal i e C" and ch: "change_of P j C = Some e'"
  shows "change_of P j (make_change i e C) = Some e'"
proof (cases "cont C j")
  case Nil
  have dat: "dat (make_change i e C) m = dat C m" if m: "dep C j m > 0" for m
  proof (cases "c_dat e")
    case (Some md)
    obtain n d where md: "c_dat e = Some (n, d)" using Some by (cases md) auto
    with leg have "dep C i n > 0" by (auto simp: legal_def)
    with m ij mx_okD(4) [OF spec_invD(2) [OF inv], of i n] mx_okD(4) [OF spec_invD(2) [OF inv], of j m]
    have "n \<noteq> m" by (auto simp: holds_def)
    with md show ?thesis by simp
  qed simp
  with Nil ch ij show ?thesis
    by (auto simp: change_of_def Let_def split: action.splits if_splits prod.splits)
next
  case (Cons x rest)
  with ch have j: "j < a_thr (st C)" by (auto simp: change_of_def Let_def split: if_splits)
  from Cons ch j obtain z where "decide x j (st C) = Some z"
    by (auto simp: change_of_def Let_def)
  with decide_stable [OF inv ij leg Cons j this] Cons ch ij j show ?thesis
    by (auto simp: change_of_def Let_def)
qed

text \<open>Two changes by different threads do not depend on their order.\<close>

lemma touch_commute:
  assumes "i \<noteq> j" and "mop_legal a i p" and "mop_legal a j q" and "\<not> (aturn a i \<and> aturn a j)"
    and "mop_at p = Some m" and "mop_at q = Some m"
  shows "touch i p (touch j q (a_mx a m)) = touch j q (touch i p (a_mx a m))"
  using assms by (cases p; cases q) (auto simp: grantable_def)

lemma mop_commute:
  assumes "i \<noteq> j" and "mop_legal a i p" and "mop_legal a j q" and "i < a_thr a" and "j < a_thr a"
  shows "do_mop i p (do_mop j q (a_mx a)) = do_mop j q (do_mop i p (a_mx a))"
proof -
  have "\<not> (aturn a i \<and> aturn a j)" using assms aturn_unique [of a i j] by blast
  then show ?thesis using touch_commute [OF assms(1-3)] by (auto simp: fun_eq_iff do_mop_apply)
qed

lemma make_change_commute:
  assumes inv: "spec_inv C" and ij: "i \<noteq> j" and leg: "legal i e C" "legal j e' C"
  shows "make_change i e (make_change j e' C) = make_change j e' (make_change i e C)"
proof -
  have log: "c_log e = [] \<or> c_log e' = []"
    using leg ij aturn_unique [of "st C" i j] by (auto simp: legal_def)
  have mx: "do_mop i (c_mop e) (do_mop j (c_mop e') (a_mx (st C))) =
      do_mop j (c_mop e') (do_mop i (c_mop e) (a_mx (st C)))"
    using leg ij by (intro mop_commute) (auto simp: legal_def)
  have mn: "m \<noteq> n" if "c_dat e = Some (m, v)" "c_dat e' = Some (n, w)" for m n v w
    using leg that ij mx_okD(4) [OF spec_invD(2) [OF inv], of i m]
      mx_okD(4) [OF spec_invD(2) [OF inv], of j n]
    by (auto simp: legal_def holds_def)
  have dat: "dat (make_change i e (make_change j e' C)) = dat (make_change j e' (make_change i e C))"
    using mn by (cases "c_dat e"; cases "c_dat e'") (auto simp: fun_upd_twist)
  have st: "st (make_change i e (make_change j e' C)) = st (make_change j e' (make_change i e C))"
    using mx ij by (simp add: effect_def fun_upd_twist)
  show ?thesis
    using log ij by (intro cfg.equality dat st) (auto simp: fun_upd_twist)
qed

section \<open>Every step keeps the invariant\<close>

text \<open>The thread that takes the step.\<close>

lemma step_place:
  assumes inv: "spec_inv C" and ch: "change_of P i C = Some e"
  shows "place_ok (st (make_change i e C)) i (c_cont e)"
proof (cases "cont C i")
  case Nil
  with ch show ?thesis
    by (auto simp: change_of_def Let_def split: action.splits if_splits prod.splits)
next
  case (Cons x rest)
  note place = spec_invD(1) [OF inv, of i]
  have turn: "aturn (effect i p 0 r (st C)) i = aturn (st C) i" for p r
    by (simp add: aturn_def)
  have own: "a_ref (a_mx (st C) m) \<ge> 1 \<and> a_holder (a_mx (st C) m) = Some i"
    if "unlocks m (cont C i)" for m
    using mx_okD(4) [OF spec_invD(2) [OF inv], of i m] that by (simp add: holds_def)
  from place ch Cons turn own show ?thesis
    by (cases "(st C, i, cont C i)" rule: place_ok.cases)
      (auto simp: change_of_def Let_def do_mop_apply split: if_splits)
qed

lemma step_queue:
  assumes inv: "spec_inv C" and ch: "change_of P i C = Some e"
    and q: "i \<in> set (a_queue (do_mop i (c_mop e) (a_mx (st C)) m))"
  shows "waits_for m (c_cont e)"
proof (cases "cont C i")
  case Nil
  with ch q mx_okD(3) [OF spec_invD(2) [OF inv], of i m] show ?thesis
    by (auto simp: change_of_def Let_def split: action.splits if_splits prod.splits)
next
  case (Cons x rest)
  have tl: "i \<notin> set (tl (a_queue (a_mx (st C) m)))" if "grantable (a_mx (st C) m) i c" for c
    using mx_okD(2) [OF spec_invD(2) [OF inv], of m] that
    by (cases "a_queue (a_mx (st C) m)") (auto simp: grantable_def)
  from mx_okD(3) [OF spec_invD(2) [OF inv], of i m]
  have waits: "i \<in> set (a_queue (a_mx (st C) m)) \<longrightarrow> waits_for m (cont C i)" by blast
  from spec_invD(1) [OF inv, of i] Cons have "place_ok (st C) i (x # rest)" by simp
  then show ?thesis
  proof (cases rule: place_okE)
    case (LockTry n lret c)
    with Cons tl waits ch q show ?thesis
      by (cases "n = m") (auto simp: change_of_def Let_def do_mop_apply split: if_splits)
  qed (use Cons waits ch q in \<open>auto simp: change_of_def Let_def do_mop_apply split: if_splits\<close>)
qed

lemma step_enqueue:
  assumes inv: "spec_inv C" and ch: "change_of P i C = Some e" and enq: "c_mop e = Enqueue m"
  shows "i \<notin> set (a_queue (a_mx (st C) m))"
proof (cases "cont C i")
  case Nil
  with ch enq show ?thesis
    by (auto simp: change_of_def Let_def split: action.splits if_splits prod.splits)
next
  case (Cons x rest)
  with spec_invD(1) [OF inv, of i] ch enq mx_okD(3) [OF spec_invD(2) [OF inv], of i m] show ?thesis
    by (cases "(st C, i, cont C i)" rule: place_ok.cases)
      (auto simp: change_of_def Let_def split: if_splits)
qed

text \<open>How the step changes what the thread holds.\<close>

fun mop_holds :: "mop \<Rightarrow> maddr \<Rightarrow> int" where
  "mop_holds (Acquire m') m = (if m' = m then 1 else 0)"
| "mop_holds (Relock m') m = (if m' = m then 1 else 0)"
| "mop_holds (Unref m') m = (if m' = m then -1 else 0)"
| "mop_holds (Release m' c) m = (if m' = m then -1 else 0)"
| "mop_holds _ m = 0"

lemma step_holds:
  assumes inv: "spec_inv C" and ch: "change_of P i C = Some e"
  shows "int (holds (make_change i e C) i m) = int (holds C i m) + mop_holds (c_mop e) m"
proof (cases "cont C i")
  case Nil
  with ch show ?thesis
    by (auto simp: change_of_def holds_def Let_def split: action.splits if_splits prod.splits)
next
  case (Cons x rest)
  with spec_invD(1) [OF inv, of i] ch show ?thesis
    by (cases "(st C, i, cont C i)" rule: place_ok.cases)
      (auto simp: change_of_def holds_def Let_def split: if_splits)
qed

text \<open>The other threads.\<close>

lemma other_queue:
  assumes "i \<noteq> j" and "mop_legal a i p"
  shows "j \<in> set (a_queue (do_mop i p (a_mx a) m)) \<longleftrightarrow> j \<in> set (a_queue (a_mx a m))"
proof (cases p)
  case (Acquire n)
  with assms show ?thesis
    by (cases "a_queue (a_mx a n)") (auto simp: do_mop_apply grantable_def)
qed (use assms in \<open>auto simp: do_mop_apply\<close>)

lemma other_release:
  assumes "i \<noteq> j" and "mop_legal a i p" and "a_holder (a_mx a m) = Some j" and "a_ref (a_mx a m) = 0"
  shows "a_holder (do_mop i p (a_mx a) m) = Some j \<and> a_ref (do_mop i p (a_mx a) m) = 0
    \<and> a_rel (do_mop i p (a_mx a) m) = a_rel (a_mx a m)"
  using assms by (cases p) (auto simp: do_mop_apply grantable_def)

lemma other_place:
  assumes ij: "i \<noteq> j" and leg: "legal i e C" and place: "place_ok (st C) j (cont C j)"
  shows "place_ok (st (make_change i e C)) j (cont C j)"
proof (cases "cont C j")
  case (Cons x rest)
  from leg have t: "0 \<le> c_time e" and p: "mop_legal (st C) i (c_mop e)" by (auto simp: legal_def)
  from place Cons have "place_ok (st C) j (x # rest)" by simp
  then show ?thesis
    by (cases rule: place_okE)
      (use Cons ij other_queue [OF ij p] other_release [OF ij p] aturn_later [OF _ ij t] in auto)
qed simp

lemma other_holds: "i \<noteq> j \<Longrightarrow> holds (make_change i e C) j m = holds C j m"
  by (simp add: holds_def)

text \<open>The mutexes.\<close>

lemma holds_unique:
  "mx_ok C m \<Longrightarrow> holds C i m > 0 \<Longrightarrow> holds C j m > 0 \<Longrightarrow> i = j"
  using mx_okD(4) [of C m i] mx_okD(4) [of C m j] by simp

lemma step_mx_holds:
  assumes inv: "spec_inv C" and ch: "change_of P i C = Some e"
    and h: "holds (make_change i e C) j m > 0"
  shows "a_owner (do_mop i (c_mop e) (a_mx (st C)) m) = int j
    \<and> a_ref (do_mop i (c_mop e) (a_mx (st C)) m) = int (holds (make_change i e C) j m)
    \<and> a_holder (do_mop i (c_mop e) (a_mx (st C)) m) = Some j"
proof -
  have leg: "mop_legal (st C) i (c_mop e)" using change_legal [OF inv ch] by (simp add: legal_def)
  note mx = spec_invD(2) [OF inv, of m]
  show ?thesis
  proof (cases "j = i")
    case True
    have free: "a_holder (a_mx (st C) m) = None" if "c_mop e = Acquire m"
      using leg that by (simp add: grantable_def)
    have held: "a_owner (a_mx (st C) m) = int i \<and> a_ref (a_mx (st C) m) = int (holds C i m)
        \<and> a_holder (a_mx (st C) m) = Some i" if "holds C i m > 0 \<or> mop_at (c_mop e) = Some m \<and>
          c_mop e \<noteq> Acquire m \<and> c_mop e \<noteq> Enqueue m \<and> c_mop e \<noteq> Free m"
      using that leg mx_okD(4) [OF mx, of i] owner_holds [OF mx, of i] by (cases "c_mop e") auto
    show ?thesis
      using True h step_holds [OF inv ch, of m] leg free held
      by (cases "c_mop e"; simp add: do_mop_apply split: if_splits; force)
  next
    case False
    with h have "holds C j m > 0" by (simp add: other_holds)
    with mx_okD(4) [OF mx this] False leg show ?thesis
      by (cases "c_mop e") (auto simp: do_mop_apply grantable_def other_holds)
  qed
qed

lemma step_mx_ref:
  assumes inv: "spec_inv C" and ch: "change_of P i C = Some e"
    and r: "a_ref (do_mop i (c_mop e) (a_mx (st C)) m) > 0"
  shows "\<exists>j. holds (make_change i e C) j m > 0"
proof -
  have leg: "mop_legal (st C) i (c_mop e)" using change_legal [OF inv ch] by (simp add: legal_def)
  note mx = spec_invD(2) [OF inv, of m]
  note own = step_holds [OF inv ch, of m]
  show ?thesis
  proof (cases "mop_holds (c_mop e) m = 0")
    case True
    with r leg have "a_ref (a_mx (st C) m) > 0"
      by (cases "c_mop e") (auto simp: do_mop_apply split: if_splits)
    with mx_okD(5) [OF mx] obtain j where "holds C j m > 0" by blast
    with own True have "holds (make_change i e C) j m > 0"
      by (cases "j = i") (auto simp: other_holds)
    then show ?thesis ..
  next
    case False
    with own r leg owner_holds(1) [OF mx, of i] have "holds (make_change i e C) i m > 0"
      by (cases "c_mop e") (auto simp: do_mop_apply split: if_splits)
    then show ?thesis ..
  qed
qed

lemma step_mx_queue:
  assumes inv: "spec_inv C" and ch: "change_of P i C = Some e"
  shows "distinct (a_queue (do_mop i (c_mop e) (a_mx (st C)) m))"
    and "0 \<le> a_ref (do_mop i (c_mop e) (a_mx (st C)) m)"
proof -
  have leg: "mop_legal (st C) i (c_mop e)" using change_legal [OF inv ch] by (simp add: legal_def)
  note mx = mx_okD(1,2) [OF spec_invD(2) [OF inv, of m]]
  show "distinct (a_queue (do_mop i (c_mop e) (a_mx (st C)) m))"
    using mx step_enqueue [OF inv ch, of m]
    by (cases "c_mop e") (auto simp: do_mop_apply distinct_tl)
  show "0 \<le> a_ref (do_mop i (c_mop e) (a_mx (st C)) m)"
    using mx leg by (cases "c_mop e") (auto simp: do_mop_apply)
qed

lemma step_mx_ok:
  assumes inv: "spec_inv C" and ch: "change_of P i C = Some e"
  shows "mx_ok (make_change i e C) m"
proof -
  have leg: "legal i e C" by (rule change_legal [OF inv ch])
  then have p: "mop_legal (st C) i (c_mop e)" and i: "i < a_thr (st C)" by (auto simp: legal_def)
  have "j < a_thr (st C) \<and> waits_for m (cont (make_change i e C) j)"
    if "j \<in> set (a_queue (do_mop i (c_mop e) (a_mx (st C)) m))" for j
    using that step_queue [OF inv ch, of m] i mx_okD(3) [OF spec_invD(2) [OF inv], of j m]
      other_queue [OF _ p, of j m]
    by (cases "j = i") auto
  then show ?thesis
    using step_mx_queue [OF inv ch] step_mx_holds [OF inv ch] step_mx_ref [OF inv ch]
    by (simp add: mx_ok_def Let_def)
qed

lemma spec_inv_step:
  assumes inv: "spec_inv C" and st: "spec_step P i C = Some C'"
  shows "spec_inv C'"
proof -
  from st obtain e where ch: "change_of P i C = Some e" and C': "C' = make_change i e C"
    by (auto simp: spec_step_change)
  have "place_ok (st C') j (cont C' j)" for j
    using step_place [OF inv ch] other_place [OF _ change_legal [OF inv ch] spec_invD(1) [OF inv], of j] C'
    by (cases "j = i") auto
  with step_mx_ok [OF inv ch] C' show ?thesis by (simp add: spec_inv_def)
qed

interpretation spec: commuting_steps "spec_step P" spec_inv for P
proof
  show "spec_inv C'" if "spec_inv C" "spec_step P i C = Some C'"
    for C C' :: "(ast, 'a, 'b) cfg" and i
    using that by (rule spec_inv_step)
  show "\<exists>D. spec_step P j A = Some D \<and> spec_step P i B = Some D"
    if inv: "spec_inv C" and ij: "i \<noteq> j" and A: "spec_step P i C = Some A" and B: "spec_step P j C = Some B"
    for C A B :: "(ast, 'a, 'b) cfg" and i j
  proof -
    from A obtain e where e: "change_of P i C = Some e" "A = make_change i e C"
      by (auto simp: spec_step_change)
    from B obtain e' where e': "change_of P j C = Some e'" "B = make_change j e' C"
      by (auto simp: spec_step_change)
    note leg = change_legal [OF inv e(1)] change_legal [OF inv e'(1)]
    from ij e e' change_stable [OF inv _ leg(1)] change_stable [OF inv _ leg(2)]
      make_change_commute [OF inv ij leg]
    show ?thesis by (auto simp: spec_step_change)
  qed
qed

end
