(* ===== verification/Refine.thy ===== *)
theory Refine
  imports Arbiter
begin

text \<open>
  The code's model implements the specification: \<open>abs_rt\<close> forgets the performance
  counters, the statistics and the layout of the queues, and every piece of
  \<^verbatim>\<open>det_lock\<close> and \<^verbatim>\<open>det_unlock\<close> does to the abstract state what \<open>decide\<close> says.  The
  runtime state must be well formed: determinism on, fewer than \<^verbatim>\<open>MAX_THR\<close> threads
  (a queue of \<^verbatim>\<open>MAX_THR\<close> slots stores one item less), mutexes initialised by
  \<^verbatim>\<open>det_lock_init\<close> or not at all.
\<close>

section \<open>Abstraction\<close>

definition abs_mx :: "det_mutex \<Rightarrow> amx" where
  "abs_mx x = \<lparr>a_live = mx_id x > 0, a_holder = mx_mutex x, a_rel = released_logical_time x,
     a_owner = owner x, a_ref = ref x, a_queue = qlist (mx_queue x)\<rparr>"

definition abs_rt :: "rt \<Rightarrow> ast" where
  "abs_rt s = \<lparr>a_clk = lclock s, a_run = (\<lambda>i. hw_clock_enabled (wa s i)), a_thr = max_thr s,
     a_mx = (\<lambda>m. abs_mx (mutexes s m))\<rparr>"

definition abs_cfg :: "(rt, 'l, 'd) cfg \<Rightarrow> (ast, 'l, 'd) cfg" where
  "abs_cfg C = \<lparr>st = abs_rt (st C), cont = cont C, loc = loc C, dat = dat C, dep = dep C, lockg = lockg C\<rparr>"

definition thr_ok :: "rt \<Rightarrow> nat \<Rightarrow> bool" where
  "thr_ok s i \<longleftrightarrow> clk_ok s i \<and> w_fds (wa s i) = FdsOpen \<and> my_det_enabled (tls s i)"

definition mutex_ok :: "det_mutex \<Rightarrow> bool" where
  "mutex_ok x \<longleftrightarrow> 0 \<le> mx_id x \<and> (0 < mx_id x \<longrightarrow> qwf (mx_queue x) \<and> qsize (mx_queue x) = MAX_THR)"

definition rt_ok :: "rt \<Rightarrow> bool" where
  "rt_ok s \<longleftrightarrow> 1 < num_thr s \<and> max_thr s < MAX_THR \<and> (\<forall>i < max_thr s. thr_ok s i)
     \<and> (\<forall>m. mutex_ok (mutexes s m))"

lemma abs_mx_sel [simp]:
  "a_live (abs_mx x) = (mx_id x > 0)" "a_holder (abs_mx x) = mx_mutex x"
  "a_rel (abs_mx x) = released_logical_time x" "a_owner (abs_mx x) = owner x"
  "a_ref (abs_mx x) = ref x" "a_queue (abs_mx x) = qlist (mx_queue x)"
  by (simp_all add: abs_mx_def)

lemma abs_rt_sel [simp]:
  "a_clk (abs_rt s) = lclock s" "a_run (abs_rt s) i = hw_clock_enabled (wa s i)"
  "a_thr (abs_rt s) = max_thr s" "a_mx (abs_rt s) m = abs_mx (mutexes s m)"
  by (simp_all add: abs_rt_def)

lemma abs_cfg_sel [simp]:
  "st (abs_cfg C) = abs_rt (st C)" "cont (abs_cfg C) = cont C" "loc (abs_cfg C) = loc C"
  "dat (abs_cfg C) = dat C" "dep (abs_cfg C) = dep C" "lockg (abs_cfg C) = lockg C"
  by (simp_all add: abs_cfg_def)

lemma aturn_abs [simp]: "aturn (abs_rt s) i = has_turn s i"
  by (simp add: aturn_def has_turn_iff)

text \<open>What the elementary operations of the code do to the abstract state.\<close>

lemma abs_stop [rt_simps]: "abs_rt (stop_clock i s) = effect i Keep 0 False (abs_rt s)"
  by (rule ast.equality) (auto simp: effect_def abs_rt_def fun_eq_iff)

lemma abs_start [rt_simps]: "thr_ok s i \<Longrightarrow> abs_rt (start_clock i s) = effect i Keep 0 True (abs_rt s)"
  by (rule ast.equality) (auto simp: effect_def abs_rt_def fun_eq_iff thr_ok_def)

lemma abs_add_sw [rt_simps]:
  "abs_rt (add_sw_clock i n s) = effect i Keep n (hw_clock_enabled (wa s i)) (abs_rt s)"
  by (rule ast.equality) (auto simp: effect_def abs_rt_def fun_eq_iff)

lemma abs_tls [rt_simps]: "abs_rt (s\<lparr>tls := f\<rparr>) = abs_rt s"
  by (simp add: abs_rt_def)

lemma lclock_frame [simp]:
  "lclock (s\<lparr>last_sync_logical_time := c\<rparr>) = lclock s" "lclock (s\<lparr>mutexes := f\<rparr>) = lclock s"
  "lclock (s\<lparr>conds := g\<rparr>) = lclock s"
  by (simp_all add: lclock_def fun_eq_iff)

lemma abs_sync [rt_simps]: "abs_rt (s\<lparr>last_sync_logical_time := c\<rparr>) = abs_rt s"
  by (simp add: abs_rt_def)

lemma abs_mutexes [rt_simps]:
  "abs_rt (s\<lparr>mutexes := f\<rparr>) = (abs_rt s)\<lparr>a_mx := (\<lambda>m. abs_mx (f m))\<rparr>"
  by (simp add: abs_rt_def)

text \<open>They keep the state well formed.\<close>

lemma thr_ok_frame [simp]:
  "thr_ok (s\<lparr>last_sync_logical_time := c\<rparr>) i = thr_ok s i" "thr_ok (s\<lparr>mutexes := f\<rparr>) i = thr_ok s i"
  "thr_ok (add_sw_clock j n s) i = thr_ok s i"
  "my_det_enabled l = my_det_enabled (tls s j) \<Longrightarrow> thr_ok (s\<lparr>tls := (tls s)(j := l)\<rparr>) i = thr_ok s i"
  by (auto simp: thr_ok_def) (simp_all add: clk_ok_def)

lemma thr_ok_clock [simp]:
  "thr_ok s i \<Longrightarrow> thr_ok (stop_clock j s) i" "thr_ok s i \<Longrightarrow> thr_ok (start_clock j s) i"
  by (auto simp: thr_ok_def)

lemma rt_ok_clock [simp]:
  "rt_ok s \<Longrightarrow> rt_ok (stop_clock j s)" "rt_ok s \<Longrightarrow> rt_ok (start_clock j s)"
  "rt_ok (add_sw_clock j n s) = rt_ok s" "rt_ok (s\<lparr>last_sync_logical_time := c\<rparr>) = rt_ok s"
  "my_det_enabled l = my_det_enabled (tls s j) \<Longrightarrow> rt_ok (s\<lparr>tls := (tls s)(j := l)\<rparr>) = rt_ok s"
  by (auto simp: rt_ok_def)

lemma rt_ok_mutex [simp]:
  "rt_ok s \<Longrightarrow> mutexes s = f \<Longrightarrow> mutex_ok x \<Longrightarrow> rt_ok (s\<lparr>mutexes := f(m := x)\<rparr>)"
  by (auto simp: rt_ok_def)

lemma rt_okD:
  assumes "rt_ok s"
  shows "i < max_thr s \<Longrightarrow> thr_ok s i" "i < max_thr s \<Longrightarrow> clk_ok s i"
    "i < max_thr s \<Longrightarrow> w_fds (wa s i) = FdsOpen" "i < max_thr s \<Longrightarrow> det_is_enabled i s"
    "mutex_ok (mutexes s m)" "max_thr s < MAX_THR"
  using assms by (auto simp: rt_ok_def thr_ok_def det_is_enabled_def)

section \<open>The pieces\<close>

definition implements :: "piece \<Rightarrow> (ast \<times> mstep list) option \<Rightarrow> bool" where
  "implements r q \<longleftrightarrow> map_option (map_prod abs_rt (\<lambda>k. k)) r = q
     \<and> (case r of None \<Rightarrow> True | Some (s', _) \<Rightarrow> rt_ok s')"

lemma turn_eq:
  assumes "rt_ok s" and "i < max_thr s" and "\<not> hw_clock_enabled (wa s i)"
  obtains l where "wait_for_turn i s =
      Some (if has_turn s i then Some (lclock s i) else None, s\<lparr>tls := (tls s)(i := l)\<rparr>)"
    "my_det_enabled l = my_det_enabled (tls s i)"
  using wait_for_turn_eq [of s i] rt_okD(2) [OF assms(1)] assms(2,3) by blast

lemma turn_comes_iff:
  assumes "rt_ok s" and "i < max_thr s" and "\<not> hw_clock_enabled (wa s i)"
  shows "turn_comes i s = has_turn s i"
  by (rule turn_eq [OF assms]) (simp add: turn_comes_def)

lemma lock_out_sim:
  assumes ok: "rt_ok s" and i: "i < max_thr s" and off: "\<not> hw_clock_enabled (wa s i)"
  shows "\<exists>s'. det_lock_out i lret s = Some (s', []) \<and> rt_ok s'
    \<and> abs_rt s' = effect i Keep 1 (lret = 0) (abs_rt s)"
proof -
  have ok': "thr_ok s i" using rt_okD(1) [OF ok i] .
  then have "w_fds (wa s i) \<noteq> FdsFreed" by (simp add: thr_ok_def)
  then have eq: "det_lock_out i lret s = Some (upd_tls i (\<lambda>l. l\<lparr>lock_count := lock_count l + 1, retval := 0\<rparr>)
      (if lret = 0 then start_clock i (add_sw_clock i 1 s) else add_sw_clock i 1 s), [])"
    by (simp add: det_lock_out_def resume_eq)
  show ?thesis
    unfolding eq using ok ok' off by (auto simp: rt_simps effect_def)
qed

lemma lock_sim:
  assumes ok: "rt_ok s" and i: "i < max_thr s"
  shows "implements (det_lock i m s) (aexec (Lock m) i (abs_rt s))"
proof -
  note f = rt_okD [OF ok] mutex_ok_def
  let ?s = "upd_mutex m (\<lambda>x. x\<lparr>ref := ref x + 1\<rparr>) (stop_clock i s)"
  have "rt_ok ?s" using f(5) [of m] ok by (auto simp: mutex_ok_def)
  with lock_out_sim [of ?s i "if hw_clock_enabled (wa s i) then 0 else -1"] i
  obtain s' where s': "det_lock_out i (if hw_clock_enabled (wa s i) then 0 else -1) ?s = Some (s', [])"
    "rt_ok s'" "abs_rt s' = effect i Keep 1 (hw_clock_enabled (wa s i)) (abs_rt ?s)"
    by (auto split: if_splits)
  show ?thesis
    using f(2,4) [OF i] f(5) [of m] ok s'
    by (auto simp: implements_def det_lock_def aexec_def disable_eq mutex_ok_def stopped_def
        rt_simps effect_def do_mop_def abs_mx_def fun_eq_iff intro!: ast.equality)
qed

lemma queue_sim:
  assumes ok: "rt_ok s" and i: "i < max_thr s" and off: "\<not> hw_clock_enabled (wa s i)"
    and live: "mx_id (mutexes s m) > 0" and room: "qlen (mx_queue (mutexes s m)) < max_thr s"
    and turn: "has_turn s i"
  shows "implements (det_lock_queue i m lret s) (aexec (LockQ m lret) i (abs_rt s))"
proof -
  obtain l where l: "wait_for_turn i s = Some (Some (lclock s i), s\<lparr>tls := (tls s)(i := l)\<rparr>)"
    "my_det_enabled l = my_det_enabled (tls s i)"
    using turn by (auto intro: turn_eq [OF ok i off])
  from rt_okD(5) [OF ok, of m] live have q: "qwf (mx_queue (mutexes s m))" "qsize (mx_queue (mutexes s m)) = MAX_THR"
    by (auto simp: mutex_ok_def)
  have "qlen (mx_queue (mutexes s m)) < qcap (mx_queue (mutexes s m))"
    using room rt_okD(6) [OF ok] q(2) by linarith
  with AddQ_room [OF q(1) this, of i] q(2) obtain q' where
    q': "AddQ (mx_queue (mutexes s m)) i = Some (1, q')" "qwf q'"
      "qlist q' = qlist (mx_queue (mutexes s m)) @ [i]" "qsize q' = MAX_THR" by auto
  show ?thesis
    using l q q' turn off live ok
    by (auto simp: implements_def det_lock_queue_def aexec_def mutex_ok_def
        rt_simps effect_def do_mop_def abs_mx_def fun_eq_iff intro!: ast.equality)
qed

lemma spin_sim:
  assumes ok: "rt_ok s" and i: "i < max_thr s" and off: "\<not> hw_clock_enabled (wa s i)"
    and turn: "has_turn s i"
  shows "implements (det_lock_spin i m lret s) (aexec (LockSpin m lret) i (abs_rt s))"
proof -
  obtain l where l: "wait_for_turn i s = Some (Some (lclock s i), s\<lparr>tls := (tls s)(i := l)\<rparr>)"
    "my_det_enabled l = my_det_enabled (tls s i)"
    using turn by (auto intro: turn_eq [OF ok i off])
  then show ?thesis
    using turn off ok
    by (auto simp: implements_def det_lock_spin_def aexec_def rt_simps effect_def fun_eq_iff
        intro!: ast.equality)
qed

lemma fail_sim:
  assumes ok: "rt_ok s" and off: "\<not> hw_clock_enabled (wa s i)" and t: "lclock s i < MAX_LOGICAL_CLOCK"
  shows "\<exists>s'. det_lock_fail i m lret s = Some (s', [LockSpin m lret]) \<and> rt_ok s'
    \<and> abs_rt s' = effect i Keep 1 False (abs_rt s)"
  using assms by (auto simp: det_lock_fail_def lclock_GET_CLOCK rt_simps)

lemma try_sim:
  assumes ok: "rt_ok s" and i: "i < max_thr s" and off: "\<not> hw_clock_enabled (wa s i)"
    and live: "mx_id (mutexes s m) > 0" and q: "i \<in> set (qlist (mx_queue (mutexes s m)))"
  shows "implements (det_lock_try i m lret c s) (aexec (LockTry m lret c) i (abs_rt s))"
proof -
  let ?x = "mutexes s m" and ?t = "lclock s i < MAX_LOGICAL_CLOCK"
  from rt_okD(5) [OF ok, of m] live have wf: "qwf (mx_queue ?x)" "qsize (mx_queue ?x) = MAX_THR"
    by (auto simp: mutex_ok_def)
  from q have head: "GetHeadQ (mx_queue ?x) = Some (hd (qlist (mx_queue ?x)))"
    by (auto simp: GetHeadQ_view [OF wf(1)] split: list.splits)
  show ?thesis
  proof (cases "grantable (abs_mx ?x) i c")
    case True
    then obtain rest where r: "qlist (mx_queue ?x) = i # rest"
      by (cases "qlist (mx_queue ?x)") (auto simp: grantable_def)
    from DelQ_Cons [OF wf(1) r] wf(2) obtain q' where
      q': "DelQ (mx_queue ?x) = Some (i, q')" "qwf q'" "qlist q' = rest" "qsize q' = MAX_THR" by auto
    let ?s = "s\<lparr>last_sync_logical_time := lclock s i, mutexes := (mutexes s)
        (m := ?x\<lparr>mx_mutex := Some i, owner := int i, ref := 1, mx_queue := q'\<rparr>)\<rparr>"
    have "rt_ok ?s" using ok live q' by (simp add: mutex_ok_def)
    with lock_out_sim [of ?s i lret] i off obtain s' where
      s': "det_lock_out i lret ?s = Some (s', [])" "rt_ok s'" "abs_rt s' = effect i Keep 1 (lret = 0) (abs_rt ?s)"
      by auto
    have "det_lock_try i m lret c s = (if ?t then Some (s', []) else None)"
      using True head r off q' s' lclock_GET_CLOCK [OF off]
      by (simp add: det_lock_try_def det_lock_acquired_def grantable_def GET_CLOCK_def)
    with s' True r q' show ?thesis
      by (auto simp: implements_def aexec_def rt_simps effect_def do_mop_def abs_mx_def fun_eq_iff
          intro!: ast.equality)
  next
    case False
    have s': "det_lock_try i m lret c s = det_lock_fail i m lret s"
      using False head q off
      by (auto simp: det_lock_try_def grantable_def pthread_unlock_def fun_upd_idem)
    show ?thesis
      using False fail_sim [OF ok off] off lclock_GET_CLOCK [OF off]
      by (cases ?t) (auto simp: implements_def aexec_def s' det_lock_fail_def rt_simps)
  qed
qed

lemma unlock_sim:
  assumes ok: "rt_ok s" and i: "i < max_thr s"
  shows "implements (det_unlock_and_incr_clock i m incr s) (aexec (Unlock m incr) i (abs_rt s))"
proof -
  let ?s = "upd_mutex m (\<lambda>x. x\<lparr>ref := ref x - 1, owner := -1\<rparr>) (stop_clock i s)"
  note x = rt_okD(5) [OF ok, of m]
  have "clk_ok ?s i" using rt_okD(2) [OF ok i] clk_ok_stop [of s i i] by (simp add: clk_ok_def)
  with get_logical_clock_eq [of ?s i i] obtain l where
    l: "get_logical_clock i i ?s = Some (lclock s i, ?s\<lparr>tls := (tls ?s)(i := l)\<rparr>)"
    "my_det_enabled l = my_det_enabled (tls s i)" by auto
  show ?thesis
    using l rt_okD(2,4) [OF ok i] x ok i
    by (auto simp: implements_def det_unlock_and_incr_clock_def aexec_def disable_eq mutex_ok_def
        stopped_def rt_simps effect_def do_mop_def abs_mx_def fun_eq_iff Let_def intro!: ast.equality)
qed

lemma release_sim:
  assumes ok: "rt_ok s" and off: "\<not> hw_clock_enabled (wa s i)"
  shows "implements (det_unlock_release m lret incr s) (aexec (UnlockP m lret incr) i (abs_rt s))"
  using ok off rt_okD(5) [OF ok, of m]
  by (auto simp: implements_def det_unlock_release_def pthread_unlock_def aexec_def mutex_ok_def
      rt_simps effect_def do_mop_def abs_mx_def fun_eq_iff intro!: ast.equality)

lemma unlock_out_sim:
  assumes ok: "rt_ok s" and i: "i < max_thr s" and off: "\<not> hw_clock_enabled (wa s i)"
  shows "implements (det_unlock_out i lret incr s) (aexec (UnlockEnd lret incr) i (abs_rt s))"
proof -
  have ok': "thr_ok s i" using rt_okD(1) [OF ok i] .
  then have "w_fds (wa s i) \<noteq> FdsFreed" by (simp add: thr_ok_def)
  then show ?thesis
    using ok ok' off
    by (auto simp: implements_def det_unlock_out_def aexec_def resume_eq rt_simps effect_def)
qed

lemma work_sim:
  assumes ok: "rt_ok s" and i: "i < max_thr s"
  shows "abs_rt (count_events i n s) = awork i n (abs_rt s)" and "rt_ok (count_events i n s)"
proof -
  have frame: "max_thr (count_events i n s) = max_thr s" "num_thr (count_events i n s) = num_thr s"
    "mutexes (count_events i n s) = mutexes s" "tls (count_events i n s) = tls s" "wa (count_events i n s) = wa s"
    by (simp_all add: count_events_def)
  then show "abs_rt (count_events i n s) = awork i n (abs_rt s)"
    using rt_okD(2) [OF ok i]
    by (auto simp: abs_rt_def awork_def effect_def lclock_count_events fun_eq_iff)
  show "rt_ok (count_events i n s)"
    using ok frame by (auto simp: rt_ok_def thr_ok_def)
qed

text \<open>A queue of distinct threads that does not contain the caller has room for it.\<close>

lemma queue_room:
  assumes "distinct q" and "\<And>j. j \<in> set q \<Longrightarrow> j < n \<and> j \<noteq> i" and "i < (n :: nat)"
  shows "length q < n"
proof -
  from assms have "set q \<subset> {..<n}" by auto
  then have "card (set q) < n" by (metis card_lessThan finite_lessThan psubset_card_mono)
  with assms(1) show ?thesis by (simp add: distinct_card)
qed

lemma exec_sim:
  assumes ok: "rt_ok (st C)" and inv: "spec_inv (abs_cfg C)" and i: "i < max_thr (st C)"
    and c: "cont C i = x # rest"
  shows "implements (if ready x i (st C) then code_exec x i (st C) else None) (aexec x i (abs_rt (st C)))"
proof -
  from spec_invD(1) [OF inv, of i] c have "place_ok (abs_rt (st C)) i (x # rest)" by simp
  then show ?thesis
  proof (cases rule: place_okE)
    case (LockQ m lret)
    note q = mx_okD(2,3) [OF spec_invD(2) [OF inv, of m]]
    have "j < max_thr (st C) \<and> j \<noteq> i" if "j \<in> set (qlist (mx_queue (mutexes (st C) m)))" for j
      using q(2) [of j] that LockQ c by auto
    with queue_room [of "qlist (mx_queue (mutexes (st C) m))" "max_thr (st C)" i] i q(1)
    have "qlen (mx_queue (mutexes (st C) m)) < max_thr (st C)" by simp
    with LockQ queue_sim [OF ok i] turn_comes_iff [OF ok i] show ?thesis
      by (auto simp: code_exec_def implements_def aexec_def)
  next
    case (LockSpin m lret)
    with spin_sim [OF ok i] turn_comes_iff [OF ok i] show ?thesis
      by (auto simp: code_exec_def implements_def aexec_def)
  qed (use ok i lock_sim try_sim unlock_sim release_sim unlock_out_sim in \<open>auto simp: code_exec_def\<close>)
qed

lemma abs_cfg_upd:
  "abs_cfg (C\<lparr>cont := k, loc := l\<rparr>) = (abs_cfg C)\<lparr>cont := k, loc := l\<rparr>"
  "abs_cfg (C\<lparr>cont := k, loc := l, dep := d\<rparr>) = (abs_cfg C)\<lparr>cont := k, loc := l, dep := d\<rparr>"
  "abs_cfg (C\<lparr>loc := l, dat := v\<rparr>) = (abs_cfg C)\<lparr>loc := l, dat := v\<rparr>"
  "abs_cfg (C\<lparr>st := s, loc := l\<rparr>) = (abs_cfg C)\<lparr>st := abs_rt s, loc := l\<rparr>"
  "abs_cfg (C\<lparr>st := s, cont := k, dep := d, lockg := g\<rparr>) =
    (abs_cfg C)\<lparr>st := abs_rt s, cont := k, dep := d, lockg := g\<rparr>"
  by (simp_all add: abs_cfg_def)

lemma code_step_sim:
  assumes ok: "rt_ok (st C)" and inv: "spec_inv (abs_cfg C)"
  shows "map_option abs_cfg (code_step P i C) = spec_step P i (abs_cfg C)
    \<and> (\<forall>C'. code_step P i C = Some C' \<longrightarrow> rt_ok (st C'))"
proof (cases "i < max_thr (st C)")
  case False
  then show ?thesis by (simp add: code_step_def spec_step_def client_step_def)
next
  case True
  show ?thesis
  proof (cases "cont C i")
    case Nil
    with True work_sim [OF ok True] ok show ?thesis
      by (auto simp: code_step_def spec_step_def client_step_def abs_cfg_upd split: action.splits prod.splits)
  next
    case (Cons x rest)
    with exec_sim [OF ok inv True Cons] True show ?thesis
      by (cases "code_exec x i (st C)"; cases "ready x i (st C)")
        (auto simp: code_step_def spec_step_def client_step_def implements_def abs_cfg_upd map_prod_def
          split: prod.splits dest!: sym [of _ "aexec _ _ _"])
  qed
qed

interpretation impl: simulation "code_step P" "spec_step P" abs_cfg "\<lambda>C. rt_ok (st C)" spec_inv for P
  by unfold_locales (use code_step_sim spec_inv_step in blast)+

end
