(* ===== verification/Determinism.thy ===== *)
theory Determinism
  imports Refine
begin

text \<open>
  What programs that synchronise with \<^verbatim>\<open>det_lock\<close> and \<^verbatim>\<open>det_unlock\<close> may rely on: the
  result does not depend on the scheduler, the mutexes exclude each other, and locks
  are granted in the order of logical time.
\<close>

section \<open>Where a program starts\<close>

definition initial :: "(rt, 'l, 'd) cfg \<Rightarrow> bool" where
  "initial C \<longleftrightarrow> rt_ok (st C) \<and> (\<forall>i. cont C i = [] \<and> dep C i = (\<lambda>m. 0)) \<and> lockg C = []
     \<and> (\<forall>m. ref (mutexes (st C) m) = 0 \<and> qlist (mx_queue (mutexes (st C) m)) = [])"

lemma initial_inv: "initial C \<Longrightarrow> rt_ok (st C) \<and> spec_inv (abs_cfg C)"
  by (auto simp: initial_def spec_inv_def mx_ok_def holds_def Let_def)

lemma run_inv:
  assumes "initial C" and "sched_run (code_step P) sch C = Some A"
  shows "rt_ok (st A)" "spec_inv (abs_cfg A)"
  using impl.inv_run [OF _ _ assms(2)] initial_inv [OF assms(1)] by blast+

lemma run_abs:
  assumes "initial C" and "sched_run (code_step P) sch C = Some A"
  shows "sched_run (spec_step P) sch (abs_cfg C) = Some (abs_cfg A)"
  using impl.sim_run [where c = C and sch = sch and P = P] initial_inv [OF assms(1)] assms(2) by simp

lemma stuck_abs:
  assumes "initial C" and "sched_run (code_step P) sch C = Some A"
  shows "stuck (code_step P) A = stuck (spec_step P) (abs_cfg A)"
  using impl.sim_stuck run_inv [OF assms] by blast

lemma same_view:
  assumes "abs_cfg A = abs_cfg B"
  shows "loc A = loc B" "dat A = dat B" "dep A = dep B" "lockg A = lockg B" "cont A = cont B"
    "lclock (st A) = lclock (st B)"
  using assms by (simp_all add: abs_cfg_def abs_rt_def)

section \<open>Acquisitions by logical time\<close>

definition earlier :: "int \<times> nat \<times> maddr \<Rightarrow> int \<times> nat \<times> maddr \<Rightarrow> bool" where
  "earlier = (\<lambda>(c, i, _) (c', i', _). c < c' \<or> c = c' \<and> i < i')"

definition log_ok :: "(ast, 'l, 'd) cfg \<Rightarrow> bool" where
  "log_ok C \<longleftrightarrow> sorted_wrt earlier (lockg C)
     \<and> (\<forall>(c, k, m) \<in> set (lockg C). \<forall>j < a_thr (st C). c < a_clk (st C) j \<or> c = a_clk (st C) j \<and> k < j)"

lemma step_log:
  assumes inv: "spec_inv C" and ch: "change_of P i C = Some e"
  shows "c_log e = [] \<or> (\<exists>m. c_log e = [(a_clk (st C) i, i, m)] \<and> aturn (st C) i \<and> c_time e = 1)"
proof (cases "cont C i")
  case Nil
  with ch show ?thesis
    by (auto simp: change_of_def Let_def split: action.splits if_splits prod.splits)
next
  case (Cons x rest)
  from spec_invD(1) [OF inv, of i] Cons have "place_ok (st C) i (x # rest)" by simp
  then show ?thesis
    by (cases rule: place_okE) (use ch Cons in \<open>auto simp: change_of_def Let_def split: if_splits\<close>)
qed

lemma log_ok_step:
  assumes inv: "spec_inv C" and log: "log_ok C" and st: "spec_step P i C = Some C'"
  shows "log_ok C'"
proof -
  from st obtain e where ch: "change_of P i C = Some e" and C': "C' = make_change i e C"
    by (auto simp: spec_step_change)
  from change_legal [OF inv ch] have i: "i < a_thr (st C)" and t: "0 \<le> c_time e"
    by (auto simp: legal_def)
  have old: "c < a_clk (st C') j \<or> c = a_clk (st C') j \<and> k < j"
    if "(c, k, m) \<in> set (lockg C)" "j < a_thr (st C)" for c k m j
  proof -
    from log that have "c < a_clk (st C) j \<or> c = a_clk (st C) j \<and> k < j"
      unfolding log_ok_def by blast
    with t C' show ?thesis by (cases "j = i") auto
  qed
  have thr: "a_thr (st C') = a_thr (st C)" and lg: "lockg C' = lockg C @ c_log e" using C' by simp_all
  have sorted: "sorted_wrt earlier (lockg C)" using log by (simp add: log_ok_def)
  from step_log [OF inv ch] show ?thesis
  proof (elim disjE exE conjE)
    assume "c_log e = []"
    with sorted old show ?thesis unfolding log_ok_def thr lg by auto
  next
    fix m assume l: "c_log e = [(a_clk (st C) i, i, m)]" and turn: "aturn (st C) i" and e1: "c_time e = 1"
    have new: "a_clk (st C) i < a_clk (st C') j \<or> a_clk (st C) i = a_clk (st C') j \<and> i < j"
      if "j < a_thr (st C)" for j
      using turn that e1 C' by (cases "j = i") (auto simp: aturn_def behind_def)
    have "sorted_wrt earlier (lockg C')"
      using log i l C' by (fastforce simp: log_ok_def sorted_wrt_append earlier_def)
    with old new l show ?thesis unfolding log_ok_def thr lg by auto
  qed
qed

lemma log_ok_run:
  assumes "spec_inv C" and "log_ok C" and "sched_run (spec_step P) sch C = Some A"
  shows "log_ok A"
proof -
  have step: "spec_inv c' \<and> log_ok c'" if "spec_inv c \<and> log_ok c" "spec_step P i c = Some c'" for i c c'
    using that spec_inv_step log_ok_step by blast
  have "spec_inv A \<and> log_ok A"
    using assms by (intro sched_run_inv [where Q = "\<lambda>C. spec_inv C \<and> log_ok C", OF step _ assms(3)]) auto
  then show ?thesis ..
qed

section \<open>A program\<close>

text \<open>Two threads that each append their number to a list behind a mutex and leave.\<close>

definition demo_prog :: "nat \<Rightarrow> nat \<Rightarrow> (nat, nat list) action" where
  "demo_prog i pc =
     (if pc = 0 then DoLock (Mutex 0) 1
      else if pc = 1 then Access (Mutex 0) (\<lambda>pc xs. (2, xs @ [i]))
      else if pc = 2 then DoUnlock (Mutex 0) 20000000000000 3
      else Done)"

definition demo :: "(rt, nat, nat list) cfg" where
  "demo = \<lparr>st = demo_rt, cont = (\<lambda>i. []), loc = (\<lambda>i. 0), dat = (\<lambda>m. []), dep = (\<lambda>i m. 0), lockg = []\<rparr>"

lemma demo_initial: "initial demo"
  by (simp add: initial_def demo_def rt_ok_def thr_ok_def mutex_ok_def clk_ok_def demo_rt_def
      zero_worker_def zero_mutex_def fresh_counter_def MAX_THR_def)

lemma demo_abs: "abs_cfg demo = \<lparr>st = \<lparr>a_clk = (\<lambda>i. 5), a_run = (\<lambda>i. True), a_thr = 2,
    a_mx = (\<lambda>m. \<lparr>a_live = True, a_holder = None, a_rel = 0, a_owner = -1, a_ref = 0, a_queue = []\<rparr>)\<rparr>,
    cont = (\<lambda>i. []), loc = (\<lambda>i. 0), dat = (\<lambda>m. []), dep = (\<lambda>i m. 0), lockg = []\<rparr>"
  by (simp add: abs_cfg_def abs_rt_def abs_mx_def demo_def demo_rt_def lclock_def zero_worker_def
      zero_mutex_def fresh_counter_def fun_eq_iff)

lemma stuck_two:
  assumes "thr (st A) = 2"
  shows "stuck (client_step thr r x w P) A \<longleftrightarrow>
    client_step thr r x w P 0 A = None \<and> client_step thr r x w P 1 A = None"
proof -
  have "client_step thr r x w P i A = None" if "i \<noteq> 0" "i \<noteq> 1" for i
    using that assms less_2_cases [of i] by (auto simp: client_step_def)
  then show ?thesis unfolding stuck_def by metis
qed

lemma less_two: "(\<forall>j < (2::nat). Q j) \<longleftrightarrow> Q 0 \<and> Q 1"
  by (auto simp: less_2_cases_iff)

lemmas demo_eval = spec_step_def client_step_def demo_prog_def aexec_def awork_def effect_def
  do_mop_def aturn_def grantable_def stopped_def behind_def less_two stuck_two MAX_LOGICAL_CLOCK_def

text \<open>One thread after the other, and interleaved.\<close>

definition demo_seq :: "nat list" where
  "demo_seq = [0, 0, 0, 0, 0, 0, 0, 0, 0, 1, 1, 1, 1, 1, 1, 1, 1, 1, 1, 1, 1, 1]"

definition demo_mix :: "nat list" where
  "demo_mix = [1, 1, 0, 0, 0, 0, 1, 1, 0, 0, 0, 0, 0, 1, 1, 1, 1, 1, 1, 1, 1, 1]"

lemma demo_seq_spec:
  "\<exists>A. sched_run (spec_step demo_prog) demo_seq (abs_cfg demo) = Some A
    \<and> stuck (spec_step demo_prog) A \<and> dat A (Mutex 0) = [0, 1]"
  unfolding demo_abs demo_seq_def by (simp add: demo_eval)

lemma demo_mix_spec:
  "\<exists>A. sched_run (spec_step demo_prog) demo_mix (abs_cfg demo) = Some A
    \<and> stuck (spec_step demo_prog) A \<and> dat A (Mutex 0) = [0, 1]"
  unfolding demo_abs demo_mix_def by (simp add: demo_eval)

lemma demo_run:
  assumes "\<exists>A. sched_run (spec_step demo_prog) sch (abs_cfg demo) = Some A
    \<and> stuck (spec_step demo_prog) A \<and> dat A (Mutex 0) = xs"
  obtains A where "sched_run (code_step demo_prog) sch demo = Some A" "stuck (code_step demo_prog) A"
    "dat A (Mutex 0) = xs"
proof -
  from assms obtain B where B: "sched_run (spec_step demo_prog) sch (abs_cfg demo) = Some B"
    "stuck (spec_step demo_prog) B" "dat B (Mutex 0) = xs" by blast
  with impl.sim_run [where c = demo and sch = sch and P = demo_prog] initial_inv [OF demo_initial]
  obtain A where "sched_run (code_step demo_prog) sch demo = Some A" "abs_cfg A = B" by auto
  with that [of A] stuck_abs [OF demo_initial, of demo_prog sch A] B show ?thesis by auto
qed

section \<open>Properties\<close>

text \<open>C1. Deterministic execution.  Whatever a program does with the data protected by
  its mutexes, and whichever two schedules run it to the end, both runs end with the
  same local states, the same shared data, the same order of lock acquisitions with
  the same logical times and the same clocks, after the same number of steps of each
  thread.\<close>

theorem lock_determinism:
  assumes "initial C"
    and "sched_run (code_step P) sch C = Some A" and "stuck (code_step P) A"
    and "sched_run (code_step P) js C = Some B" and "stuck (code_step P) B"
  shows "loc A = loc B \<and> dat A = dat B \<and> lockg A = lockg B \<and> lclock (st A) = lclock (st B)
    \<and> mset sch = mset js"
proof -
  have "abs_cfg A = abs_cfg B \<and> mset sch = mset js"
    using spec.unique_end [OF _ run_abs [OF assms(1,2)] _ run_abs [OF assms(1,4)]] initial_inv [OF assms(1)]
      stuck_abs [OF assms(1,2)] stuck_abs [OF assms(1,4)] assms(3,5) by simp
  with same_view [of A B] show ?thesis by simp
qed

theorem lock_determinism_witness:
  "\<exists>A B. initial demo \<and> demo_seq \<noteq> demo_mix
    \<and> sched_run (code_step demo_prog) demo_seq demo = Some A \<and> stuck (code_step demo_prog) A
    \<and> sched_run (code_step demo_prog) demo_mix demo = Some B \<and> stuck (code_step demo_prog) B
    \<and> loc A = loc B \<and> dat A = dat B \<and> dat A (Mutex 0) = [0, 1] \<and> lockg A = lockg B
    \<and> lclock (st A) = lclock (st B)"
proof -
  obtain A where A: "sched_run (code_step demo_prog) demo_seq demo = Some A"
    "stuck (code_step demo_prog) A" "dat A (Mutex 0) = [0, 1]" by (rule demo_run [OF demo_seq_spec])
  obtain B where B: "sched_run (code_step demo_prog) demo_mix demo = Some B"
    "stuck (code_step demo_prog) B" "dat B (Mutex 0) = [0, 1]" by (rule demo_run [OF demo_mix_spec])
  from lock_determinism [OF demo_initial A(1,2) B(1,2)] A B demo_initial show ?thesis
    by (auto simp: demo_seq_def demo_mix_def)
qed

text \<open>C13. No schedule can go astray: when one schedule runs the program to an end, every
  other run, wherever it stands, can be continued to the same end, and all together it
  takes the same steps.\<close>

theorem lock_convergence:
  assumes "initial C" and "sched_run (code_step P) sch C = Some A" and "stuck (code_step P) A"
    and "sched_run (code_step P) js C = Some B"
  shows "\<exists>ks A'. sched_run (code_step P) ks B = Some A' \<and> mset js + mset ks = mset sch
    \<and> loc A' = loc A \<and> dat A' = dat A \<and> lockg A' = lockg A \<and> lclock (st A') = lclock (st A)"
proof -
  from spec.joins [OF _ run_abs [OF assms(1,2)] _ run_abs [OF assms(1,4)]] initial_inv [OF assms(1)]
    stuck_abs [OF assms(1,2)] assms(3)
  obtain ks where ks: "sched_run (spec_step P) ks (abs_cfg B) = Some (abs_cfg A)"
    "mset js + mset ks = mset sch" by auto
  with impl.sim_run [OF run_inv [OF assms(1,4)], where P = P and sch = ks] obtain A' where
    "sched_run (code_step P) ks B = Some A'" "abs_cfg A' = abs_cfg A" by auto
  with ks(2) same_view [of A' A] show ?thesis by blast
qed

theorem lock_convergence_witness:
  "\<exists>A B ks A'. sched_run (code_step demo_prog) demo_seq demo = Some A \<and> stuck (code_step demo_prog) A
    \<and> sched_run (code_step demo_prog) [1] demo = Some B
    \<and> sched_run (code_step demo_prog) ks B = Some A' \<and> dat A' = dat A \<and> length ks = 21"
proof -
  obtain A where A: "sched_run (code_step demo_prog) demo_seq demo = Some A"
    "stuck (code_step demo_prog) A" by (rule demo_run [OF demo_seq_spec])
  have "code_step demo_prog 1 demo \<noteq> None"
    by (simp add: code_step_def client_step_def demo_def demo_rt_def demo_prog_def)
  then obtain B where B: "sched_run (code_step demo_prog) [1] demo = Some B" by auto
  from lock_convergence [OF demo_initial A B] obtain ks A' where
    ks: "sched_run (code_step demo_prog) ks B = Some A'" "mset [1] + mset ks = mset demo_seq" "dat A' = dat A"
    by blast
  from ks(2) have "size (mset [1 :: nat] + mset ks) = size (mset demo_seq)" by simp
  then have "length ks = 21" by (simp add: demo_seq_def)
  with A B ks show ?thesis by blast
qed

text \<open>C3. Mutual exclusion: at every moment of every run at most one thread is between
  \<^verbatim>\<open>det_lock\<close> and \<^verbatim>\<open>det_unlock\<close> of a mutex, the pthread mutex inside is locked by it, and
  \<^verbatim>\<open>ref\<close> counts its nesting as long as it is not about to unlock.\<close>

theorem lock_exclusion:
  assumes "initial C" and "sched_run (code_step P) sch C = Some A"
    and "dep A i m > 0"
  shows "mx_mutex (mutexes (st A) m) = Some i \<and> owner (mutexes (st A) m) = int i
    \<and> (\<forall>j. dep A j m > 0 \<longrightarrow> j = i) \<and> (cont A i = [] \<longrightarrow> ref (mutexes (st A) m) = int (dep A i m))"
proof -
  note mx = spec_invD(2) [OF run_inv(2) [OF assms(1,2)], of m]
  have "holds (abs_cfg A) j m > 0" if "dep A j m > 0" for j
    using that by (simp add: holds_def)
  with assms(3) mx_okD(4) [OF mx, of i] holds_unique [OF mx, of i] show ?thesis
    by (auto simp: holds_def)
qed

theorem lock_exclusion_witness:
  "\<exists>A. sched_run (code_step demo_prog) [0, 0, 0, 0] demo = Some A \<and> dep A 0 (Mutex 0) > 0
    \<and> mx_mutex (mutexes (st A) (Mutex 0)) = Some 0 \<and> dep A 1 (Mutex 0) = 0"
proof -
  have "\<exists>B. sched_run (spec_step demo_prog) [0, 0, 0, 0] (abs_cfg demo) = Some B \<and> dep B 0 (Mutex 0) > 0"
    unfolding demo_abs by (simp add: demo_eval)
  with impl.sim_run [where c = demo and sch = "[0, 0, 0, 0]" and P = demo_prog] initial_inv [OF demo_initial]
  obtain A where A: "sched_run (code_step demo_prog) [0, 0, 0, 0] demo = Some A" "dep A 0 (Mutex 0) > 0"
    by (auto simp del: sched_run.simps)
  from lock_exclusion [OF demo_initial A] have
    "mx_mutex (mutexes (st A) (Mutex 0)) = Some 0" "dep A 1 (Mutex 0) > 0 \<longrightarrow> (1::nat) = 0" by blast+
  with A show ?thesis by auto
qed

text \<open>C4. Locks are granted in the order of logical time: in every run the acquisitions
  come with strictly increasing (clock, thread id).\<close>

theorem lock_order:
  assumes "initial C" and "sched_run (code_step P) sch C = Some A"
  shows "sorted_wrt earlier (lockg A)"
proof -
  have "log_ok (abs_cfg C)" using assms(1) by (simp add: initial_def log_ok_def)
  with log_ok_run [OF _ _ run_abs [OF assms]] initial_inv [OF assms(1)] show ?thesis
    by (auto simp: log_ok_def)
qed

theorem lock_order_witness:
  "\<exists>A. sched_run (code_step demo_prog) demo_mix demo = Some A \<and> sorted_wrt earlier (lockg A)
    \<and> dat A (Mutex 0) = [0, 1]"
proof -
  obtain A where A: "sched_run (code_step demo_prog) demo_mix demo = Some A" "dat A (Mutex 0) = [0, 1]"
    by (rule demo_run [OF demo_mix_spec])
  with lock_order [OF demo_initial A(1)] show ?thesis by blast
qed

section \<open>Progress\<close>

lemma decide_turn:
  assumes "place_ok a i (x # rest)" and "aturn a i" and "a_clk a i < MAX_LOGICAL_CLOCK"
    and "\<And>m. a_live (a_mx a m)"
  shows "decide x i a \<noteq> None"
  using assms by (cases rule: place_okE) auto

lemma decide_no_turn:
  assumes "place_ok a i (x # rest)" and "decide x i a = None" and "a_clk a i < MAX_LOGICAL_CLOCK"
    and "\<And>m. a_live (a_mx a m)"
  shows "\<exists>m lret. x = LockQ m lret \<or> x = LockSpin m lret"
  using assms by (cases rule: place_okE) (auto split: if_splits)

text \<open>C14. The runtime never blocks on its own: the thread that has the turn can always go
  on inside \<^verbatim>\<open>det_lock\<close> and \<^verbatim>\<open>det_unlock\<close> (as long as its clock is below
  \<^verbatim>\<open>MAX_LOGICAL_CLOCK\<close>), and a thread that cannot go on there stands in front of
  \<^verbatim>\<open>wait_for_turn\<close>.\<close>

theorem turn_progress:
  assumes "initial C" and "sched_run (code_step P) sch C = Some A" and "\<And>m. mx_id (mutexes (st A) m) > 0"
    and "i < max_thr (st A)" and "cont A i = x # rest" and "lclock (st A) i < MAX_LOGICAL_CLOCK"
  shows "(has_turn (st A) i \<longrightarrow> (\<exists>A'. code_step P i A = Some A'))
    \<and> (code_step P i A = None \<longrightarrow> (\<exists>m lret. x = LockQ m lret \<or> x = LockSpin m lret))"
proof -
  note inv = run_inv [OF assms(1,2)]
  from spec_invD(1) [OF inv(2), of i] assms(5) have place: "place_ok (abs_rt (st A)) i (x # rest)" by simp
  have step: "map_option abs_cfg (code_step P i A) = spec_step P i (abs_cfg A)"
    using code_step_sim [OF inv, of P i] by blast
  then have none: "code_step P i A = None \<longleftrightarrow> decide x i (abs_rt (st A)) = None"
    using assms(4,5) by (auto simp: spec_step_change change_of_def Let_def split: option.splits)
  from decide_turn [OF place] decide_no_turn [OF place] none assms(3,6) show ?thesis by auto
qed

lemma demo_reach:
  assumes "\<exists>B. sched_run (spec_step demo_prog) sch (abs_cfg demo) = Some B \<and> Q B"
  obtains A where "sched_run (code_step demo_prog) sch demo = Some A" "Q (abs_cfg A)"
proof -
  from assms obtain B where B: "sched_run (spec_step demo_prog) sch (abs_cfg demo) = Some B" "Q B" by blast
  with impl.sim_run [where c = demo and sch = sch and P = demo_prog] initial_inv [OF demo_initial]
  obtain A where "sched_run (code_step demo_prog) sch demo = Some A" "abs_cfg A = B" by auto
  with that B show ?thesis by auto
qed

theorem turn_progress_witness:
  "\<exists>A A'. sched_run (code_step demo_prog) [0, 0, 0] demo = Some A \<and> has_turn (st A) 0
    \<and> cont A 0 = [LockTry (Mutex 0) 0 5] \<and> code_step demo_prog 0 A = Some A'"
proof -
  have "\<exists>B. sched_run (spec_step demo_prog) [0, 0, 0] (abs_cfg demo) = Some B \<and>
    aturn (st B) 0 \<and> cont B 0 = [LockTry (Mutex 0) 0 5] \<and> a_thr (st B) = 2
    \<and> a_clk (st B) 0 = 5 \<and> (\<forall>m. a_live (a_mx (st B) m))"
    unfolding demo_abs by (simp add: demo_eval)
  then obtain A where A: "sched_run (code_step demo_prog) [0, 0, 0] demo = Some A"
    "aturn (st (abs_cfg A)) 0 \<and> cont (abs_cfg A) 0 = [LockTry (Mutex 0) 0 5] \<and> a_thr (st (abs_cfg A)) = 2
    \<and> a_clk (st (abs_cfg A)) 0 = 5 \<and> (\<forall>m. a_live (a_mx (st (abs_cfg A)) m))" by (rule demo_reach)
  then have "\<exists>A'. code_step demo_prog 0 A = Some A'"
    using turn_progress [OF demo_initial A(1), of 0 "LockTry (Mutex 0) 0 5" "[]"]
    by (simp add: MAX_LOGICAL_CLOCK_def)
  with A show ?thesis by auto
qed

section \<open>The first possible time\<close>

text \<open>A thread at the head of the queue of a free mutex, with everybody else far behind
  in logical time.\<close>

definition alone_at :: "(ast, 'l, 'd) cfg \<Rightarrow> nat \<Rightarrow> maddr \<Rightarrow> int \<Rightarrow> bool" where
  "alone_at C i m t \<longleftrightarrow> i < a_thr (st C) \<and> a_holder (a_mx (st C) m) = None
     \<and> a_queue (a_mx (st C) m) \<noteq> [] \<and> hd (a_queue (a_mx (st C) m)) = i
     \<and> t < MAX_LOGICAL_CLOCK \<and> (\<forall>j < a_thr (st C). j \<noteq> i \<longrightarrow> t < a_clk (st C) j)"

lemma spin_until:
  assumes "cont C i = [LockTry m lret (a_clk (st C) i)]" and "alone_at C i m t"
    and "t = max (a_clk (st C) i) (a_rel (a_mx (st C) m) + 1)"
  shows "\<exists>n C'. sched_run (spec_step P) (replicate n i) C = Some C' \<and> cont C' i = []
    \<and> lockg C' = lockg C @ [(t, i, m)] \<and> dep C' i m = dep C i m + 1 \<and> a_clk (st C') i = t + 1
    \<and> n = Suc (2 * nat (t - a_clk (st C) i))"
  using assms
proof (induction "nat (t - a_clk (st C) i)" arbitrary: C)
  case 0
  then have now: "a_rel (a_mx (st C) m) < a_clk (st C) i" "t = a_clk (st C) i" by auto
  let ?C = "make_change i \<lparr>c_mop = Acquire m, c_time = 1, c_run = (lret = 0), c_cont = [], c_loc = loc C i,
      c_dep = (dep C i)(m := Suc (dep C i m)), c_dat = None, c_log = [(t, i, m)]\<rparr> C"
  have "spec_step P i C = Some ?C"
    using 0 now by (simp add: spec_step_change change_of_def Let_def alone_at_def grantable_def)
  with now show ?case by (intro exI [of _ "Suc 0"] exI [of _ ?C]) simp
next
  case (Suc k)
  then have later: "a_clk (st C) i \<le> a_rel (a_mx (st C) m)" "t = a_rel (a_mx (st C) m) + 1" by auto
  let ?C1 = "make_change i \<lparr>c_mop = Keep, c_time = 1, c_run = False, c_cont = [LockSpin m lret], c_loc = loc C i,
      c_dep = dep C i, c_dat = None, c_log = []\<rparr> C"
  let ?C2 = "make_change i \<lparr>c_mop = Keep, c_time = 0, c_run = False,
      c_cont = [LockTry m lret (a_clk (st C) i + 1)], c_loc = loc C i,
      c_dep = dep C i, c_dat = None, c_log = []\<rparr> ?C1"
  have s1: "spec_step P i C = Some ?C1"
    using Suc.prems later by (simp add: spec_step_change change_of_def Let_def alone_at_def grantable_def)
  have "aturn (st ?C1) i" using Suc.prems(2) later by (auto simp: aturn_def alone_at_def behind_def)
  then have s2: "spec_step P i ?C1 = Some ?C2"
    using Suc.prems(2) by (simp add: spec_step_change change_of_def Let_def alone_at_def)
  have "\<exists>n C'. sched_run (spec_step P) (replicate n i) ?C2 = Some C' \<and> cont C' i = []
    \<and> lockg C' = lockg ?C2 @ [(t, i, m)] \<and> dep C' i m = dep ?C2 i m + 1 \<and> a_clk (st C') i = t + 1
    \<and> n = Suc (2 * nat (t - a_clk (st ?C2) i))"
    using Suc.hyps(2) Suc.prems(2) later
    by (intro Suc.hyps(1)) (auto simp: alone_at_def)
  then obtain n C' where C': "sched_run (spec_step P) (replicate n i) ?C2 = Some C'" "cont C' i = []"
    "lockg C' = lockg C @ [(t, i, m)]" "dep C' i m = dep C i m + 1" "a_clk (st C') i = t + 1"
    "n = Suc (2 * nat (t - (a_clk (st C) i + 1)))" by auto
  have "sched_run (spec_step P) (replicate (Suc (Suc n)) i) C = Some C'"
    using s1 s2 C'(1) by simp
  moreover have "Suc (Suc n) = Suc (2 * nat (t - a_clk (st C) i))" using C'(6) later by simp
  ultimately show ?case using C' by blast
qed

text \<open>C15. \<^verbatim>\<open>det_lock\<close> returns, and at the first possible logical time: a thread at the head
  of the queue of a free mutex, while all other clocks are larger, leaves the loop after
  finitely many of its own steps and owns the mutex from the time
  \<open>max clock (released_logical_time + 1)\<close> on.\<close>

theorem lock_first_time:
  assumes "initial C" and "sched_run (code_step P) sch C = Some A"
    and "cont A i = [LockTry m lret (lclock (st A) i)]" and "i < max_thr (st A)"
    and "mx_mutex (mutexes (st A) m) = None" and "hd (qlist (mx_queue (mutexes (st A) m))) = i"
    and "t = max (lclock (st A) i) (released_logical_time (mutexes (st A) m) + 1)"
    and "t < MAX_LOGICAL_CLOCK" and "\<And>j. j < max_thr (st A) \<Longrightarrow> j \<noteq> i \<Longrightarrow> t < lclock (st A) j"
  shows "\<exists>n A'. sched_run (code_step P) (replicate n i) A = Some A' \<and> cont A' i = []
    \<and> lockg A' = lockg A @ [(t, i, m)] \<and> dep A' i m = dep A i m + 1 \<and> lclock (st A') i = t + 1
    \<and> n = Suc (2 * nat (t - lclock (st A) i))"
proof -
  note inv = run_inv [OF assms(1,2)]
  from spec_invD(1) [OF inv(2), of i] assms(3) have "qlist (mx_queue (mutexes (st A) m)) \<noteq> []" by auto
  with assms(4-9) have "alone_at (abs_cfg A) i m t" by (simp add: alone_at_def)
  with assms(3,7) have "\<exists>n B. sched_run (spec_step P) (replicate n i) (abs_cfg A) = Some B \<and> cont B i = []
    \<and> lockg B = lockg (abs_cfg A) @ [(t, i, m)] \<and> dep B i m = dep (abs_cfg A) i m + 1 \<and> a_clk (st B) i = t + 1
    \<and> n = Suc (2 * nat (t - a_clk (st (abs_cfg A)) i))"
    by (intro spin_until) auto
  then obtain n B where B: "sched_run (spec_step P) (replicate n i) (abs_cfg A) = Some B" "cont B i = []"
    "lockg B = lockg A @ [(t, i, m)]" "dep B i m = dep A i m + 1" "a_clk (st B) i = t + 1"
    "n = Suc (2 * nat (t - lclock (st A) i))" by auto
  from impl.sim_run [OF inv, where P = P and sch = "replicate n i"] B(1) obtain A' where
    "sched_run (code_step P) (replicate n i) A = Some A'" "abs_cfg A' = B" by auto
  with B show ?thesis by auto
qed

theorem lock_first_time_witness:
  "\<exists>A A'. sched_run (code_step demo_prog) [0, 0, 0, 0, 0, 0, 0, 0, 0, 1, 1, 1] demo = Some A
    \<and> released_logical_time (mutexes (st A) (Mutex 0)) = 6 \<and> lclock (st A) 1 = 5
    \<and> sched_run (code_step demo_prog) (replicate 5 1) A = Some A' \<and> lclock (st A') 1 = 8"
proof -
  have "\<exists>B. sched_run (spec_step demo_prog) [0, 0, 0, 0, 0, 0, 0, 0, 0, 1, 1, 1] (abs_cfg demo) = Some B \<and>
    (a_rel (a_mx (st B) (Mutex 0)) = 6 \<and> a_clk (st B) 1 = 5 \<and> cont B 1 = [LockTry (Mutex 0) 0 5]
    \<and> a_thr (st B) = 2 \<and> a_holder (a_mx (st B) (Mutex 0)) = None
    \<and> hd (a_queue (a_mx (st B) (Mutex 0))) = 1 \<and> 7 < a_clk (st B) 0)"
    unfolding demo_abs by (simp add: demo_eval)
  then obtain A where A: "sched_run (code_step demo_prog) [0, 0, 0, 0, 0, 0, 0, 0, 0, 1, 1, 1] demo = Some A"
    "a_rel (a_mx (st (abs_cfg A)) (Mutex 0)) = 6 \<and> a_clk (st (abs_cfg A)) 1 = 5
    \<and> cont (abs_cfg A) 1 = [LockTry (Mutex 0) 0 5]
    \<and> a_thr (st (abs_cfg A)) = 2 \<and> a_holder (a_mx (st (abs_cfg A)) (Mutex 0)) = None
    \<and> hd (a_queue (a_mx (st (abs_cfg A)) (Mutex 0))) = 1 \<and> 7 < a_clk (st (abs_cfg A)) 0" by (rule demo_reach)
  have other: "7 < lclock (st A) j" if "j < max_thr (st A)" "j \<noteq> 1" for j
  proof -
    from that A(2) have "j = 0" by auto
    with A(2) show ?thesis by auto
  qed
  from A(2) lock_first_time [OF demo_initial A(1), of 1 "Mutex 0" 0 7, OF _ _ _ _ _ _ other]
  have "\<exists>A'. sched_run (code_step demo_prog) (replicate 5 1) A = Some A' \<and> lclock (st A') 1 = 8"
    by (auto simp: MAX_LOGICAL_CLOCK_def)
  with A show ?thesis by auto
qed

section \<open>Refinement\<close>

text \<open>C2. The code refines the arbiter.  Under every schedule, a program that runs on the code
  of \<^verbatim>\<open>det_lock\<close> and \<^verbatim>\<open>det_unlock\<close>, with its queues, its spinning and its counter
  arithmetic, does step by step what it does on the abstract specification, where a thread has a
  clock and a mutex is a queue of threads; and a thread that is blocked in one is blocked in
  the other.\<close>

theorem lock_code_refines_arbiter:
  assumes "initial C"
  shows "map_option abs_cfg (sched_run (code_step P) sch C) = sched_run (spec_step P) sch (abs_cfg C)
    \<and> (\<forall>A. sched_run (code_step P) sch C = Some A \<longrightarrow> stuck (code_step P) A = stuck (spec_step P) (abs_cfg A))"
proof (intro conjI allI impI)
  note i = initial_inv [OF assms, THEN conjunct1] initial_inv [OF assms, THEN conjunct2]
  show "map_option abs_cfg (sched_run (code_step P) sch C) = sched_run (spec_step P) sch (abs_cfg C)"
    by (rule impl.sim_run [OF i])
  show "stuck (code_step P) A = stuck (spec_step P) (abs_cfg A)" if "sched_run (code_step P) sch C = Some A" for A
    using impl.sim_stuck impl.inv_run [OF i that] by blast
qed

theorem lock_code_refines_arbiter_witness:
  "\<exists>A. sched_run (code_step demo_prog) demo_mix demo = Some A \<and> sched_run (spec_step demo_prog) demo_mix (abs_cfg demo) = Some (abs_cfg A)
    \<and> stuck (code_step demo_prog) A \<and> stuck (spec_step demo_prog) (abs_cfg A)"
proof -
  obtain A where A: "sched_run (code_step demo_prog) demo_mix demo = Some A" "stuck (code_step demo_prog) A"
    by (rule demo_run [OF demo_mix_spec])
  from lock_code_refines_arbiter [OF demo_initial, of demo_prog demo_mix] A show ?thesis by auto
qed

end
