(* ===== verification/ThreadProps.thy ===== *)
theory ThreadProps
  imports Determinism
begin

text \<open>
  Two links between the pieces.  The scan of \<^verbatim>\<open>wait_for_turn\<close> was proved sound under
  assumptions about the other threads (\<open>Turn.rely\<close>): here the steps of the runtime are
  shown to satisfy them, \<^verbatim>\<open>det_create\<close> included.  And the table of threads: finding a
  thread by its handle, and what happens at its end.
\<close>

section \<open>A thread touches its own clock only\<close>

definition own_only :: "nat \<Rightarrow> rt \<Rightarrow> rt \<Rightarrow> bool" where
  "own_only j s s' \<longleftrightarrow> (\<forall>i. i \<noteq> j \<longrightarrow> wa s' i = wa s i \<and> kperf s' i = kperf s i) \<and> max_thr s' = max_thr s"

lemma own_refl: "own_only j s s"
  by (simp add: own_only_def)

lemma own_trans: "own_only j s t \<Longrightarrow> own_only j t u \<Longrightarrow> own_only j s u"
  by (simp add: own_only_def)

lemma own_disable: "disable_logical_clock j s = Some (r, s') \<Longrightarrow> own_only j s s'"
  by (auto simp: disable_logical_clock_def own_only_def disable_performance_counter_def Let_def
      split: if_splits bind_splits fds_state.splits)

lemma own_resume: "resume_clock j lret s = Some s' \<Longrightarrow> own_only j s s'"
  by (auto simp: resume_clock_def enable_logical_clock_def own_only_def enable_performance_counter_def Let_def
      split: if_splits bind_splits fds_state.splits)

lemma own_get: "get_logical_clock j i s = Some (c, s') \<Longrightarrow> own_only j s s' \<and> mutexes s' = mutexes s"
  by (auto simp: get_logical_clock_def own_only_def split: if_splits bind_splits)

lemma own_scan: "scan j c n i s = Some (b, s') \<Longrightarrow> own_only j s s'"
proof (induction j c n i s rule: scan.induct)
  case (1 me c n i s)
  show ?case
  proof (cases "i < n")
    case True
    with "1.prems" obtain oc s1 where g: "get_logical_clock me ((me + i) mod n) s = Some (oc, s1)"
      and r: "(if behind c me oc ((me + i) mod n) then Some (False, s1) else scan me c n (Suc i) s1) = Some (b, s')"
      by (subst (asm) scan.simps) (auto simp: Let_def split: bind_splits)
    note g1 = own_get [OF g]
    show ?thesis
    proof (cases "behind c me oc ((me + i) mod n)")
      case True
      with r g1 show ?thesis by simp
    next
      case False
      with r "1.IH" [OF True refl g refl False] g1 show ?thesis by (auto intro: own_trans)
    qed
  next
    case False
    with "1.prems" show ?thesis by (subst (asm) scan.simps) (simp add: own_refl)
  qed
qed

lemma own_wait: "wait_for_turn j s = Some (t, s') \<Longrightarrow> own_only j s s'"
  by (auto simp: wait_for_turn_def split: if_splits bind_splits dest!: own_get own_scan)
    (auto simp: own_only_def)

lemma own_upd [simp]:
  "own_only j s (t\<lparr>mutexes := f\<rparr>) = own_only j s t" "own_only j s (t\<lparr>tls := g\<rparr>) = own_only j s t"
  "own_only j s (t\<lparr>last_sync_logical_time := c\<rparr>) = own_only j s t"
  "own_only j s (add_sw_clock j n t) = own_only j s t"
  "own_only j (s\<lparr>mutexes := f\<rparr>) t = own_only j s t" "own_only j (s\<lparr>tls := g\<rparr>) t = own_only j s t"
  "own_only j (s\<lparr>last_sync_logical_time := c\<rparr>) t = own_only j s t"
  "own_only j (add_sw_clock j n s) t = own_only j s t"
  by (auto simp: own_only_def add_sw_clock_def)

lemma own_lock_out: "det_lock_out j lret s = Some (s', k) \<Longrightarrow> own_only j s s'"
  by (auto simp: det_lock_out_def split: bind_splits dest!: own_resume)

lemma own_lock:
  "0 \<le> mx_id (mutexes s m) \<Longrightarrow> det_lock j m s = Some (s', k) \<Longrightarrow> own_only j s s'"
  by (auto simp: det_lock_def split: bind_splits if_splits dest!: own_disable own_lock_out
      intro: own_refl) (blast intro: own_trans)+

lemma own_queue: "det_lock_queue j m lret s = Some (s', k) \<Longrightarrow> own_only j s s'"
  by (auto simp: det_lock_queue_def split: bind_splits dest!: own_wait)

lemma own_spin: "det_lock_spin j m lret s = Some (s', k) \<Longrightarrow> own_only j s s'"
  by (auto simp: det_lock_spin_def split: bind_splits dest!: own_wait)

lemma own_try: "det_lock_try j m lret c s = Some (s', k) \<Longrightarrow> own_only j s s'"
  by (auto simp: det_lock_try_def det_lock_fail_def det_lock_acquired_def pthread_unlock_def Let_def own_refl
      split: bind_splits if_splits dest!: own_lock_out)

lemma own_unlock: "det_unlock_and_incr_clock j m incr s = Some (s', k) \<Longrightarrow> own_only j s s'"
  by (auto simp: det_unlock_and_incr_clock_def pthread_unlock_def Let_def own_refl
      split: bind_splits if_splits dest!: own_disable own_get) (blast intro: own_trans)

lemma own_release: "det_unlock_release m lret incr s = Some (s', k) \<Longrightarrow> own_only j s s'"
  by (auto simp: det_unlock_release_def pthread_unlock_def own_refl)

lemma own_unlock_out: "det_unlock_out j lret incr s = Some (s', k) \<Longrightarrow> own_only j s s'"
  by (auto simp: det_unlock_out_def split: bind_splits dest!: own_resume)

lemma own_work: "own_only j s (count_events j n s)"
  by (simp add: own_only_def count_events_def)

lemma own_exec:
  assumes "place_ok a j (x # rest)" and "\<And>m. 0 \<le> mx_id (mutexes s m)" and "code_exec x j s = Some (s', k)"
  shows "own_only j s s'"
  using assms
  by (cases rule: place_okE) (auto simp: code_exec_def intro: own_lock own_queue own_spin own_try
      own_unlock own_release own_unlock_out)

lemma own_code_step:
  assumes ok: "rt_ok (st A)" and inv: "spec_inv (abs_cfg A)" and step: "code_step P j A = Some B"
  shows "own_only j (st A) (st B)"
proof (cases "cont A j")
  case Nil
  with step show ?thesis
    by (auto simp: code_step_def client_step_def own_refl own_work split: if_splits action.splits prod.splits)
next
  case (Cons x rest)
  from spec_invD(1) [OF inv, of j] Cons have "place_ok (abs_rt (st A)) j (x # rest)" by simp
  moreover have "0 \<le> mx_id (mutexes (st A) m)" for m using rt_okD(5) [OF ok, of m] by (simp add: mutex_ok_def)
  ultimately show ?thesis
    using step Cons own_exec
    by (auto simp: code_step_def client_step_def split: if_splits bind_splits)
qed

section \<open>Creating and finding threads\<close>

text \<open>The entry of \<^verbatim>\<open>wa\<close> a new thread gets, as \<^verbatim>\<open>det_init\<close> left it.\<close>

definition fresh_slot :: "rt \<Rightarrow> nat \<Rightarrow> bool" where
  "fresh_slot s n \<longleftrightarrow> wa s n = zero_worker \<and> kperf s n = fresh_counter"

lemma lock_init_stopped:
  assumes "clk_ok s me" and "\<not> hw_clock_enabled (wa s me)" and "max_thr s > 0"
  shows "det_lock_init me m s = Some (s\<lparr>g_lock_count := g_lock_count s + 1, mutexes := (mutexes s)
    (m := \<lparr>mx_id = g_lock_count s + 1, mx_mutex = None, released_logical_time = 0, owner = -1, ref = 0,
           mx_queue = InitQ MAX_THR\<rparr>)\<rparr>)"
  using assms by (simp add: det_lock_init_def lazy_init_def disable_eq stop_clock_def resume_clock_def)

lemma cond_init_stopped:
  assumes "clk_ok s me" and "\<not> hw_clock_enabled (wa s me)" and "max_thr s > 0"
  shows "\<exists>d n. det_cond_init me c s = Some (s\<lparr>conds := (conds s)(c := d), g_cond_count := n\<rparr>)
    \<and> cond_ok d \<and> waiting d = [] \<and> (\<forall>i < MAX_THR. mx_mutex (waiter d i) = Some me)"
proof -
  let ?d = "(conds s c)\<lparr>cd_queue := InitQ MAX_THR,
    waiter := (\<lambda>i. if i < MAX_THR then (waiter (conds s c) i)\<lparr>mx_id := int i, mx_mutex := Some me\<rparr>
                   else waiter (conds s c) i), cd_id := g_cond_count s + 1\<rparr>"
  have "det_cond_init me c s = Some (s\<lparr>conds := (conds s)(c := ?d), g_cond_count := g_cond_count s + 1\<rparr>)"
    using assms by (simp add: det_cond_init_def lazy_init_def disable_eq stop_clock_def resume_clock_def)
  moreover have "cond_ok ?d" by (simp add: cond_ok_def list_all_iff MAX_THR_def)
  ultimately show ?thesis by (auto simp: waiting_def)
qed

lemma find_thread_from:
  "i \<le> k \<Longrightarrow> k < MAX_THR \<Longrightarrow> w_tid (wa s k) = t \<Longrightarrow> (\<And>j. i \<le> j \<Longrightarrow> j < k \<Longrightarrow> w_tid (wa s j) \<noteq> t) \<Longrightarrow>
    find_thread s t i = k"
proof (induction s t i rule: find_thread.induct)
  case (1 s t i)
  show ?case
  proof (cases "i = k")
    case True
    with "1.prems" show ?thesis by (subst find_thread.simps) simp
  next
    case False
    with "1.prems" "1.IH" show ?thesis by (subst find_thread.simps) auto
  qed
qed

lemma find_thread_none:
  "i \<le> MAX_THR \<Longrightarrow> (\<And>j. i \<le> j \<Longrightarrow> j < MAX_THR \<Longrightarrow> w_tid (wa s j) \<noteq> t) \<Longrightarrow> find_thread s t i = MAX_THR"
proof (induction s t i rule: find_thread.induct)
  case (1 s t i)
  then show ?case by (subst find_thread.simps) auto
qed

section \<open>Properties\<close>




definition demo_create :: rt where
  "demo_create = (stop_clock 0 demo_rt)\<lparr>
     wa := (\<lambda>i. if i < 2 then wa (stop_clock 0 demo_rt) i else zero_worker),
     kperf := (\<lambda>i. if i < 2 then kperf (stop_clock 0 demo_rt) i else fresh_counter)\<rparr>"

lemma demo_create_ok:
  "rt_ok demo_create" "max_thr demo_create = 2" "\<not> hw_clock_enabled (wa demo_create 0)"
  "has_turn demo_create 0" "fresh_slot demo_create 2" "lclock demo_create 0 = 5" "g_lock_count demo_create = 1"
proof -
  have two: "[0..<2] = [0, 1 :: nat]" by (simp add: upt_rec)
  have "rt_ok (stop_clock 0 demo_rt)" using demo_initial by (simp add: initial_def demo_def)
  then show "rt_ok demo_create"
    by (auto simp: rt_ok_def demo_create_def thr_ok_def clk_ok_def)
  have c: "lclock demo_create i = 5" if "i < 2" for i
  proof -
    have "lclock demo_create i = lclock (stop_clock 0 demo_rt) i"
      using that by (simp add: demo_create_def lclock_def)
    then show ?thesis by simp
  qed
  then show "lclock demo_create 0 = 5" by simp
  show "has_turn demo_create 0" using c [of 0] c [of 1]
    by (simp add: has_turn_def two behind_def demo_create_def [THEN arg_cong, of max_thr])
  show "max_thr demo_create = 2" "\<not> hw_clock_enabled (wa demo_create 0)" "fresh_slot demo_create 2"
    by (simp_all add: demo_create_def fresh_slot_def)
  show "g_lock_count demo_create = 1" by (simp add: demo_create_def) (simp add: demo_rt_def)
qed


text \<open>The table \<^verbatim>\<open>wa\<close> has no bound check: the call of \<^verbatim>\<open>det_create\<close> that creates the
  thread with id \<^verbatim>\<open>MAX_THR\<close> writes past its end.\<close>

theorem create_past_table:
  assumes "wait_for_turn me s = Some (Some c, s1)" and "max_thr s = MAX_THR"
  shows "det_create_turn me f a lret s = None"
  using assms own_wait [OF assms(1)] by (simp add: det_create_turn_def own_only_def Let_def)

theorem create_past_table_witness:
  "det_create_turn 0 7 8 0 ((stop_clock 0 demo_rt)\<lparr>max_thr := MAX_THR\<rparr>) = None"
proof -
  let ?s = "(stop_clock 0 demo_rt)\<lparr>max_thr := MAX_THR\<rparr>"
  have "lclock ?s i = lclock (stop_clock 0 demo_rt) i" for i by (simp add: lclock_def)
  then have clk: "lclock ?s i = 5" for i by simp
  have "clk_ok ?s i" for i using clk_ok_stop [OF clk_ok_demo, of 0 i] by (simp add: clk_ok_def)
  moreover have "has_turn ?s 0" using clk by (simp add: has_turn_iff behind_def)
  ultimately obtain l where "wait_for_turn 0 ?s = Some (Some 5, ?s\<lparr>tls := (tls ?s)(0 := l)\<rparr>)"
    using wait_for_turn_eq [of ?s 0] clk by (auto simp: MAX_THR_def)
  from create_past_table [OF this] show ?thesis by simp
qed

text \<open>C24. \<^verbatim>\<open>det_join\<close> finds the thread by its handle: it waits for the first entry of the
  table that carries the handle, and ends the program when no entry does.\<close>

theorem join_finds_thread:
  assumes "clk_ok s me" and "i < MAX_THR" and "w_tid (wa s i) = t" and "\<And>j. j < i \<Longrightarrow> w_tid (wa s j) \<noteq> t"
  shows "det_join me t s = Some (stop_clock me s,
      [Lock (ThreadLock i), JoinCheck i, Unlock (ThreadLock i) 1,
       JoinEnd i (if hw_clock_enabled (wa s me) then 0 else -1)])"
proof -
  have tid: "w_tid (wa (stop_clock me s) j) = w_tid (wa s j)" for j by (simp add: stop_clock_def)
  have "find_thread (stop_clock me s) t 0 = i"
    using assms(2-4) by (intro find_thread_from) (auto simp: tid)
  with assms(1,2) show ?thesis by (simp add: det_join_def disable_eq)
qed

theorem join_finds_thread_witness:
  "det_join 0 0 demo_rt = Some (stop_clock 0 demo_rt,
     [Lock (ThreadLock 0), JoinCheck 0, Unlock (ThreadLock 0) 1, JoinEnd 0 0])"
  using join_finds_thread [OF clk_ok_demo, of 0 0 0] by (simp add: MAX_THR_def) (simp add: demo_rt_def zero_worker_def)

text \<open>\<^verbatim>\<open>det_cancel\<close> does not check that it found the thread: for an unknown handle it
  marks the last entry of the table as finished, wakes whoever waits for that thread,
  and then writes the clock of entry \<^verbatim>\<open>MAX_THR\<close>, past the end of the table.\<close>

theorem cancel_unknown_handle:
  assumes "\<And>j. j < MAX_THR \<Longrightarrow> w_tid (wa s j) \<noteq> t"
  shows "det_cancel t s = Some (s, [Lock (ThreadLock 127), CancelMark 127, CondSignal (ThreadCond 127),
      Unlock (ThreadLock 127) 1, CancelEnd MAX_THR])
    \<and> det_cancel_end me MAX_THR s' = None"
proof -
  have "find_thread s t 0 = MAX_THR" using assms by (intro find_thread_none) auto
  moreover have "det_cancel_end me MAX_THR s' = None"
    by (cases "disable_logical_clock me s'") (auto simp: det_cancel_end_def)
  ultimately show ?thesis by (simp add: det_cancel_def MAX_THR_def)
qed

theorem cancel_unknown_handle_witness:
  "det_cancel 99 demo_rt = Some (demo_rt, [Lock (ThreadLock 127), CancelMark 127, CondSignal (ThreadCond 127),
     Unlock (ThreadLock 127) 1, CancelEnd MAX_THR])"
proof -
  have "w_tid (wa demo_rt j) \<noteq> 99" for j by (simp add: demo_rt_def zero_worker_def)
  with cancel_unknown_handle [of demo_rt 99] show ?thesis by blast
qed

end
