(* ===== verification/TryLock.thy ===== *)
theory TryLock
  imports Refine
begin

text \<open>
  What \<^verbatim>\<open>det_trylock\<close> of \<^verbatim>\<open>src/dpthread.c\<close> does once the caller has the turn.  With an
  empty queue it is a try-lock by logical time.  Two other cases are not what the name
  says: with another thread at the head of the queue it reports success without taking
  the mutex, and when it reports \<^verbatim>\<open>EBUSY\<close> it leaves the caller's id in the queue.
\<close>

definition try_pre :: "rt \<Rightarrow> nat \<Rightarrow> maddr \<Rightarrow> bool" where
  "try_pre s i m \<longleftrightarrow> rt_ok s \<and> i < max_thr s \<and> \<not> hw_clock_enabled (wa s i) \<and> has_turn s i
     \<and> lclock s i < MAX_LOGICAL_CLOCK \<and> mx_id (mutexes s m) > 0
     \<and> qlen (mx_queue (mutexes s m)) < max_thr s"

text \<open>The state the decision is made in: the caller is at the end of the queue.\<close>

lemma try_enter:
  assumes "try_pre s i m"
  obtains l q where "wait_for_turn i s = Some (Some (lclock s i), s\<lparr>tls := (tls s)(i := l)\<rparr>)"
    "AddQ (mx_queue (mutexes s m)) i = Some (1, q)" "qwf q" "qsize q = MAX_THR"
    "qlist q = qlist (mx_queue (mutexes s m)) @ [i]"
proof -
  from assms have ok: "rt_ok s" and i: "i < max_thr s" and off: "\<not> hw_clock_enabled (wa s i)"
    and live: "mx_id (mutexes s m) > 0" and turn: "has_turn s i"
    and room: "qlen (mx_queue (mutexes s m)) < max_thr s" by (auto simp: try_pre_def)
  from rt_okD(5) [OF ok, of m] live have q: "qwf (mx_queue (mutexes s m))" "qsize (mx_queue (mutexes s m)) = MAX_THR"
    by (auto simp: mutex_ok_def)
  have "qlen (mx_queue (mutexes s m)) < qcap (mx_queue (mutexes s m))"
    using room rt_okD(6) [OF ok] q(2) by linarith
  from AddQ_room [OF q(1) this, of i] q(2) obtain q' where
    q': "AddQ (mx_queue (mutexes s m)) i = Some (1, q')" "qwf q'" "qsize q' = MAX_THR"
      "qlist q' = qlist (mx_queue (mutexes s m)) @ [i]" by auto
  obtain l where "wait_for_turn i s = Some (Some (lclock s i), s\<lparr>tls := (tls s)(i := l)\<rparr>)"
    using turn by (auto intro: turn_eq [OF ok i off])
  with q' that show ?thesis by blast
qed

lemma try_frame:
  assumes "try_pre s i m"
  shows "w_fds (wa s i) \<noteq> FdsFreed" "thr_ok s i" "GET_CLOCK s i = lclock s i" "\<not> hw_clock_enabled (wa s i)"
    "lclock s i < MAX_LOGICAL_CLOCK" "clk_ok s i"
  using assms rt_okD(1-3) [of s i] lclock_GET_CLOCK [of s i] by (auto simp: try_pre_def)

lemma lclock_upd [simp]:
  "lclock (s\<lparr>mutexes := f, last_sync_logical_time := c\<rparr>) = lclock s"
  by (simp add: lclock_def fun_eq_iff)

lemma GET_CLOCK_frame [simp]:
  "GET_CLOCK (s\<lparr>mutexes := f\<rparr>) = GET_CLOCK s" "GET_CLOCK (s\<lparr>tls := g\<rparr>) = GET_CLOCK s"
  "GET_CLOCK (s\<lparr>last_sync_logical_time := c\<rparr>) = GET_CLOCK s"
  by (simp_all add: GET_CLOCK_def fun_eq_iff)

lemma clk_ok_frame [simp]:
  "clk_ok (s\<lparr>mutexes := f\<rparr>) = clk_ok s" "clk_ok (s\<lparr>tls := g\<rparr>) = clk_ok s"
  "clk_ok (s\<lparr>last_sync_logical_time := c\<rparr>) = clk_ok s"
  by (simp_all add: clk_ok_def fun_eq_iff)

text \<open>Thread 0 has the turn; one mutex, with a given holder and at most one queued thread.\<close>

definition demo_queue :: "nat list \<Rightarrow> TQueue" where
  "demo_queue xs = \<lparr>head = 0, tail = length xs, array = xs @ replicate (128 - length xs) NULL, qsize = 128\<rparr>"

definition demo_try :: "nat option \<Rightarrow> nat list \<Rightarrow> rt" where
  "demo_try h xs = (stop_clock 0 demo_rt)\<lparr>mutexes :=
     (\<lambda>m. zero_mutex\<lparr>mx_id := 1, owner := -1, mx_mutex := h, mx_queue := demo_queue xs\<rparr>)\<rparr>"

lemma demo_queue_view: "length xs < 2 \<Longrightarrow> qwf (demo_queue xs) \<and> qlist (demo_queue xs) = xs"
  by (cases xs) (auto simp: demo_queue_def qwf_def qlist_def qlen_def)

lemma demo_try_pre:
  assumes "length xs < 2"
  shows "try_pre (demo_try h xs) 0 m" "qlist (mx_queue (mutexes (demo_try h xs) m)) = xs"
    "mx_mutex (mutexes (demo_try h xs) m) = h" "lclock (demo_try h xs) i = 5"
    "released_logical_time (mutexes (demo_try h xs) m) = 0"
proof -
  have two: "[0..<2] = [0, 1 :: nat]" by (simp add: upt_rec)
  note q = demo_queue_view [OF assms]
  have "rt_ok demo_rt"
    by (simp add: rt_ok_def thr_ok_def mutex_ok_def clk_ok_def demo_rt_def
        zero_worker_def zero_mutex_def fresh_counter_def MAX_THR_def)
  then have "rt_ok (stop_clock 0 demo_rt)" by simp
  then have ok: "rt_ok (demo_try h xs)"
    using q by (simp add: rt_ok_def demo_try_def mutex_ok_def) (simp add: demo_queue_def MAX_THR_def)
  have "has_turn (stop_clock 0 demo_rt) 0" by (simp add: has_turn_def two behind_def)
  then have turn: "has_turn (demo_try h xs) 0" by (simp add: has_turn_def demo_try_def)
  have len: "qlen (demo_queue xs) = length xs" using q length_qlist [of "demo_queue xs"] by simp
  show "try_pre (demo_try h xs) 0 m"
    using ok turn assms len unfolding try_pre_def by (simp add: demo_try_def MAX_LOGICAL_CLOCK_def)
  show "qlist (mx_queue (mutexes (demo_try h xs) m)) = xs" "mx_mutex (mutexes (demo_try h xs) m) = h"
    "lclock (demo_try h xs) i = 5" "released_logical_time (mutexes (demo_try h xs) m) = 0"
    using q by (simp_all add: demo_try_def zero_mutex_def)
qed

section \<open>Properties\<close>

text \<open>C25. \<^verbatim>\<open>det_trylock\<close> on a mutex nobody waits for, free and last released before the
  caller's clock: it succeeds, the caller owns the mutex once, the queue is empty again,
  and the call costs one unit of logical time.\<close>

theorem trylock_acquires:
  assumes "try_pre s i m" and "qlist (mx_queue (mutexes s m)) = []"
    and "mx_mutex (mutexes s m) = None" and "released_logical_time (mutexes s m) < lclock s i"
  shows "\<exists>s'. det_trylock_turn i m lret s = Some (s', []) \<and> retval (tls s' i) = 0
    \<and> mx_mutex (mutexes s' m) = Some i \<and> owner (mutexes s' m) = int i \<and> ref (mutexes s' m) = 1
    \<and> qlist (mx_queue (mutexes s' m)) = [] \<and> lclock s' i = lclock s i + 1"
proof -
  obtain l q where e: "wait_for_turn i s = Some (Some (lclock s i), s\<lparr>tls := (tls s)(i := l)\<rparr>)"
    "AddQ (mx_queue (mutexes s m)) i = Some (1, q)" "qwf q" "qlist q = [i]"
    using assms(2) by (auto intro: try_enter [OF assms(1)])
  from DelQ_Cons [OF e(3,4)] obtain q' where q': "DelQ q = Some (i, q')" "qlist q' = []" by auto
  have "GetHeadQ q = Some i" using e(4) by (simp add: GetHeadQ_view [OF e(3)])
  with e q' try_frame [OF assms(1)] assms(3,4) show ?thesis
    by (auto simp: det_trylock_turn_def det_trylock_attempt_def resume_eq Let_def)
qed

theorem trylock_acquires_witness:
  "\<exists>s'. det_trylock_turn 0 (Mutex 0) (-1) (demo_try None []) = Some (s', []) \<and> retval (tls s' 0) = 0
    \<and> mx_mutex (mutexes s' (Mutex 0)) = Some 0 \<and> lclock s' 0 = 6"
  using trylock_acquires [of "demo_try None []" 0 "Mutex 0" "-1"] by (auto simp: demo_try_pre)

text \<open>C26. \<^verbatim>\<open>det_trylock\<close> reports success without the mutex: when another thread is at the
  head of the queue, the call returns 0, but holder, owner and nesting count are as
  before, and the entry it removed from the queue is the other thread's.\<close>

theorem trylock_false_success:
  assumes "try_pre s i m" and "qlist (mx_queue (mutexes s m)) = h # rest" and "h \<noteq> i"
  shows "\<exists>s'. det_trylock_turn i m lret s = Some (s', []) \<and> retval (tls s' i) = 0
    \<and> mx_mutex (mutexes s' m) = mx_mutex (mutexes s m) \<and> owner (mutexes s' m) = owner (mutexes s m)
    \<and> ref (mutexes s' m) = ref (mutexes s m) \<and> qlist (mx_queue (mutexes s' m)) = rest @ [i]"
proof -
  obtain l q where e: "wait_for_turn i s = Some (Some (lclock s i), s\<lparr>tls := (tls s)(i := l)\<rparr>)"
    "AddQ (mx_queue (mutexes s m)) i = Some (1, q)" "qwf q" "qlist q = h # (rest @ [i])"
    using assms(2) by (auto intro: try_enter [OF assms(1)])
  from DelQ_Cons [OF e(3,4)] obtain q' where q': "DelQ q = Some (h, q')" "qlist q' = rest @ [i]" by auto
  have "GetHeadQ q = Some h" using e(4) by (simp add: GetHeadQ_view [OF e(3)])
  with e q' try_frame [OF assms(1)] assms(3) show ?thesis
    by (auto simp: det_trylock_turn_def det_trylock_attempt_def resume_eq Let_def)
qed

theorem trylock_false_success_witness:
  "\<exists>s'. det_trylock_turn 0 (Mutex 0) (-1) (demo_try (Some 1) [1]) = Some (s', []) \<and> retval (tls s' 0) = 0
    \<and> mx_mutex (mutexes s' (Mutex 0)) = Some 1"
  using trylock_false_success [of "demo_try (Some 1) [1]" 0 "Mutex 0" 1 "[]" "-1"] by (auto simp: demo_try_pre)

text \<open>A failed \<^verbatim>\<open>det_trylock\<close> leaves its mark: when the mutex is held, the call returns
  \<^verbatim>\<open>EBUSY\<close> and the caller, which does not wait, stays at the head of the queue, in front
  of every thread that will call \<^verbatim>\<open>det_lock\<close>.\<close>

theorem trylock_busy_stays_queued:
  assumes "try_pre s i m" and "qlist (mx_queue (mutexes s m)) = []" and "mx_mutex (mutexes s m) = Some j"
  shows "\<exists>s'. det_trylock_turn i m lret s = Some (s', []) \<and> retval (tls s' i) = EBUSY
    \<and> mx_mutex (mutexes s' m) = Some j \<and> qlist (mx_queue (mutexes s' m)) = [i]"
proof -
  obtain l q where e: "wait_for_turn i s = Some (Some (lclock s i), s\<lparr>tls := (tls s)(i := l)\<rparr>)"
    "AddQ (mx_queue (mutexes s m)) i = Some (1, q)" "qwf q" "qlist q = [i]"
    using assms(2) by (auto intro: try_enter [OF assms(1)])
  have "GetHeadQ q = Some i" using e(4) by (simp add: GetHeadQ_view [OF e(3)])
  with e try_frame [OF assms(1)] assms(3) show ?thesis
    by (auto simp: det_trylock_turn_def det_trylock_attempt_def resume_eq Let_def EBUSY_def)
qed

theorem trylock_busy_stays_queued_witness:
  "\<exists>s'. det_trylock_turn 0 (Mutex 0) (-1) (demo_try (Some 1) []) = Some (s', []) \<and> retval (tls s' 0) = EBUSY
    \<and> qlist (mx_queue (mutexes s' (Mutex 0))) = [0]"
  using trylock_busy_stays_queued [of "demo_try (Some 1) []" 0 "Mutex 0" 1 "-1"] by (auto simp: demo_try_pre)

end
