(* ===== verification/DetLibc.thy ===== *)
theory DetLibc
  imports Runtime
begin

text \<open>
  The wrappers of \<^verbatim>\<open>src/det-libc.c\<close> and \<^verbatim>\<open>src/det-posix.c\<close>.  The string functions work on
  a byte memory and are written out.  A wrapper around a library or system call stops
  the caller's clock, makes the call and starts the clock again with a fixed amount of
  logical time added; the call itself is not code of the repository, so it is the
  parameter \<open>call\<close>, a function on the state \<open>'w\<close> of the outside world that returns a
  result.

  The files declare \<^verbatim>\<open>det_enable_logical_clock(uint64_t)\<close>, the definition in
  \<^verbatim>\<open>dpthread.c\<close> takes an \<^verbatim>\<open>int\<close>: the low 32 bits of the argument arrive, read as a
  signed number (\<open>to_int32\<close>).
\<close>

section \<open>Bytes and memory\<close>

type_synonym mem = "nat \<Rightarrow> nat"

definition byte_of :: "int \<Rightarrow> nat" where
  "byte_of s = nat (s mod 256)"

definition to_int32 :: "int \<Rightarrow> int" where
  "to_int32 x = (x + 2 ^ 31) mod 2 ^ 32 - 2 ^ 31"

text \<open>\<^verbatim>\<open>while (--n != 0) *d++ = 0;\<close> with \<open>n = k + 1\<close>.\<close>

fun zero_fill :: "nat \<Rightarrow> nat \<Rightarrow> mem \<Rightarrow> mem" where
  "zero_fill 0 d m = m"
| "zero_fill (Suc k) d m = zero_fill k (Suc d) (m(d := 0))"

text \<open>The \<^verbatim>\<open>do\<close> loop with \<open>n = k + 1\<close>.\<close>

fun strncpy_loop :: "nat \<Rightarrow> nat \<Rightarrow> nat \<Rightarrow> mem \<Rightarrow> mem" where
  "strncpy_loop 0 d s m =
     (let m = m(d := m s) in m)"
| "strncpy_loop (Suc k) d s m =
     (let m = m(d := m s)
      in if m d = 0 then zero_fill (Suc k) (Suc d) m else strncpy_loop k (Suc d) (Suc s) m)"

definition detio_strncpy :: "nat \<Rightarrow> nat \<Rightarrow> nat \<Rightarrow> mem \<Rightarrow> nat \<times> mem" where
  "detio_strncpy dst src n m = (dst, if n \<noteq> 0 then strncpy_loop (n - 1) dst src m else m)"

fun memset_loop :: "nat \<Rightarrow> nat \<Rightarrow> nat \<Rightarrow> mem \<Rightarrow> mem" where
  "memset_loop 0 a c m = m"
| "memset_loop (Suc count) a c m = memset_loop count (Suc a) c (m(a := c))"

definition detio_memset :: "nat \<Rightarrow> int \<Rightarrow> nat \<Rightarrow> mem \<Rightarrow> nat \<times> mem" where
  "detio_memset dst s count m = (dst, memset_loop count dst (byte_of s) m)"

fun copy_up :: "nat \<Rightarrow> nat \<Rightarrow> nat \<Rightarrow> mem \<Rightarrow> mem" where
  "copy_up 0 a b m = m"
| "copy_up (Suc count) a b m = copy_up count (Suc a) (Suc b) (m(a := m b))"

fun copy_down :: "nat \<Rightarrow> nat \<Rightarrow> nat \<Rightarrow> mem \<Rightarrow> mem" where
  "copy_down 0 a b m = m"
| "copy_down (Suc count) a b m = copy_down count (a - 1) (b - 1) (m(a := m b))"

definition detio_memmove :: "nat \<Rightarrow> nat \<Rightarrow> nat \<Rightarrow> mem \<Rightarrow> nat \<times> mem" where
  "detio_memmove dst src count m =
     (if src = dst then (dst, m)
      else if src > dst then (dst, copy_up count dst src m)
      else (dst, copy_down count (dst + count - 1) (src + count - 1) m))"

definition detio_memcpy :: "nat \<Rightarrow> nat \<Rightarrow> nat \<Rightarrow> mem \<Rightarrow> nat \<times> mem" where
  "detio_memcpy destaddr srcaddr len m = (destaddr, copy_up len destaddr srcaddr m)"

section \<open>Calls\<close>

definition EVENTS_PER_USEC :: int where
  "EVENTS_PER_USEC = 122"

text \<open>The common shape: \<^verbatim>\<open>lret = det_disable_logical_clock(); ret = call(...);
  if ( lret == 0 ) det_enable_logical_clock(incr); return ret;\<close>\<close>

definition det_call :: "nat \<Rightarrow> int \<Rightarrow> ('w \<Rightarrow> 'r \<times> 'w) \<Rightarrow> rt \<times> 'w \<Rightarrow> ('r \<times> rt \<times> 'w) option" where
  "det_call me incr call sw = (case sw of (s, w) \<Rightarrow> do {
     (lret, s) \<leftarrow> det_disable_logical_clock me s;
     let (ret, w) = call w;
     s \<leftarrow> (if lret = 0 then map_option snd (det_enable_logical_clock me (to_int32 incr) s) else Some s);
     Some (ret, s, w)
   })"

definition detio_usleep :: "nat \<Rightarrow> nat \<Rightarrow> (nat \<Rightarrow> 'w \<Rightarrow> int \<times> 'w) \<Rightarrow> rt \<times> 'w \<Rightarrow> (int \<times> rt \<times> 'w) option" where
  "detio_usleep me usecs usleep = det_call me (int usecs * EVENTS_PER_USEC) (usleep usecs)"

definition detio_sleep :: "nat \<Rightarrow> nat \<Rightarrow> (nat \<Rightarrow> 'w \<Rightarrow> int \<times> 'w) \<Rightarrow> rt \<times> 'w \<Rightarrow> (int \<times> rt \<times> 'w) option" where
  "detio_sleep me seconds sleep = det_call me (int seconds * 1000000 * EVENTS_PER_USEC) (sleep seconds)"

definition detio_sysconf where "detio_sysconf me call = det_call me 0 call"
definition detio_getopt where "detio_getopt me call = det_call me 0 call"
definition detio_sigfillset where "detio_sigfillset me call = det_call me 0 call"
definition detio_valloc where "detio_valloc me call = det_call me 0 call"
definition detio_free where "detio_free me call = det_call me 1 call"
definition detio_realloc where "detio_realloc me call = det_call me 0 call"
definition detio_getenv where "detio_getenv me call = det_call me 0 call"
definition detio_putchar where "detio_putchar me call = det_call me 0 call"
definition detio_snprintf where "detio_snprintf me call = det_call me 0 call"
definition detio_fflush where "detio_fflush me call = det_call me 0 call"
definition detio_fgets where "detio_fgets me call = det_call me 1 call"
definition detio_fgetc where "detio_fgetc me call = det_call me 1 call"
definition detio_fscanf where "detio_fscanf me call = det_call me 1 call"
definition detio_sscanf where "detio_sscanf me call = det_call me 1 call"
definition detio_fclose where "detio_fclose me call = det_call me 1 call"
definition detio_fopen where "detio_fopen me call = det_call me 1 call"
definition detio_fcntl where "detio_fcntl me call = det_call me 0 call"
definition detio_fsync where "detio_fsync me call = det_call me 0 call"
definition detio_getcwd where "detio_getcwd me call = det_call me 0 call"
definition detio_open where "detio_open me call = det_call me 0 call"
definition detio_lseek where "detio_lseek me call = det_call me 0 call"
definition detio_ftruncate where "detio_ftruncate me call = det_call me 0 call"
definition det_FD_ZERO where "det_FD_ZERO me call = det_call me 0 call"
definition detio_pread where "detio_pread me call = det_call me 0 call"
definition detio_pwrite where "detio_pwrite me call = det_call me 0 call"
definition detio_read where "detio_read me call = det_call me 0 call"
definition detio_write where "detio_write me call = det_call me 0 call"
definition detio_stat where "detio_stat me call = det_call me 0 call"
definition detio_fstat where "detio_fstat me call = det_call me 0 call"
definition detio_send where "detio_send me call = det_call me 0 call"
definition detio_select where "detio_select me call = det_call me 0 call"

text \<open>\<^verbatim>\<open>vfprintf\<close> followed by \<^verbatim>\<open>fflush\<close>.\<close>

definition detio_fprintf ::
  "nat \<Rightarrow> ('w \<Rightarrow> int \<times> 'w) \<Rightarrow> ('w \<Rightarrow> int \<times> 'w) \<Rightarrow> rt \<times> 'w \<Rightarrow> (int \<times> rt \<times> 'w) option" where
  "detio_fprintf me vfprintf fflush =
     det_call me 1 (\<lambda>w. let (ret, w) = vfprintf w; (_, w) = fflush w in (ret, w))"

definition detio_sigwait :: "nat \<Rightarrow> ('w \<Rightarrow> int \<times> 'w) \<Rightarrow> rt \<times> 'w \<Rightarrow> (int \<times> rt \<times> 'w) option" where
  "detio_sigwait me sigwait sw = (case sw of (s, w) \<Rightarrow> do {
     (_, s) \<leftarrow> det_exit_logical_clock me s;
     let (ret, w) = sigwait w;
     (_, s) \<leftarrow> det_adjust_logical_clock me s;
     Some (ret, s, w)
   })"

text \<open>The clock is read into a \<^verbatim>\<open>uint64_t\<close>.\<close>

definition detio_gettimeofday :: "nat \<Rightarrow> rt \<Rightarrow> (int \<times> (int \<times> int) \<times> rt) option" where
  "detio_gettimeofday me s = do {
     (clock, s) \<leftarrow> det_get_clock me s;
     let usecs = (clock mod 2 ^ 64) div EVENTS_PER_USEC;
     Some (0, (usecs div 1000000, usecs mod 1000000), s)
   }"

text \<open>\<^verbatim>\<open>detio_recv\<close>.  The call \<open>recv remain\<close> answers with the return value and the bytes it
  stores from the start of \<^verbatim>\<open>buf\<close> on; \<^verbatim>\<open>remain\<close> and \<^verbatim>\<open>requested\<close> are unsigned.\<close>

fun put_bytes :: "nat \<Rightarrow> nat list \<Rightarrow> mem \<Rightarrow> mem" where
  "put_bytes a [] m = m"
| "put_bytes a (b # bs) m = put_bytes (Suc a) bs (m(a := b))"

partial_function (option) recv_loop ::
  "(nat \<Rightarrow> 'w \<Rightarrow> (int \<times> nat list) \<times> 'w) \<Rightarrow> nat \<Rightarrow> nat \<Rightarrow> nat \<Rightarrow> nat \<Rightarrow> mem \<Rightarrow> 'w \<Rightarrow> (nat \<times> mem \<times> 'w) option" where
  "recv_loop recv buf requested remain retry_cnt m w =
     (if remain > 0 then
        (case recv remain w of ((ret, bytes), w) \<Rightarrow>
           (let m = put_bytes buf bytes m in
            if ret = 0 then Some (nat ((int requested - int remain) mod 2 ^ 64), m, w)
            else if ret < 0 \<and> retry_cnt < 3 then recv_loop recv buf requested remain (retry_cnt + 1) m w
            else recv_loop recv buf requested (nat ((int remain - ret) mod 2 ^ 64)) retry_cnt m w))
      else Some (requested, m, w))"

definition detio_recv ::
  "nat \<Rightarrow> (nat \<Rightarrow> 'w \<Rightarrow> (int \<times> nat list) \<times> 'w) \<Rightarrow> nat \<Rightarrow> nat \<Rightarrow> mem \<Rightarrow> rt \<times> 'w \<Rightarrow> (nat \<times> mem \<times> rt \<times> 'w) option" where
  "detio_recv me recv buf len m sw = (case sw of (s, w) \<Rightarrow> do {
     (lret, s) \<leftarrow> det_disable_logical_clock me s;
     (requested, m, w) \<leftarrow> recv_loop recv buf len len 0 m w;
     s \<leftarrow> (if lret = 0 then map_option snd (det_enable_logical_clock me 0 s) else Some s);
     Some (requested, m, s, w)
   })"

section \<open>Memory functions\<close>

lemma memset_loop_eq: "memset_loop n a c m x = (if a \<le> x \<and> x < a + n then c else m x)"
proof (induction n a c m rule: memset_loop.induct)
  case (2 n a c m)
  show ?case unfolding memset_loop.simps "2.IH" by auto
qed simp

lemma zero_fill_eq: "zero_fill n a m x = (if a \<le> x \<and> x < a + n then 0 else m x)"
proof (induction n a m rule: zero_fill.induct)
  case (2 n a m)
  show ?case unfolding zero_fill.simps "2.IH" by auto
qed simp

lemma put_bytes_eq:
  "put_bytes a bs m x = (if a \<le> x \<and> x < a + length bs then bs ! (x - a) else m x)"
proof (induction a bs m rule: put_bytes.induct)
  case (2 a b bs m)
  show ?case unfolding put_bytes.simps "2.IH" by (auto simp: nth_Cons')
qed simp

text \<open>Copying upwards is right when the source lies above, or does not overlap.\<close>

lemma copy_up_eq:
  "a \<le> b \<or> b + n \<le> a \<Longrightarrow> copy_up n a b m x = (if a \<le> x \<and> x < a + n then m (b + (x - a)) else m x)"
proof (induction n a b m rule: copy_up.induct)
  case (2 n a b m)
  then have "Suc a \<le> Suc b \<or> Suc b + n \<le> Suc a" by auto
  note IH = "2.IH" [OF this]
  have "b + (x - a) = Suc b + (x - Suc a)" if "a < x" using that by simp
  moreover have "Suc b + (x - Suc a) \<noteq> a" if "a < x" "x < Suc a + n" using that "2.prems" by auto
  ultimately show ?case unfolding copy_up.simps IH by (cases "x = a") auto
qed simp

lemma copy_down_eq:
  "b < a \<Longrightarrow> copy_down n (a + n - 1) (b + n - 1) m x = (if a \<le> x \<and> x < a + n then m (b + (x - a)) else m x)"
proof (induction n arbitrary: m)
  case (Suc n)
  have "copy_down (Suc n) (a + Suc n - 1) (b + Suc n - 1) m x =
      copy_down n (a + n - 1) (b + n - 1) (m(a + n := m (b + n))) x" by simp
  also have "\<dots> = (if a \<le> x \<and> x < a + n then (m(a + n := m (b + n))) (b + (x - a)) else (m(a + n := m (b + n))) x)"
    by (rule Suc.IH [OF Suc.prems])
  also have "\<dots> = (if a \<le> x \<and> x < a + Suc n then m (b + (x - a)) else m x)"
    using Suc.prems by auto
  finally show ?case .
qed simp

lemma strncpy_loop_eq:
  "s + Suc k \<le> d \<or> d + Suc k \<le> s \<Longrightarrow>
    strncpy_loop k d s m x =
      (if d \<le> x \<and> x \<le> d + k then if \<forall>j < x - d. m (s + j) \<noteq> 0 then m (s + (x - d)) else 0 else m x)"
proof (induction k d s m rule: strncpy_loop.induct)
  case (1 d s m)
  then show ?case by auto
next
  case (2 k d s m)
  show ?case
  proof (cases "m s = 0")
    case True
    then have stop: "\<not> (\<forall>j < x - d. m (s + j) \<noteq> 0)" if "d < x"
      using that by (metis add.right_neutral zero_less_diff)
    have "strncpy_loop (Suc k) d s m x = zero_fill (Suc k) (Suc d) (m(d := m s)) x" using True by simp
    also have "\<dots> = (if d \<le> x \<and> x \<le> d + Suc k then 0 else m x)"
      unfolding zero_fill_eq using True by auto
    also have "\<dots> = (if d \<le> x \<and> x \<le> d + Suc k then
        if \<forall>j < x - d. m (s + j) \<noteq> 0 then m (s + (x - d)) else 0 else m x)"
    proof (cases "d < x")
      case dx: True
      have "(if \<forall>j < x - d. m (s + j) \<noteq> 0 then m (s + (x - d)) else 0) = 0"
        by (rule if_not_P) (rule stop [OF dx])
      then show ?thesis by presburger
    next
      case False
      with True show ?thesis by (cases "x = d") simp_all
    qed
    finally show ?thesis .
  next
    case False
    have IH: "strncpy_loop k (Suc d) (Suc s) (m(d := m s)) x =
      (if Suc d \<le> x \<and> x \<le> Suc d + k then
        if \<forall>j < x - Suc d. (m(d := m s)) (Suc s + j) \<noteq> 0 then (m(d := m s)) (Suc s + (x - Suc d)) else 0
       else (m(d := m s)) x)"
      using "2.prems" False by (intro "2.IH") auto
    have shift: "(\<forall>j < x - d. m (s + j) \<noteq> 0) \<longleftrightarrow> (\<forall>j < x - Suc d. m (Suc s + j) \<noteq> 0)" if "d < x"
    proof -
      have "x - d = Suc (x - Suc d)" using that by simp
      then show ?thesis using False by (simp add: All_less_Suc2)
    qed
    have outside: "Suc s + j \<noteq> d" if "j \<le> k" for j
      using that "2.prems" by auto
    have "strncpy_loop (Suc k) d s m x = strncpy_loop k (Suc d) (Suc s) (m(d := m s)) x"
      using False by simp
    also have "\<dots> = (if d \<le> x \<and> x \<le> d + Suc k then
        if \<forall>j < x - d. m (s + j) \<noteq> 0 then m (s + (x - d)) else 0 else m x)"
    proof (cases "d < x \<and> x \<le> d + Suc k")
      case True
      then have le: "x - Suc d \<le> k" and src: "s + (x - d) = Suc s + (x - Suc d)" by auto
      have e1: "(\<forall>j < x - Suc d. (m(d := m s)) (Suc s + j) \<noteq> 0) = (\<forall>j < x - Suc d. m (Suc s + j) \<noteq> 0)"
        using outside le by (metis fun_upd_other less_imp_le_nat order_trans)
      have e2: "(m(d := m s)) (Suc s + (x - Suc d)) = m (s + (x - d))"
        unfolding src using outside [OF le] by (rule fun_upd_other)
      have "(Suc d \<le> x \<and> x \<le> Suc d + k) = True" "(d \<le> x \<and> x \<le> d + Suc k) = True" "d < x" using True by auto
      then show ?thesis unfolding IH e1 e2 by (simp only: if_True shift)
    next
      case False
      then have "\<not> (Suc d \<le> x \<and> x \<le> Suc d + k)" by auto
      note e = IH [unfolded if_not_P [OF this]]
      show ?thesis
      proof (cases "x = d")
        case True
        then show ?thesis unfolding e by simp
      next
        case neq: False
        with False have out: "\<not> (d \<le> x \<and> x \<le> d + Suc k)" by auto
        show ?thesis unfolding e if_not_P [OF out] using neq by simp
      qed
    qed
    finally show ?thesis .
  qed
qed

section \<open>Calls and the clock\<close>

lemma to_int32_id: "-(2 ^ 31) \<le> x \<Longrightarrow> x < 2 ^ 31 \<Longrightarrow> to_int32 x = x"
  by (simp add: to_int32_def)

lemma to_int32_wrap: "2 ^ 31 \<le> x \<Longrightarrow> x < 2 ^ 32 + 2 ^ 31 \<Longrightarrow> to_int32 x = x - 2 ^ 32"
  using minus_mod_self2 [of "x + 2 ^ 31" "2 ^ 32"] by (simp add: to_int32_def)

lemma det_call_eq:
  assumes "clk_ok s me" and "w_fds (wa s me) = FdsOpen" and "hw_clock_enabled (wa s me)" and "det_is_enabled me s"
  shows "det_call me incr call (s, w) =
    Some (fst (call w), start_clock me (add_sw_clock me (to_int32 incr) (stop_clock me s)), snd (call w))"
  using assms
  by (simp add: det_call_def det_disable_logical_clock_def det_enable_logical_clock_def disable_eq enable_eq
      split: prod.splits)

lemma det_call_clock:
  assumes "clk_ok s me" and "w_fds (wa s me) = FdsOpen" and "hw_clock_enabled (wa s me)" and "det_is_enabled me s"
  shows "\<exists>s'. det_call me incr call (s, w) = Some (fst (call w), s', snd (call w))
    \<and> lclock s' = (lclock s)(me := lclock s me + to_int32 incr) \<and> hw_clock_enabled (wa s' me)"
proof -
  let ?s = "start_clock me (add_sw_clock me (to_int32 incr) (stop_clock me s))"
  have "clk_ok (add_sw_clock me (to_int32 incr) (stop_clock me s)) me" using assms(1) by simp
  then have "lclock ?s = (lclock s)(me := lclock s me + to_int32 incr)" by (auto simp: fun_eq_iff)
  with det_call_eq [OF assms, of incr call w] assms(2) show ?thesis by (intro exI [of _ ?s]) simp
qed

lemma recv_loop_step:
  assumes "remain > 0" and "recv remain w = ((ret, bytes), w')" and "0 < ret" and "ret \<le> int remain"
    and "remain < 2 ^ 64"
  shows "recv_loop recv buf requested remain rc m w =
    recv_loop recv buf requested (remain - nat ret) rc (put_bytes buf bytes m) w'"
proof -
  have "nat ((int remain - ret) mod 2 ^ 64) = remain - nat ret"
    using assms(3-5) by (simp add: nat_diff_distrib)
  with assms show ?thesis by (subst recv_loop.simps) simp
qed

text \<open>After three failed attempts an error makes the request larger: the next \<^verbatim>\<open>recv\<close> may
  store more bytes than the buffer has.\<close>

lemma recv_error_grows:
  assumes "recv remain w = ((-1, []), w')" and "0 < remain" and "remain + 1 < 2 ^ 64" and "3 \<le> rc"
  shows "recv_loop recv buf requested remain rc m w = recv_loop recv buf requested (remain + 1) rc m w'"
proof -
  have "nat ((int remain - -1) mod 2 ^ 64) = remain + 1" using assms(3) by (simp add: nat_eq_iff)
  with assms show ?thesis by (subst recv_loop.simps) simp
qed

lemma gettimeofday_micros:
  assumes "det_get_clock me s = Some (clock, s')" and "0 \<le> clock" and "clock < 2 ^ 64"
  shows "\<exists>sec usec. detio_gettimeofday me s = Some (0, (sec, usec), s') \<and> sec * 1000000 + usec = clock div 122
    \<and> 0 \<le> usec \<and> usec < 1000000"
  using assms by (auto simp: detio_gettimeofday_def EVENTS_PER_USEC_def Let_def)

section \<open>Properties\<close>



text \<open>\<^verbatim>\<open>detio_sleep\<close> moves logical time backwards: sleeping 18 to 35 seconds subtracts
  time, because the increment, counted in an unsigned 64-bit number, reaches
  \<^verbatim>\<open>det_enable_logical_clock\<close> as a 32-bit \<^verbatim>\<open>int\<close>.\<close>

theorem sleep_backwards:
  assumes "clk_ok s me" and "w_fds (wa s me) = FdsOpen" and "hw_clock_enabled (wa s me)" and "det_is_enabled me s"
    and "18 \<le> seconds" and "seconds \<le> 35"
  shows "\<exists>s'. detio_sleep me seconds sleep (s, w) = Some (fst (sleep seconds w), s', snd (sleep seconds w))
    \<and> lclock s' me = lclock s me + (int seconds * 122000000 - 2 ^ 32) \<and> lclock s' me < lclock s me"
proof -
  have "int seconds * 1000000 * EVENTS_PER_USEC = int seconds * 122000000" by (simp add: EVENTS_PER_USEC_def)
  then have "to_int32 (int seconds * 1000000 * EVENTS_PER_USEC) = int seconds * 122000000 - 2 ^ 32"
    using to_int32_wrap [of "int seconds * 122000000"] assms(5,6) by (simp only:) simp
  with det_call_clock [OF assms(1-4), of "int seconds * 1000000 * EVENTS_PER_USEC" "sleep seconds" w] assms(5,6)
  show ?thesis by (auto simp: detio_sleep_def)
qed

theorem sleep_backwards_witness:
  "\<exists>s'. detio_sleep 0 20 (\<lambda>n w. (0, w)) (demo_rt, ()) = Some (0, s', ()) \<and> lclock s' 0 = 5 - 1854967296"
proof -
  have "w_fds (wa demo_rt 0) = FdsOpen" "det_is_enabled 0 demo_rt" by (simp_all add: demo_rt_def det_is_enabled_def)
  from sleep_backwards [OF clk_ok_demo this(1) demo_sel(2) this(2), of 20 "\<lambda>n w. (0, w)" "()"]
  show ?thesis by auto
qed

text \<open>\<^verbatim>\<open>detio_memmove\<close> copies as if through a buffer: for any two ranges, overlapping or
  not, the destination holds afterwards what the source held before, and nothing outside
  the destination changes.\<close>

theorem memmove_copies:
  "detio_memmove dst src count m = (dst, \<lambda>x. if dst \<le> x \<and> x < dst + count then m (src + (x - dst)) else m x)"
  using copy_up_eq [of dst src count m] copy_down_eq [of src dst count m]
  by (auto simp: detio_memmove_def fun_eq_iff)

text \<open>\<^verbatim>\<open>detio_strncpy\<close> on ranges that do not overlap: the source up to its first zero
  byte, then zeros up to \<open>n\<close> bytes, and nothing else is written.\<close>

theorem strncpy_copies:
  assumes "src + n \<le> dst \<or> dst + n \<le> src"
  shows "detio_strncpy dst src n m = (dst, \<lambda>x. if dst \<le> x \<and> x < dst + n
    then if list_all (\<lambda>j. m (src + j) \<noteq> 0) [0..<x - dst] then m (src + (x - dst)) else 0 else m x)"
proof (cases n)
  case (Suc k)
  with assms strncpy_loop_eq [of src k dst m] show ?thesis
    by (auto simp: detio_strncpy_def fun_eq_iff list_all_iff less_Suc_eq_le)
qed (auto simp: detio_strncpy_def fun_eq_iff)

theorem strncpy_copies_witness:
  "snd (detio_strncpy 10 0 4 ((\<lambda>x. 9)(0 := 65, 1 := 66, 2 := 0))) 11 = 66
    \<and> snd (detio_strncpy 10 0 4 ((\<lambda>x. 9)(0 := 65, 1 := 66, 2 := 0))) 13 = 0
    \<and> snd (detio_strncpy 10 0 4 ((\<lambda>x. 9)(0 := 65, 1 := 66, 2 := 0))) 14 = 9"
  using strncpy_copies [of 0 4 10 "(\<lambda>x. 9)(0 := 65, 1 := 66, 2 := 0)"] by (simp add: upt_rec)

text \<open>\<^verbatim>\<open>detio_recv\<close> loses data: every \<^verbatim>\<open>recv\<close> stores at the start of the buffer, so that
  when the data arrives in two pieces the second overwrites the first, although the full
  length is reported.\<close>

theorem recv_overwrites:
  assumes "recv len w = ((int (length xs), xs), w1)" and "recv (len - length xs) w1 = ((int (length ys), ys), w2)"
    and "length xs + length ys = len" and "xs \<noteq> []" and "ys \<noteq> []" and "len < 2 ^ 64"
  shows "\<exists>m'. recv_loop recv buf len len 0 m w = Some (len, m', w2)
    \<and> (\<forall>k < length ys. m' (buf + k) = ys ! k)
    \<and> (\<forall>k. length ys \<le> k \<longrightarrow> k < length xs \<longrightarrow> m' (buf + k) = xs ! k)
    \<and> (\<forall>k. length xs \<le> k \<longrightarrow> length ys \<le> k \<longrightarrow> m' (buf + k) = m (buf + k))"
proof -
  have l: "0 < length xs" "0 < length ys" using assms(4,5) by auto
  have "recv_loop recv buf len len 0 m w = recv_loop recv buf len (len - length xs) 0 (put_bytes buf xs m) w1"
    using recv_loop_step [where recv = recv and remain = len and w = w and buf = buf and requested = len and rc = 0 and m = m] l assms(1,3,6) by simp
  also have "\<dots> = recv_loop recv buf len 0 0 (put_bytes buf ys (put_bytes buf xs m)) w2"
    using recv_loop_step [where recv = recv and remain = "len - length xs" and w = w1 and buf = buf and requested = len and rc = 0
      and m = "put_bytes buf xs m"] l assms(2,3,6) by simp
  also have "\<dots> = Some (len, put_bytes buf ys (put_bytes buf xs m), w2)"
    by (subst recv_loop.simps) simp
  finally show ?thesis by (intro exI [of _ "put_bytes buf ys (put_bytes buf xs m)"]) (simp add: put_bytes_eq)
qed

text \<open>A connection that delivers its data in prepared pieces.\<close>

definition demo_recv :: "nat \<Rightarrow> nat list list \<Rightarrow> (int \<times> nat list) \<times> nat list list" where
  "demo_recv n w = (case w of [] \<Rightarrow> ((0, []), []) | b # bs \<Rightarrow> ((int (length b), b), bs))"

theorem recv_overwrites_witness:
  "\<exists>m'. recv_loop demo_recv 100 3 3 0 (\<lambda>x. 0) [[1, 2], [3]] = Some (3, m', []) \<and> m' 100 = 3 \<and> m' 101 = 2 \<and> m' 102 = 0"
proof -
  have "\<exists>m'. recv_loop demo_recv 100 3 3 0 (\<lambda>x. 0) [[1, 2], [3]] = Some (3, m', [])
    \<and> (\<forall>k < length [3 :: nat]. m' (100 + k) = [3] ! k)
    \<and> (\<forall>k. length [3 :: nat] \<le> k \<longrightarrow> k < length [1, 2 :: nat] \<longrightarrow> m' (100 + k) = [1, 2] ! k)
    \<and> (\<forall>k. length [1, 2 :: nat] \<le> k \<longrightarrow> length [3 :: nat] \<le> k \<longrightarrow> m' (100 + k) = (\<lambda>x. 0) (100 + k))"
    by (rule recv_overwrites [where xs = "[1, 2]" and ys = "[3]" and w = "[[1, 2], [3]]" and ?w1.0 = "[[3]]"])
      (simp_all add: demo_recv_def)
  then obtain m' where m: "recv_loop demo_recv 100 3 3 0 (\<lambda>x. 0) [[1, 2], [3]] = Some (3, m', [])"
    "\<forall>k < 1. m' (100 + k) = 3" "\<forall>k. 1 \<le> k \<longrightarrow> k < 2 \<longrightarrow> m' (100 + k) = [1, 2] ! k"
    "\<forall>k. 2 \<le> k \<longrightarrow> m' (100 + k) = 0" by auto
  from m(2) [rule_format, of 0] m(3) [rule_format, of 1] m(4) [rule_format, of 2] m(1) show ?thesis by auto
qed

end
