(* ===== verification/PerfUtil.thy ===== *)
theory PerfUtil
  imports Prelude "HOL-Library.Word"
begin

text \<open>
  \<^verbatim>\<open>src/perf_util.c\<close> and the inline functions of \<^verbatim>\<open>src/perf_util.h\<close>: building the table of
  events, splitting a comma separated list, and reading from the ring buffer that the
  kernel maps.  The event encoding of libpfm and \<^verbatim>\<open>realloc\<close> are parameters: \<open>enc\<close> answers
  \<open>None\<close> for an unknown event, \<open>alloc n\<close> whether memory for \<open>n\<close> entries is available.
  \<^verbatim>\<open>perf_scale\<close> and \<^verbatim>\<open>perf_scale_ratio\<close> compute with floating point numbers and are not
  modelled.
\<close>

section \<open>Events\<close>

record perf_event_desc =
  d_hw :: nat
  d_value :: nat
  d_prev_value :: nat
  d_name :: string
  d_id :: nat
  d_pgmsk :: nat
  d_fd :: int

definition zero_desc :: perf_event_desc where
  "zero_desc = \<lparr>d_hw = 0, d_value = 0, d_prev_value = 0, d_name = '''', d_id = 0, d_pgmsk = 0, d_fd = 0\<rparr>"

text \<open>\<^verbatim>\<open>max_fd << 1\<close> on an \<^verbatim>\<open>int\<close>.\<close>

definition shl1_int32 :: "int \<Rightarrow> int" where
  "shl1_int32 x = (2 * x + 2 ^ 31) mod 2 ^ 32 - 2 ^ 31"

definition grow_table :: "(int \<Rightarrow> bool) \<Rightarrow> perf_event_desc list \<Rightarrow> perf_event_desc list option" where
  "grow_table alloc fdt =
     (let max_fd = int (length fdt); new_max = (if max_fd = 0 then 2 else shl1_int32 max_fd)
      in if new_max < max_fd then None
         else if \<not> alloc new_max then None
         else Some (fdt @ replicate (nat (new_max - max_fd)) zero_desc))"

fun argv_loop ::
  "(string \<Rightarrow> nat option) \<Rightarrow> (int \<Rightarrow> bool) \<Rightarrow> string list \<Rightarrow> nat \<Rightarrow> perf_event_desc list \<Rightarrow>
   (nat \<times> perf_event_desc list) option" where
  "argv_loop enc alloc [] num fdt = Some (num, fdt)"
| "argv_loop enc alloc (a # argv) num fdt = do {
     fdt \<leftarrow> (if num = length fdt then grow_table alloc fdt else Some fdt);
     h \<leftarrow> enc a;
     if num < length fdt
     then argv_loop enc alloc argv (num + 1) (fdt[num := (fdt ! num)\<lparr>d_hw := h, d_name := a\<rparr>])
     else None
   }"

definition perf_setup_argv_events ::
  "(string \<Rightarrow> nat option) \<Rightarrow> (int \<Rightarrow> bool) \<Rightarrow> string list \<Rightarrow> int \<times> perf_event_desc list option" where
  "perf_setup_argv_events enc alloc argv =
     (case argv_loop enc alloc argv 0 [] of
        None \<Rightarrow> (-1, None)
      | Some (num, fdt) \<Rightarrow> (int num, Some fdt))"

section \<open>Splitting a list of events\<close>

fun strchr :: "string \<Rightarrow> char \<Rightarrow> nat option" where
  "strchr [] c = None"
| "strchr (x # xs) c = (if x = c then Some 0 else map_option Suc (strchr xs c))"

lemma strchr_bound: "strchr xs c = Some p \<Longrightarrow> p < length xs"
  by (induction xs arbitrary: p) (auto split: if_splits)

text \<open>\<^verbatim>\<open>while((p = strchr(q, ','))) { num++; q = p + 1; }\<close>\<close>

function count_commas :: "string \<Rightarrow> nat \<Rightarrow> nat" where
  "count_commas q num = (case strchr q CHR '','' of None \<Rightarrow> num | Some p \<Rightarrow> count_commas (drop (Suc p) q) (num + 1))"
  by pat_completeness auto
termination
  by (relation "measure (\<lambda>(q, num). length q)") (auto dest: strchr_bound)

declare count_commas.simps [simp del]

text \<open>The loop that cuts the string: \<open>n\<close> entries are still to be filled; the result is the
  part of \<^verbatim>\<open>argv\<close> filled and the rest of the string.  Following the null pointer that
  \<^verbatim>\<open>strchr\<close> may return is \<open>None\<close>.\<close>

fun cut_events :: "nat \<Rightarrow> string \<Rightarrow> (string list \<times> string) option" where
  "cut_events 0 q = Some ([], q)"
| "cut_events (Suc n) q = do {
     p \<leftarrow> strchr q CHR '','';
     (argv, q') \<leftarrow> cut_events n (drop (Suc p) q);
     Some (take p q # argv, q')
   }"

definition perf_setup_list_events ::
  "(string \<Rightarrow> nat option) \<Rightarrow> (int \<Rightarrow> bool) \<Rightarrow> string \<Rightarrow> (int \<times> perf_event_desc list option) option" where
  "perf_setup_list_events enc alloc ev = do {
     let num = count_commas ev 0 + 2;
     (argv, q) \<leftarrow> cut_events (num - 2) ev;
     Some (perf_setup_argv_events enc alloc (argv @ [q]))
   }"

section \<open>The ring buffer\<close>

text \<open>\<open>data_head\<close> and \<open>data_tail\<close> count all bytes ever written and read; the payload is a
  list of \<^verbatim>\<open>pgmsk + 1\<close> bytes.  An access outside the payload is \<open>None\<close>.\<close>

record mmap_page =
  data_head :: nat
  data_tail :: nat
  payload :: "nat list"

definition slice :: "nat list \<Rightarrow> nat \<Rightarrow> nat \<Rightarrow> nat list option" where
  "slice data a n = (if a + n \<le> length data then Some (take n (drop a data)) else None)"

definition perf_read_buffer :: "mmap_page \<Rightarrow> nat \<Rightarrow> nat \<Rightarrow> (int \<times> nat list \<times> mmap_page) option" where
  "perf_read_buffer hdr pgmsk sz =
     (let tail = and (data_tail hdr) pgmsk; head = and (data_head hdr) pgmsk;
          avail_sz = nat ((int (data_head hdr) - int (data_tail hdr)) mod 2 ^ 64)
      in if sz > avail_sz then Some (-1, [], hdr)
         else do {
           buf \<leftarrow> (if tail + avail_sz = head then slice (payload hdr) tail sz
                   else do {
                     let c = pgmsk + 1 - tail;
                     let m = (if c < sz then c else sz);
                     b1 \<leftarrow> slice (payload hdr) tail m;
                     b2 \<leftarrow> (if sz - m > 0 then slice (payload hdr) 0 (sz - m) else Some []);
                     Some (b1 @ b2)
                   });
           Some (0, buf, hdr\<lparr>data_tail := data_tail hdr + sz\<rparr>)
         })"

definition perf_read_buffer_32 :: "mmap_page \<Rightarrow> nat \<Rightarrow> (int \<times> nat list \<times> mmap_page) option" where
  "perf_read_buffer_32 hdr pgmsk = perf_read_buffer hdr pgmsk 4"

definition perf_read_buffer_64 :: "mmap_page \<Rightarrow> nat \<Rightarrow> (int \<times> nat list \<times> mmap_page) option" where
  "perf_read_buffer_64 hdr pgmsk = perf_read_buffer hdr pgmsk 8"

definition perf_skip_buffer :: "mmap_page \<Rightarrow> nat \<Rightarrow> mmap_page" where
  "perf_skip_buffer hdr sz =
     (let sz = (if data_tail hdr + sz > data_head hdr then data_head hdr - data_tail hdr else sz)
      in hdr\<lparr>data_tail := data_tail hdr + sz\<rparr>)"

section \<open>Lookup\<close>

fun index_of :: "(perf_event_desc \<Rightarrow> bool) \<Rightarrow> perf_event_desc list \<Rightarrow> nat \<Rightarrow> nat \<Rightarrow> int" where
  "index_of f fds i 0 = -1"
| "index_of f fds i (Suc n) = (if f (fds ! i) then int i else index_of f fds (Suc i) n)"

definition perf_fd2event :: "perf_event_desc list \<Rightarrow> nat \<Rightarrow> int \<Rightarrow> int" where
  "perf_fd2event fds num_events fd = index_of (\<lambda>d. d_fd d = fd) fds 0 num_events"

definition perf_id2event :: "perf_event_desc list \<Rightarrow> nat \<Rightarrow> nat \<Rightarrow> int" where
  "perf_id2event fds num_events ident = index_of (\<lambda>d. d_id d = ident) fds 0 num_events"

section \<open>Lemmas\<close>

text \<open>The table: enough room, everything before \<open>num\<close> filled in order.\<close>

definition table_ok :: "(string \<Rightarrow> nat option) \<Rightarrow> string list \<Rightarrow> perf_event_desc list \<Rightarrow> bool" where
  "table_ok enc ns fdt \<longleftrightarrow> length ns \<le> length fdt
     \<and> (\<forall>k < length ns. d_name (fdt ! k) = ns ! k \<and> enc (ns ! k) = Some (d_hw (fdt ! k)))"

lemma shl1_id: "0 \<le> x \<Longrightarrow> x < 2 ^ 30 \<Longrightarrow> shl1_int32 x = 2 * x"
  by (simp add: shl1_int32_def)

lemma grow_table_ok:
  assumes "table_ok enc ns fdt" and "length fdt < 2 ^ 30" and "\<And>n. alloc n"
  shows "\<exists>fdt'. grow_table alloc fdt = Some fdt' \<and> table_ok enc ns fdt' \<and> length fdt < length fdt'
    \<and> (length fdt = 0 \<and> length fdt' = 2 \<or> length fdt' = 2 * length fdt)"
proof (cases "fdt = []")
  case True
  with assms(1,3) show ?thesis by (auto simp: grow_table_def Let_def table_ok_def)
next
  case False
  have "int (length fdt) < int (2 ^ 30)" using assms(2) by (simp only: of_nat_less_iff)
  then have "shl1_int32 (int (length fdt)) = 2 * int (length fdt)" by (intro shl1_id) simp_all
  then have "grow_table alloc fdt = Some (fdt @ replicate (length fdt) zero_desc)"
    using False assms(3) by (simp add: grow_table_def Let_def)
  with False assms(1) show ?thesis by (auto simp: table_ok_def nth_append)
qed

lemma argv_loop_ok:
  assumes "table_ok enc ns fdt" and "list_all (\<lambda>a. enc a \<noteq> None) argv" and "\<And>n. alloc n"
    and "length ns + length argv \<le> 2 ^ 30" and "length fdt = 0 \<or> (\<exists>j \<le> 30. length fdt = 2 ^ j)"
  shows "\<exists>fdt'. argv_loop enc alloc argv (length ns) fdt = Some (length ns + length argv, fdt')
    \<and> table_ok enc (ns @ argv) fdt'"
  using assms
proof (induction argv arbitrary: ns fdt)
  case (Cons a argv)
  obtain fdt1 where f1: "(if length ns = length fdt then grow_table alloc fdt else Some fdt) = Some fdt1"
    "table_ok enc ns fdt1" "length ns < length fdt1" "\<exists>j \<le> 30. length fdt1 = 2 ^ j"
  proof (cases "length ns = length fdt")
    case True
    with Cons.prems(4) have "length fdt < 2 ^ 30" by simp
    from grow_table_ok [OF Cons.prems(1) this, of alloc] Cons.prems(3) obtain fdt' where
      g: "grow_table alloc fdt = Some fdt'" "table_ok enc ns fdt'" "length fdt < length fdt'"
        "length fdt = 0 \<and> length fdt' = 2 \<or> length fdt' = 2 * length fdt" by blast
    have "\<exists>j \<le> 30. length fdt' = 2 ^ j"
    proof (cases "length fdt = 0")
      case True
      with g(3,4) have "length fdt' = 2 ^ 1" by auto
      then show ?thesis by (intro exI [of _ 1]) simp
    next
      case False
      with Cons.prems(5) obtain j where j: "length fdt = 2 ^ j" by blast
      with \<open>length fdt < 2 ^ 30\<close> have "(2 :: nat) ^ j < 2 ^ 30" by simp
      then have "j < 30" by (rule power_less_imp_less_exp [rotated]) simp
      with False g(4) j show ?thesis by (intro exI [of _ "Suc j"]) simp
    qed
    with g True that show ?thesis by simp
  next
    case False
    with Cons.prems(1,5) that show ?thesis by (auto simp: table_ok_def)
  qed
  from Cons.prems(2) obtain h where h: "enc a = Some h" by auto
  let ?fdt = "fdt1[length ns := (fdt1 ! length ns)\<lparr>d_hw := h, d_name := a\<rparr>]"
  have step: "table_ok enc (ns @ [a]) ?fdt"
    using f1(2,3) h by (auto simp: table_ok_def nth_append nth_list_update less_Suc_eq)
  from Cons.IH [OF step _ Cons.prems(3)] Cons.prems(2,4) f1(4) obtain fdt' where
    "argv_loop enc alloc argv (length (ns @ [a])) ?fdt = Some (length (ns @ [a]) + length argv, fdt')"
    "table_ok enc ((ns @ [a]) @ argv) fdt'" by auto
  with f1(1,3) h show ?case by auto
qed auto

text \<open>Splitting: the reference is the list of the parts between the commas.\<close>

fun split_commas :: "string \<Rightarrow> string list" where
  "split_commas [] = [[]]"
| "split_commas (x # xs) =
     (if x = CHR '','' then [] # split_commas xs
      else case split_commas xs of p # ps \<Rightarrow> (x # p) # ps | [] \<Rightarrow> [[x]])"

lemma split_ne [simp]: "split_commas xs \<noteq> []"
  by (induction xs) (auto split: list.splits)

lemma split_none: "strchr q CHR '','' = None \<Longrightarrow> split_commas q = [q]"
  by (induction q) (auto split: if_splits)

lemma split_some:
  "strchr q CHR '','' = Some p \<Longrightarrow> split_commas q = take p q # split_commas (drop (Suc p) q)"
  by (induction q arbitrary: p) (auto split: if_splits)

lemma count_commas_eq: "count_commas q num = num + (length (split_commas q) - 1)"
proof (induction q num rule: count_commas.induct)
  case (1 q num)
  show ?case
  proof (cases "strchr q CHR '',''")
    case None
    then show ?thesis by (subst count_commas.simps) (simp add: split_none)
  next
    case (Some p)
    have "length (split_commas (drop (Suc p) q)) \<ge> 1" by (simp add: Suc_leI)
    with 1 [OF Some] Some show ?thesis by (subst count_commas.simps) (simp add: split_some)
  qed
qed

lemma cut_events_eq:
  "length (split_commas q) = Suc n \<Longrightarrow>
    cut_events n q = Some (butlast (split_commas q), last (split_commas q))"
proof (induction n arbitrary: q)
  case 0
  then obtain x where x: "split_commas q = [x]" by (cases "split_commas q") auto
  have "strchr q CHR '','' = None"
  proof (cases "strchr q CHR '',''")
    case (Some p)
    with x split_some [OF Some] show ?thesis by simp
  qed
  with x split_none show ?case by simp
next
  case (Suc n)
  then obtain p where p: "strchr q CHR '','' = Some p"
    by (cases "strchr q CHR '',''") (auto simp: split_none)
  with Suc show ?case by (simp add: split_some)
qed

text \<open>Reading the ring: the byte at position \<open>p\<close> of the stream is at \<open>p mod n\<close>.\<close>

lemma and_mask: "and (x :: nat) (mask k) = x mod 2 ^ k"
  by (simp add: take_bit_eq_mod flip: take_bit_eq_mask)

lemma take_drop_map:
  "a + n \<le> length xs \<Longrightarrow> take n (drop a xs) = map (\<lambda>k. xs ! (a + k)) [0..<n]"
  by (rule nth_equalityI) auto

lemma ring_two_parts:
  assumes "length xs = n" and "a < n" and "m = (if n - a < sz then n - a else sz)" and "sz \<le> n"
  shows "take m (drop a xs) @ take (sz - m) (drop 0 xs) = map (\<lambda>k. xs ! ((a + k) mod n)) [0..<sz]"
proof (rule nth_equalityI)
  fix k assume k: "k < length (take m (drop a xs) @ take (sz - m) (drop 0 xs))"
  then have "k < sz" using assms by (auto split: if_splits)
  have m: "m \<le> n - a" "m \<le> sz" using assms(3) by auto
  show "(take m (drop a xs) @ take (sz - m) (drop 0 xs)) ! k = map (\<lambda>k. xs ! ((a + k) mod n)) [0..<sz] ! k"
  proof (cases "k < m")
    case True
    then have "(a + k) mod n = a + k" using assms m by simp
    with True assms m \<open>k < sz\<close> show ?thesis by (simp add: nth_append)
  next
    case False
    then have ma: "m = n - a" using assms \<open>k < sz\<close> by (auto split: if_splits)
    have "n \<le> a + k" using False ma assms(2) by linarith
    then have "(a + k) mod n = (a + k - n) mod n" by (rule le_mod_geq)
    also have "\<dots> = k - m" using False ma assms \<open>k < sz\<close> by simp
    finally have e: "(a + k) mod n = k - m" .
    have "k - m < sz - m" "length (take m (drop a xs)) = m" using False \<open>k < sz\<close> assms(1) m by auto
    then show ?thesis using False \<open>k < sz\<close> e by (simp add: nth_append)
  qed
qed (use assms in auto)

section \<open>Properties\<close>

text \<open>\<^verbatim>\<open>perf_setup_list_events\<close> splits its argument at the commas and nowhere else: it
  never follows the null pointer of \<^verbatim>\<open>strchr\<close>, fills exactly the entries it allocated, and
  hands the parts on in order; with known events and memory the table has one entry per
  part, in order.\<close>

theorem list_events_split:
  assumes "list_all (\<lambda>a. enc a \<noteq> None) (split_commas ev)" and "\<And>n. alloc n"
    and "length (split_commas ev) \<le> 2 ^ 30"
  shows "\<exists>fdt. perf_setup_list_events enc alloc ev = Some (int (length (split_commas ev)), Some fdt)
    \<and> table_ok enc (split_commas ev) fdt"
proof -
  let ?p = "split_commas ev"
  have "length ?p \<ge> 1" by (simp add: Suc_leI)
  then have "cut_events (count_commas ev 0) ev = Some (butlast ?p, last ?p)"
    by (intro cut_events_eq) (simp add: count_commas_eq)
  then have "perf_setup_list_events enc alloc ev = Some (perf_setup_argv_events enc alloc ?p)"
    by (simp add: perf_setup_list_events_def)
  moreover have "table_ok enc [] []" by (simp add: table_ok_def)
  from argv_loop_ok [OF this assms(1), of alloc] assms(2,3) obtain fdt where
    "argv_loop enc alloc ?p 0 [] = Some (length ?p, fdt)" "table_ok enc ?p fdt" by auto
  ultimately show ?thesis by (simp add: perf_setup_argv_events_def)
qed

theorem list_events_split_witness:
  "\<exists>fdt. perf_setup_list_events (\<lambda>a. Some (length a)) (\<lambda>n. True) ''ab,,c'' = Some (3, Some fdt)
    \<and> d_name (fdt ! 0) = ''ab'' \<and> d_name (fdt ! 1) = '''' \<and> d_name (fdt ! 2) = ''c'' \<and> d_hw (fdt ! 0) = 2"
proof -
  have p: "split_commas ''ab,,c'' = [''ab'', '''', ''c'']" by simp
  from list_events_split [of "\<lambda>a. Some (length a)" "''ab,,c''" "\<lambda>n. True"] obtain fdt where
    f: "perf_setup_list_events (\<lambda>a. Some (length a)) (\<lambda>n. True) ''ab,,c'' = Some (3, Some fdt)"
    "table_ok (\<lambda>a. Some (length a)) (split_commas ''ab,,c'') fdt"
    unfolding p by auto
  have nm: "d_name (fdt ! k) = [''ab'', '''', ''c''] ! k \<and> d_hw (fdt ! k) = length ([''ab'', '''', ''c''] ! k)"
    if "k < 3" for k
    using f(2) that unfolding p table_ok_def by auto
  from nm [of 0] nm [of 1] nm [of 2] f(1) show ?thesis by auto
qed

text \<open>\<^verbatim>\<open>perf_read_buffer\<close> delivers the stream: when the kernel has not overrun the buffer
  and \<open>sz\<close> bytes are available, it returns the next \<open>sz\<close> bytes in order, also across the
  end of the payload, reads only inside the payload, and advances the tail by \<open>sz\<close>; when
  fewer are available it returns -1 and changes nothing.\<close>

theorem read_buffer_stream:
  assumes "length (payload hdr) = 2 ^ k" and "data_tail hdr \<le> data_head hdr" and "data_head hdr < 2 ^ 64"
    and "data_head hdr - data_tail hdr \<le> 2 ^ k"
  shows "perf_read_buffer hdr (mask k) sz =
    (if sz \<le> data_head hdr - data_tail hdr
     then Some (0, map (\<lambda>j. payload hdr ! ((data_tail hdr + j) mod 2 ^ k)) [0..<sz],
            hdr\<lparr>data_tail := data_tail hdr + sz\<rparr>)
     else Some (-1, [], hdr))"
proof -
  let ?n = "(2 :: nat) ^ k" and ?t = "data_tail hdr" and ?h = "data_head hdr"
  have "(int ?h - int ?t) mod 2 ^ 64 = int ?h - int ?t"
    using assms(2,3) by (intro mod_pos_pos_trivial) auto
  then have avail: "nat ((int ?h - int ?t) mod 2 ^ 64) = ?h - ?t" by simp
  have tn: "?t mod ?n < ?n" by simp
  have idx: "(?t mod ?n + j) mod ?n = (?t + j) mod ?n" for j by (simp add: mod_add_left_eq)
  have n1: "mask k + 1 = ?n" by (simp add: mask_eq_exp_minus_1)
  show ?thesis
  proof (cases "sz \<le> ?h - ?t")
    case False
    then show ?thesis using avail by (simp add: perf_read_buffer_def)
  next
    case True
    show ?thesis
    proof (cases "?t mod ?n + (?h - ?t) = ?h mod ?n")
      case flat: True
      have "?h mod ?n < ?n" by simp
      with flat True have fit: "?t mod ?n + sz \<le> ?n" by linarith
      then have "(?t mod ?n + j) mod ?n = ?t mod ?n + j" if "j < sz" for j using that by simp
      then have "take sz (drop (?t mod ?n) (payload hdr)) = map (\<lambda>j. payload hdr ! ((?t + j) mod ?n)) [0..<sz]"
        using fit assms(1) idx by (simp add: take_drop_map)
      with flat fit True assms(1) avail show ?thesis
        by (simp add: perf_read_buffer_def and_mask slice_def)
    next
      case False
      define m where "m = (if ?n - ?t mod ?n < sz then ?n - ?t mod ?n else sz)"
      have two: "take m (drop (?t mod ?n) (payload hdr)) @ take (sz - m) (drop 0 (payload hdr)) =
          map (\<lambda>j. payload hdr ! ((?t mod ?n + j) mod ?n)) [0..<sz]"
        using assms(1,4) True tn by (intro ring_two_parts) (auto simp: m_def)
      have "?t mod ?n + m \<le> ?n" "sz - m \<le> ?n"
        using tn le_trans [OF True assms(4)] unfolding m_def by (split if_split, linarith)+
      then have s1: "slice (payload hdr) (?t mod ?n) m = Some (take m (drop (?t mod ?n) (payload hdr)))"
        and s2: "slice (payload hdr) 0 (sz - m) = Some (take (sz - m) (drop 0 (payload hdr)))"
        using assms(1) by (simp_all add: slice_def)
      have "perf_read_buffer hdr (mask k) sz =
          Some (0, take m (drop (?t mod ?n) (payload hdr)) @ take (sz - m) (drop 0 (payload hdr)),
            hdr\<lparr>data_tail := ?t + sz\<rparr>)"
        using False True avail s1 s2
        unfolding perf_read_buffer_def and_mask Let_def n1 m_def [symmetric] by simp
      with True show ?thesis unfolding two idx by simp
    qed
  qed
qed

theorem read_buffer_stream_witness:
  "perf_read_buffer \<lparr>data_head = 6, data_tail = 3, payload = [10, 11, 12, 13]\<rparr> (mask 2) 2 =
    Some (0, [13, 10], \<lparr>data_head = 6, data_tail = 5, payload = [10, 11, 12, 13]\<rparr>)"
  using read_buffer_stream [of "\<lparr>data_head = 6, data_tail = 3, payload = [10, 11, 12, 13]\<rparr>" 2 2]
  by (simp add: upt_rec)

lemma skip_buffer_bound:
  "data_tail hdr \<le> data_head hdr \<Longrightarrow> data_tail (perf_skip_buffer hdr sz) = min (data_tail hdr + sz) (data_head hdr)"
  by (simp add: perf_skip_buffer_def Let_def min_def)

lemma index_of_eq:
  "(\<And>k. i \<le> k \<Longrightarrow> k < j \<Longrightarrow> \<not> f (fds ! k)) \<Longrightarrow> i \<le> j \<Longrightarrow> j < i + n \<Longrightarrow> f (fds ! j) \<Longrightarrow>
    index_of f fds i n = int j"
proof (induction n arbitrary: i)
  case (Suc n)
  then show ?case by (cases "i = j") auto
qed simp

end
