(* ===== verification/CText.thy ===== *)
theory CText
  imports Prelude
begin

text \<open>
  What the programs use of the C library's text functions: decimal and hexadecimal output,
  the decimal input of \<^verbatim>\<open>atoi\<close> and \<^verbatim>\<open>sscanf("%u")\<close>, and integer conversions.
\<close>

definition c_int :: "int \<Rightarrow> int" where
  "c_int v = (v + 2 ^ 31) mod 2 ^ 32 - 2 ^ 31"

definition c_size :: "int \<Rightarrow> int" where
  "c_size v = v mod 2 ^ 64"

lemma c_int_id: "- (2 ^ 31) \<le> v \<Longrightarrow> v < 2 ^ 31 \<Longrightarrow> c_int v = v"
  by (simp add: c_int_def)

lemma c_size_id: "0 \<le> v \<Longrightarrow> v < 2 ^ 64 \<Longrightarrow> c_size v = v"
  by (simp add: c_size_def)

section \<open>Decimal numbers\<close>

definition digit :: "nat \<Rightarrow> char" where
  "digit d = char_of (48 + d)"

fun dec :: "nat \<Rightarrow> string" where
  "dec n = (if n < 10 then [digit n] else dec (n div 10) @ [digit (n mod 10)])"

declare dec.simps [simp del]

text \<open>\<^verbatim>\<open>%d\<close>.\<close>

definition dec_int :: "int \<Rightarrow> string" where
  "dec_int v = (if v < 0 then CHR ''-'' # dec (nat (- v)) else dec (nat v))"

definition is_digit :: "char \<Rightarrow> bool" where
  "is_digit c \<longleftrightarrow> 48 \<le> (of_char c :: nat) \<and> (of_char c :: nat) \<le> 57"

definition digit_num :: "char \<Rightarrow> nat" where
  "digit_num c = of_char c - 48"

definition is_space :: "char \<Rightarrow> bool" where
  "is_space c \<longleftrightarrow> c = CHR '' '' \<or> (9 \<le> (of_char c :: nat) \<and> (of_char c :: nat) \<le> 13)"

text \<open>The value of the leading digits, and the rest.\<close>

definition undec :: "string \<Rightarrow> nat" where
  "undec s = foldl (\<lambda>v c. v * 10 + digit_num c) 0 s"

fun sign_of :: "string \<Rightarrow> int \<times> string" where
  "sign_of (c # s) = (if c = CHR ''-'' then (- 1, s) else if c = CHR ''+'' then (1, s) else (1, c # s))"
| "sign_of [] = (1, [])"

text \<open>\<^verbatim>\<open>atoi\<close>: white space, a sign, digits; 0 without digits.\<close>

definition atoi :: "string \<Rightarrow> int" where
  "atoi s = (let (g, r) = sign_of (dropWhile is_space s) in c_int (g * int (undec (takeWhile is_digit r))))"

text \<open>\<^verbatim>\<open>sscanf(s, "%u", &v)\<close> into an \<^verbatim>\<open>int\<close>: no conversion without digits, and the range of
  \<^verbatim>\<open>strtoul\<close> before the conversion to 32 bits.\<close>

definition scan_u :: "string \<Rightarrow> int option" where
  "scan_u s = (let (g, r) = sign_of (dropWhile is_space s); ds = takeWhile is_digit r in
     if ds = [] then None
     else Some (c_int (if undec ds > 2 ^ 64 - 1 then 2 ^ 64 - 1 else g * int (undec ds))))"

section \<open>Round trip of decimal numbers\<close>

lemma of_char_digit: "d < 10 \<Longrightarrow> (of_char (digit d) :: nat) = 48 + d"
  by (simp add: digit_def of_char_of)

lemma digit_is_digit [simp]: "d < 10 \<Longrightarrow> is_digit (digit d)" "d < 10 \<Longrightarrow> digit_num (digit d) = d"
  by (simp_all add: is_digit_def digit_num_def of_char_digit)

lemma dec_digits: "c \<in> set (dec n) \<Longrightarrow> is_digit c"
proof (induction n rule: dec.induct)
  case (1 n)
  show ?case
    using "1.prems" "1.IH" by (subst (asm) dec.simps) (auto split: if_splits)
qed

lemma dec_nonempty [simp]: "dec n \<noteq> []"
  by (subst dec.simps) simp

lemma undec_snoc: "undec (s @ [c]) = undec s * 10 + digit_num c"
  by (simp add: undec_def)

lemma undec_dec [simp]: "undec (dec n) = n"
proof (induction n rule: dec.induct)
  case (1 n)
  show ?case
  proof (cases "n < 10")
    case True
    then show ?thesis by (subst dec.simps) (simp add: undec_def)
  next
    case False
    then show ?thesis using "1.IH" by (subst dec.simps) (simp add: undec_snoc)
  qed
qed

lemma digit_not_space: "is_digit c \<Longrightarrow> \<not> is_space c" "is_digit c \<Longrightarrow> c \<noteq> CHR ''-''" "is_digit c \<Longrightarrow> c \<noteq> CHR ''+''"
  by (auto simp: is_digit_def is_space_def)

lemma leading_dec:
  assumes "\<not> (\<exists>c r. s = c # r \<and> is_digit c)"
  shows "sign_of (dropWhile is_space (dec n @ s)) = (1, dec n @ s)" "takeWhile is_digit (dec n @ s) = dec n"
proof -
  obtain c r where d: "dec n = c # r" by (cases "dec n") auto
  then have c: "is_digit c" using dec_digits [of c n] by simp
  then show "sign_of (dropWhile is_space (dec n @ s)) = (1, dec n @ s)"
    using digit_not_space [OF c] by (simp add: d)
  show "takeWhile is_digit (dec n @ s) = dec n"
    using assms dec_digits [of _ n] by (cases s) (auto simp: takeWhile_append)
qed

lemma atoi_dec:
  assumes "\<not> (\<exists>c r. s = c # r \<and> is_digit c)" "n < 2 ^ 31"
  shows "atoi (dec n @ s) = int n"
proof -
  have "c_int (int n) = int n"
  proof (rule c_int_id)
    show "int n < 2 ^ 31" using assms(2) by simp
  qed simp
  then show ?thesis by (simp add: atoi_def leading_dec [OF assms(1)])
qed

section \<open>Character arrays\<close>

abbreviation NUL :: char where
  "NUL \<equiv> CHR 0x00"

text \<open>The string in an array, and \<^verbatim>\<open>strlen\<close>, which runs off an array without a terminator.\<close>

definition c_str :: "string \<Rightarrow> string" where
  "c_str a = takeWhile (\<lambda>c. c \<noteq> NUL) a"

definition strlen :: "string \<Rightarrow> nat option" where
  "strlen a = (if NUL \<in> set a then Some (length (c_str a)) else None)"

text \<open>\<^verbatim>\<open>strncpy(dst, src, n)\<close>: at most \<open>n\<close> characters of the source, then zeros up to \<open>n\<close>; \<open>src\<close> is the
  source string without its terminator.\<close>

definition strncpy :: "string \<Rightarrow> string \<Rightarrow> nat \<Rightarrow> string option" where
  "strncpy dst src n =
     (if n \<le> length dst then Some (take n src @ replicate (n - length src) NUL @ drop n dst) else None)"

text \<open>\<^verbatim>\<open>strncmp(s, p, n) == 0\<close> for a constant \<open>p\<close> of length \<open>n\<close>.\<close>

definition starts :: "string \<Rightarrow> string \<Rightarrow> bool" where
  "starts p s \<longleftrightarrow> take (length p) s = p"

lemma c_str_append [simp]: "NUL \<notin> set s \<Longrightarrow> c_str (s @ NUL # r) = s"
  by (simp add: c_str_def takeWhile_append)

lemma strlen_append [simp]: "NUL \<notin> set s \<Longrightarrow> strlen (s @ NUL # r) = Some (length s)"
  by (simp add: strlen_def)

lemma starts_append [simp]: "starts p (p @ s)"
  by (simp add: starts_def)

end
