(* ===== verification/BoyerMoore.thy ===== *)
theory BoyerMoore
  imports CText "HOL-Library.Word"
begin

text \<open>
  The Boyer-Moore string search of \<^verbatim>\<open>papps/pfscan-1.0/bm.c\<close>.  Bytes are 8-bit words, C ints
  used as indices are integers, and every array access goes through the checked \<open>rd\<close> and
  \<open>wr\<close>, so that \<open>None\<close> is an access outside an array.  \<^verbatim>\<open>tolower\<close> depends on the locale that
  \<^verbatim>\<open>main\<close> sets and is the parameter \<open>lower\<close>.  The results of the allocations are parameters
  too.  The theorems show that the preprocessing stays inside its arrays and computes a
  safe shift for every mismatch, and that the search reports exactly the occurrences that
  a naive search finds.
\<close>

section \<open>The code\<close>

type_synonym byte = "8 word"

text \<open>A pointer to an allocated array; \<open>None\<close> is \<^verbatim>\<open>NULL\<close>.\<close>

record BM =
  bmGs :: "int list option"
  bmBc :: "int list"
  saved_x :: "byte list option"
  saved_m :: int
  icase :: bool

definition BM_ASIZE :: int where
  "BM_ASIZE = 256"

definition preBmBc :: "byte list \<Rightarrow> int \<Rightarrow> int list \<Rightarrow> int list option" where
  "preBmBc x m bc =
     do { bc \<leftarrow> for_each (\<lambda>i b. wr b i m) [0..BM_ASIZE - 1] bc;
          for_each (\<lambda>i b. do { c \<leftarrow> rd x i; wr b (uint c) (m - i - 1) }) [0..m - 2] bc }"

text \<open>The \<^verbatim>\<open>while\<close> loop of \<^verbatim>\<open>suffixes\<close>.\<close>

function suff_while :: "byte list \<Rightarrow> int \<Rightarrow> int \<Rightarrow> int \<Rightarrow> int option" where
  "suff_while x m f g =
     (if 0 \<le> g then
        do { a \<leftarrow> rd x g;
             b \<leftarrow> rd x (g + m - 1 - f);
             if a = b then suff_while x m f (g - 1) else Some g }
      else Some g)"
  by pat_completeness auto
termination by (relation "measure (\<lambda>(x, m, f, g). nat (g + 1))") auto

definition suff_step :: "byte list \<Rightarrow> int \<Rightarrow> int \<Rightarrow> int \<times> int \<times> int list \<Rightarrow> (int \<times> int \<times> int list) option" where
  "suff_step x m i = (\<lambda>(f, g, suff).
     do { copy \<leftarrow> (if i > g then do { v \<leftarrow> rd suff (i + m - 1 - f); Some (v < i - g) } else Some False);
          if copy then
            do { v \<leftarrow> rd suff (i + m - 1 - f); suff \<leftarrow> wr suff i v; Some (f, g, suff) }
          else
            do { let g = (if i < g then i else g);
                 let f = i;
                 g \<leftarrow> suff_while x m f g;
                 suff \<leftarrow> wr suff i (f - g);
                 Some (f, g, suff) } })"

definition suffixes :: "byte list \<Rightarrow> int \<Rightarrow> int list \<Rightarrow> int list option" where
  "suffixes x m suff =
     do { suff \<leftarrow> wr suff (m - 1) m;
          (f, g, suff) \<leftarrow> for_each (suff_step x m) (rev [0..m - 2]) (0, m - 1, suff);
          Some suff }"

text \<open>The inner loop over \<open>j\<close> of \<^verbatim>\<open>preBmGs\<close>, and the body of the loop around it.\<close>

function gs_inner :: "int \<Rightarrow> int \<Rightarrow> int \<Rightarrow> int list \<Rightarrow> (int \<times> int list) option" where
  "gs_inner m i j gs =
     (if j < m - 1 - i then
        do { v \<leftarrow> rd gs j;
             gs \<leftarrow> (if v = m then wr gs j (m - 1 - i) else Some gs);
             gs_inner m i (j + 1) gs }
      else Some (j, gs))"
  by pat_completeness auto
termination by (relation "measure (\<lambda>(m, i, j, gs). nat (m - 1 - i - j))") auto

definition gs_step :: "int list \<Rightarrow> int \<Rightarrow> int \<Rightarrow> int \<times> int list \<Rightarrow> (int \<times> int list) option" where
  "gs_step suff m i = (\<lambda>(j, gs).
     do { border \<leftarrow> (if i = - 1 then Some True else do { v \<leftarrow> rd suff i; Some (v = i + 1) });
          if border then gs_inner m i j gs else Some (j, gs) })"

definition preBmGs :: "bool \<Rightarrow> byte list \<Rightarrow> int \<Rightarrow> int list \<Rightarrow> (int \<times> int list) option" where
  "preBmGs alloc x m gs =
     (if \<not> alloc then Some (- 1, gs)
      else do { suff \<leftarrow> suffixes x m (replicate (nat m) 0);
                gs \<leftarrow> for_each (\<lambda>i b. wr b i m) [0..m - 1] gs;
                (j, gs) \<leftarrow> for_each (gs_step suff m) (rev [- 1..m - 1]) (0, gs);
                gs \<leftarrow> for_each (\<lambda>i b. do { v \<leftarrow> rd suff i; wr b (m - 1 - v) (m - 1 - i) }) [0..m - 2] gs;
                Some (0, gs) })"

text \<open>\<open>memset(bmp, 0, sizeof(bmp))\<close> clears the size of a pointer, which is the first field.
  \<open>a1\<close>, \<open>a2\<close>, \<open>a3\<close>: whether the allocations of \<open>bmGs\<close>, \<open>saved_x\<close> and \<open>suff\<close> succeed.\<close>

definition fold_case :: "(byte \<Rightarrow> byte) \<Rightarrow> bool \<Rightarrow> byte \<Rightarrow> byte" where
  "fold_case lower ic c = (if ic then lower c else c)"

definition bm_init :: "(byte \<Rightarrow> byte) \<Rightarrow> bool \<times> bool \<times> bool \<Rightarrow> BM \<Rightarrow> byte list \<Rightarrow> int \<Rightarrow> bool \<Rightarrow> (int \<times> BM) option" where
  "bm_init lower = (\<lambda>(a1, a2, a3) bmp x m ic.
     do { let bmp = bmp\<lparr>bmGs := None\<rparr>;
          let bmp = bmp\<lparr>icase := ic\<rparr>;
          if \<not> a1 then Some (- 1, bmp)
          else do {
            let bmp = bmp\<lparr>bmGs := Some (replicate (nat m) 0), saved_m := m\<rparr>;
            if \<not> a2 then Some (- 2, bmp\<lparr>saved_x := None\<rparr>)
            else do {
              sx \<leftarrow> for_each (\<lambda>i s. do { c \<leftarrow> rd x i; wr s i (fold_case lower ic c) }) [0..m - 1] (replicate (nat m) 0);
              let bmp = bmp\<lparr>saved_x := Some sx\<rparr>;
              (r, gs) \<leftarrow> preBmGs a3 sx m (replicate (nat m) 0);
              let bmp = bmp\<lparr>bmGs := Some gs\<rparr>;
              if r < 0 then Some (- 3, bmp)
              else do { bc \<leftarrow> preBmBc sx m (bmBc bmp); Some (0, bmp\<lparr>bmBc := bc\<rparr>) } } } })"

text \<open>The arrays that \<^verbatim>\<open>bm_destroy\<close> frees.\<close>

definition bm_destroy :: "BM \<Rightarrow> int list list \<times> byte list list" where
  "bm_destroy bmp = ((case bmGs bmp of None \<Rightarrow> [] | Some gs \<Rightarrow> [gs]), (case saved_x bmp of None \<Rightarrow> [] | Some sx \<Rightarrow> [sx]))"

text \<open>The comparison loop from the end of the pattern.\<close>

function bm_compare :: "(byte \<Rightarrow> byte) \<Rightarrow> byte list \<Rightarrow> byte list \<Rightarrow> int \<Rightarrow> int \<Rightarrow> int option" where
  "bm_compare fc sx y j i =
     (if 0 \<le> i then
        do { a \<leftarrow> rd sx i;
             b \<leftarrow> rd y (i + j);
             if a = fc b then bm_compare fc sx y j (i - 1) else Some i }
      else Some i)"
  by pat_completeness auto
termination by (relation "measure (\<lambda>(fc, sx, y, j, i). nat (i + 1))") auto

text \<open>The callback gets the buffer, its length and the position; its \<^verbatim>\<open>misc\<close> argument is part of
  the function.\<close>

type_synonym 's mfun = "byte list \<Rightarrow> int \<Rightarrow> int \<Rightarrow> 's \<Rightarrow> (int \<times> 's) option"

partial_function (option) bm_loop ::
  "(byte \<Rightarrow> byte) \<Rightarrow> int list \<Rightarrow> int list \<Rightarrow> byte list \<Rightarrow> int \<Rightarrow> byte list \<Rightarrow> int \<Rightarrow> 's mfun option
    \<Rightarrow> int \<Rightarrow> int \<Rightarrow> 's \<Rightarrow> (int \<times> 's) option" where
  "bm_loop fc gs bc sx m y n mfun j nm s =
     (if j \<le> n - m then
        do { i \<leftarrow> bm_compare fc sx y j (m - 1);
             if i < 0 then
               (case mfun of
                  None \<Rightarrow> Some (c_int j, s)
                | Some f \<Rightarrow>
                    do { let nm = nm + 1;
                         (c, s) \<leftarrow> f y n j s;
                         if c \<noteq> 0 then Some (if c < 0 then c else nm, s)
                         else do { d \<leftarrow> rd gs 0; bm_loop fc gs bc sx m y n mfun (j + d) nm s } })
             else
               do { c \<leftarrow> rd y (i + j);
                    d \<leftarrow> rd gs i;
                    e \<leftarrow> rd bc (uint (fc c));
                    bm_loop fc gs bc sx m y n mfun (j + max d (e - m + 1 + i)) nm s } }
      else Some (case mfun of None \<Rightarrow> - 1 | Some f \<Rightarrow> nm, s))"

definition bm_search :: "(byte \<Rightarrow> byte) \<Rightarrow> BM \<Rightarrow> byte list \<Rightarrow> int \<Rightarrow> 's mfun option \<Rightarrow> 's \<Rightarrow> (int \<times> 's) option" where
  "bm_search lower bmp y n mfun s =
     (if n < saved_m bmp then Some (- 1, s)
      else do { gs \<leftarrow> bmGs bmp;
                sx \<leftarrow> saved_x bmp;
                bm_loop (fold_case lower (icase bmp)) gs (bmBc bmp) sx (saved_m bmp) y n mfun 0 0 s })"

section \<open>The table of suffixes\<close>

abbreviation at :: "'a list \<Rightarrow> int \<Rightarrow> 'a" where
  "at xs k \<equiv> xs ! nat k"

text \<open>\<open>v\<close> is the length of the longest common suffix of \<open>x[0..i]\<close> and \<open>x\<close>.\<close>

definition is_suff :: "byte list \<Rightarrow> int \<Rightarrow> int \<Rightarrow> bool" where
  "is_suff x i v \<longleftrightarrow> 0 \<le> v \<and> v \<le> i + 1
     \<and> (\<forall>t. 0 \<le> t \<and> t < v \<longrightarrow> at x (i - t) = at x (int (length x) - 1 - t))
     \<and> (v = i + 1 \<or> at x (i - v) \<noteq> at x (int (length x) - 1 - v))"

text \<open>The part of the pattern known to repeat: \<open>x[g+1..f]\<close> is a suffix of the pattern, and it
  cannot be extended to \<open>g\<close>.\<close>

definition window :: "byte list \<Rightarrow> int \<Rightarrow> int \<Rightarrow> bool" where
  "window x f g \<longleftrightarrow> (\<forall>k. g < k \<and> k \<le> f \<longrightarrow> at x k = at x (k + int (length x) - 1 - f))"

lemma windowD: "window x f g \<Longrightarrow> g < k \<Longrightarrow> k \<le> f \<Longrightarrow> at x k = at x (k + int (length x) - 1 - f)"
  by (simp add: window_def)

lemma is_suffD: "is_suff x i v \<Longrightarrow> 0 \<le> t \<Longrightarrow> t < v \<Longrightarrow> at x (i - t) = at x (int (length x) - 1 - t)"
  by (simp add: is_suff_def)

declare suff_while.simps [simp del] gs_inner.simps [simp del] bm_compare.simps [simp del]

lemma window_extend: "window x f g \<Longrightarrow> at x g = at x (g + int (length x) - 1 - f) \<Longrightarrow> window x f (g - 1)"
  unfolding window_def by (metis add.commute diff_add_cancel order_le_less zle_diff1_eq zless_imp_add1_zle)

lemma suff_while_spec:
  assumes "f \<le> int (length x) - 1" "- 1 \<le> g" "g \<le> f" "window x f g"
  shows "\<exists>g'. suff_while x (int (length x)) f g = Some g' \<and> - 1 \<le> g' \<and> g' \<le> g \<and> window x f g'
    \<and> (g' = - 1 \<or> at x g' \<noteq> at x (g' + int (length x) - 1 - f))"
  using assms
proof (induction "nat (g + 1)" arbitrary: g)
  case 0
  then have "g = - 1" by simp
  with "0.prems" show ?case by (subst suff_while.simps) simp
next
  case (Suc n)
  then have g: "0 \<le> g" by linarith
  show ?case
  proof (cases "at x g = at x (g + int (length x) - 1 - f)")
    case True
    with Suc.prems have w: "window x f (g - 1)" by (blast intro: window_extend)
    have "suff_while x (int (length x)) f g = suff_while x (int (length x)) f (g - 1)"
      using g Suc.prems True by (subst suff_while.simps) simp
    with Suc.hyps(1) [of "g - 1"] Suc.hyps(2) Suc.prems g w show ?thesis
      by fastforce
  next
    case False
    with g Suc.prems show ?thesis by (subst suff_while.simps) simp
  qed
qed

text \<open>What holds before the iteration for \<open>i\<close>.\<close>

definition suff_inv :: "byte list \<Rightarrow> int \<Rightarrow> int \<times> int \<times> int list \<Rightarrow> bool" where
  "suff_inv x i = (\<lambda>(f, g, suff). length suff = length x \<and> - 1 \<le> g \<and> g \<le> int (length x) - 1
     \<and> (\<forall>k. i < k \<and> k < int (length x) \<longrightarrow> is_suff x k (at suff k))
     \<and> (i \<le> g \<or> (i < f \<and> f < int (length x) - 1 \<and> window x f g)))"

lemma suff_copy:
  assumes suff: "is_suff x (i + int (length x) - 1 - f) v" and v: "v < i - g"
    and f: "i < f" "f < int (length x) - 1" "window x f g" and g: "- 1 \<le> g"
  shows "is_suff x i v"
proof -
  let ?m = "int (length x)" and ?k = "i + int (length x) - 1 - f"
  have eq: "at x (i - t) = at x (?k - t)" if "t < i - g" "0 \<le> t" for t
    using windowD [OF f(3), of "i - t"] that f by (simp add: algebra_simps)
  have "at x (i - t) = at x (?m - 1 - t)" if "0 \<le> t" "t < v" for t
    using eq [of t] is_suffD [OF suff that] that v by simp
  moreover have "at x (i - v) \<noteq> at x (?m - 1 - v)"
    using eq [OF v] suff v f g by (auto simp: is_suff_def)
  ultimately show ?thesis using suff v g by (auto simp: is_suff_def)
qed

lemma window_resume:
  assumes suff: "is_suff x (i + int (length x) - 1 - f) v" and v: "i - g \<le> v"
    and f: "i < f" "window x f g"
  shows "window x i g"
  unfolding window_def
proof (intro allI impI)
  fix k assume k: "g < k \<and> k \<le> i"
  have "at x k = at x (k + int (length x) - 1 - f)" using windowD [OF f(2), of k] k f(1) by simp
  also have "\<dots> = at x (i + int (length x) - 1 - f - (i - k))" by (simp add: algebra_simps)
  also have "\<dots> = at x (int (length x) - 1 - (i - k))" using is_suffD [OF suff, of "i - k"] k v by simp
  finally show "at x k = at x (k + int (length x) - 1 - i)" by (simp add: algebra_simps)
qed

lemma suff_of_window:
  assumes "window x i g" "- 1 \<le> g" "g \<le> i" "g = - 1 \<or> at x g \<noteq> at x (g + int (length x) - 1 - i)"
  shows "is_suff x i (i - g)"
proof -
  have "at x (i - t) = at x (int (length x) - 1 - t)" if "0 \<le> t" "t < i - g" for t
    using windowD [OF assms(1), of "i - t"] that by (simp add: algebra_simps)
  with assms show ?thesis by (auto simp: is_suff_def algebra_simps)
qed

lemma suff_inv_store:
  assumes "suff_inv x i (f, g, suff)" "0 \<le> i" "i < int (length x) - 1" "is_suff x i v"
    and "- 1 \<le> g'" "g' \<le> int (length x) - 1"
    and "i - 1 \<le> g' \<or> (i - 1 < f' \<and> f' < int (length x) - 1 \<and> window x f' g')"
  shows "suff_inv x (i - 1) (f', g', suff[nat i := v])"
proof -
  have "is_suff x k (at (suff[nat i := v]) k)" if "i - 1 < k" "k < int (length x)" for k
    using assms that by (cases "k = i") (auto simp: suff_inv_def nth_list_update)
  with assms show ?thesis by (auto simp: suff_inv_def)
qed

lemma suff_step_inv:
  assumes inv: "suff_inv x i st" and i: "0 \<le> i" "i \<le> int (length x) - 2"
  shows "\<exists>st'. suff_step x (int (length x)) i st = Some st' \<and> suff_inv x (i - 1) st'"
proof -
  let ?m = "int (length x)"
  obtain f g suff where st: "st = (f, g, suff)" by (cases st) auto
  have b: "length suff = length x" "- 1 \<le> g" "g \<le> ?m - 1" using inv by (auto simp: st suff_inv_def)
  let ?v = "at suff (i + ?m - 1 - f)"
  have past: "i < f" "f < ?m - 1" "window x f g" "is_suff x (i + ?m - 1 - f) ?v"
    "rd suff (i + ?m - 1 - f) = Some ?v" if "g < i"
    using inv that i by (auto simp: st suff_inv_def)
  show ?thesis
  proof (cases "g < i \<and> ?v < i - g")
    case True
    then have "suff_step x ?m i st = Some (f, g, suff[nat i := ?v])"
      using past(5) b i by (simp add: suff_step_def st)
    moreover have "is_suff x i ?v" using True past b by (blast intro: suff_copy)
    ultimately show ?thesis
      using suff_inv_store [OF inv [unfolded st], of ?v g f] i b past True by auto
  next
    case False
    let ?g = "if i < g then i else g"
    have w: "window x i ?g"
      using False past window_resume [of x i f ?v g] by (cases "g < i") (auto simp: window_def)
    have g: "- 1 \<le> ?g" "?g \<le> i" "i \<le> ?m - 1" using b i False past(1) by auto
    from suff_while_spec [OF g(3) g(1) g(2) w] obtain g' where
      g': "suff_while x ?m i ?g = Some g'" "- 1 \<le> g'" "g' \<le> ?g" "window x i g'"
        "g' = - 1 \<or> at x g' \<noteq> at x (g' + ?m - 1 - i)" by blast
    have g'_le: "g' \<le> i" "g' \<le> ?m - 1" using g'(3) g i by auto
    have "suff_step x ?m i st = Some (i, g', suff[nat i := i - g'])"
      using False past(5) g'(1) b i by (auto simp: suff_step_def st Let_def)
    moreover have "is_suff x i (i - g')" using g' by (intro suff_of_window) (auto split: if_splits)
    ultimately show ?thesis
      using suff_inv_store [OF inv [unfolded st], of "i - g'" g' i] i b g' g'_le by auto
  qed
qed

lemma is_suff_last: "x \<noteq> [] \<Longrightarrow> is_suff x (int (length x) - 1) (int (length x))"
  by (simp add: is_suff_def)

lemma suffixes_spec:
  assumes "x \<noteq> []" "length s0 = length x"
  shows "\<exists>suff. suffixes x (int (length x)) s0 = Some suff \<and> length suff = length x
    \<and> (\<forall>k. 0 \<le> k \<and> k < int (length x) \<longrightarrow> is_suff x k (at suff k))"
proof -
  let ?m = "int (length x)" and ?s = "s0[nat (int (length x) - 1) := int (length x)]"
  from assms(1) have m: "1 \<le> ?m" by (cases x) auto
  have "is_suff x k (at ?s k)" if "?m - 2 < k" "k < ?m" for k
  proof -
    from that have "k = ?m - 1" by simp
    then show ?thesis using assms m is_suff_last [OF assms(1)] by simp
  qed
  then have "suff_inv x (?m - 2) (0, ?m - 1, ?s)" using assms m by (auto simp: suff_inv_def)
  then have "\<exists>st. for_each (suff_step x ?m) (rev [0..?m - 2]) (0, ?m - 1, ?s) = Some st \<and> suff_inv x (0 - 1) st"
    using m by (intro for_down suff_step_inv) auto
  then obtain f g suff where "for_each (suff_step x ?m) (rev [0..?m - 2]) (0, ?m - 1, ?s) = Some (f, g, suff)"
    "suff_inv x (- 1) (f, g, suff)" by auto
  moreover have "wr s0 (?m - 1) ?m = Some ?s"
    using m assms(2) by (intro wr_in) linarith+
  ultimately show ?thesis by (auto simp: suffixes_def suff_inv_def)
qed

section \<open>The good-suffix table\<close>

lemma is_suff_unique: "is_suff x i v \<Longrightarrow> is_suff x i w \<Longrightarrow> v = w"
  by (cases v w rule: linorder_cases) (auto simp: is_suff_def)

text \<open>Shifting the pattern by \<open>s\<close> leaves its whole overlap with itself unchanged.\<close>

definition border :: "int list \<Rightarrow> int \<Rightarrow> bool" where
  "border suff s \<longleftrightarrow> at suff (int (length suff) - 1 - s) = int (length suff) - s"

lemma gs_inner_spec:
  assumes "0 \<le> j" "m - 1 - i \<le> m" "length gs = nat m" "\<And>k. j \<le> k \<Longrightarrow> k < m \<Longrightarrow> at gs k = m"
  shows "\<exists>gs'. gs_inner m i j gs = Some (max j (m - 1 - i), gs') \<and> length gs' = length gs
    \<and> (\<forall>k. 0 \<le> k \<and> k < m \<longrightarrow> at gs' k = (if j \<le> k \<and> k < m - 1 - i then m - 1 - i else at gs k))"
  using assms
proof (induction "nat (m - 1 - i - j)" arbitrary: j gs)
  case 0
  then show ?case by (subst gs_inner.simps) (auto simp: max_def)
next
  case (Suc n)
  then have j: "j < m - 1 - i" by linarith
  let ?gs = "gs[nat j := m - 1 - i]"
  have step: "gs_inner m i j gs = gs_inner m i (j + 1) ?gs"
    using Suc.prems j by (subst gs_inner.simps) simp
  have rest: "at ?gs k = m" if "j + 1 \<le> k" "k < m" for k
    using that Suc.prems by (simp add: nth_list_update)
  have "n = nat (m - 1 - i - (j + 1))" using Suc.hyps(2) by linarith
  from Suc.hyps(1) [OF this _ Suc.prems(2) _ rest] Suc.prems obtain gs' where
    gs': "gs_inner m i (j + 1) ?gs = Some (max (j + 1) (m - 1 - i), gs')" "length gs' = length gs"
      "\<forall>k. 0 \<le> k \<and> k < m \<longrightarrow> at gs' k = (if j + 1 \<le> k \<and> k < m - 1 - i then m - 1 - i else at ?gs k)"
    by auto
  have "at gs' k = (if j \<le> k \<and> k < m - 1 - i then m - 1 - i else at gs k)" if "0 \<le> k" "k < m" for k
    using gs'(3) that j Suc.prems by (cases "k = j") (auto simp: nth_list_update)
  with gs' step j show ?case by (simp add: max_def)
qed

text \<open>The second phase: \<open>gs[k]\<close> is settled for \<open>k < j\<close> and still \<open>m\<close> for the others, and every
  border already met is at most \<open>j\<close>.\<close>

definition gs_good :: "int list \<Rightarrow> int \<Rightarrow> int \<Rightarrow> bool" where
  "gs_good suff k v \<longleftrightarrow> k < v \<and> v \<le> int (length suff)
     \<and> (\<forall>s. k < s \<and> s < int (length suff) \<and> border suff s \<longrightarrow> v \<le> s)"

definition gs_inv2 :: "int list \<Rightarrow> int \<Rightarrow> int \<times> int list \<Rightarrow> bool" where
  "gs_inv2 suff i = (\<lambda>(j, gs). length gs = length suff \<and> 0 \<le> j \<and> j \<le> int (length suff)
     \<and> (i < - 1 \<longrightarrow> j = int (length suff))
     \<and> (\<forall>k. 0 \<le> k \<and> k < j \<longrightarrow> gs_good suff k (at gs k))
     \<and> (\<forall>k. j \<le> k \<and> k < int (length suff) \<longrightarrow> at gs k = int (length suff))
     \<and> (\<forall>s. s < int (length suff) - 1 - i \<and> s < int (length suff) \<and> border suff s \<longrightarrow> s \<le> j))"

lemma gs_step_inv2:
  assumes inv: "gs_inv2 suff i st" and i: "- 1 \<le> i" "i \<le> int (length suff) - 1"
  shows "\<exists>st'. gs_step suff (int (length suff)) i st = Some st' \<and> gs_inv2 suff (i - 1) st'"
proof -
  let ?m = "int (length suff)"
  obtain j gs where st: "st = (j, gs)" by (cases st) auto
  have len: "length gs = nat ?m" and j: "0 \<le> j" "j \<le> ?m"
    and good: "\<And>k. 0 \<le> k \<Longrightarrow> k < j \<Longrightarrow> gs_good suff k (at gs k)"
    and rest: "\<And>k. j \<le> k \<Longrightarrow> k < ?m \<Longrightarrow> at gs k = ?m"
    and met: "\<And>s. s < ?m - 1 - i \<Longrightarrow> s < ?m \<Longrightarrow> border suff s \<Longrightarrow> s \<le> j"
    using inv by (auto simp: st gs_inv2_def)
  show ?thesis
  proof (cases "i = - 1 \<or> border suff (?m - 1 - i)")
    case True
    have "?m - 1 - i \<le> ?m" using i by simp
    from gs_inner_spec [OF j(1) this len rest] obtain gs' where
      gs': "gs_inner ?m i j gs = Some (max j (?m - 1 - i), gs')" "length gs' = length gs"
      and val: "\<And>k. 0 \<le> k \<Longrightarrow> k < ?m \<Longrightarrow> at gs' k = (if j \<le> k \<and> k < ?m - 1 - i then ?m - 1 - i else at gs k)"
      by blast
    have "gs_step suff ?m i st = Some (max j (?m - 1 - i), gs')"
      using True gs'(1) i by (auto simp: gs_step_def st border_def)
    moreover have "gs_good suff k (at gs' k)" if k: "0 \<le> k" "k < max j (?m - 1 - i)" for k
    proof (cases "k < j")
      case True
      then show ?thesis using good [of k] val [of k] k j by auto
    next
      case False
      then have "at gs' k = ?m - 1 - i" using val [of k] k i by auto
      moreover have "?m - 1 - i \<le> s" if "k < s" "s < ?m" "border suff s" for s
        using met [of s] that False by linarith
      ultimately show ?thesis using k False i by (auto simp: gs_good_def)
    qed
    moreover have "at gs' k = ?m" if "max j (?m - 1 - i) \<le> k" "k < ?m" for k
      using val [of k] rest [of k] that j by auto
    moreover have "s \<le> max j (?m - 1 - i)" if "s < ?m - 1 - (i - 1)" for s
      using that by auto
    ultimately show ?thesis using gs' len j i by (auto simp: gs_inv2_def)
  next
    case False
    then have "gs_step suff ?m i st = Some st"
      using i by (auto simp: gs_step_def st border_def)
    moreover have "s \<le> j" if "s < ?m - i" "s < ?m" "border suff s" for s
      using met [of s] that False by (cases "s = ?m - 1 - i") auto
    ultimately show ?thesis using inv False i by (auto simp: gs_inv2_def st)
  qed
qed

text \<open>The third phase, and the finished table.\<close>

definition gs_inv3 :: "int list \<Rightarrow> int \<Rightarrow> int list \<Rightarrow> bool" where
  "gs_inv3 suff i gs \<longleftrightarrow> length gs = length suff
     \<and> (\<forall>j. 0 \<le> j \<and> j < int (length suff) \<longrightarrow> 1 \<le> at gs j \<and> at gs j \<le> int (length suff)
         \<and> (\<forall>s. j < s \<and> s < int (length suff) \<and> border suff s \<longrightarrow> at gs j \<le> s)
         \<and> (\<forall>k. 0 \<le> k \<and> k < i \<and> at suff k = int (length suff) - 1 - j \<longrightarrow> at gs j \<le> int (length suff) - 1 - k))"

lemma gs_phase3_inv:
  assumes inv: "gs_inv3 suff i gs" and i: "0 \<le> i" "i \<le> int (length suff) - 2"
    and v: "0 \<le> at suff i" "at suff i \<le> i + 1"
  shows "\<exists>gs'. (do { v \<leftarrow> rd suff i; wr gs (int (length suff) - 1 - v) (int (length suff) - 1 - i) }) = Some gs'
    \<and> gs_inv3 suff (i + 1) gs'"
proof -
  let ?m = "int (length suff)" and ?p = "int (length suff) - 1 - at suff i"
  let ?gs = "gs[nat ?p := ?m - 1 - i]"
  have p: "0 \<le> ?p" "?p < ?m" using v i by simp_all
  have len: "length gs = length suff" using inv by (simp add: gs_inv3_def)
  have gs: "at ?gs j = (if j = ?p then ?m - 1 - i else at gs j)" if "0 \<le> j" "j < ?m" for j
    using that p len by (auto simp: nth_list_update)
  have "gs_inv3 suff (i + 1) ?gs"
    unfolding gs_inv3_def
  proof (intro conjI allI impI)
    fix j assume j: "0 \<le> j \<and> j < ?m"
    with inv i show "1 \<le> at ?gs j" "at ?gs j \<le> ?m" by (auto simp: gs gs_inv3_def)
    show "at ?gs j \<le> s" if "j < s \<and> s < ?m \<and> border suff s" for s
      using j that inv v by (auto simp: gs gs_inv3_def)
    show "at ?gs j \<le> ?m - 1 - k" if "0 \<le> k \<and> k < i + 1 \<and> at suff k = ?m - 1 - j" for k
    proof (cases "j = ?p")
      case True
      then show ?thesis using that j by (simp add: gs)
    next
      case False
      with that have "k < i" by (cases "k = i") auto
      then show ?thesis using False that j inv by (auto simp: gs gs_inv3_def)
    qed
  qed (simp add: len)
  then show ?thesis using i p len by simp
qed

text \<open>What the table guarantees: when the pattern has matched to the right of \<open>j\<close>, no shift
  smaller than \<open>gs[j]\<close> can give an occurrence.\<close>

definition gs_safe :: "byte list \<Rightarrow> int list \<Rightarrow> bool" where
  "gs_safe x gs \<longleftrightarrow> length gs = length x \<and>
     (\<forall>j. 0 \<le> j \<and> j < int (length x) \<longrightarrow> 1 \<le> at gs j \<and>
       (\<forall>s. 1 \<le> s \<and> (\<forall>k. j < k \<and> k < int (length x) \<and> s \<le> k \<longrightarrow> at x (k - s) = at x k)
          \<and> (s \<le> j \<longrightarrow> at x (j - s) \<noteq> at x j) \<longrightarrow> at gs j \<le> s))"

lemma suff_at_border:
  assumes "1 \<le> s" "s < int (length x)" "\<And>k. s \<le> k \<Longrightarrow> k < int (length x) \<Longrightarrow> at x (k - s) = at x k"
  shows "is_suff x (int (length x) - 1 - s) (int (length x) - s)"
proof -
  have "at x (int (length x) - 1 - s - t) = at x (int (length x) - 1 - t)"
    if "0 \<le> t" "t < int (length x) - s" for t
    using assms(3) [of "int (length x) - 1 - t"] that assms(1,2) by (simp add: algebra_simps)
  with assms show ?thesis by (auto simp: is_suff_def)
qed

lemma suff_at_mismatch:
  assumes "1 \<le> s" "s \<le> j" "j < int (length x)" "at x (j - s) \<noteq> at x j"
    and "\<And>k. j < k \<Longrightarrow> k < int (length x) \<Longrightarrow> at x (k - s) = at x k"
  shows "is_suff x (int (length x) - 1 - s) (int (length x) - 1 - j)"
proof -
  have "at x (int (length x) - 1 - s - t) = at x (int (length x) - 1 - t)"
    if "0 \<le> t" "t < int (length x) - 1 - j" for t
    using assms(5) [of "int (length x) - 1 - t"] that assms(1,2) by (simp add: algebra_simps)
  with assms show ?thesis by (auto simp: is_suff_def)
qed

lemma gs_inv3_safe:
  assumes inv: "gs_inv3 suff (int (length x) - 1) gs" and len: "length suff = length x"
    and suff: "\<And>k. 0 \<le> k \<Longrightarrow> k < int (length x) \<Longrightarrow> is_suff x k (at suff k)"
  shows "gs_safe x gs"
proof -
  let ?m = "int (length x)"
  have "at gs j \<le> s" if j: "0 \<le> j" "j < ?m" and s: "1 \<le> s"
    and co: "\<And>k. j < k \<Longrightarrow> k < ?m \<Longrightarrow> s \<le> k \<Longrightarrow> at x (k - s) = at x k"
    and mis: "s \<le> j \<Longrightarrow> at x (j - s) \<noteq> at x j" for j s
  proof -
    consider "?m \<le> s" | "j < s" "s < ?m" | "s \<le> j" by linarith
    then show ?thesis
    proof cases
      case 1
      then show ?thesis using inv j len by (fastforce simp: gs_inv3_def)
    next
      case 2
      have "is_suff x (?m - 1 - s) (?m - s)" by (rule suff_at_border) (use 2 s co in auto)
      then have "border suff s"
        using is_suff_unique suff [of "?m - 1 - s"] 2 s len by (auto simp: border_def)
      then show ?thesis using inv j 2 len by (auto simp: gs_inv3_def)
    next
      case 3
      have "is_suff x (?m - 1 - s) (?m - 1 - j)" by (rule suff_at_mismatch) (use 3 s j co mis in auto)
      then have "at suff (?m - 1 - s) = ?m - 1 - j"
        using is_suff_unique suff [of "?m - 1 - s"] 3 s j by auto
      moreover have "0 \<le> ?m - 1 - s" "?m - 1 - s < ?m - 1" using 3 s j by auto
      ultimately have "at gs j \<le> ?m - 1 - (?m - 1 - s)" using inv j len unfolding gs_inv3_def by metis
      then show ?thesis by simp
    qed
  qed
  then show ?thesis using inv len by (auto simp: gs_safe_def gs_inv3_def)
qed

section \<open>The preprocessing is total\<close>

lemma for_store:
  assumes "length s = n" "\<And>k. k < n \<Longrightarrow> e (int k) = Some (h k)"
  shows "for_each (\<lambda>i s. do { c \<leftarrow> e i; wr s i c }) [0..int n - 1] s = Some (map h [0..<n])"
proof -
  let ?I = "\<lambda>i s. length s = n \<and> (\<forall>k. 0 \<le> k \<and> k < i \<longrightarrow> at s k = h (nat k))"
  let ?f = "\<lambda>i s. do { c \<leftarrow> e i; wr s i c }"
  have "\<exists>s'. for_each ?f [0..int n - 1] s = Some s' \<and> ?I (int n - 1 + 1) s'"
  proof (rule for_up)
    fix i s assume i: "0 \<le> i" "i \<le> int n - 1" and I: "?I i s"
    then have "?f i s = Some (s[nat i := h (nat i)])" using assms(2) [of "nat i"] by simp
    moreover have "?I (i + 1) (s[nat i := h (nat i)])" using I i by (auto simp: nth_list_update)
    ultimately show "\<exists>s'. ?f i s = Some s' \<and> ?I (i + 1) s'" by blast
  qed (use assms in auto)
  then obtain s' where s': "for_each ?f [0..int n - 1] s = Some s'" "length s' = n"
    "\<forall>k. 0 \<le> k \<and> k < int n \<longrightarrow> at s' k = h (nat k)" by auto
  have "s' ! k = h k" if "k < n" for k using s'(3) [rule_format, of "int k"] that by simp
  then have "s' = map h [0..<n]" using s'(2) by (intro nth_equalityI) auto
  with s'(1) show ?thesis by simp
qed

lemma for_fill: "length s = n \<Longrightarrow> for_each (\<lambda>i s. wr s i v) [0..int n - 1] s = Some (replicate n v)"
  using for_store [of s n "\<lambda>_. Some v" "\<lambda>_. v"] by (simp add: map_replicate_const)

lemma preBmGs_spec:
  assumes x: "x \<noteq> []" and len: "length g0 = length x"
  shows "\<exists>gs. preBmGs True x (int (length x)) g0 = Some (0, gs) \<and> gs_safe x gs"
proof -
  let ?m = "int (length x)"
  from x have m: "1 \<le> ?m" by (cases x) auto
  from suffixes_spec [OF x, of "replicate (length x) 0"] obtain suff where
    s: "suffixes x ?m (replicate (nat ?m) 0) = Some suff" "length suff = length x"
    and suff: "\<And>k. 0 \<le> k \<Longrightarrow> k < ?m \<Longrightarrow> is_suff x k (at suff k)" by auto
  have "gs_inv2 suff (?m - 1) (0, replicate (length x) ?m)" using s(2) m by (auto simp: gs_inv2_def)
  then have "\<exists>st. for_each (gs_step suff ?m) (rev [- 1..?m - 1]) (0, replicate (length x) ?m) = Some st
      \<and> gs_inv2 suff (- 1 - 1) st"
    using gs_step_inv2 [of suff] s(2) by (intro for_down) auto
  then obtain gs where two: "for_each (gs_step suff ?m) (rev [- 1..?m - 1]) (0, replicate (length x) ?m) = Some (?m, gs)"
    and "gs_inv2 suff (- 2) (?m, gs)" using s(2) by (auto simp: gs_inv2_def)
  then have "gs_inv3 suff 0 gs" by (fastforce simp: gs_inv2_def gs_inv3_def gs_good_def)
  then have "\<exists>gs'. for_each (\<lambda>i b. do { v \<leftarrow> rd suff i; wr b (?m - 1 - v) (?m - 1 - i) }) [0..?m - 2] gs = Some gs'
      \<and> gs_inv3 suff (?m - 2 + 1) gs'"
  proof (intro for_up)
    fix i gs assume "0 \<le> i" "i \<le> ?m - 2" "gs_inv3 suff i gs"
    with gs_phase3_inv [of suff i gs] suff [of i] s(2)
    show "\<exists>s'. (do { v \<leftarrow> rd suff i; wr gs (?m - 1 - v) (?m - 1 - i) }) = Some s' \<and> gs_inv3 suff (i + 1) s'"
      by (simp add: is_suff_def)
  qed (use m in auto)
  then obtain gs' where three: "for_each (\<lambda>i b. do { v \<leftarrow> rd suff i; wr b (?m - 1 - v) (?m - 1 - i) }) [0..?m - 2] gs
      = Some gs'" "gs_inv3 suff (?m - 1) gs'" by auto
  moreover have "gs_safe x gs'" by (rule gs_inv3_safe [OF three(2) s(2) suff])
  ultimately show ?thesis using s two for_fill [OF len] by (simp add: preBmGs_def)
qed

text \<open>The bad-character table: at most the distance of any occurrence of \<open>c\<close>, other than the last
  position, from the end of the pattern.\<close>

definition bc_safe :: "byte list \<Rightarrow> int list \<Rightarrow> bool" where
  "bc_safe x bc \<longleftrightarrow> length bc = 256 \<and> (\<forall>c. bc ! unat c \<le> int (length x) \<and>
     (\<forall>k. 0 \<le> k \<and> k < int (length x) - 1 \<and> at x k = c \<longrightarrow> bc ! unat c \<le> int (length x) - 1 - k))"

lemma uint_byte [simp]: "uint (c :: byte) < 256" "unat c < 256"
proof -
  show u: "uint c < 256" using uint_lt2p [of c] by simp
  have "int (unat c) < 256" using u by simp
  then show "unat c < 256" by linarith
qed

lemma preBmBc_spec:
  assumes "x \<noteq> []" "length b0 = 256"
  shows "\<exists>bc. preBmBc x (int (length x)) b0 = Some bc \<and> bc_safe x bc"
proof -
  let ?m = "int (length x)"
  let ?f = "\<lambda>i b. do { c \<leftarrow> rd x i; wr b (uint c) (?m - i - 1) }"
  let ?I = "\<lambda>i bc. length bc = 256 \<and> (\<forall>c. bc ! unat c \<le> ?m \<and>
     (\<forall>k. 0 \<le> k \<and> k < i \<and> at x k = c \<longrightarrow> bc ! unat c \<le> ?m - 1 - k))"
  from assms(1) have m: "1 \<le> ?m" by (cases x) auto
  have fill: "for_each (\<lambda>i b. wr b i ?m) [0..BM_ASIZE - 1] b0 = Some (replicate 256 ?m)"
    using for_fill [OF assms(2)] by (simp add: BM_ASIZE_def)
  have "\<exists>bc. for_each ?f [0..?m - 2] (replicate 256 ?m) = Some bc \<and> ?I (?m - 2 + 1) bc"
  proof (rule for_up)
    fix i bc assume i: "0 \<le> i" "i \<le> ?m - 2" and I: "?I i bc"
    let ?bc = "bc[unat (at x i) := ?m - i - 1]"
    have "?f i bc = Some ?bc" using i I by simp
    moreover have v: "?bc ! unat c = (if c = at x i then ?m - i - 1 else bc ! unat c)" for c
      using I by (auto simp: nth_list_update dest: unsigned_word_eqI)
    have "?bc ! unat c \<le> ?m - 1 - k" if "0 \<le> k" "k < i + 1" "at x k = c" for c k
      using I that by (cases "k = i") (auto simp: v)
    with I i have "?I (i + 1) ?bc" by (auto simp: v)
    ultimately show "\<exists>s'. ?f i bc = Some s' \<and> ?I (i + 1) s'" by blast
  qed (use m in auto)
  then obtain bc where "for_each ?f [0..?m - 2] (replicate 256 ?m) = Some bc" "?I (?m - 1) bc" by auto
  then show ?thesis using fill by (simp add: preBmBc_def bc_safe_def)
qed

definition bm_ready :: "(byte \<Rightarrow> byte) \<Rightarrow> byte list \<Rightarrow> bool \<Rightarrow> BM \<Rightarrow> bool" where
  "bm_ready lower x ic bmp \<longleftrightarrow> saved_x bmp = Some (map (fold_case lower ic) x) \<and> saved_m bmp = int (length x)
     \<and> icase bmp = ic \<and> bc_safe (map (fold_case lower ic) x) (bmBc bmp)
     \<and> (\<exists>gs. bmGs bmp = Some gs \<and> gs_safe (map (fold_case lower ic) x) gs)"

lemma bm_init_ready:
  assumes "x \<noteq> []" "length (bmBc bmp) = 256"
  shows "\<exists>bmp'. bm_init lower (True, True, True) bmp x (int (length x)) ic = Some (0, bmp')
    \<and> bm_ready lower x ic bmp'"
proof -
  let ?sx = "map (fold_case lower ic) x"
  have "map (\<lambda>k. fold_case lower ic (x ! k)) [0..<length x] = ?sx" by (rule nth_equalityI) simp_all
  then have copy: "for_each (\<lambda>i s. do { c \<leftarrow> rd x i; wr s i (fold_case lower ic c) }) [0..int (length x) - 1]
      (replicate (length x) 0) = Some ?sx"
    using for_store [of "replicate (length x) 0" "length x"
        "\<lambda>i. do { c \<leftarrow> rd x i; Some (fold_case lower ic c) }" "\<lambda>k. fold_case lower ic (x ! k)"]
    by simp
  from preBmGs_spec [of ?sx "replicate (length x) 0"] assms obtain gs where
    gs: "preBmGs True ?sx (int (length x)) (replicate (length x) 0) = Some (0, gs)" "gs_safe ?sx gs" by auto
  from preBmBc_spec [of ?sx "bmBc bmp"] assms obtain bc where
    bc: "preBmBc ?sx (int (length x)) (bmBc bmp) = Some bc" "bc_safe ?sx bc" by auto
  from copy gs bc show ?thesis by (simp add: bm_init_def bm_ready_def Let_def)
qed

section \<open>The search\<close>

text \<open>The pattern \<open>sx\<close> occurs at \<open>j\<close> in the first \<open>n\<close> bytes of \<open>y\<close>, compared through \<open>fc\<close>.\<close>

definition occurs :: "(byte \<Rightarrow> byte) \<Rightarrow> byte list \<Rightarrow> byte list \<Rightarrow> int \<Rightarrow> bool" where
  "occurs fc sx y j \<longleftrightarrow> (\<forall>k \<in> set [0..int (length sx) - 1]. at sx k = fc (at y (j + k)))"

lemma occursD: "occurs fc sx y j \<Longrightarrow> 0 \<le> k \<Longrightarrow> k < int (length sx) \<Longrightarrow> at sx k = fc (at y (j + k))"
  by (simp add: occurs_def)

lemma bm_compare_spec:
  assumes "0 \<le> j" "j + int (length sx) \<le> int (length y)" "- 1 \<le> i" "i < int (length sx)"
    and "\<And>k. i < k \<Longrightarrow> k < int (length sx) \<Longrightarrow> at sx k = fc (at y (j + k))"
  shows "\<exists>i'. bm_compare fc sx y j i = Some i' \<and> - 1 \<le> i' \<and> i' < int (length sx)
    \<and> (\<forall>k. i' < k \<and> k < int (length sx) \<longrightarrow> at sx k = fc (at y (j + k)))
    \<and> (i' = - 1 \<or> at sx i' \<noteq> fc (at y (j + i')))"
  using assms
proof (induction "nat (i + 1)" arbitrary: i)
  case 0
  then have "i = - 1" by simp
  with "0.prems" show ?case by (subst bm_compare.simps) auto
next
  case (Suc n)
  then have i: "0 \<le> i" by linarith
  show ?case
  proof (cases "at sx i = fc (at y (j + i))")
    case True
    have "bm_compare fc sx y j i = bm_compare fc sx y j (i - 1)"
      using i Suc.prems True by (subst bm_compare.simps) (simp add: add.commute)
    moreover have "at sx k = fc (at y (j + k))" if "i - 1 < k" "k < int (length sx)" for k
      using that True Suc.prems(5) [of k] by (cases "k = i") auto
    moreover have "n = nat (i - 1 + 1)" using Suc.hyps(2) by simp
    ultimately show ?thesis using Suc.hyps(1) [of "i - 1"] Suc.prems i by auto
  next
    case False
    with i Suc.prems show ?thesis by (subst bm_compare.simps) (auto simp: add.commute)
  qed
qed

lemma shift_after_mismatch:
  assumes gs: "gs_safe sx gs" and bc: "bc_safe sx bc" and i: "0 \<le> i" "i < int (length sx)"
    and right: "\<And>k. i < k \<Longrightarrow> k < int (length sx) \<Longrightarrow> at sx k = fc (at y (j + k))"
    and mis: "at sx i \<noteq> fc (at y (j + i))"
    and occ: "occurs fc sx y (j + s)" and s: "1 \<le> s"
  shows "max (at gs i) (bc ! unat (fc (at y (j + i))) - int (length sx) + 1 + i) \<le> s"
proof -
  have occ': "at sx (k - s) = fc (at y (j + k))" if "s \<le> k" "k < int (length sx)" for k
    using occursD [OF occ, of "k - s"] that s by (simp add: algebra_simps)
  have "at gs i \<le> s"
  proof -
    have "at sx (k - s) = at sx k" if "i < k \<and> k < int (length sx) \<and> s \<le> k" for k
      using right [of k] occ' [of k] that by simp
    moreover have "s \<le> i \<longrightarrow> at sx (i - s) \<noteq> at sx i" using occ' [of i] mis i by simp
    ultimately show ?thesis using gs i s unfolding gs_safe_def by blast
  qed
  moreover have "bc ! unat (fc (at y (j + i))) - int (length sx) + 1 + i \<le> s"
  proof (cases "s \<le> i")
    case True
    then have "bc ! unat (fc (at y (j + i))) \<le> int (length sx) - 1 - (i - s)"
      using bc occ' [of i] i s unfolding bc_safe_def by auto
    then show ?thesis by simp
  next
    case False
    then have "bc ! unat (fc (at y (j + i))) \<le> int (length sx)" using bc unfolding bc_safe_def by auto
    with False show ?thesis by simp
  qed
  ultimately show ?thesis by simp
qed

lemma gs_safe_at:
  "gs_safe x gs \<Longrightarrow> 0 \<le> j \<Longrightarrow> j < int (length x) \<Longrightarrow> 1 \<le> at gs j \<and> rd gs j = Some (at gs j)"
  unfolding gs_safe_def by (metis rd_in)

lemma shift_after_match:
  assumes gs: "gs_safe sx gs" and "sx \<noteq> []" and here: "occurs fc sx y j"
    and occ: "occurs fc sx y (j + s)" and s: "1 \<le> s"
  shows "at gs 0 \<le> s"
proof -
  have "at sx (k - s) = at sx k" if "k < int (length sx)" "s \<le> k" for k
    using occursD [OF occ, of "k - s"] occursD [OF here, of k] that s by (simp add: algebra_simps)
  then show ?thesis using gs s \<open>sx \<noteq> []\<close> unfolding gs_safe_def by auto
qed

text \<open>The reference: try every position in order.\<close>

definition occurrences :: "(byte \<Rightarrow> byte) \<Rightarrow> byte list \<Rightarrow> byte list \<Rightarrow> int \<Rightarrow> int \<Rightarrow> int list" where
  "occurrences fc sx y n j = filter (occurs fc sx y) [j..n - int (length sx)]"

fun visit :: "'s mfun \<Rightarrow> byte list \<Rightarrow> int \<Rightarrow> int list \<Rightarrow> int \<Rightarrow> 's \<Rightarrow> (int \<times> 's) option" where
  "visit f y n [] nm s = Some (nm, s)"
| "visit f y n (j # js) nm s =
     do { (c, s) \<leftarrow> f y n j s;
          if c \<noteq> 0 then Some (if c < 0 then c else nm + 1, s) else visit f y n js (nm + 1) s }"

fun naive :: "byte list \<Rightarrow> int \<Rightarrow> 's mfun option \<Rightarrow> int list \<Rightarrow> int \<Rightarrow> 's \<Rightarrow> (int \<times> 's) option" where
  "naive y n (Some f) js nm s = visit f y n js nm s"
| "naive y n None [] nm s = Some (- 1, s)"
| "naive y n None (j # js) nm s = Some (c_int j, s)"

lemma occurrences_skip:
  assumes "j \<le> j'" "\<And>k. j \<le> k \<Longrightarrow> k < j' \<Longrightarrow> k \<le> n - int (length sx) \<Longrightarrow> \<not> occurs fc sx y k"
  shows "occurrences fc sx y n j = occurrences fc sx y n j'"
proof (cases "j' \<le> n - int (length sx)")
  case True
  with assms have "[j..n - int (length sx)] = [j..j' - 1] @ [j'..n - int (length sx)]"
    by (metis upto_split1 upto_split2 diff_add_cancel upto_empty append_Nil order.order_iff_strict upto_rec2 le_diff_eq)
  then show ?thesis using assms True by (simp add: occurrences_def filter_empty_conv)
next
  case False
  with assms show ?thesis by (auto simp: occurrences_def filter_empty_conv)
qed

lemma occurrences_here:
  "j \<le> n - int (length sx) \<Longrightarrow> occurs fc sx y j \<Longrightarrow> occurrences fc sx y n j = j # occurrences fc sx y n (j + 1)"
  by (simp add: occurrences_def upto_rec1)

lemma bm_loop_naive:
  assumes sx: "sx \<noteq> []" and gs: "gs_safe sx gs" and bc: "bc_safe sx bc" and n: "n \<le> int (length y)" and "0 \<le> j"
  shows "bm_loop fc gs bc sx (int (length sx)) y n mfun j nm s
    = naive y n mfun (occurrences fc sx y n j) nm s"
  using \<open>0 \<le> j\<close>
proof (induction "nat (n - int (length sx) + 1 - j)" arbitrary: j nm s rule: less_induct)
  case less
  let ?m = "int (length sx)"
  have m: "1 \<le> ?m" using sx by (cases sx) auto
  show ?case
  proof (cases "j \<le> n - ?m")
    case False
    then show ?thesis by (subst bm_loop.simps) (cases mfun, auto simp: occurrences_def)
  next
    case True
    have IH: "bm_loop fc gs bc sx ?m y n mfun (j + d) nm s = naive y n mfun (occurrences fc sx y n (j + d)) nm s"
      if "1 \<le> d" for d nm s using less True that by simp
    from bm_compare_spec [of j sx y "?m - 1" fc] True less.prems n m obtain i where
      i: "bm_compare fc sx y j (?m - 1) = Some i" "- 1 \<le> i" "i < ?m"
      and right: "\<And>k. i < k \<Longrightarrow> k < ?m \<Longrightarrow> at sx k = fc (at y (j + k))"
      and mis: "i = - 1 \<or> at sx i \<noteq> fc (at y (j + i))" by auto
    show ?thesis
    proof (cases "i = - 1")
      case found: True
      have here: "occurs fc sx y j" using right found by (auto simp: occurs_def)
      have d: "1 \<le> at gs 0" "rd gs 0 = Some (at gs 0)" using gs_safe_at [OF gs, of 0] sx by auto
      have "\<not> occurs fc sx y k" if "j + 1 \<le> k" "k < j + at gs 0" for k
        using shift_after_match [OF gs sx here, of "k - j"] that by auto
      then have "occurrences fc sx y n (j + 1) = occurrences fc sx y n (j + at gs 0)"
        using d by (intro occurrences_skip) auto
      with True here have o: "occurrences fc sx y n j = j # occurrences fc sx y n (j + at gs 0)"
        by (simp add: occurrences_here)
      show ?thesis
      proof (cases mfun)
        case None
        then show ?thesis using True i found by (subst bm_loop.simps) (simp add: o)
      next
        case (Some f)
        then show ?thesis using True i found d IH [OF d(1)]
          by (subst bm_loop.simps) (cases "f y n j s"; auto simp: o Let_def)
      qed
    next
      case False
      then have i0: "0 \<le> i" using i by simp
      let ?c = "fc (at y (j + i))"
      let ?d = "max (at gs i) (bc ! unat ?c - ?m + 1 + i)"
      have d: "1 \<le> ?d" using gs i i0 by (auto simp: gs_safe_def max_def)
      have rds: "rd y (i + j) = Some (at y (j + i))" "rd gs i = Some (at gs i)" "rd bc (uint ?c) = Some (bc ! unat ?c)"
        using gs bc i i0 less.prems True n by (auto simp: gs_safe_def bc_safe_def add.commute)
      have "\<not> occurs fc sx y k" if "j \<le> k" "k < j + ?d" for k
      proof (cases "k = j")
        case True
        then show ?thesis using mis False i0 i by (auto dest: occursD)
      next
        case False
        then show ?thesis using shift_after_mismatch [OF gs bc i0 i(3) right, where s = "k - j"] mis i0 that by auto
      qed
      then have o: "occurrences fc sx y n j = occurrences fc sx y n (j + ?d)"
        using d by (intro occurrences_skip) auto
      have "bm_loop fc gs bc sx ?m y n mfun j nm s = bm_loop fc gs bc sx ?m y n mfun (j + ?d) nm s"
        using True i False rds by (subst bm_loop.simps) simp
      with IH [OF d] o show ?thesis by simp
    qed
  qed
qed

lemma bm_search_ready:
  assumes "bm_ready lower x ic bmp" "x \<noteq> []" "int (length x) \<le> n" "n \<le> int (length y)"
  shows "bm_search lower bmp y n mfun s
    = naive y n mfun (occurrences (fold_case lower ic) (map (fold_case lower ic) x) y n 0) 0 s"
proof -
  from assms(1) obtain gs where
    bmp: "saved_x bmp = Some (map (fold_case lower ic) x)" "saved_m bmp = int (length x)" "icase bmp = ic"
      "bc_safe (map (fold_case lower ic) x) (bmBc bmp)" "bmGs bmp = Some gs" "gs_safe (map (fold_case lower ic) x) gs"
    unfolding bm_ready_def by blast
  have "map (fold_case lower ic) x \<noteq> []" using assms(2) by simp
  from bm_loop_naive [OF this bmp(6) bmp(4) assms(4), of 0 "fold_case lower ic" mfun 0 s] assms(3)
  show ?thesis by (simp add: bm_search_def bmp)
qed

section \<open>Properties\<close>

text \<open>
  C9. Search with the tables of \<^verbatim>\<open>bm_init\<close> is the naive search.  For every pattern \<open>x\<close> of at least
  one byte, every text \<open>y\<close>, every scan length \<open>n\<close> with \<open>m <= n <= length y\<close>, with or without
  case folding and for every \<^verbatim>\<open>tolower\<close>: when the allocations succeed \<^verbatim>\<open>bm_init\<close> returns 0, no
  access of the preprocessing or of the search leaves an array, and the result of the search
  and the calls it makes of \<^verbatim>\<open>mfun\<close> are those of trying all the positions in order; the search
  returns whenever the calls of \<^verbatim>\<open>mfun\<close> do.
\<close>

theorem bm_search_is_naive:
  assumes "x \<noteq> []" "length (bmBc bmp0) = 256" "int (length x) \<le> n" "n \<le> int (length y)"
  shows "\<exists>bmp. bm_init lower (True, True, True) bmp0 x (int (length x)) ic = Some (0, bmp)
    \<and> bm_search lower bmp y n mfun s
      = naive y n mfun (occurrences (fold_case lower ic) (map (fold_case lower ic) x) y n 0) 0 s"
proof -
  from bm_init_ready [OF assms(1,2), of lower ic] obtain bmp where
    "bm_init lower (True, True, True) bmp0 x (int (length x)) ic = Some (0, bmp)" and "bm_ready lower x ic bmp"
    by blast
  with bm_search_ready [OF _ assms(1,3,4), of lower ic bmp mfun s] show ?thesis by (intro exI [of _ bmp]) simp
qed

text \<open>The callback that collects the positions.\<close>

definition collect :: "int list mfun" where
  "collect y n pos s = Some (0, s @ [pos])"

definition bm_blank :: BM where
  "bm_blank = \<lparr>bmGs = None, bmBc = replicate 256 0, saved_x = None, saved_m = 0, icase = False\<rparr>"

text \<open>The overlapping occurrences of \<open>aba\<close> in \<open>cababa\<close>, at 1 and 3.\<close>

theorem bm_search_is_naive_witness:
  "\<exists>bmp. bm_init id (True, True, True) bm_blank [97, 98, 97] 3 False = Some (0, bmp)
    \<and> bm_search id bmp [99, 97, 98, 97, 98, 97] 6 (Some collect) [] = Some (2, [1, 3])"
proof -
  have "occurrences (fold_case id False) (map (fold_case id False) [97, 98, 97]) [99, 97, 98, 97, 98, 97] 6 0 = [1, 3]"
    by (simp add: occurrences_def occurs_def fold_case_def upto.simps)
  then show ?thesis
    using bm_search_is_naive [of "[97, 98, 97]" bm_blank 6 "[99, 97, 98, 97, 98, 97]" id False "Some collect" "[]"]
    by (simp add: bm_blank_def collect_def)
qed

text \<open>
  A file shorter than the pattern: \<^verbatim>\<open>bm_search\<close> returns -1 without calling \<^verbatim>\<open>mfun\<close>, also when
  \<^verbatim>\<open>mfun\<close> is given and the comment above the function promises the number of matches, which is
  what the naive search returns (0).
\<close>

theorem bm_search_short_text:
  assumes "n < saved_m bmp"
  shows "bm_search lower bmp y n (Some f) s = Some (- 1, s)
    \<and> naive y n (Some f) (occurrences fc (replicate (nat (saved_m bmp)) c) y n 0) 0 s = Some (0, s)"
  using assms by (simp add: bm_search_def occurrences_def)

theorem bm_search_short_text_witness:
  "bm_search id (bm_blank\<lparr>saved_m := 3\<rparr>) [97] 1 (Some collect) [] = Some (- 1, [])
    \<and> naive [97] 1 (Some collect) (occurrences id (replicate 3 97) [97] 1 0) 0 [] = Some (0, [])"
  using bm_search_short_text [of 1 "bm_blank\<lparr>saved_m := 3\<rparr>" id "[97]" collect "[]" id 97]
  by (simp add: numeral_eq_Suc)

text \<open>
  The empty pattern: with \<open>m = 0\<close>, which \<^verbatim>\<open>deslash\<close> gives for the argument \<open>""\<close>, the
  preprocessing stores to \<open>suff[-1]\<close>.
\<close>

theorem bm_init_empty_pattern:
  "bm_init lower (True, True, True) bmp x 0 ic = None"
  by (simp add: bm_init_def preBmGs_def suffixes_def wr_def Let_def)

end
