(* ===== verification/PQueue.thy ===== *)
theory PQueue
  imports Prelude
begin

text \<open>
  The blocking queue of \<^verbatim>\<open>papps/pfscan-1.0/pqueue.c\<close>, built with \<^verbatim>\<open>HEECHUL\<close> as the Makefile
  does.  \<open>mtx\<close> is the holder of the mutex.  An operation either returns, or finds the
  mutex taken, or waits on a condition variable with the mutex released; it then goes on
  in its loop when it has been woken and has the mutex again (\<open>pqueue_put_woken\<close>,
  \<open>pqueue_get_woken\<close>).  \<open>signals\<close> records the calls of \<^verbatim>\<open>pthread_cond_signal\<close> and
  \<^verbatim>\<open>pthread_cond_broadcast\<close>.
\<close>

section \<open>Data and operations\<close>

datatype pq_signal = SignalMore | SignalLess | BroadcastMore

record PQUEUE =
  pbuf :: "ptr list"
  pqsize :: nat
  occupied :: nat
  nextin :: nat
  nextout :: nat
  pclosed :: bool
  mtx :: "nat option"
  signals :: "pq_signal list"

datatype 'r pq_result = PQLocked | PQWait PQUEUE | PQRet 'r PQUEUE | PQFault

text \<open>\<open>alloc\<close>: whether \<^verbatim>\<open>calloc\<close> succeeds.  Both results are 0.\<close>

definition pqueue_init :: "bool \<Rightarrow> nat \<Rightarrow> PQUEUE \<Rightarrow> int \<times> PQUEUE" where
  "pqueue_init alloc n qp =
     (if \<not> alloc then (0, qp\<lparr>pbuf := []\<rparr>)
      else (0, \<lparr>pbuf = replicate n NULL, pqsize = n, occupied = 0, nextin = 0, nextout = 0, pclosed = False,
                mtx = None, signals = []\<rparr>))"

definition pqueue_close :: "nat \<Rightarrow> PQUEUE \<Rightarrow> unit pq_result" where
  "pqueue_close me qp =
     (if mtx qp \<noteq> None then PQLocked
      else PQRet () (qp\<lparr>pclosed := True, mtx := None, signals := signals qp @ [BroadcastMore]\<rparr>))"

text \<open>From the \<^verbatim>\<open>while\<close> loop on, with the mutex held.\<close>

definition pqueue_put_loop :: "PQUEUE \<Rightarrow> ptr \<Rightarrow> int pq_result" where
  "pqueue_put_loop qp item =
     (if occupied qp \<ge> pqsize qp then PQWait (qp\<lparr>mtx := None\<rparr>)
      else if \<not> nextin qp < length (pbuf qp) then PQFault
      else PQRet 1 (qp\<lparr>pbuf := (pbuf qp)[nextin qp := item], nextin := (nextin qp + 1) mod pqsize qp,
             occupied := occupied qp + 1, signals := signals qp @ [SignalMore], mtx := None\<rparr>))"

definition pqueue_put :: "nat \<Rightarrow> PQUEUE \<Rightarrow> ptr \<Rightarrow> int pq_result" where
  "pqueue_put me qp item =
     (if mtx qp \<noteq> None then PQLocked
      else let qp = qp\<lparr>mtx := Some me\<rparr>
           in if pclosed qp then PQRet 0 qp else pqueue_put_loop qp item)"

definition pqueue_put_woken :: "nat \<Rightarrow> PQUEUE \<Rightarrow> ptr \<Rightarrow> int pq_result" where
  "pqueue_put_woken me qp item =
     (if mtx qp \<noteq> None then PQLocked else pqueue_put_loop (qp\<lparr>mtx := Some me\<rparr>) item)"

definition pqueue_get_loop :: "PQUEUE \<Rightarrow> (int \<times> ptr) pq_result" where
  "pqueue_get_loop qp =
     (if occupied qp = 0 \<and> \<not> pclosed qp then PQWait (qp\<lparr>mtx := None\<rparr>)
      else if occupied qp > 0 then
        if \<not> nextout qp < length (pbuf qp) then PQFault
        else PQRet (1, pbuf qp ! nextout qp) (qp\<lparr>nextout := (nextout qp + 1) mod pqsize qp,
               occupied := occupied qp - 1, signals := signals qp @ [SignalLess], mtx := None\<rparr>)
      else PQRet (0, NULL) (qp\<lparr>mtx := None\<rparr>))"

definition pqueue_get :: "nat \<Rightarrow> PQUEUE \<Rightarrow> (int \<times> ptr) pq_result" where
  "pqueue_get me qp = (if mtx qp \<noteq> None then PQLocked else pqueue_get_loop (qp\<lparr>mtx := Some me\<rparr>))"

definition pqueue_get_woken :: "nat \<Rightarrow> PQUEUE \<Rightarrow> (int \<times> ptr) pq_result" where
  "pqueue_get_woken me qp = (if mtx qp \<noteq> None then PQLocked else pqueue_get_loop (qp\<lparr>mtx := Some me\<rparr>))"

definition pqueue_destroy :: "PQUEUE \<Rightarrow> PQUEUE" where
  "pqueue_destroy qp = qp\<lparr>pbuf := []\<rparr>"

section \<open>View and invariant\<close>

definition pq_wf :: "PQUEUE \<Rightarrow> bool" where
  "pq_wf q \<longleftrightarrow> 0 < pqsize q \<and> length (pbuf q) = pqsize q \<and> nextin q < pqsize q \<and> nextout q < pqsize q
     \<and> occupied q \<le> pqsize q \<and> nextin q = (nextout q + occupied q) mod pqsize q"

definition pq_list :: "PQUEUE \<Rightarrow> ptr list" where
  "pq_list q = map (\<lambda>k. pbuf q ! ((nextout q + k) mod pqsize q)) [0..<occupied q]"

lemma length_pq_list [simp]: "length (pq_list q) = occupied q"
  by (simp add: pq_list_def)

lemma put_loop_room:
  assumes wf: "pq_wf q" and room: "occupied q < pqsize q"
  shows "\<exists>q'. pqueue_put_loop q x = PQRet 1 q' \<and> pq_wf q' \<and> pq_list q' = pq_list q @ [x]
    \<and> pqsize q' = pqsize q \<and> mtx q' = None \<and> pclosed q' = pclosed q \<and> signals q' = signals q @ [SignalMore]"
proof -
  let ?q' = "q\<lparr>pbuf := (pbuf q)[nextin q := x], nextin := (nextin q + 1) mod pqsize q,
    occupied := occupied q + 1, signals := signals q @ [SignalMore], mtx := None\<rparr>"
  have put: "pqueue_put_loop q x = PQRet 1 ?q'" using wf room by (simp add: pqueue_put_loop_def pq_wf_def)
  have wf': "pq_wf ?q'" using wf room by (simp add: pq_wf_def mod_Suc_eq)
  have other: "(nextout q + k) mod pqsize q \<noteq> nextin q" if "k < occupied q" for k
    using mod_index_inj [of k "pqsize q" "occupied q" "nextout q"] that wf room by (auto simp: pq_wf_def)
  have same: "(pbuf q)[nextin q := x] ! ((nextout q + k) mod pqsize q)
    = pbuf q ! ((nextout q + k) mod pqsize q)" if "k < occupied q" for k
    using other [OF that] by (metis nth_list_update_neq)
  have new: "(nextout q + occupied q) mod pqsize q = nextin q" "nextin q < length (pbuf q)"
    using wf by (simp_all add: pq_wf_def)
  have "pq_list ?q' = pq_list q @ [x]" by (simp add: pq_list_def same new)
  with put wf' show ?thesis by (intro exI [of _ ?q']) simp
qed

lemma get_loop_some:
  assumes wf: "pq_wf q" and v: "pq_list q = x # xs"
  shows "\<exists>q'. pqueue_get_loop q = PQRet (1, x) q' \<and> pq_wf q' \<and> pq_list q' = xs
    \<and> pqsize q' = pqsize q \<and> mtx q' = None \<and> pclosed q' = pclosed q \<and> signals q' = signals q @ [SignalLess]"
proof -
  let ?q' = "q\<lparr>nextout := (nextout q + 1) mod pqsize q, occupied := occupied q - 1,
    signals := signals q @ [SignalLess], mtx := None\<rparr>"
  from v have occ: "occupied q = Suc (length xs)" by (metis length_Cons length_pq_list)
  have "x # xs = map (\<lambda>k. pbuf q ! ((nextout q + k) mod pqsize q)) (0 # map Suc [0..<length xs])"
    using v by (simp only: pq_list_def occ upt_conv_Cons map_Suc_upt zero_less_Suc)
  then have x: "x = pbuf q ! nextout q"
    and xs: "xs = map (\<lambda>k. pbuf q ! ((nextout q + Suc k) mod pqsize q)) [0..<length xs]"
    using wf by (auto simp: pq_wf_def comp_def)
  have "pqueue_get_loop q = PQRet (1, x) ?q'" using wf occ x by (simp add: pqueue_get_loop_def pq_wf_def)
  moreover have "pq_wf ?q'" using wf occ by (simp add: pq_wf_def mod_Suc_eq mod_add_left_eq)
  moreover have "pq_list ?q' = xs" using occ by (subst xs) (simp add: pq_list_def mod_add_left_eq)
  ultimately show ?thesis by (intro exI [of _ ?q']) simp
qed

section \<open>Any interleaving of the callers\<close>

text \<open>
  A call is one critical section, since every access to the queue is made under \<^verbatim>\<open>mtx\<close>.
  The events of a run are the calls of any threads in any order, together with the
  continuations of the calls that waited; a woken continuation may come at any moment, as
  a spurious wake-up does.  A run collects the items stored and the items fetched.
\<close>

datatype pq_op =
    Put nat ptr
  | PutWoken nat ptr
  | Get nat
  | GetWoken nat
  | Close nat

fun settle :: "PQUEUE \<Rightarrow> 'r pq_result \<Rightarrow> ('r \<Rightarrow> ptr list) \<Rightarrow> (PQUEUE \<times> ptr list) option" where
  "settle q PQLocked f = Some (q, [])"
| "settle q (PQWait q') f = Some (q', [])"
| "settle q (PQRet r q') f = Some (q', f r)"
| "settle q PQFault f = None"

fun pq_event :: "pq_op \<Rightarrow> PQUEUE \<Rightarrow> (PQUEUE \<times> ptr list \<times> ptr list) option" where
  "pq_event (Put me x) q =
     do { (q', i) \<leftarrow> settle q (pqueue_put me q x) (\<lambda>r. if r = 1 then [x] else []); Some (q', i, []) }"
| "pq_event (PutWoken me x) q =
     do { (q', i) \<leftarrow> settle q (pqueue_put_woken me q x) (\<lambda>r. if r = 1 then [x] else []); Some (q', i, []) }"
| "pq_event (Get me) q =
     do { (q', i) \<leftarrow> settle q (pqueue_get me q) (\<lambda>(got, x). if got = 1 then [x] else []); Some (q', [], i) }"
| "pq_event (GetWoken me) q =
     do { (q', i) \<leftarrow> settle q (pqueue_get_woken me q) (\<lambda>(got, x). if got = 1 then [x] else []); Some (q', [], i) }"
| "pq_event (Close me) q = do { (q', i) \<leftarrow> settle q (pqueue_close me q) (\<lambda>_. []); Some (q', [], []) }"

fun pq_run :: "pq_op list \<Rightarrow> PQUEUE \<Rightarrow> (PQUEUE \<times> ptr list \<times> ptr list) option" where
  "pq_run [] q = Some (q, [], [])"
| "pq_run (e # es) q =
     do { (q1, i1, o1) \<leftarrow> pq_event e q; (q2, i2, o2) \<leftarrow> pq_run es q1; Some (q2, i1 @ i2, o1 @ o2) }"

text \<open>The invariant and the view of a run.\<close>

definition pq_ok :: "nat \<Rightarrow> PQUEUE \<Rightarrow> bool" where
  "pq_ok n q \<longleftrightarrow> pq_wf q \<and> pqsize q = n"

lemma pq_wf_mtx [simp]: "pq_wf (q\<lparr>mtx := m\<rparr>) = pq_wf q" "pq_list (q\<lparr>mtx := m\<rparr>) = pq_list q"
  "pq_wf (q\<lparr>pclosed := c\<rparr>) = pq_wf q" "pq_list (q\<lparr>pclosed := c\<rparr>) = pq_list q"
  "pq_wf (q\<lparr>signals := g\<rparr>) = pq_wf q" "pq_list (q\<lparr>signals := g\<rparr>) = pq_list q"
  by (simp_all add: pq_wf_def pq_list_def)

lemma settle_put:
  assumes "pq_ok n q"
  shows "\<exists>q' i. settle q0 (pqueue_put_loop q x) (\<lambda>r. if r = 1 then [x] else []) = Some (q', i)
    \<and> pq_ok n q' \<and> pq_list q @ i = pq_list q'"
proof (cases "occupied q < pqsize q")
  case True
  with assms put_loop_room [of q x] show ?thesis unfolding pq_ok_def by fastforce
next
  case False
  with assms show ?thesis by (simp add: pqueue_put_loop_def pq_ok_def)
qed

lemma settle_get:
  assumes "pq_ok n q"
  shows "\<exists>q' i. settle q0 (pqueue_get_loop q) (\<lambda>(got, x). if got = 1 then [x] else []) = Some (q', i)
    \<and> pq_ok n q' \<and> pq_list q = i @ pq_list q'"
proof (cases "pq_list q")
  case Nil
  then have "occupied q = 0" by (metis length_pq_list list.size(3))
  with assms show ?thesis by (simp add: pqueue_get_loop_def pq_ok_def)
next
  case (Cons x xs)
  with assms get_loop_some [of q x xs] show ?thesis unfolding pq_ok_def by fastforce
qed

lemmas pq_calls = pqueue_put_def pqueue_put_woken_def pqueue_get_def pqueue_get_woken_def pqueue_close_def Let_def

lemma pq_event_view:
  assumes "pq_ok n q"
  shows "\<exists>q' i g. pq_event e q = Some (q', i, g) \<and> pq_ok n q' \<and> pq_list q @ i = g @ pq_list q'"
proof -
  have ok: "pq_ok n (q\<lparr>mtx := m\<rparr>)" for m using assms by (simp add: pq_ok_def)
  show ?thesis
  proof (cases "mtx q = None")
    case False
    with assms show ?thesis by (cases e) (auto simp: pq_calls)
  next
    case True
    show ?thesis
    proof (cases e)
      case (Put me x)
      show ?thesis using settle_put [OF ok, of q "Some me" x] True ok [of "Some me"]
        by (auto simp: Put pq_calls)
    next
      case (PutWoken me x)
      show ?thesis using settle_put [OF ok, of q "Some me" x] True by (auto simp: PutWoken pq_calls)
    next
      case (Get me)
      show ?thesis using settle_get [OF ok, of q "Some me"] True by (auto simp: Get pq_calls)
    next
      case (GetWoken me)
      show ?thesis using settle_get [OF ok, of q "Some me"] True by (auto simp: GetWoken pq_calls)
    next
      case (Close me)
      show ?thesis using True assms by (auto simp: Close pq_calls pq_ok_def)
    qed
  qed
qed

lemma pq_run_view:
  "pq_ok n q \<Longrightarrow> \<exists>q' i g. pq_run es q = Some (q', i, g) \<and> pq_ok n q' \<and> pq_list q @ i = g @ pq_list q'"
proof (induction es arbitrary: q)
  case Nil
  then show ?case by simp
next
  case (Cons e es)
  from pq_event_view [OF Cons.prems, of e] obtain q1 i1 g1 where
    e: "pq_event e q = Some (q1, i1, g1)" "pq_ok n q1" "pq_list q @ i1 = g1 @ pq_list q1" by blast
  from Cons.IH [OF e(2)] obtain q2 i2 g2 where
    es: "pq_run es q1 = Some (q2, i2, g2)" "pq_ok n q2" "pq_list q1 @ i2 = g2 @ pq_list q2" by blast
  have "pq_list q @ i1 @ i2 = (g1 @ g2) @ pq_list q2"
    using e(3) es(3) by (metis append.assoc)
  with e es show ?case by simp
qed

lemma pq_init_ok: "0 < n \<Longrightarrow> pq_ok n (snd (pqueue_init True n q))" "pq_list (snd (pqueue_init True n q)) = []"
  by (simp_all add: pq_ok_def pq_wf_def pqueue_init_def pq_list_def)

section \<open>The queue delivers what was stored\<close>

text \<open>
  C28. The blocking queue of pfscan loses, duplicates and reorders nothing: whatever calls
  of \<^verbatim>\<open>pqueue_put\<close>, \<^verbatim>\<open>pqueue_get\<close> and \<^verbatim>\<open>pqueue_close\<close> any threads make in any order, from a
  freshly initialised queue of \<open>n > 0\<close> slots no access leaves the buffer, the items fetched
  followed by the items still queued are exactly the items stored, in that order, and at
  most \<open>n\<close> are queued.
\<close>

theorem pqueue_no_loss:
  assumes "0 < n"
  shows "\<exists>q stored fetched. pq_run es (snd (pqueue_init True n q0)) = Some (q, stored, fetched)
    \<and> stored = fetched @ pq_list q \<and> length (pq_list q) \<le> n"
  using pq_run_view [OF pq_init_ok(1) [OF assms], of es q0]
  by (auto simp: pq_init_ok(2) pq_ok_def pq_wf_def)

definition blank_q :: PQUEUE where
  "blank_q = \<lparr>pbuf = [], pqsize = 0, occupied = 0, nextin = 0, nextout = 0, pclosed = False,
     mtx = None, signals = []\<rparr>"

text \<open>Two producers and a consumer on a queue of one slot.\<close>

theorem pqueue_no_loss_witness:
  "\<exists>q stored fetched. pq_run [Put 1 5, Put 2 6, Get 3, PutWoken 2 6, Get 3]
      (snd (pqueue_init True 1 blank_q)) = Some (q, stored, fetched)
    \<and> stored = fetched @ pq_list q \<and> length (pq_list q) \<le> 1"
  using pqueue_no_loss [of 1 "[Put 1 5, Put 2 6, Get 3, PutWoken 2 6, Get 3]" blank_q] by simp

text \<open>
  After \<^verbatim>\<open>pqueue_put\<close> on a closed queue the mutex is never released again: the call
  returns 0 while it holds the mutex, and in every later sequence of calls by any threads
  nothing is stored or fetched and the queue does not change.
\<close>

theorem put_on_closed_blocks:
  assumes "mtx q = None" "pclosed q"
  shows "pqueue_put me q x = PQRet 0 (q\<lparr>mtx := Some me\<rparr>)
    \<and> pq_run es (q\<lparr>mtx := Some me\<rparr>) = Some (q\<lparr>mtx := Some me\<rparr>, [], [])"
proof -
  have "pq_event e (q\<lparr>mtx := Some me\<rparr>) = Some (q\<lparr>mtx := Some me\<rparr>, [], [])" for e
    by (cases e) (simp_all add: pq_calls)
  then have "pq_run es (q\<lparr>mtx := Some me\<rparr>) = Some (q\<lparr>mtx := Some me\<rparr>, [], [])"
    by (induction es) simp_all
  with assms show ?thesis by (simp add: pq_calls)
qed

definition closed_q :: PQUEUE where
  "closed_q = (snd (pqueue_init True 2 blank_q))\<lparr>pclosed := True\<rparr>"

theorem put_on_closed_blocks_witness:
  "pqueue_put 1 closed_q 7 = PQRet 0 (closed_q\<lparr>mtx := Some 1\<rparr>)
    \<and> pq_run [Get 2, Close 3] (closed_q\<lparr>mtx := Some 1\<rparr>) = Some (closed_q\<lparr>mtx := Some 1\<rparr>, [], [])"
  by (rule put_on_closed_blocks) (simp_all add: closed_q_def pqueue_init_def)

section \<open>The contract of a queue\<close>

definition pq_add :: "PQUEUE \<Rightarrow> ptr \<Rightarrow> (int \<times> PQUEUE) option" where
  "pq_add q x = (case pqueue_put 0 q x of PQRet r q' \<Rightarrow> Some (r, q') | _ \<Rightarrow> None)"

definition pq_del :: "PQUEUE \<Rightarrow> (ptr \<times> PQUEUE) option" where
  "pq_del q = (case pqueue_get 0 q of PQRet r q' \<Rightarrow> Some (snd r, q') | _ \<Rightarrow> None)"

interpretation pq: fifo_store "\<lambda>q. pq_wf q \<and> mtx q = None \<and> \<not> pclosed q" pq_list pqsize pq_add pq_del
proof
  fix q :: PQUEUE and x :: ptr
  assume "pq_wf q \<and> mtx q = None \<and> \<not> pclosed q" "length (pq_list q) < pqsize q"
  then show "\<exists>q'. pq_add q x = Some (1, q') \<and> (pq_wf q' \<and> mtx q' = None \<and> \<not> pclosed q')
      \<and> pq_list q' = pq_list q @ [x] \<and> pqsize q' = pqsize q"
    using put_loop_room [of "q\<lparr>mtx := Some 0\<rparr>" x] by (auto simp: pq_add_def pq_calls)
next
  fix q :: PQUEUE and x :: ptr and xs
  assume "pq_wf q \<and> mtx q = None \<and> \<not> pclosed q" "pq_list q = x # xs"
  then show "\<exists>q'. pq_del q = Some (x, q') \<and> (pq_wf q' \<and> mtx q' = None \<and> \<not> pclosed q')
      \<and> pq_list q' = xs \<and> pqsize q' = pqsize q"
    using get_loop_some [of "q\<lparr>mtx := Some 0\<rparr>" x xs] by (auto simp: pq_del_def pq_calls)
qed (simp add: pq_wf_def)

end
