(* ===== verification/PFScan.thy ===== *)
theory PFScan
  imports BoyerMoore PQueue
begin

text \<open>
  The sequential code of \<^verbatim>\<open>papps/pfscan-1.0/pfscan.c\<close>: the escapes of the search string, the
  printing of a match, the scan of a file, the visit of a path and the command line.  A C
  string is a byte buffer that contains its terminator; pointers into it are indices, and
  accesses are checked.  \<^verbatim>\<open>isprint\<close>, \<^verbatim>\<open>isspace\<close> and \<^verbatim>\<open>tolower\<close> follow the locale and are parameters;
  \<^verbatim>\<open>toupper\<close> and \<^verbatim>\<open>isxdigit\<close> are only used to recognise digits, which no locale changes.
  Standard output is the list of the characters written.
\<close>

section \<open>Escapes in the search string\<close>

definition toupper :: "byte \<Rightarrow> nat" where
  "toupper c = (if 97 \<le> unat c \<and> unat c \<le> 122 then unat c - 32 else unat c)"

definition digit_of :: "nat \<Rightarrow> byte \<Rightarrow> bool" where
  "digit_of base c \<longleftrightarrow> 48 \<le> unat c \<and> unat c < 48 + (if base > 10 then 10 else base)"

definition letter_of :: "nat \<Rightarrow> byte \<Rightarrow> bool" where
  "letter_of base c \<longleftrightarrow> base \<ge> 10 \<and> toupper c \<ge> 65 \<and> toupper c < 65 + base - 10"

definition digit_val :: "nat \<Rightarrow> byte \<Rightarrow> nat" where
  "digit_val base c = (if digit_of base c then unat c - 48 else toupper c - 65 + 10)"

definition code_len :: "nat \<Rightarrow> nat" where
  "code_len base = (if base = 16 then 2 else 3)"

text \<open>The loop of \<^verbatim>\<open>get_char_code\<close>; the result is the value and the new \<open>*cp\<close>.\<close>

function code_loop :: "byte list \<Rightarrow> nat \<Rightarrow> nat \<Rightarrow> nat \<Rightarrow> nat \<Rightarrow> (nat \<times> nat) option" where
  "code_loop str base cp len v =
     (if len < code_len base then
        do { c \<leftarrow> rd str (int cp);
             if digit_of base c \<or> letter_of base c
             then code_loop str base (cp + 1) (len + 1) (v * base + digit_val base c)
             else Some (v, cp) }
      else Some (v, cp))"
  by pat_completeness auto
termination by (relation "measure (\<lambda>(str, base, cp, len, v). code_len base - len)") auto

definition get_char_code :: "byte list \<Rightarrow> nat \<Rightarrow> nat \<Rightarrow> (byte \<times> nat) option" where
  "get_char_code str cp base = do { (v, cp) \<leftarrow> code_loop str base cp 0 0; Some (word_of_nat (v mod 256), cp) }"

text \<open>The \<^verbatim>\<open>switch\<close> of \<^verbatim>\<open>deslash\<close>: the byte an escape stands for and the new \<open>rp\<close>.\<close>

definition escape_char :: "byte list \<Rightarrow> nat \<Rightarrow> (byte \<times> nat) option" where
  "escape_char str rp =
     do { e \<leftarrow> rd str (int rp);
          if e = 110 then Some (10, rp + 1)
          else if e = 114 then Some (13, rp + 1)
          else if e = 116 then Some (9, rp + 1)
          else if e = 98 then Some (8, rp + 1)
          else if e = 120 then get_char_code str (rp + 1) 16
          else if e = 48 then get_char_code str rp 8
          else if 49 \<le> unat e \<and> unat e \<le> 57 then get_char_code str rp 10
          else Some (e, rp + 1) }"

text \<open>One iteration of its loop on the buffer, \<open>rp\<close> and \<open>wp\<close>.\<close>

definition deslash_step :: "byte list \<Rightarrow> nat \<Rightarrow> nat \<Rightarrow> (byte list \<times> nat \<times> nat) option" where
  "deslash_step str rp wp =
     do { c \<leftarrow> rd str (int rp);
          (v, rp) \<leftarrow> (if c \<noteq> 92 then Some (c, rp + 1) else escape_char str (rp + 1));
          str \<leftarrow> wr str (int wp) v;
          Some (str, rp, wp + 1) }"

declare code_loop.simps [simp del]

lemma code_loop_mono: "code_loop str base cp len v = Some (w, cp') \<Longrightarrow> cp \<le> cp'"
proof (induction str base cp len v rule: code_loop.induct)
  case (1 str base cp len v)
  show ?case
    using "1.prems" "1.IH" by (subst (asm) code_loop.simps) (fastforce split: if_splits bind_splits)
qed

lemma get_char_code_mono: "get_char_code str cp base = Some (w, cp') \<Longrightarrow> cp \<le> cp'"
  by (auto simp: get_char_code_def split: bind_splits dest: code_loop_mono)

lemma rd_someD: "rd xs i = Some v \<Longrightarrow> 0 \<le> i \<and> i < int (length xs) \<and> v = xs ! nat i"
  by (simp add: rd_def split: if_splits)

lemma escape_char_mono: "escape_char str rp = Some (v, rp') \<Longrightarrow> rp \<le> rp'"
  unfolding escape_char_def
  by (cases "rd str (int rp)") (auto split: if_splits dest: get_char_code_mono)

lemma deslash_step_progress:
  "deslash_step str rp wp = Some (str', rp', wp') \<Longrightarrow> length str' = length str \<and> rp < rp' \<and> rp < length str"
  unfolding deslash_step_def
  by (cases "rd str (int rp)") (auto split: bind_splits if_splits dest!: rd_someD wr_length escape_char_mono)

function deslash_loop :: "byte list \<Rightarrow> nat \<Rightarrow> nat \<Rightarrow> (byte list \<times> nat) option" where
  "deslash_loop str rp wp =
     do { c \<leftarrow> rd str (int rp);
          if c \<noteq> 0 then do { (str, rp, wp) \<leftarrow> deslash_step str rp wp; deslash_loop str rp wp }
          else do { str \<leftarrow> wr str (int wp) 0; Some (str, wp) } }"
  by pat_completeness auto
termination
  by (relation "measure (\<lambda>(str, rp, wp). length str - rp)") (auto dest!: deslash_step_progress)

text \<open>The buffer afterwards and the result \<open>wp - str\<close>.\<close>

definition deslash :: "byte list \<Rightarrow> (byte list \<times> nat) option" where
  "deslash str = deslash_loop str 0 0"

text \<open>\<^verbatim>\<open>dehex\<close>.\<close>

function skip_spaces :: "(byte \<Rightarrow> bool) \<Rightarrow> byte list \<Rightarrow> nat \<Rightarrow> nat option" where
  "skip_spaces space str rp =
     do { c \<leftarrow> rd str (int rp); if c \<noteq> 0 \<and> space c then skip_spaces space str (rp + 1) else Some rp }"
  by pat_completeness auto
termination
  by (relation "measure (\<lambda>(space, str, rp). length str - rp)") (auto dest: rd_someD)

declare skip_spaces.simps [simp del]

definition isxdigit :: "byte \<Rightarrow> bool" where
  "isxdigit c \<longleftrightarrow> digit_of 16 c \<or> letter_of 16 c"

lemma skip_spaces_mono: "skip_spaces space str rp = Some rp' \<Longrightarrow> rp \<le> rp' \<and> rp' < length str"
proof (induction space str rp rule: skip_spaces.induct)
  case (1 space str rp)
  show ?case
    using "1.prems" "1.IH" by (subst (asm) skip_spaces.simps)
      (cases "rd str (int rp)"; fastforce split: if_splits dest: rd_someD)
qed

lemma get_char_code_progress:
  assumes "rd str (int cp) = Some c" "isxdigit c" "get_char_code str cp 16 = Some (v, cp')"
  shows "cp < cp'"
proof -
  have "code_loop str 16 cp 0 0 = code_loop str 16 (cp + 1) 1 (digit_val 16 c)"
    using assms(1,2) by (subst code_loop.simps) (simp add: isxdigit_def code_len_def)
  with assms(3) obtain w where "code_loop str 16 (cp + 1) 1 (digit_val 16 c) = Some (w, cp')"
    by (auto simp: get_char_code_def split: bind_splits)
  from code_loop_mono [OF this] show ?thesis by simp
qed

function dehex_loop :: "(byte \<Rightarrow> bool) \<Rightarrow> byte list \<Rightarrow> nat \<Rightarrow> nat \<Rightarrow> (byte list \<times> int) option" where
  "dehex_loop space str rp wp =
     do { c \<leftarrow> rd str (int rp);
          if c = 0 then do { str \<leftarrow> wr str (int wp) 0; Some (str, int wp) }
          else do {
            rp \<leftarrow> skip_spaces space str rp;
            c \<leftarrow> rd str (int rp);
            if c = 0 then do { str \<leftarrow> wr str (int wp) 0; Some (str, int wp) }
            else if \<not> isxdigit c then Some (str, - 1)
            else do {
              (v, rp) \<leftarrow> get_char_code str rp 16;
              str \<leftarrow> wr str (int wp) v;
              dehex_loop space str rp (wp + 1) } } }"
  by pat_completeness auto
termination
  by (relation "measure (\<lambda>(space, str, rp, wp). length str - rp)")
    (auto dest!: skip_spaces_mono wr_length dest: get_char_code_progress)

definition dehex :: "(byte \<Rightarrow> bool) \<Rightarrow> byte list \<Rightarrow> (byte list \<times> int) option" where
  "dehex space str = dehex_loop space str 0 0"

section \<open>Printing a match\<close>

function is_text :: "(byte \<Rightarrow> bool) \<Rightarrow> byte list \<Rightarrow> int \<Rightarrow> int \<Rightarrow> bool option" where
  "is_text printable str cp slen =
     (if slen > 0 then
        do { c \<leftarrow> rd str cp;
             if printable c \<or> c = 0 \<or> c = 9 \<or> c = 10 \<or> c = 13 then is_text printable str (cp + 1) (slen - 1)
             else Some (slen = 0) }
      else Some (slen = 0))"
  by pat_completeness auto
termination by (relation "measure (\<lambda>(printable, str, cp, slen). nat slen)") auto

abbreviation (input) backslash :: char where
  "backslash \<equiv> CHR 0x5C"

abbreviation (input) newline :: char where
  "newline \<equiv> CHR 0x0A"

definition hex_digit :: "nat \<Rightarrow> char" where
  "hex_digit d = char_of (if d < 10 then 48 + d else 87 + d)"

text \<open>\<^verbatim>\<open>%02x\<close>.\<close>

definition hex2 :: "byte \<Rightarrow> string" where
  "hex2 c = [hex_digit (unat c div 16), hex_digit (unat c mod 16)]"

text \<open>What is printed for a byte in text mode; \<open>None\<close> where a line ends the output.\<close>

definition text_char :: "(byte \<Rightarrow> bool) \<Rightarrow> bool \<Rightarrow> byte \<Rightarrow> string option" where
  "text_char printable lf c =
     (if printable c then Some [char_of (unat c)]
      else if c = 0 then Some [backslash, CHR ''0'']
      else if c = 10 then (if lf then None else Some [backslash, CHR ''n''])
      else if c = 13 then (if lf then None else Some [backslash, CHR ''r''])
      else if c = 9 then Some [backslash, CHR ''t'']
      else Some ([backslash, CHR ''x''] @ hex2 c))"

function text_loop :: "(byte \<Rightarrow> bool) \<Rightarrow> bool \<Rightarrow> int \<Rightarrow> byte list \<Rightarrow> int \<Rightarrow> int \<Rightarrow> int \<Rightarrow> (string \<times> int) option" where
  "text_loop printable lf maxl str cp slen len =
     (if len < slen \<and> len < c_size maxl then
        do { c \<leftarrow> rd str cp;
             (case text_char printable lf c of
                None \<Rightarrow> Some ([], len)
              | Some s \<Rightarrow> do { (s', l) \<leftarrow> text_loop printable lf maxl str (cp + 1) slen (len + 1); Some (s @ s', l) }) }
      else Some ([], len))"
  by pat_completeness auto
termination by (relation "measure (\<lambda>(printable, lf, maxl, str, cp, slen, len). nat (slen - len))") auto

function hex_loop :: "int \<Rightarrow> byte list \<Rightarrow> int \<Rightarrow> int \<Rightarrow> int \<Rightarrow> (string \<times> int) option" where
  "hex_loop maxl str cp slen len =
     (if len < slen \<and> len < c_size maxl then
        do { c \<leftarrow> rd str cp;
             (s', l) \<leftarrow> hex_loop maxl str (cp + 1) slen (len + 1);
             Some (CHR '' '' # hex2 c @ s', l) }
      else Some ([], len))"
  by pat_completeness auto
termination by (relation "measure (\<lambda>(maxl, str, cp, slen, len). nat (slen - len))") auto

declare is_text.simps [simp del] text_loop.simps [simp del] hex_loop.simps [simp del]

text \<open>The text printed and the result.  \<open>str\<close> is \<open>None\<close> for \<^verbatim>\<open>NULL\<close>; \<open>slen\<close> is converted to \<^verbatim>\<open>int\<close> in the
  call of \<^verbatim>\<open>is_text\<close>.\<close>

definition print_output :: "(byte \<Rightarrow> bool) \<Rightarrow> bool \<Rightarrow> int \<Rightarrow> byte list option \<Rightarrow> int \<Rightarrow> int \<Rightarrow> (string \<times> int) option" where
  "print_output printable lf maxl str cp slen =
     (case str of
        None \<Rightarrow> Some (''NULL'', 0)
      | Some str \<Rightarrow>
          do { t \<leftarrow> is_text printable str cp (c_int slen);
               if t then do { (s, l) \<leftarrow> text_loop printable lf maxl str cp slen 0; Some (''TXT : '' @ s, l) }
               else do { (s, l) \<leftarrow> hex_loop maxl str cp slen 0; Some (''HEX :'' @ s, l) } })"

section \<open>Scanning a file\<close>

record pfopts =
  debug :: int
  verbose :: int
  ignore_case :: bool
  line_f :: int
  maxlen :: int
  nworkers :: int

record pfstate =
  n_matches :: int
  n_files :: int
  n_bytes :: int
  out :: string
  errs :: "string list"

function line_start :: "byte list \<Rightarrow> int \<Rightarrow> int option" where
  "line_start buf pos =
     (if pos > 0 then
        do { c \<leftarrow> rd buf (pos - 1);
             if \<not> (c = 10 \<or> c = 13) then line_start buf (pos - 1) else Some pos }
      else Some pos)"
  by pat_completeness auto
termination by (relation "measure (\<lambda>(buf, pos). nat pos)") auto

declare line_start.simps [simp del]

text \<open>\<^verbatim>\<open>matchfun\<close>: the count under \<^verbatim>\<open>matches_lock\<close>, then the line of output under \<^verbatim>\<open>print_lock\<close>.\<close>

definition matchfun :: "(byte \<Rightarrow> bool) \<Rightarrow> pfopts \<Rightarrow> string \<Rightarrow> pfstate mfun" where
  "matchfun printable opt pathname buf len pos st =
     do { let st = st\<lparr>n_matches := n_matches st + 1\<rparr>;
          pos \<leftarrow> (if line_f opt \<noteq> 0 then line_start buf pos else Some pos);
          (s, l) \<leftarrow> print_output printable (line_f opt \<noteq> 0) (maxlen opt) (Some buf) pos (len - pos);
          Some (0, st\<lparr>out := out st @ pathname @ '' : '' @ dec (nat pos) @ '' : '' @ s @ [newline]\<rparr>) }"

text \<open>The results of the system calls on a path: a value, or the text of the error.\<close>

datatype 'a sys = Ok 'a | Err string

record file_env =
  open_res :: "int sys"
  fstat_res :: "int sys"
  mmap_res :: "byte list sys"

definition scan_error :: "pfopts \<Rightarrow> string \<Rightarrow> string \<Rightarrow> string \<Rightarrow> pfstate \<Rightarrow> pfstate" where
  "scan_error opt pathname call e st =
     (if verbose opt \<noteq> 0
      then st\<lparr>errs := errs st @ [pathname @ '' : ERR : '' @ call @ ''() failed: '' @ e @ [newline]]\<rparr> else st)"

definition scan_file :: "(byte \<Rightarrow> byte) \<Rightarrow> (byte \<Rightarrow> bool) \<Rightarrow> pfopts \<Rightarrow> byte list option \<Rightarrow> BM \<Rightarrow> file_env \<Rightarrow> string
    \<Rightarrow> pfstate \<Rightarrow> (int \<times> pfstate) option" where
  "scan_file lower printable opt rstr bmb env pathname st =
     (case open_res env of
        Err e \<Rightarrow> Some (- 1, scan_error opt pathname ''open'' e st)
      | Ok fd \<Rightarrow>
        (case fstat_res env of
           Err e \<Rightarrow> Some (- 1, scan_error opt pathname ''fstat'' e st)
         | Ok len \<Rightarrow>
           (let st = (if debug opt > 1
                      then st\<lparr>errs := errs st @ [''*** Scanning file '' @ pathname @ '' ('' @ dec (nat (len div 1000000)) @ '' Mbytes)'' @ [newline]]\<rparr>
                      else st) in
            (case mmap_res env of
               Err e \<Rightarrow> Some (- 1, scan_error opt pathname ''mmap'' e st)
             | Ok buf \<Rightarrow>
               (case rstr of
                  Some r \<Rightarrow> do { (code, st) \<leftarrow> bm_search lower bmb buf len (Some (matchfun printable opt pathname)) st; Some (1, st) }
                | None \<Rightarrow>
                    do { (s, l) \<leftarrow> print_output printable (line_f opt \<noteq> 0) (maxlen opt) (Some buf) 0 len;
                         Some (1, st\<lparr>out := out st @ pathname @ '' : 0 : '' @ s @ [newline]\<rparr>) })))))"

section \<open>Visiting the paths\<close>

datatype ftw_flag = FTW_F | FTW_D | FTW_DNR | FTW_NS | FTW_OTHER

text \<open>The result, the path that is queued, and the state.\<close>

definition foreach_path :: "string \<Rightarrow> string \<Rightarrow> int \<Rightarrow> ftw_flag \<Rightarrow> pfstate \<Rightarrow> int \<times> string list \<times> pfstate" where
  "foreach_path argv0 path st_size f st =
     (let st = st\<lparr>n_files := n_files st + 1, n_bytes := c_size (n_bytes st + st_size)\<rparr>;
          complain = (\<lambda>msg. st\<lparr>errs := errs st @ [argv0 @ '': '' @ path @ '': '' @ msg @ [newline]]\<rparr>) in
      case f of
        FTW_F \<Rightarrow> (0, [path], st)
      | FTW_D \<Rightarrow> (0, [], st)
      | FTW_DNR \<Rightarrow> (1, [], complain ''Can't read directory.'')
      | FTW_NS \<Rightarrow> (1, [], complain ''Can't stat object.'')
      | FTW_OTHER \<Rightarrow> (1, [], complain ''Internal error (invalid ftw code)''))"

text \<open>\<^verbatim>\<open>ftw\<close> calls \<^verbatim>\<open>foreach_path\<close> for the entries of the tree until it returns a value other than 0,
  which is its own result; the entries are a parameter, and \<open>Err\<close> is its failure after them.\<close>

type_synonym walk = "(string \<times> int \<times> ftw_flag) list \<times> unit sys"

fun ftw_walk :: "string \<Rightarrow> (string \<times> int \<times> ftw_flag) list \<Rightarrow> pfstate \<Rightarrow> int \<times> string list \<times> pfstate" where
  "ftw_walk argv0 [] st = (0, [], st)"
| "ftw_walk argv0 ((p, z, f) # es) st =
     (let (c, q, st) = foreach_path argv0 p z f st in
      if c \<noteq> 0 then (c, q, st)
      else let (c, q', st) = ftw_walk argv0 es st in (c, q @ q', st))"

definition do_ftw :: "string \<Rightarrow> walk \<Rightarrow> pfstate \<Rightarrow> int \<times> string list \<times> pfstate" where
  "do_ftw argv0 w st =
     (let (c, q, st) = ftw_walk argv0 (fst w) st in
      if c \<noteq> 0 then (c, q, st)
      else case snd w of
             Ok _ \<Rightarrow> (0, q, st)
           | Err e \<Rightarrow> (1, q, st\<lparr>errs := errs st @ [argv0 @ '': ftw: '' @ e @ [newline]]\<rparr>))"

text \<open>The loop of \<^verbatim>\<open>main\<close> over the pathnames: the paths queued, in order.\<close>

fun visit_args :: "string \<Rightarrow> walk list \<Rightarrow> pfstate \<Rightarrow> string list \<times> pfstate" where
  "visit_args argv0 [] st = ([], st)"
| "visit_args argv0 (w # ws) st =
     (let (c, q, st) = do_ftw argv0 w st in
      if c = 0 then let (q', st) = visit_args argv0 ws st in (q @ q', st) else (q, st))"

section \<open>The command line\<close>

text \<open>What a pass over one argument leads to: the next argument, the end of the options with the
  index of the first other argument, or \<^verbatim>\<open>exit\<close>.\<close>

datatype opt_res = OptNext nat pfopts | OptEnd nat pfopts | OptExit int

text \<open>The value of \<open>-L\<close> and \<open>-n\<close>: the text from the third character of the argument on, or the next
  argument, which is \<^verbatim>\<open>NULL\<close> after the last one.\<close>

definition opt_arg :: "string list \<Rightarrow> nat \<Rightarrow> string option \<times> nat" where
  "opt_arg argv i =
     (if 2 < length (argv ! i) then (Some (drop 2 (argv ! i)), i)
      else (if i + 1 < length argv then Some (argv ! (i + 1)) else None, i + 1))"

definition opt_number :: "string list \<Rightarrow> nat \<Rightarrow> (int \<Rightarrow> pfopts) \<Rightarrow> opt_res" where
  "opt_number argv i upd =
     (let (arg, i) = opt_arg argv i in
      case arg of
        None \<Rightarrow> OptExit 1
      | Some a \<Rightarrow> (case scan_u a of None \<Rightarrow> OptExit 1 | Some v \<Rightarrow> OptNext i (upd v)))"

text \<open>The \<^verbatim>\<open>switch\<close> on an option letter: go on in the argument with the new options, or leave it.\<close>

definition opt_char :: "string list \<Rightarrow> nat \<Rightarrow> char \<Rightarrow> pfopts \<Rightarrow> pfopts + opt_res" where
  "opt_char argv i c opt =
     (if c = CHR ''-'' then Inr (OptEnd (i + 1) opt)
      else if c = CHR ''V'' then Inl opt
      else if c = CHR ''d'' then Inl (opt\<lparr>debug := debug opt + 1\<rparr>)
      else if c = CHR ''i'' then Inl (opt\<lparr>ignore_case := True\<rparr>)
      else if c = CHR ''v'' then Inl (opt\<lparr>verbose := verbose opt + 1\<rparr>)
      else if c = CHR ''h'' then Inr (OptExit 0)
      else if c = CHR ''l'' then Inl (opt\<lparr>line_f := line_f opt + 1\<rparr>)
      else if c = CHR ''L'' then Inr (opt_number argv i (\<lambda>v. opt\<lparr>maxlen := v\<rparr>))
      else if c = CHR ''n'' then Inr (opt_number argv i (\<lambda>v. opt\<lparr>nworkers := v\<rparr>))
      else Inr (OptExit 1))"

function opt_chars :: "string list \<Rightarrow> nat \<Rightarrow> nat \<Rightarrow> pfopts \<Rightarrow> opt_res" where
  "opt_chars argv i j opt =
     (if j < length (argv ! i) then
        (case opt_char argv i (argv ! i ! j) opt of
           Inl opt \<Rightarrow> opt_chars argv i (j + 1) opt
         | Inr r \<Rightarrow> r)
      else OptNext i opt)"
  by pat_completeness auto
termination by (relation "measure (\<lambda>(argv, i, j, opt). length (argv ! i) - j)") auto

declare opt_chars.simps [simp del]

lemma opt_number_next: "opt_number argv i f = OptNext i' opt' \<Longrightarrow> i \<le> i'"
  by (auto simp: opt_number_def opt_arg_def split: if_splits option.splits)

lemma opt_char_next: "opt_char argv i c opt = Inr (OptNext i' opt') \<Longrightarrow> i \<le> i'"
  unfolding opt_char_def by (auto split: if_split_asm dest: opt_number_next)

lemma opt_chars_next: "opt_chars argv i j opt = OptNext i' opt' \<Longrightarrow> i \<le> i'"
proof (induction argv i j opt rule: opt_chars.induct)
  case (1 argv i j opt)
  show ?case
    using "1.prems" "1.IH" by (subst (asm) opt_chars.simps)
      (auto split: if_splits sum.splits dest: opt_char_next)
qed

function parse_opts :: "string list \<Rightarrow> nat \<Rightarrow> pfopts \<Rightarrow> opt_res" where
  "parse_opts argv i opt =
     (if i < length argv \<and> take 1 (argv ! i) = ''-'' then
        (case opt_chars argv i 1 opt of
           OptNext i opt \<Rightarrow> parse_opts argv (i + 1) opt
         | r \<Rightarrow> r)
      else OptEnd i opt)"
  by pat_completeness auto
termination
  by (relation "measure (\<lambda>(argv, i, opt). length argv - i)") (auto dest: opt_chars_next)

declare parse_opts.simps [simp del] deslash_loop.simps [simp del] dehex_loop.simps [simp del]

definition default_opts :: pfopts where
  "default_opts = \<lparr>debug = 0, verbose = 0, ignore_case = False, line_f = 0, maxlen = 64, nworkers = 2\<rparr>"

definition c_string :: "string \<Rightarrow> byte list" where
  "c_string s = map (\<lambda>c. word_of_nat (of_char c)) s @ [0]"

text \<open>\<^verbatim>\<open>main\<close> up to the creation of the threads: \<^verbatim>\<open>exit\<close>, or the options, the search tables, the search
  string and the pathnames.  The table \<^verbatim>\<open>_tids\<close> has 32 entries; \<open>create j\<close> is the result of the call
  of \<^verbatim>\<open>pthread_create\<close> for the worker \<open>j\<close>.\<close>

datatype start = Exit int | Run pfopts BM "byte list" "string list"

definition create_workers :: "(int \<Rightarrow> int) \<Rightarrow> int \<Rightarrow> (int option \<times> bool list) option" where
  "create_workers create n =
     for_each (\<lambda>j (ex, tids).
       case ex of
         Some c \<Rightarrow> Some (Some c, tids)
       | None \<Rightarrow> do { tids \<leftarrow> wr tids j True; Some (if create j \<noteq> 0 then Some 1 else None, tids) })
     [0..n - 1] (None, replicate 32 False)"

definition pfscan_start :: "(byte \<Rightarrow> byte) \<Rightarrow> bool \<times> bool \<times> bool \<Rightarrow> BM \<Rightarrow> (int \<Rightarrow> int) \<Rightarrow> string list \<Rightarrow> start option" where
  "pfscan_start lower alloc bmb create argv =
     (case parse_opts argv 1 default_opts of
        OptExit c \<Rightarrow> Some (Exit c)
      | OptNext i opt \<Rightarrow> None
      | OptEnd i opt \<Rightarrow>
          if length argv \<le> i then Some (Exit 0)
          else do {
            (rstr, rlen) \<leftarrow> deslash (c_string (argv ! i));
            (r, bmb) \<leftarrow> bm_init lower alloc bmb rstr (int rlen) (ignore_case opt);
            if r < 0 then Some (Exit 1)
            else do {
              (ex, tids) \<leftarrow> create_workers create (nworkers opt);
              (case ex of
                 Some c \<Rightarrow> Some (Exit c)
               | None \<Rightarrow> Some (Run opt bmb (take rlen rstr) (drop (i + 1) argv))) } })"

section \<open>The escapes, without a buffer\<close>

text \<open>The value of up to \<open>n\<close> digits and the rest of the text.\<close>

fun digits :: "nat \<Rightarrow> nat \<Rightarrow> nat \<Rightarrow> byte list \<Rightarrow> nat \<times> byte list" where
  "digits base 0 v cs = (v, cs)"
| "digits base (Suc n) v [] = (v, [])"
| "digits base (Suc n) v (c # cs) =
     (if digit_of base c \<or> letter_of base c then digits base n (v * base + digit_val base c) cs else (v, c # cs))"

lemma digits_length: "digits base n v cs = (w, cs') \<Longrightarrow> length cs' \<le> length cs"
  by (induction base n v cs rule: digits.induct) (auto split: if_splits)

definition char_code :: "nat \<Rightarrow> byte list \<Rightarrow> byte \<times> byte list" where
  "char_code base cs = (let (v, r) = digits base (code_len base) 0 cs in (word_of_nat (v mod 256), r))"

fun escape :: "byte list \<Rightarrow> (byte \<times> byte list) option" where
  "escape [] = None"
| "escape (e # cs) =
     Some (if e = 110 then (10, cs)
           else if e = 114 then (13, cs)
           else if e = 116 then (9, cs)
           else if e = 98 then (8, cs)
           else if e = 120 then char_code 16 cs
           else if e = 48 then char_code 8 (e # cs)
           else if 49 \<le> unat e \<and> unat e \<le> 57 then char_code 10 (e # cs)
           else (e, cs))"

lemma char_code_length: "char_code base cs = (v, r) \<Longrightarrow> length r \<le> length cs"
  by (auto simp: char_code_def split: prod.splits dest: digits_length)

lemma escape_length: "escape cs = Some (v, r) \<Longrightarrow> length r \<le> length cs"
  by (cases cs) (auto split: if_splits dest: char_code_length)

text \<open>The text a search string stands for; \<open>None\<close> when it ends inside an escape.\<close>

function unslash :: "byte list \<Rightarrow> byte list option" where
  "unslash [] = Some []"
| "unslash (c # cs) =
     (if c \<noteq> 92 then do { r \<leftarrow> unslash cs; Some (c # r) }
      else do { (v, cs) \<leftarrow> escape cs; r \<leftarrow> unslash cs; Some (v # r) })"
  by pat_completeness auto
termination by (relation "measure length") (auto dest: escape_length)

lemma code_loop_digits:
  assumes "0 \<notin> set cs"
  shows "code_loop (pre @ cs @ 0 # zs) base (length pre) len v
    = Some (let (w, r) = digits base (code_len base - len) v cs in (w, length pre + (length cs - length r)))"
  using assms
proof (induction base "code_len base - len" v cs arbitrary: len pre rule: digits.induct)
  case (1 base v cs)
  then show ?case by (subst code_loop.simps) simp
next
  case (2 base n v)
  have "rd (pre @ [] @ 0 # zs) (int (length pre)) = Some 0" by (simp add: rd_def nth_append)
  moreover have "\<not> digit_of base 0" "\<not> letter_of base 0" by (simp_all add: digit_of_def letter_of_def toupper_def)
  ultimately show ?case using 2(1) by (subst code_loop.simps) (simp flip: 2(1))
next
  case (3 base n v c cs)
  have r: "rd (pre @ (c # cs) @ 0 # zs) (int (length pre)) = Some c" by (simp add: rd_def nth_append)
  have n: "len < code_len base" "n = code_len base - Suc len" using 3(2) by simp_all
  show ?case
  proof (cases "digit_of base c \<or> letter_of base c")
    case True
    have "code_loop (pre @ (c # cs) @ 0 # zs) base (length pre) len v
        = code_loop ((pre @ [c]) @ cs @ 0 # zs) base (length (pre @ [c])) (Suc len) (v * base + digit_val base c)"
      using r n True by (subst code_loop.simps) simp
    also have "\<dots> = Some (let (w, r) = digits base n (v * base + digit_val base c) cs in (w, length (pre @ [c]) + (length cs - length r)))"
      using 3(1) [OF True n(2), of "pre @ [c]"] 3(3) n by simp
    finally show ?thesis using True 3(2)
      by (simp flip: 3(2) add: Let_def split: prod.splits) (auto dest: digits_length)
  next
    case False
    then show ?thesis using r n by (subst code_loop.simps) (simp flip: 3(2))
  qed
qed

lemma digits_suffix: "\<exists>u. cs = u @ snd (digits base n v cs)"
proof (induction base n v cs rule: digits.induct)
  case (3 base n v c cs)
  show ?case
  proof (cases "digit_of base c \<or> letter_of base c")
    case True
    with 3 obtain u where "cs = u @ snd (digits base n (v * base + digit_val base c) cs)" by blast
    then have "c # cs = (c # u) @ snd (digits base (Suc n) v (c # cs))" using True by simp
    then show ?thesis by blast
  qed simp
qed simp_all

lemma char_code_suffix: "char_code base cs = (v, r) \<Longrightarrow> \<exists>u. cs = u @ r"
  using digits_suffix [of cs base "code_len base" 0] by (auto simp: char_code_def split: prod.splits)

lemma escape_suffix: "escape cs = Some (v, r) \<Longrightarrow> \<exists>u. cs = u @ r"
proof (cases cs)
  case (Cons e cs')
  assume "escape cs = Some (v, r)"
  moreover have "\<exists>u. e # cs' = u @ r" if "\<exists>u. cs' = u @ r" using that by (metis append_Cons)
  moreover have "\<exists>u. e # cs' = u @ cs'" by (metis append_Cons append_Nil)
  ultimately show ?thesis by (auto simp: Cons split: if_splits dest: char_code_suffix)
qed simp

lemma get_char_code_list:
  "0 \<notin> set cs \<Longrightarrow> get_char_code (pre @ cs @ 0 # zs) (length pre) base
    = Some (let (v, r) = char_code base cs in (v, length pre + (length cs - length r)))"
  by (simp add: get_char_code_def code_loop_digits char_code_def Let_def split: prod.splits)

lemma escape_char_list:
  assumes "0 \<notin> set cs" "escape cs = Some (v, r)"
  shows "escape_char (pre @ cs @ 0 # zs) (length pre) = Some (v, length pre + (length cs - length r))"
proof -
  from assms(2) obtain e cs' where cs: "cs = e # cs'" by (cases cs) auto
  have rd: "rd (pre @ cs @ 0 # zs) (int (length pre)) = Some e" by (simp add: rd_def nth_append cs)
  have g: "get_char_code (pre @ cs @ 0 # zs) (Suc (length pre)) 16
      = Some (let (v, r) = char_code 16 cs' in (v, Suc (length pre) + (length cs' - length r)))"
    using get_char_code_list [of cs' "pre @ [e]" zs 16] assms(1) by (simp add: cs)
  have le: "char_code 16 cs' = (v, r) \<Longrightarrow> length r \<le> length cs'" by (rule char_code_length)
  consider "e = 120" | "e = 48" | "e \<noteq> 120" "49 \<le> unat e \<and> unat e \<le> 57" | "e \<in> {110, 114, 116, 98}"
    | "e \<notin> {110, 114, 116, 98, 120, 48}" "\<not> (49 \<le> unat e \<and> unat e \<le> 57)" by auto
  then show ?thesis
  proof cases
    case 1
    then show ?thesis using assms(2) rd g le by (simp add: escape_char_def cs Suc_diff_le)
  next
    case 2
    then show ?thesis using assms(2) rd get_char_code_list [OF assms(1), of pre zs 8] by (simp add: escape_char_def cs)
  next
    case 3
    then have "e \<notin> {110, 114, 116, 98, 120, 48}" by auto
    then show ?thesis using 3 assms(2) rd get_char_code_list [OF assms(1), of pre zs 10] by (simp add: escape_char_def cs)
  next
    case 4
    then show ?thesis using assms(2) rd by (auto simp: escape_char_def cs)
  next
    case 5
    then show ?thesis using assms(2) rd by (auto simp: escape_char_def cs)
  qed
qed

lemma rd_mid: "rd (pre @ c # post) (int (length pre)) = Some c"
  by (simp add: rd_def nth_append)

text \<open>One iteration: \<open>ws\<close> has been written, \<open>ms\<close> is the gap up to \<open>rp\<close>, and \<open>u\<close> is consumed.\<close>

lemma wr_gap: "ms \<noteq> [] \<Longrightarrow> wr (ws @ ms @ rest) (int (length ws)) v = Some ((ws @ [v]) @ tl ms @ rest)"
  by (cases ms) (simp_all add: wr_def)

lemma deslash_step_list:
  assumes "0 \<notin> set (u @ r)" "u \<noteq> []"
    and "u @ r = 92 # cs \<and> escape cs = Some (v, r) \<or> u = [v] \<and> v \<noteq> 92"
  shows "\<exists>ms'. deslash_step (ws @ ms @ u @ r @ 0 # zs) (length ws + length ms) (length ws)
    = Some ((ws @ [v]) @ ms' @ r @ 0 # zs, length (ws @ [v]) + length ms', length (ws @ [v]))"
proof -
  let ?buf = "ws @ ms @ u @ r @ 0 # zs"
  obtain c u' where u: "u = c # u'" using assms(2) by (cases u) auto
  have rd: "rd ?buf (int (length ws + length ms)) = Some c"
    using rd_mid [of "ws @ ms" c "u' @ r @ 0 # zs"] by (simp add: u)
  have wr: "wr ?buf (int (length ws)) v = Some ((ws @ [v]) @ tl (ms @ u) @ r @ 0 # zs)"
    using wr_gap [of "ms @ u" ws "r @ 0 # zs" v] assms(2) by simp
  have len: "length ws + length ms + length u = length (ws @ [v]) + length (tl (ms @ u))" by (simp add: u)
  from assms(3) show ?thesis
  proof
    assume e: "u @ r = 92 # cs \<and> escape cs = Some (v, r)"
    then have c: "c = 92" and cs: "u' @ r = cs" using u by auto
    have "escape_char ((ws @ ms @ [92]) @ cs @ 0 # zs) (length (ws @ ms @ [92]))
        = Some (v, length (ws @ ms @ [92]) + (length cs - length r))"
      using assms(1) u cs e by (intro escape_char_list) auto
    moreover have "length (ws @ ms @ [92]) + (length cs - length r) = length ws + length ms + length u"
      using cs u by auto
    ultimately have "escape_char ?buf (Suc (length ws + length ms)) = Some (v, length ws + length ms + length u)"
      unfolding u c cs [symmetric] by simp
    then show ?thesis using rd wr c len by (intro exI [of _ "tl (ms @ u)"]) (simp add: deslash_step_def)
  next
    assume "u = [v] \<and> v \<noteq> 92"
    then show ?thesis using rd wr u len by (intro exI [of _ "tl (ms @ u)"]) (simp add: deslash_step_def)
  qed
qed

lemma deslash_loop_at:
  "rd (ws @ ms @ c # cs) (int (length ws + length ms)) = Some c"
  using rd_mid [of "ws @ ms" c cs] by simp

lemma deslash_loop_step:
  "rd str (int rp) = Some c \<Longrightarrow> c \<noteq> 0 \<Longrightarrow> deslash_step str rp wp = Some (str', rp', wp') \<Longrightarrow>
    deslash_loop str rp wp = deslash_loop str' rp' wp'"
  by (subst deslash_loop.simps) simp

lemma escape_none: "escape cs = None \<longleftrightarrow> cs = []"
  by (cases cs) auto

text \<open>The iteration a text starts with, and what remains of it.\<close>

lemma deslash_iteration:
  assumes "cs \<noteq> []" "cs \<noteq> [92]" "0 \<notin> set cs"
  obtains v r ms' where "unslash cs = map_option ((#) v) (unslash r)" "length r < length cs" "0 \<notin> set r"
    "deslash_loop (ws @ ms @ cs @ 0 # zs) (length ws + length ms) (length ws)
      = deslash_loop ((ws @ [v]) @ ms' @ r @ 0 # zs) (length (ws @ [v]) + length ms') (length (ws @ [v]))"
proof -
  obtain c es where cs: "cs = c # es" using assms(1) by (cases cs) auto
  have "\<exists>u v r. cs = u @ r \<and> u \<noteq> [] \<and> unslash cs = map_option ((#) v) (unslash r)
      \<and> ((\<exists>es. u @ r = 92 # es \<and> escape es = Some (v, r)) \<or> u = [v] \<and> v \<noteq> 92)"
  proof (cases "c = 92")
    case True
    with assms cs obtain v r where e: "escape es = Some (v, r)" by (cases "escape es") (auto simp: escape_none)
    then obtain u where "es = u @ r" using escape_suffix by blast
    with e True have "cs = (92 # u) @ r \<and> unslash cs = map_option ((#) v) (unslash r)"
      by (simp add: cs) (cases "unslash r"; simp)
    with e cs True show ?thesis by (metis list.distinct(1))
  next
    case False
    then have "unslash cs = map_option ((#) c) (unslash es)" by (simp add: cs) (cases "unslash es"; simp)
    with False cs show ?thesis by (intro exI [of _ "[c]"] exI [of _ c] exI [of _ es]) simp
  qed
  then obtain u v r where u: "cs = u @ r" "u \<noteq> []" "unslash cs = map_option ((#) v) (unslash r)"
    and first: "(\<exists>es. u @ r = 92 # es \<and> escape es = Some (v, r)) \<or> u = [v] \<and> v \<noteq> 92" by blast
  from first assms(3) u(1,2) obtain ms' where
    step: "deslash_step (ws @ ms @ cs @ 0 # zs) (length ws + length ms) (length ws)
      = Some ((ws @ [v]) @ ms' @ r @ 0 # zs, length (ws @ [v]) + length ms', length (ws @ [v]))"
    using deslash_step_list [of u r _ v ws ms zs] by auto
  have "rd (ws @ ms @ cs @ 0 # zs) (int (length ws + length ms)) = Some c"
    using deslash_loop_at [of ws ms c "es @ 0 # zs"] by (simp add: cs)
  moreover have "c \<noteq> 0" using assms(3) cs by auto
  moreover have "length r < length cs" "0 \<notin> set r" using assms(3) u(2) unfolding u(1) by auto
  ultimately show thesis using deslash_loop_step [OF _ _ step] that [OF u(3)] by blast
qed

lemma deslash_loop_list:
  assumes "unslash cs = Some r" "0 \<notin> set cs"
  shows "\<exists>ys. deslash_loop (ws @ ms @ cs @ 0 # zs) (length ws + length ms) (length ws)
    = Some (ws @ r @ 0 # ys, length ws + length r)"
  using assms
proof (induction "length cs" arbitrary: cs r ws ms rule: less_induct)
  case less
  show ?case
  proof (cases "cs = []")
    case True
    then have "wr (ws @ ms @ cs @ 0 # zs) (int (length ws)) 0 = Some (ws @ 0 # tl (ms @ [0]) @ zs)"
      using wr_gap [of "ms @ [0]" ws zs 0] by simp
    then show ?thesis using True less.prems deslash_loop_at [of ws ms 0 zs]
      by (subst deslash_loop.simps) simp
  next
    case False
    moreover have "cs \<noteq> [92]" using less.prems(1) by auto
    ultimately obtain v r' ms' where
      u: "unslash cs = map_option ((#) v) (unslash r')" "length r' < length cs" "0 \<notin> set r'"
        "deslash_loop (ws @ ms @ cs @ 0 # zs) (length ws + length ms) (length ws)
          = deslash_loop ((ws @ [v]) @ ms' @ r' @ 0 # zs) (length (ws @ [v]) + length ms') (length (ws @ [v]))"
      using deslash_iteration [OF _ _ less.prems(2)] by metis
    then obtain s where s: "unslash r' = Some s" "r = v # s" using less.prems(1) by (cases "unslash r'") auto
    from less.hyps [OF u(2) s(1) u(3), of "ws @ [v]" ms'] u(4) s(2) show ?thesis by auto
  qed
qed

lemma deslash_loop_runs_off:
  assumes "unslash cs = None" "0 \<notin> set cs"
  shows "deslash_loop (ws @ ms @ cs @ [0]) (length ws + length ms) (length ws) = None"
  using assms
proof (induction "length cs" arbitrary: cs ws ms rule: less_induct)
  case less
  then have ne: "cs \<noteq> []" by auto
  show ?case
  proof (cases "cs = [92]")
    case True
    let ?buf = "ws @ ms @ cs @ [0]" and ?rp = "length ws + length ms"
    have r: "rd ?buf (int ?rp) = Some 92"
      using deslash_loop_at [of ws ms 92 "[0]"] True by simp
    have z: "rd ?buf (int (?rp + 1)) = Some 0"
      using deslash_loop_at [of ws "ms @ [92]" 0 "[]"] True by (simp add: add.commute add.left_commute)
    have w: "wr ?buf (int (length ws)) 0 = Some ((ws @ [0]) @ tl (ms @ [92]) @ [0])"
      using wr_gap [of "ms @ [92]" ws "[0]" 0] True by simp
    have "escape_char ?buf (?rp + 1) = Some (0, ?rp + 2)" unfolding escape_char_def z by simp
    then have "deslash_step ?buf ?rp (length ws) = Some ((ws @ [0]) @ tl (ms @ [92]) @ [0], ?rp + 2, length ws + 1)"
      unfolding deslash_step_def r using w by simp
    with r have "deslash_loop ?buf ?rp (length ws) = deslash_loop ((ws @ [0]) @ tl (ms @ [92]) @ [0]) (?rp + 2) (length ws + 1)"
      by (intro deslash_loop_step) auto
    also have "\<dots> = None" by (subst deslash_loop.simps) (simp add: rd_def)
    finally show ?thesis .
  next
    case False
    with ne obtain v r' ms' where
      u: "unslash cs = map_option ((#) v) (unslash r')" "length r' < length cs" "0 \<notin> set r'"
        "deslash_loop (ws @ ms @ cs @ [0]) (length ws + length ms) (length ws)
          = deslash_loop ((ws @ [v]) @ ms' @ r' @ [0]) (length (ws @ [v]) + length ms') (length (ws @ [v]))"
      using deslash_iteration [OF _ _ less.prems(2), of ws ms "[]"] by metis
    then have "unslash r' = None" using less.prems(1) by simp
    from less.hyps [OF u(2) this u(3), of "ws @ [v]" ms'] u(4) show ?thesis by simp
  qed
qed

text \<open>Every byte written as \<open>\x\<close> and two hexadecimal digits.\<close>

definition hex_byte :: "nat \<Rightarrow> byte" where
  "hex_byte d = word_of_nat (if d < 10 then 48 + d else 87 + d)"

definition slash_x :: "byte list \<Rightarrow> byte list" where
  "slash_x p = concat (map (\<lambda>b. [92, 120, hex_byte (unat b div 16), hex_byte (unat b mod 16)]) p)"

lemma hex_byte_digit:
  assumes "d < 16"
  shows "digit_of 16 (hex_byte d) \<or> letter_of 16 (hex_byte d)" "digit_val 16 (hex_byte d) = d" "hex_byte d \<noteq> 0"
proof -
  have u: "unat (hex_byte d) = (if d < 10 then 48 + d else 87 + d)"
    using assms by (simp add: hex_byte_def unsigned_of_nat take_bit_eq_mod)
  then show "digit_of 16 (hex_byte d) \<or> letter_of 16 (hex_byte d)" "digit_val 16 (hex_byte d) = d"
    using assms by (auto simp: digit_of_def letter_of_def digit_val_def toupper_def)
  show "hex_byte d \<noteq> 0"
  proof
    assume "hex_byte d = 0"
    then have "unat (hex_byte d) = 0" by simp
    then show False using u by (simp split: if_splits)
  qed
qed

lemma escape_slash_x: "escape (120 # hex_byte (unat b div 16) # hex_byte (unat b mod 16) # cs) = Some (b, cs)"
proof -
  have "unat b div 16 < 16" using uint_byte(2) [of b] by (simp add: less_mult_imp_div_less)
  moreover have "(unat b div 16) * 16 + unat b mod 16 = unat b" by simp
  moreover have "unat b mod 256 = unat b" by simp
  ultimately have "char_code 16 (hex_byte (unat b div 16) # hex_byte (unat b mod 16) # cs) = (b, cs)"
    using hex_byte_digit [of "unat b div 16"] hex_byte_digit [of "unat b mod 16"]
    by (simp add: char_code_def code_len_def numeral_2_eq_2)
  then show ?thesis by simp
qed

lemma unslash_slash_x: "unslash (slash_x p) = Some p" "0 \<notin> set (slash_x p)"
proof -
  show "unslash (slash_x p) = Some p"
    by (induction p) (simp_all add: slash_x_def escape_slash_x del: escape.simps)
  have "unat b div 16 < 16" for b :: byte using uint_byte(2) [of b] by (simp add: less_mult_imp_div_less)
  then show "0 \<notin> set (slash_x p)"
    using hex_byte_digit(3) by (auto simp: slash_x_def)
qed

section \<open>Properties of the escapes\<close>

text \<open>
  C29. \<^verbatim>\<open>deslash\<close> rewrites the search string in its own buffer, reading ahead of what it writes, and
  the outcome is that of decoding the escapes into fresh memory: for a string without a NUL
  that does not end inside an escape, no access leaves the buffer, the result is the length
  of the decoded text, and the buffer starts with that text and a terminator.
\<close>

theorem deslash_decodes:
  assumes "unslash cs = Some r" "0 \<notin> set cs"
  shows "\<exists>ys. deslash (cs @ 0 # zs) = Some (r @ 0 # ys, length r)"
  using deslash_loop_list [OF assms, of "[]" "[]" zs] by (simp add: deslash_def)

theorem deslash_decodes_witness:
  "\<exists>ys. deslash ([97, 92, 110, 92, 120, 52, 49] @ 0 # []) = Some ([97, 10, 65] @ 0 # ys, 3)"
proof -
  have "unslash [97, 92, 110, 92, 120, 52, 49] = Some [97, 10, 65]"
    by code_simp
  from deslash_decodes [OF this, of "[]"] show ?thesis by (simp add: numeral_3_eq_3)
qed

text \<open>
  C30. Every byte sequence can be given as a search string: writing each byte as \<open>\x\<close> and two
  hexadecimal digits, \<^verbatim>\<open>deslash\<close> gives back exactly these bytes, those with the value 0 included.
\<close>

theorem deslash_roundtrip: "\<exists>ys. deslash (slash_x p @ [0]) = Some (p @ 0 # ys, length p)"
  using deslash_loop_list [OF unslash_slash_x(1) [of p] unslash_slash_x(2) [of p], of "[]" "[]" "[]"]
  by (simp add: deslash_def)

text \<open>
  A search string that ends in a backslash (or in any unfinished escape): \<^verbatim>\<open>deslash\<close> steps over the
  terminator and reads behind the end of the string.
\<close>

theorem deslash_runs_off:
  assumes "unslash cs = None" "0 \<notin> set cs"
  shows "deslash (cs @ [0]) = None"
  using deslash_loop_runs_off [OF assms, of "[]" "[]"] by (simp add: deslash_def)

theorem deslash_runs_off_witness: "deslash ([97, 92] @ [0]) = None"
  using deslash_runs_off [of "[97, 92]"] by simp

section \<open>What is printed\<close>

definition texty :: "(byte \<Rightarrow> bool) \<Rightarrow> byte \<Rightarrow> bool" where
  "texty printable c \<longleftrightarrow> printable c \<or> c = 0 \<or> c = 9 \<or> c = 10 \<or> c = 13"

lemma is_text_total:
  assumes "0 \<le> cp" "slen < 0 \<or> cp + slen \<le> int (length str)"
  shows "is_text printable str cp slen
    = Some (0 \<le> slen \<and> (\<forall>k. 0 \<le> k \<and> k < slen \<longrightarrow> texty printable (at str (cp + k))))"
  using assms
proof (induction "nat slen" arbitrary: cp slen)
  case 0
  then show ?case by (subst is_text.simps) auto
next
  case (Suc n)
  then have pos: "0 < slen" by linarith
  show ?case
  proof (cases "texty printable (at str cp)")
    case True
    have "is_text printable str cp slen = is_text printable str (cp + 1) (slen - 1)"
      using Suc.prems pos True by (subst is_text.simps) (simp add: texty_def)
    also have "\<dots> = Some (0 \<le> slen - 1 \<and> (\<forall>k. 0 \<le> k \<and> k < slen - 1 \<longrightarrow> texty printable (at str (cp + 1 + k))))"
      using Suc.hyps(1) [of "slen - 1" "cp + 1"] Suc.hyps(2) Suc.prems pos by simp
    also have "(\<forall>k. 0 \<le> k \<and> k < slen - 1 \<longrightarrow> texty printable (at str (cp + 1 + k)))
        \<longleftrightarrow> (\<forall>k. 0 \<le> k \<and> k < slen \<longrightarrow> texty printable (at str (cp + k)))"
    proof (intro iffI allI impI)
      fix k assume *: "\<forall>k. 0 \<le> k \<and> k < slen - 1 \<longrightarrow> texty printable (at str (cp + 1 + k))" and k: "0 \<le> k \<and> k < slen"
      show "texty printable (at str (cp + k))"
        using * [rule_format, of "k - 1"] k True by (cases "k = 0") auto
    next
      fix k assume *: "\<forall>k. 0 \<le> k \<and> k < slen \<longrightarrow> texty printable (at str (cp + k))" and k: "0 \<le> k \<and> k < slen - 1"
      show "texty printable (at str (cp + 1 + k))"
        using * [rule_format, of "k + 1"] k by (simp add: add.commute add.left_commute)
    qed
    finally show ?thesis using pos by simp
  next
    case False
    then have "is_text printable str cp slen = Some False"
      using Suc.prems pos by (subst is_text.simps) (simp add: texty_def)
    then show ?thesis using False pos by auto
  qed
qed

text \<open>A character of the output, as a byte, is printable.\<close>

definition shows_ok :: "(byte \<Rightarrow> bool) \<Rightarrow> string \<Rightarrow> bool" where
  "shows_ok printable s \<longleftrightarrow> (\<forall>c \<in> set s. printable (word_of_nat (of_char c)))"

definition ascii_ok :: "(byte \<Rightarrow> bool) \<Rightarrow> bool" where
  "ascii_ok printable \<longleftrightarrow> (\<forall>n \<in> {32..126::nat}. printable (word_of_nat n))"

lemma shows_ok_simps [simp]:
  "shows_ok printable []" "shows_ok printable (s @ t) \<longleftrightarrow> shows_ok printable s \<and> shows_ok printable t"
  "shows_ok printable (c # s) \<longleftrightarrow> printable (word_of_nat (of_char c)) \<and> shows_ok printable s"
  by (auto simp: shows_ok_def)

lemma ascii_char: "ascii_ok printable \<Longrightarrow> 32 \<le> (of_char c :: nat) \<Longrightarrow> (of_char c :: nat) \<le> 126 \<Longrightarrow> printable (word_of_nat (of_char c))"
  by (simp add: ascii_ok_def)

lemma hex2_ok: "ascii_ok printable \<Longrightarrow> shows_ok printable (hex2 c)"
proof -
  assume a: "ascii_ok printable"
  have "printable (word_of_nat (of_char (hex_digit d)))" if "d < 16" for d
    using that a by (intro ascii_char [OF a]) (auto simp: hex_digit_def of_char_of)
  moreover have "unat c div 16 < 16" using uint_byte(2) [of c] by (simp add: less_mult_imp_div_less)
  ultimately show ?thesis by (simp add: hex2_def)
qed

lemma text_char_ok:
  assumes "ascii_ok printable" "text_char printable lf c = Some s"
  shows "shows_ok printable s"
proof (cases "printable c")
  case True
  then have "s = [char_of (unat c)]" using assms(2) by (simp add: text_char_def)
  moreover have "(of_char (char_of (unat c) :: char) :: nat) = unat c" by (simp add: of_char_of)
  ultimately show ?thesis using True by simp
next
  case False
  have p: "printable (word_of_nat n)" if "32 \<le> n" "n \<le> 126" for n :: nat
    using assms(1) that by (simp add: ascii_ok_def)
  have "shows_ok printable [CHR 0x5C, CHR ''0'']" "shows_ok printable [CHR 0x5C, CHR ''n'']"
    "shows_ok printable [CHR 0x5C, CHR ''r'']" "shows_ok printable [CHR 0x5C, CHR ''t'']"
    "shows_ok printable ([CHR 0x5C, CHR ''x''] @ hex2 c)"
    using p [of 92] p [of 48] p [of 110] p [of 114] p [of 116] p [of 120] hex2_ok [OF assms(1), of c] by simp_all
  moreover have "s \<in> {[CHR 0x5C, CHR ''0''], [CHR 0x5C, CHR ''n''], [CHR 0x5C, CHR ''r''], [CHR 0x5C, CHR ''t''],
      [CHR 0x5C, CHR ''x''] @ hex2 c}"
    using assms(2) False unfolding text_char_def by (simp split: if_split_asm)
  ultimately show ?thesis by blast
qed

lemma text_loop_total:
  assumes "0 \<le> cp" "cp + (slen - len) \<le> int (length str)" "0 \<le> len" "len \<le> slen"
  shows "\<exists>s l. text_loop printable lf maxl str cp slen len = Some (s, l) \<and> len \<le> l \<and> l \<le> slen
    \<and> (l = len \<or> l \<le> c_size maxl) \<and> (ascii_ok printable \<longrightarrow> shows_ok printable s)"
  using assms
proof (induction "nat (slen - len)" arbitrary: cp len)
  case 0
  then show ?case by (subst text_loop.simps) simp
next
  case (Suc n)
  then have less: "len < slen" by linarith
  show ?case
  proof (cases "len < c_size maxl")
    case False
    then show ?thesis using Suc.prems by (subst text_loop.simps) simp
  next
    case True
    have rd: "rd str cp = Some (at str cp)" using Suc.prems less by simp
    show ?thesis
    proof (cases "text_char printable lf (at str cp)")
      case None
      then show ?thesis using Suc.prems True less rd by (subst text_loop.simps) simp
    next
      case (Some s)
      have "n = nat (slen - (len + 1))" using Suc.hyps(2) by linarith
      from Suc.hyps(1) [OF this, of "cp + 1"] Suc.prems less obtain s' l where
        IH: "text_loop printable lf maxl str (cp + 1) slen (len + 1) = Some (s', l)" "len + 1 \<le> l" "l \<le> slen"
          "l = len + 1 \<or> l \<le> c_size maxl" "ascii_ok printable \<longrightarrow> shows_ok printable s'" by auto
      have "text_loop printable lf maxl str cp slen len = Some (s @ s', l)"
        using True less rd Some IH(1) by (subst text_loop.simps) simp
      then show ?thesis using IH True text_char_ok [OF _ Some] by auto
    qed
  qed
qed

lemma hex_loop_total:
  assumes "0 \<le> cp" "cp + (slen - len) \<le> int (length str)" "0 \<le> len" "len \<le> slen"
  shows "\<exists>s l. hex_loop maxl str cp slen len = Some (s, l) \<and> len \<le> l \<and> l \<le> slen
    \<and> (l = len \<or> l \<le> c_size maxl) \<and> (ascii_ok printable \<longrightarrow> shows_ok printable s)"
  using assms
proof (induction "nat (slen - len)" arbitrary: cp len)
  case 0
  then show ?case by (subst hex_loop.simps) simp
next
  case (Suc n)
  then have less: "len < slen" by linarith
  show ?case
  proof (cases "len < c_size maxl")
    case False
    then show ?thesis using Suc.prems by (subst hex_loop.simps) simp
  next
    case True
    have rd: "rd str cp = Some (at str cp)" using Suc.prems less by simp
    have "n = nat (slen - (len + 1))" using Suc.hyps(2) by linarith
    from Suc.hyps(1) [OF this, of "cp + 1"] Suc.prems less obtain s' l where
      IH: "hex_loop maxl str (cp + 1) slen (len + 1) = Some (s', l)" "len + 1 \<le> l" "l \<le> slen"
        "l = len + 1 \<or> l \<le> c_size maxl" "ascii_ok printable \<longrightarrow> shows_ok printable s'" by auto
    have "hex_loop maxl str cp slen len = Some (CHR '' '' # hex2 (at str cp) @ s', l)"
      using True less rd IH(1) by (subst hex_loop.simps) simp
    moreover have "ascii_ok printable \<Longrightarrow> shows_ok printable (CHR '' '' # hex2 (at str cp) @ s')"
      using IH(5) hex2_ok [of printable "at str cp"] ascii_char [of printable "CHR '' ''"] by auto
    ultimately show ?thesis using IH True by (intro exI [of _ "CHR '' '' # hex2 (at str cp) @ s'"] exI [of _ l]) auto
  qed
qed

lemma c_int_le: "0 \<le> v \<Longrightarrow> c_int v \<le> v"
  unfolding c_int_def by (simp add: zmod_le_nonneg_dividend diff_le_eq)

lemma print_output_total:
  assumes "0 \<le> cp" "0 \<le> slen" "cp + slen \<le> int (length str)"
  shows "\<exists>s l. print_output printable lf maxl (Some str) cp slen = Some (s, l) \<and> 0 \<le> l \<and> l \<le> slen
    \<and> l \<le> c_size maxl \<and> (ascii_ok printable \<longrightarrow> shows_ok printable s)"
proof -
  have "is_text printable str cp (c_int slen)
      = Some (0 \<le> c_int slen \<and> (\<forall>k. 0 \<le> k \<and> k < c_int slen \<longrightarrow> texty printable (at str (cp + k))))"
    using assms c_int_le [of slen] by (intro is_text_total) auto
  moreover obtain s l where t: "text_loop printable lf maxl str cp slen 0 = Some (s, l)" "0 \<le> l" "l \<le> slen"
    "l = 0 \<or> l \<le> c_size maxl" "ascii_ok printable \<longrightarrow> shows_ok printable s"
    using text_loop_total [of cp slen 0 str printable lf maxl] assms by auto
  moreover obtain s' l' where h: "hex_loop maxl str cp slen 0 = Some (s', l')" "0 \<le> l'" "l' \<le> slen"
    "l' = 0 \<or> l' \<le> c_size maxl" "ascii_ok printable \<longrightarrow> shows_ok printable s'"
    using hex_loop_total [of cp slen 0 str maxl printable] assms by auto
  moreover have "0 \<le> c_size maxl" by (simp add: c_size_def)
  moreover have "shows_ok printable ''TXT : ''" "shows_ok printable ''HEX :''" if "ascii_ok printable"
  proof -
    have p: "printable (word_of_nat n)" if "32 \<le> n" "n \<le> 126" for n :: nat
      using \<open>ascii_ok printable\<close> that by (simp add: ascii_ok_def)
    show "shows_ok printable ''TXT : ''" "shows_ok printable ''HEX :''"
      using p [of 84] p [of 88] p [of 32] p [of 58] p [of 72] p [of 69] by simp_all
  qed
  ultimately show ?thesis by (auto simp: print_output_def)
qed

text \<open>
  C31. Printing a match stays inside the mapped file, prints at most \<^verbatim>\<open>maxlen\<close> bytes of it and never
  more than there are, and sends nothing to the terminal but printable characters, whatever
  the file contains, in a locale where the ASCII graphics and the space are printable.
\<close>

theorem print_output_bounds:
  assumes "0 \<le> cp" "0 \<le> slen" "cp + slen \<le> int (length str)" "ascii_ok printable" "0 \<le> maxl" "maxl < 2 ^ 31"
  shows "\<exists>s l. print_output printable lf maxl (Some str) cp slen = Some (s, l) \<and> 0 \<le> l \<and> l \<le> slen \<and> l \<le> maxl
    \<and> shows_ok printable s"
proof -
  have "c_size maxl = maxl" using assms(5,6) by (intro c_size_id) auto
  then show ?thesis using print_output_total [OF assms(1-3), of printable lf maxl] assms(4) by auto
qed

definition ascii_printable :: "byte \<Rightarrow> bool" where
  "ascii_printable c \<longleftrightarrow> 32 \<le> unat c \<and> unat c \<le> 126"

lemma ascii_printable_ok: "ascii_ok ascii_printable"
  by (auto simp: ascii_ok_def ascii_printable_def unsigned_of_nat take_bit_eq_mod)

theorem print_output_bounds_witness:
  "\<exists>s l. print_output ascii_printable False 2 (Some [97, 7, 98, 99]) 0 3 = Some (s, l) \<and> 0 \<le> l \<and> l \<le> 3 \<and> l \<le> 2
    \<and> shows_ok ascii_printable s"
  by (rule print_output_bounds) (simp_all add: ascii_printable_ok)

section \<open>What the scan of a file reports\<close>

lemma line_start_total:
  "0 \<le> pos \<Longrightarrow> pos \<le> int (length buf) \<Longrightarrow> \<exists>p. line_start buf pos = Some p \<and> 0 \<le> p \<and> p \<le> pos"
proof (induction "nat pos" arbitrary: pos)
  case 0
  then show ?case by (subst line_start.simps) simp
next
  case (Suc n)
  then have pos: "0 < pos" by linarith
  have "n = nat (pos - 1)" using Suc.hyps(2) by simp
  from Suc.hyps(1) [OF this] Suc.prems pos show ?case by (subst line_start.simps) fastforce
qed

lemma matchfun_total:
  assumes "0 \<le> pos" "pos \<le> len" "len \<le> int (length buf)"
  shows "\<exists>line. (\<forall>st. matchfun printable opt path buf len pos st
      = Some (0, st\<lparr>n_matches := n_matches st + 1, out := out st @ line\<rparr>))
    \<and> (line_f opt = 0 \<longrightarrow> (\<exists>s. line = path @ '' : '' @ dec (nat pos) @ '' : '' @ s @ [newline]))"
proof -
  obtain p where p: "(if line_f opt \<noteq> 0 then line_start buf pos else Some pos) = Some p" "0 \<le> p" "p \<le> pos"
    "line_f opt = 0 \<longrightarrow> p = pos"
    using line_start_total [of pos buf] assms by (cases "line_f opt = 0") auto
  with print_output_total [of p "len - p" buf printable "line_f opt \<noteq> 0" "maxlen opt"] assms
  obtain s l where "print_output printable (line_f opt \<noteq> 0) (maxlen opt) (Some buf) p (len - p) = Some (s, l)" by auto
  with p have "matchfun printable opt path buf len pos st
      = Some (0, st\<lparr>n_matches := n_matches st + 1, out := out st @ path @ '' : '' @ dec (nat p) @ '' : '' @ s @ [newline]\<rparr>)" for st
    by (simp add: matchfun_def Let_def)
  with p(4) show ?thesis by blast
qed

text \<open>The line that a match at \<open>pos\<close> prints.\<close>

definition match_line :: "(byte \<Rightarrow> bool) \<Rightarrow> pfopts \<Rightarrow> string \<Rightarrow> byte list \<Rightarrow> int \<Rightarrow> int \<Rightarrow> string \<Rightarrow> bool" where
  "match_line printable opt path buf len pos line \<longleftrightarrow>
     (\<forall>st. matchfun printable opt path buf len pos st
        = Some (0, st\<lparr>n_matches := n_matches st + 1, out := out st @ line\<rparr>))
     \<and> (line_f opt = 0 \<longrightarrow> (\<exists>s. line = path @ '' : '' @ dec (nat pos) @ '' : '' @ s @ [newline]))"

lemma visit_matchfun:
  assumes "\<And>j. j \<in> set js \<Longrightarrow> 0 \<le> j \<and> j \<le> len" "len \<le> int (length buf)"
  shows "\<exists>lines. list_all2 (match_line printable opt path buf len) js lines
    \<and> (\<forall>nm st. visit (matchfun printable opt path) buf len js nm st
      = Some (nm + int (length js), st\<lparr>n_matches := n_matches st + int (length js), out := out st @ concat lines\<rparr>))"
  using assms(1)
proof (induction js)
  case Nil
  then show ?case by (intro exI [of _ "[]"]) simp
next
  case (Cons j js)
  from matchfun_total [of j len buf printable opt path] Cons.prems assms(2) obtain line where
    l: "match_line printable opt path buf len j line" unfolding match_line_def by (metis list.set_intros(1))
  from Cons obtain lines where
    ls: "list_all2 (match_line printable opt path buf len) js lines"
      "\<And>nm st. visit (matchfun printable opt path) buf len js nm st
        = Some (nm + int (length js), st\<lparr>n_matches := n_matches st + int (length js), out := out st @ concat lines\<rparr>)"
    by auto
  have "visit (matchfun printable opt path) buf len (j # js) nm st
      = Some (nm + int (length (j # js)), st\<lparr>n_matches := n_matches st + int (length (j # js)), out := out st @ concat (line # lines)\<rparr>)"
    for nm st using l ls(2) by (simp add: match_line_def)
  with l ls(1) show ?case by (intro exI [of _ "line # lines"]) simp
qed

lemma bm_search_reports:
  assumes "bm_ready lower x ic bmb" "x \<noteq> []" "len \<le> int (length buf)"
  defines "js \<equiv> occurrences (fold_case lower ic) (map (fold_case lower ic) x) buf len 0"
  shows "\<exists>lines code. list_all2 (match_line printable opt path buf len) js lines
    \<and> (\<forall>st. bm_search lower bmb buf len (Some (matchfun printable opt path)) st
      = Some (code, st\<lparr>n_matches := n_matches st + int (length js), out := out st @ concat lines\<rparr>))"
proof (cases "int (length x) \<le> len")
  case True
  have "0 \<le> j \<and> j \<le> len" if "j \<in> set js" for j using that by (auto simp: js_def occurrences_def)
  from visit_matchfun [OF this assms(3)] obtain lines where
    "list_all2 (match_line printable opt path buf len) js lines"
    "\<And>nm st. visit (matchfun printable opt path) buf len js nm st
      = Some (nm + int (length js), st\<lparr>n_matches := n_matches st + int (length js), out := out st @ concat lines\<rparr>)" by blast
  then show ?thesis
    using bm_search_ready [OF assms(1,2) True assms(3), of "Some (matchfun printable opt path)"] unfolding js_def
    by (intro exI [of _ lines]) simp
next
  case False
  then have "js = []" by (simp add: js_def occurrences_def)
  moreover have "bm_search lower bmb buf len (Some (matchfun printable opt path)) st = Some (- 1, st)" for st
    using False assms(1) by (simp add: bm_search_def bm_ready_def)
  ultimately show ?thesis by (intro exI [of _ "[]"]) simp
qed

definition readable :: "file_env \<Rightarrow> int \<Rightarrow> byte list \<Rightarrow> bool" where
  "readable env len buf \<longleftrightarrow> (\<exists>fd. open_res env = Ok fd) \<and> fstat_res env = Ok len \<and> mmap_res env = Ok buf
     \<and> 0 \<le> len \<and> len \<le> int (length buf)"

lemma scan_file_matches:
  assumes "bm_ready lower x (ignore_case opt) bmb" "x \<noteq> []" "readable env len buf" "debug opt \<le> 1"
  defines "js \<equiv> occurrences (fold_case lower (ignore_case opt)) (map (fold_case lower (ignore_case opt)) x) buf len 0"
  shows "\<exists>lines. list_all2 (match_line printable opt path buf len) js lines
    \<and> (\<forall>st. scan_file lower printable opt (Some x) bmb env path st
      = Some (1, st\<lparr>n_matches := n_matches st + int (length js), out := out st @ concat lines\<rparr>))"
proof -
  from bm_search_reports [OF assms(1,2), of len buf printable opt path] assms(3) obtain lines code where
    "list_all2 (match_line printable opt path buf len) js lines"
    "\<And>st. bm_search lower bmb buf len (Some (matchfun printable opt path)) st
      = Some (code, st\<lparr>n_matches := n_matches st + int (length js), out := out st @ concat lines\<rparr>)"
    unfolding js_def readable_def by blast
  with assms(3,4) show ?thesis
    by (intro exI [of _ lines]) (auto simp: scan_file_def readable_def Let_def)
qed


definition pf_blank :: pfstate where
  "pf_blank = \<lparr>n_matches = 0, n_files = 0, n_bytes = 0, out = [], errs = []\<rparr>"


section \<open>The command line\<close>

lemma takeWhile_dec: "takeWhile is_digit (dec n) = dec n"
  using leading_dec(2) [of "[]" n] by simp

lemma scan_u_dec: "n < 2 ^ 31 \<Longrightarrow> scan_u (dec n) = Some (int n)"
proof -
  assume n: "n < 2 ^ 31"
  then have "c_int (int n) = int n" by (intro c_int_id) simp_all
  moreover have "n \<le> 2 ^ 64 - 1" using n by simp
  ultimately show ?thesis using leading_dec(1) [of "[]" n] by (simp add: scan_u_def Let_def takeWhile_dec)
qed

text \<open>
  The option \<open>-n<workers>\<close>, written with any number below \<open>2^31\<close>, sets the number of workers to that
  number, whatever the options before it, and parsing goes on with the next argument.
\<close>

theorem option_workers:
  assumes "i < length argv" "argv ! i = ''-n'' @ dec n" "n < 2 ^ 31"
  shows "parse_opts argv i opt = parse_opts argv (i + 1) (opt\<lparr>nworkers := int n\<rparr>)"
proof -
  have "opt_arg argv i = (Some (dec n), i)" using assms(2) by (simp add: opt_arg_def)
  then have "opt_chars argv i 1 opt = OptNext i (opt\<lparr>nworkers := int n\<rparr>)"
    using assms scan_u_dec [OF assms(3)] by (subst opt_chars.simps) (simp add: opt_char_def opt_number_def)
  then show ?thesis using assms(1,2) by (subst parse_opts.simps) simp
qed

theorem option_workers_witness:
  "parse_opts [''pfscan'', ''-n'' @ dec 12, ''pat''] 1 default_opts
    = parse_opts [''pfscan'', ''-n'' @ dec 12, ''pat''] (1 + 1) (default_opts\<lparr>nworkers := int 12\<rparr>)"
  by (rule option_workers) simp_all

text \<open>
  The value of an option that is not first in its argument is taken from the wrong place: after
  another letter, as in \<open>-vn4\<close> or \<open>-v\<close> \<open>-vn 4\<close>, the text from the third character on is the option
  letter itself, and the program exits with the status 1.
\<close>

theorem option_value_misplaced:
  assumes "i < length argv" "argv ! i = [CHR ''-'', CHR ''v'', CHR ''n''] @ s"
  shows "parse_opts argv i opt = OptExit 1"
proof -
  have arg: "opt_arg argv i = (Some (CHR ''n'' # s), i)" using assms(2) by (simp add: opt_arg_def)
  have "scan_u (CHR ''n'' # s) = None" by (simp add: scan_u_def is_space_def is_digit_def)
  then have "opt_chars argv i 2 (opt\<lparr>verbose := verbose opt + 1\<rparr>) = OptExit 1"
    using assms(2) arg by (subst opt_chars.simps) (simp add: opt_char_def opt_number_def)
  then have "opt_chars argv i 1 opt = OptExit 1"
    using assms(2) by (subst opt_chars.simps) (simp add: opt_char_def numeral_2_eq_2)
  then show ?thesis using assms by (subst parse_opts.simps) simp
qed

theorem option_value_misplaced_witness:
  "parse_opts [''pfscan'', ''-vn4'', ''pat''] 1 default_opts = OptExit 1"
  using option_value_misplaced [of 1 "[''pfscan'', ''-vn4'', ''pat'']" "''4''" default_opts] by simp

text \<open>
  The table of the thread handles has 32 entries and nothing bounds the number of workers: with
  more than 32 of them \<^verbatim>\<open>main\<close> stores behind the end of \<^verbatim>\<open>_tids\<close>.
\<close>

theorem workers_past_table:
  assumes "32 < n" "\<And>j. create j = 0"
  shows "create_workers create n = None"
proof -
  let ?f = "\<lambda>j (ex, tids). case ex of
         Some c \<Rightarrow> Some (Some c, tids)
       | None \<Rightarrow> do { tids \<leftarrow> wr tids j True; Some (if create j \<noteq> 0 then Some 1 else None, tids) }"
  have run: "for_each ?f [j..n - 1] (None, tids) = None" if "0 \<le> j" "j \<le> 32" "length tids = 32" for j and tids :: "bool list"
    using that
  proof (induction "nat (32 - j)" arbitrary: j tids)
    case 0
    then have "j = 32" by simp
    then show ?case using assms(1) "0.prems" by (simp add: upto_rec1 wr_def)
  next
    case (Suc k)
    then have "j < 32" by linarith
    then have "[j..n - 1] = j # [j + 1..n - 1]" using assms(1) by (simp add: upto_rec1)
    moreover have "k = nat (32 - (j + 1))" using Suc.hyps(2) by linarith
    moreover have "wr tids j True = Some (tids[nat j := True])" using Suc.prems \<open>j < 32\<close> by simp
    ultimately show ?case using Suc.hyps(1) [of "j + 1" "tids[nat j := True]"] Suc.prems \<open>j < 32\<close>
      by (simp add: assms(2))
  qed
  show ?thesis unfolding create_workers_def by (rule run) simp_all
qed

theorem workers_past_table_witness: "create_workers (\<lambda>_. 0) 33 = None"
  using workers_past_table [of 33 "\<lambda>_. 0"] by simp

end
