(* ===== verification/PFSystem.thy ===== *)
theory PFSystem
  imports PFScan "HOL-Library.Multiset"
begin

text \<open>
  The threads of \<^verbatim>\<open>papps/pfscan-1.0/pfscan.c\<close>: \<^verbatim>\<open>main\<close> queues the paths, closes the queue, waits on
  \<^verbatim>\<open>aworker_cv\<close> until \<^verbatim>\<open>aworkers\<close> is 0, joins the workers and returns \<^verbatim>\<open>n_matches\<close>; a worker fetches
  a path, scans the file and fetches the next one until the queue is closed and empty.  A step
  is one critical section of one thread, built from the operations of the queue; a thread that
  waits on a condition variable goes on after a signal.  The signals of an operation of the
  queue are delivered in the same step; \<^verbatim>\<open>pthread_cond_signal\<close> wakes one waiting thread, any of
  them.  The scan of a file is one step: inside it, counting and printing are critical sections
  of their own that do not depend on the other threads.  The theorems show that no run blocks
  or lasts for ever, and that the result is that of scanning the queued files one by one.
\<close>

section \<open>The threads\<close>

datatype main_pc =
    MPut              \<comment> \<open>before a call of \<^verbatim>\<open>pqueue_put\<close>, or of \<^verbatim>\<open>pqueue_close\<close> when no path is left\<close>
  | MPutWait          \<comment> \<open>waiting on \<^verbatim>\<open>less\<close>\<close>
  | MPutWoken         \<comment> \<open>woken, before it has the mutex again\<close>
  | MWait             \<comment> \<open>before the test of \<^verbatim>\<open>aworkers\<close>\<close>
  | MWaitCv           \<comment> \<open>waiting on \<^verbatim>\<open>aworker_cv\<close>\<close>
  | MJoin nat         \<comment> \<open>before the join of a worker\<close>
  | MDone int         \<comment> \<open>returned\<close>

datatype worker_pc =
    WGet              \<comment> \<open>before a call of \<^verbatim>\<open>pqueue_get\<close>\<close>
  | WWaitMore         \<comment> \<open>waiting on \<^verbatim>\<open>more\<close>\<close>
  | WWoken            \<comment> \<open>woken, before it has the mutex again\<close>
  | WScan ptr         \<comment> \<open>before the scan of a file\<close>
  | WFinish           \<comment> \<open>before \<open>--aworkers\<close>\<close>
  | WDone             \<comment> \<open>returned\<close>

text \<open>\<open>slog\<close> lists the files scanned so far; the program does not have it.\<close>

record pfcfg =
  pq :: PQUEUE
  todo :: "ptr list"
  mpc :: main_pc
  wpcs :: "worker_pc list"
  aworkers :: int
  glob :: pfstate
  slog :: "ptr list"

definition wake_all :: "worker_pc list \<Rightarrow> worker_pc list" where
  "wake_all = map (\<lambda>w. if w = WWaitMore then WWoken else w)"

text \<open>The delivery of the signals that an operation sent; \<open>ch\<close> is the worker that is woken, and
  \<open>None\<close> answers a choice of a thread that does not wait.\<close>

fun deliver :: "nat \<Rightarrow> pq_signal list \<Rightarrow> pfcfg \<Rightarrow> pfcfg option" where
  "deliver ch [] c = Some c"
| "deliver ch (SignalMore # gs) c =
     (if WWaitMore \<in> set (wpcs c) then
        (if ch < length (wpcs c) \<and> wpcs c ! ch = WWaitMore
         then deliver ch gs (c\<lparr>wpcs := (wpcs c)[ch := WWoken]\<rparr>) else None)
      else deliver ch gs c)"
| "deliver ch (SignalLess # gs) c = deliver ch gs (if mpc c = MPutWait then c\<lparr>mpc := MPutWoken\<rparr> else c)"
| "deliver ch (BroadcastMore # gs) c = deliver ch gs (c\<lparr>wpcs := wake_all (wpcs c)\<rparr>)"

definition signals_of :: "pfcfg \<Rightarrow> PQUEUE \<Rightarrow> pq_signal list" where
  "signals_of c q = drop (length (signals (pq c))) (signals q)"

text \<open>The thread \<open>0\<close> is \<^verbatim>\<open>main\<close> and the worker \<open>i\<close> is the thread \<open>i + 1\<close>.\<close>

fun put_result :: "nat \<Rightarrow> pfcfg \<Rightarrow> int pq_result \<Rightarrow> pfcfg option" where
  "put_result ch c PQLocked = None"
| "put_result ch c (PQWait q) = Some (c\<lparr>pq := q, mpc := MPutWait\<rparr>)"
| "put_result ch c (PQRet r q) = deliver ch (signals_of c q) (c\<lparr>pq := q, todo := tl (todo c), mpc := MPut\<rparr>)"
| "put_result ch c PQFault = None"

fun close_result :: "nat \<Rightarrow> pfcfg \<Rightarrow> unit pq_result \<Rightarrow> pfcfg option" where
  "close_result ch c (PQRet r q) = deliver ch (signals_of c q) (c\<lparr>pq := q, mpc := MWait\<rparr>)"
| "close_result ch c r = None"

definition main_step :: "nat \<Rightarrow> pfcfg \<Rightarrow> pfcfg option" where
  "main_step ch c =
     (case mpc c of
        MPut \<Rightarrow> (case todo c of
                   x # xs \<Rightarrow> put_result ch c (pqueue_put 0 (pq c) x)
                 | [] \<Rightarrow> close_result ch c (pqueue_close 0 (pq c)))
      | MPutWait \<Rightarrow> None
      | MPutWoken \<Rightarrow> (case todo c of
                   x # xs \<Rightarrow> put_result ch c (pqueue_put_woken 0 (pq c) x)
                 | [] \<Rightarrow> None)
      | MWait \<Rightarrow> Some (if aworkers c > 0 then c\<lparr>mpc := MWaitCv\<rparr> else c\<lparr>mpc := MJoin 0\<rparr>)
      | MWaitCv \<Rightarrow> None
      | MJoin j \<Rightarrow>
          if j < length (wpcs c) then (if wpcs c ! j = WDone then Some (c\<lparr>mpc := MJoin (j + 1)\<rparr>) else None)
          else Some (c\<lparr>mpc := MDone (n_matches (glob c))\<rparr>)
      | MDone r \<Rightarrow> None)"

fun get_result :: "nat \<Rightarrow> nat \<Rightarrow> pfcfg \<Rightarrow> (int \<times> ptr) pq_result \<Rightarrow> pfcfg option" where
  "get_result ch i c PQLocked = None"
| "get_result ch i c (PQWait q) = Some (c\<lparr>pq := q, wpcs := (wpcs c)[i := WWaitMore]\<rparr>)"
| "get_result ch i c (PQRet r q) =
     deliver ch (signals_of c q)
       (c\<lparr>pq := q, wpcs := (wpcs c)[i := if fst r = 1 then WScan (snd r) else WFinish]\<rparr>)"
| "get_result ch i c PQFault = None"

definition worker_step :: "(ptr \<Rightarrow> pfstate \<Rightarrow> (int \<times> pfstate) option) \<Rightarrow> nat \<Rightarrow> nat \<Rightarrow> pfcfg \<Rightarrow> pfcfg option" where
  "worker_step scan ch i c =
     (case wpcs c ! i of
        WGet \<Rightarrow> get_result ch i c (pqueue_get (i + 1) (pq c))
      | WWaitMore \<Rightarrow> None
      | WWoken \<Rightarrow> get_result ch i c (pqueue_get_woken (i + 1) (pq c))
      | WScan x \<Rightarrow> do { (r, g) \<leftarrow> scan x (glob c);
                       Some (c\<lparr>glob := g, slog := slog c @ [x], wpcs := (wpcs c)[i := WGet]\<rparr>) }
      | WFinish \<Rightarrow> Some (c\<lparr>aworkers := aworkers c - 1, wpcs := (wpcs c)[i := WDone],
                          mpc := (if mpc c = MWaitCv then MWait else mpc c)\<rparr>)
      | WDone \<Rightarrow> None)"

inductive pf_step :: "(ptr \<Rightarrow> pfstate \<Rightarrow> (int \<times> pfstate) option) \<Rightarrow> pfcfg \<Rightarrow> pfcfg \<Rightarrow> bool" for scan where
  pf_main: "main_step ch c = Some c' \<Longrightarrow> pf_step scan c c'"
| pf_worker: "i < length (wpcs c) \<Longrightarrow> worker_step scan ch i c = Some c' \<Longrightarrow> pf_step scan c c'"

text \<open>After the creation of \<open>n\<close> workers, with the paths that the walk over the arguments queues.\<close>

definition pf_init :: "nat \<Rightarrow> ptr list \<Rightarrow> pfstate \<Rightarrow> pfcfg" where
  "pf_init n paths g = \<lparr>pq = snd (pqueue_init True (n + 8) blank_q), todo = paths, mpc = MPut,
     wpcs = replicate n WGet, aworkers = int n, glob = g, slog = []\<rparr>"

fun scan_all :: "(ptr \<Rightarrow> pfstate \<Rightarrow> (int \<times> pfstate) option) \<Rightarrow> ptr list \<Rightarrow> pfstate \<Rightarrow> pfstate option" where
  "scan_all scan [] g = Some g"
| "scan_all scan (x # xs) g = do { (r, g) \<leftarrow> scan x g; scan_all scan xs g }"

section \<open>The operations of the queue, as the threads see them\<close>

lemma put_room:
  assumes "pq_ok N q" "mtx q = None" "\<not> pclosed q" "occupied q < pqsize q"
  obtains q' where "pq_ok N q'" "mtx q' = None" "\<not> pclosed q'" "pq_list q' = pq_list q @ [x]" "occupied q' = occupied q + 1"
    "signals q' = signals q @ [SignalMore]" "pqueue_put me q x = PQRet 1 q'" "pqueue_put_woken me q x = PQRet 1 q'"
proof -
  have "pq_wf (q\<lparr>mtx := Some me\<rparr>)" "occupied (q\<lparr>mtx := Some me\<rparr>) < pqsize (q\<lparr>mtx := Some me\<rparr>)"
    using assms by (simp_all add: pq_ok_def)
  from put_loop_room [OF this, of x] obtain q' where q':
    "pqueue_put_loop (q\<lparr>mtx := Some me\<rparr>) x = PQRet 1 q'" "pq_wf q'" "pq_list q' = pq_list q @ [x]"
    "pqsize q' = pqsize q" "mtx q' = None" "pclosed q' = pclosed q" "signals q' = signals q @ [SignalMore]" by auto
  have "occupied q' = occupied q + 1" using length_pq_list [of q'] by (simp add: q'(3))
  with q' assms that [of q'] show thesis by (simp add: pq_ok_def pqueue_put_def pqueue_put_woken_def Let_def)
qed

lemma put_full:
  "mtx q = None \<Longrightarrow> \<not> pclosed q \<Longrightarrow> pqsize q \<le> occupied q \<Longrightarrow> pqueue_put me q x = PQWait (q\<lparr>mtx := None\<rparr>)"
  by (simp add: pqueue_put_def pqueue_put_loop_def Let_def)

lemma get_item:
  assumes "pq_ok N q" "mtx q = None" "pq_list q = x # xs"
  obtains q' where "pq_ok N q'" "mtx q' = None" "pclosed q' = pclosed q" "pq_list q' = xs" "occupied q' = length xs"
    "signals q' = signals q @ [SignalLess]" "pqueue_get me q = PQRet (1, x) q'" "pqueue_get_woken me q = PQRet (1, x) q'"
proof -
  have "pq_wf (q\<lparr>mtx := Some me\<rparr>)" "pq_list (q\<lparr>mtx := Some me\<rparr>) = x # xs" using assms by (simp_all add: pq_ok_def)
  from get_loop_some [OF this] obtain q' where q':
    "pqueue_get_loop (q\<lparr>mtx := Some me\<rparr>) = PQRet (1, x) q'" "pq_wf q'" "pq_list q' = xs"
    "pqsize q' = pqsize q" "mtx q' = None" "pclosed q' = pclosed q" "signals q' = signals q @ [SignalLess]" by auto
  have "occupied q' = length xs" using length_pq_list [of q'] by (simp add: q'(3))
  with q' assms that [of q'] show thesis by (simp add: pq_ok_def pqueue_get_def pqueue_get_woken_def)
qed

lemma get_empty:
  assumes "mtx q = None" "pq_list q = []"
  shows "pqueue_get me q = (if pclosed q then PQRet (0, NULL) (q\<lparr>mtx := None\<rparr>) else PQWait (q\<lparr>mtx := None\<rparr>))"
    "pqueue_get_woken me q = (if pclosed q then PQRet (0, NULL) (q\<lparr>mtx := None\<rparr>) else PQWait (q\<lparr>mtx := None\<rparr>))"
proof -
  have "occupied q = 0" using length_pq_list [of q] assms(2) by simp
  then show "pqueue_get me q = (if pclosed q then PQRet (0, NULL) (q\<lparr>mtx := None\<rparr>) else PQWait (q\<lparr>mtx := None\<rparr>))"
    "pqueue_get_woken me q = (if pclosed q then PQRet (0, NULL) (q\<lparr>mtx := None\<rparr>) else PQWait (q\<lparr>mtx := None\<rparr>))"
    using assms(1) by (simp_all add: pqueue_get_def pqueue_get_woken_def pqueue_get_loop_def)
qed

section \<open>Sums over the workers\<close>

lemma sum_list_upd:
  "i < length ws \<Longrightarrow> sum_list (map f (ws[i := v])) + f (ws ! i) = sum_list (map f ws) + (f v :: 'b :: comm_monoid_add)"
proof (induction ws arbitrary: i)
  case (Cons w ws)
  show ?case
  proof (cases i)
    case 0
    then show ?thesis by (simp add: ac_simps)
  next
    case (Suc k)
    then show ?thesis using Cons.IH [of k] Cons.prems by (simp add: add.assoc)
  qed
qed simp

definition items :: "worker_pc \<Rightarrow> ptr multiset" where
  "items w = (case w of WScan x \<Rightarrow> {#x#} | _ \<Rightarrow> {#})"

definition busy :: "worker_pc list \<Rightarrow> ptr multiset" where
  "busy ws = sum_list (map items ws)"

definition is_alive :: "worker_pc \<Rightarrow> int" where
  "is_alive w = (if w = WDone then 0 else 1)"

definition alive :: "worker_pc list \<Rightarrow> int" where
  "alive ws = sum_list (map is_alive ws)"

definition is_woken :: "worker_pc \<Rightarrow> int" where
  "is_woken w = (if w = WWoken then 1 else 0)"

definition woken :: "worker_pc list \<Rightarrow> int" where
  "woken ws = sum_list (map is_woken ws)"

definition wweight :: "worker_pc \<Rightarrow> int" where
  "wweight w = (case w of WDone \<Rightarrow> 0 | WFinish \<Rightarrow> 2 | WWaitMore \<Rightarrow> 3 | WGet \<Rightarrow> 4 | WWoken \<Rightarrow> 4 | WScan x \<Rightarrow> 5)"

definition weight :: "worker_pc list \<Rightarrow> int" where
  "weight ws = sum_list (map wweight ws)"

lemmas worker_fns = items_def is_alive_def is_woken_def wweight_def

lemma busy_upd: "i < length ws \<Longrightarrow> busy (ws[i := v]) + items (ws ! i) = busy ws + items v"
  and alive_upd: "i < length ws \<Longrightarrow> alive (ws[i := v]) = alive ws + is_alive v - is_alive (ws ! i)"
  and woken_upd: "i < length ws \<Longrightarrow> woken (ws[i := v]) = woken ws + is_woken v - is_woken (ws ! i)"
  and weight_upd: "i < length ws \<Longrightarrow> weight (ws[i := v]) = weight ws + wweight v - wweight (ws ! i)"
  using sum_list_upd [of i ws items v] sum_list_upd [of i ws is_alive v]
    sum_list_upd [of i ws is_woken v] sum_list_upd [of i ws wweight v]
  by (simp_all add: busy_def alive_def woken_def weight_def)

lemma wake_all_sums [simp]: "busy (wake_all ws) = busy ws" "alive (wake_all ws) = alive ws"
    "length (wake_all ws) = length ws"
  and wake_all_weight: "weight (wake_all ws) \<le> weight ws + int (length ws)"
  by (induction ws) (auto simp: wake_all_def busy_def alive_def weight_def worker_fns)

lemma wake_all_set: "WWaitMore \<notin> set (wake_all ws)" "WFinish \<in> set (wake_all ws) \<longleftrightarrow> WFinish \<in> set ws"
    "WDone \<in> set (wake_all ws) \<longleftrightarrow> WDone \<in> set ws"
  by (auto simp: wake_all_def image_iff)

lemma woken_nonneg: "0 \<le> woken ws"
  by (induction ws) (auto simp: woken_def is_woken_def)

lemma weight_nonneg: "0 \<le> weight ws"
  by (induction ws) (auto simp: weight_def wweight_def split: worker_pc.splits)

lemma alive_zero: "0 \<le> alive ws" "alive ws = 0 \<Longrightarrow> w \<in> set ws \<Longrightarrow> w = WDone"
proof -
  show nn: "0 \<le> alive ws" for ws by (induction ws) (auto simp: alive_def is_alive_def)
  show "alive ws = 0 \<Longrightarrow> w \<in> set ws \<Longrightarrow> w = WDone"
  proof (induction ws)
    case (Cons v ws)
    then show ?case using nn [of ws] by (auto simp: alive_def is_alive_def split: if_splits)
  qed simp
qed

section \<open>The invariant\<close>

definition before_close :: "main_pc \<Rightarrow> bool" where
  "before_close p \<longleftrightarrow> p = MPut \<or> p = MPutWait \<or> p = MPutWoken"

text \<open>Waiting workers are never left behind with items in the queue: as long as one waits, every
  item is matched by a worker that has been woken.\<close>

definition pf_queue_ok :: "pfcfg \<Rightarrow> bool" where
  "pf_queue_ok c \<longleftrightarrow> pq_ok (length (wpcs c) + 8) (pq c) \<and> mtx (pq c) = None
     \<and> (pclosed (pq c) \<longleftrightarrow> \<not> before_close (mpc c))
     \<and> (WWaitMore \<in> set (wpcs c) \<longrightarrow> int (occupied (pq c)) \<le> woken (wpcs c))
     \<and> (mpc c = MPutWait \<longrightarrow> occupied (pq c) = pqsize (pq c))
     \<and> (mpc c = MPutWoken \<longrightarrow> occupied (pq c) < pqsize (pq c))"

definition pf_threads_ok :: "pfcfg \<Rightarrow> bool" where
  "pf_threads_ok c \<longleftrightarrow> 0 < length (wpcs c) \<and> aworkers c = alive (wpcs c)
     \<and> (before_close (mpc c) \<longrightarrow> WFinish \<notin> set (wpcs c) \<and> WDone \<notin> set (wpcs c))
     \<and> (\<not> before_close (mpc c) \<longrightarrow> todo c = [] \<and> WWaitMore \<notin> set (wpcs c))
     \<and> (WFinish \<in> set (wpcs c) \<or> WDone \<in> set (wpcs c) \<longrightarrow> pq_list (pq c) = [])
     \<and> (mpc c = MPutWait \<or> mpc c = MPutWoken \<longrightarrow> todo c \<noteq> [])
     \<and> (mpc c = MWaitCv \<longrightarrow> 0 < aworkers c)
     \<and> (\<forall>j. mpc c = MJoin j \<longrightarrow> aworkers c = 0 \<and> j \<le> length (wpcs c))
     \<and> (\<forall>r. mpc c = MDone r \<longrightarrow> aworkers c = 0 \<and> r = n_matches (glob c))"

definition pf_work_ok :: "(ptr \<Rightarrow> pfstate \<Rightarrow> (int \<times> pfstate) option) \<Rightarrow> ptr list \<Rightarrow> pfstate \<Rightarrow> pfcfg \<Rightarrow> bool" where
  "pf_work_ok scan paths g0 c \<longleftrightarrow> scan_all scan (slog c) g0 = Some (glob c)
     \<and> mset paths = mset (slog c) + busy (wpcs c) + mset (pq_list (pq c)) + mset (todo c)"

definition pf_inv :: "(ptr \<Rightarrow> pfstate \<Rightarrow> (int \<times> pfstate) option) \<Rightarrow> ptr list \<Rightarrow> pfstate \<Rightarrow> pfcfg \<Rightarrow> bool" where
  "pf_inv scan paths g0 c \<longleftrightarrow> pf_queue_ok c \<and> pf_threads_ok c \<and> pf_work_ok scan paths g0 c"

text \<open>What every step lowers.\<close>

fun mweight :: "nat \<Rightarrow> main_pc \<Rightarrow> int" where
  "mweight n MPut = 2 * int n + 5"
| "mweight n MPutWait = 2 * int n + 4"
| "mweight n MPutWoken = 2 * int n + 5"
| "mweight n MWait = int n + 3"
| "mweight n MWaitCv = int n + 2"
| "mweight n (MJoin j) = int n - int j + 1"
| "mweight n (MDone r) = 0"

definition pf_measure :: "pfcfg \<Rightarrow> int" where
  "pf_measure c = 5 * int (length (todo c)) + 3 * int (occupied (pq c)) + weight (wpcs c) + mweight (length (wpcs c)) (mpc c)"

lemmas pf_inv_defs = pf_inv_def pf_queue_ok_def pf_threads_ok_def pf_work_ok_def before_close_def

lemma in_set_upd: "i < length ws \<Longrightarrow> w \<in> set (ws[i := v]) \<Longrightarrow> w = v \<or> w \<in> set ws"
  using set_update_subset_insert [of ws i v] by blast

definition pf_good :: "(ptr \<Rightarrow> pfstate \<Rightarrow> (int \<times> pfstate) option) \<Rightarrow> ptr list \<Rightarrow> pfstate \<Rightarrow> pfcfg \<Rightarrow> pfcfg \<Rightarrow> bool" where
  "pf_good scan paths g0 c c' \<longleftrightarrow> pf_inv scan paths g0 c' \<and> pf_measure c' < pf_measure c"

lemma pf_goodI:
  "pf_queue_ok c' \<Longrightarrow> pf_threads_ok c' \<Longrightarrow> pf_work_ok scan paths g0 c' \<Longrightarrow> pf_measure c' < pf_measure c \<Longrightarrow>
    pf_good scan paths g0 c c'"
  by (simp add: pf_good_def pf_inv_def)

text \<open>While \<^verbatim>\<open>main\<close> still queues paths, no worker has seen the end of the queue.\<close>

lemma putting_facts:
  assumes "pf_threads_ok c" "before_close (mpc c)"
  shows "0 < length (wpcs c)" "aworkers c = alive (wpcs c)" "WFinish \<notin> set (wpcs c)" "WDone \<notin> set (wpcs c)"
  using assms by (simp_all add: pf_threads_ok_def)

lemma put_step_good:
  assumes inv: "pf_inv scan paths g0 c" and pc: "mpc c = MPut \<or> mpc c = MPutWoken" and todo: "todo c = x # xs"
    and q': "pq_ok (length (wpcs c) + 8) q'" "mtx q' = None" "\<not> pclosed q'" "pq_list q' = pq_list (pq c) @ [x]"
      "occupied q' = occupied (pq c) + 1" "signals q' = signals (pq c) @ [SignalMore]"
    and step: "put_result ch c (PQRet 1 q') = Some c'"
  shows "pf_good scan paths g0 c c'"
proof -
  let ?c = "c\<lparr>pq := q', todo := xs, mpc := MPut\<rparr>"
  have d: "deliver ch [SignalMore] ?c = Some c'" using step todo by (simp add: signals_of_def q'(6))
  have w: "mweight (length (wpcs c)) (mpc c) = 2 * int (length (wpcs c)) + 5" using pc by auto
  have bc: "before_close (mpc c)" using pc by (auto simp: before_close_def)
  have qk: "pf_queue_ok c" and th: "pf_threads_ok c" and wk: "pf_work_ok scan paths g0 c" using inv by (simp_all add: pf_inv_def)
  note pf = putting_facts [OF th bc]
  show ?thesis
  proof (cases "WWaitMore \<in> set (wpcs c)")
    case False
    then have c': "c' = ?c" using d by simp
    show ?thesis unfolding c'
    proof (rule pf_goodI)
      show "pf_queue_ok ?c" using q' False by (simp add: pf_queue_ok_def before_close_def)
      show "pf_threads_ok ?c" using pf by (simp add: pf_threads_ok_def before_close_def)
      show "pf_work_ok scan paths g0 ?c" using wk todo q' by (simp add: pf_work_ok_def ac_simps)
      show "pf_measure ?c < pf_measure c" using todo q' w by (simp add: pf_measure_def)
    qed
  next
    case True
    let ?ws = "(wpcs c)[ch := WWoken]"
    from True d have ch: "ch < length (wpcs c)" "wpcs c ! ch = WWaitMore" and c': "c' = ?c\<lparr>wpcs := ?ws\<rparr>"
      by (simp_all split: if_splits)
    have sums: "busy ?ws = busy (wpcs c)" "alive ?ws = alive (wpcs c)" "woken ?ws = woken (wpcs c) + 1" "weight ?ws = weight (wpcs c) + 1"
      using busy_upd [OF ch(1), of WWoken] alive_upd [OF ch(1), of WWoken] woken_upd [OF ch(1), of WWoken]
        weight_upd [OF ch(1), of WWoken] by (simp_all add: ch(2) worker_fns)
    have mem: "WFinish \<notin> set ?ws" "WDone \<notin> set ?ws"
      using pf in_set_upd [OF ch(1), of _ WWoken] by auto
    show ?thesis unfolding c'
    proof (rule pf_goodI)
      show "pf_queue_ok (?c\<lparr>wpcs := ?ws\<rparr>)"
        using qk q' True sums(3) by (simp add: pf_queue_ok_def before_close_def)
      show "pf_threads_ok (?c\<lparr>wpcs := ?ws\<rparr>)" using pf mem sums(2) by (simp add: pf_threads_ok_def before_close_def)
      show "pf_work_ok scan paths g0 (?c\<lparr>wpcs := ?ws\<rparr>)" using wk todo q' sums(1) by (simp add: pf_work_ok_def ac_simps)
      show "pf_measure (?c\<lparr>wpcs := ?ws\<rparr>) < pf_measure c" using todo q' w sums(4) by (simp add: pf_measure_def)
    qed
  qed
qed

lemma main_put_good:
  assumes inv: "pf_inv scan paths g0 c" and pc: "mpc c = MPut \<or> mpc c = MPutWoken" and todo: "todo c = x # xs"
    and step: "main_step ch c = Some c'"
  shows "pf_good scan paths g0 c c'"
proof -
  have qk: "pf_queue_ok c" and th: "pf_threads_ok c" and wk: "pf_work_ok scan paths g0 c" using inv by (simp_all add: pf_inv_def)
  have bc: "before_close (mpc c)" using pc by (auto simp: before_close_def)
  have q: "pq_ok (length (wpcs c) + 8) (pq c)" "mtx (pq c) = None" "\<not> pclosed (pq c)" using qk bc by (simp_all add: pf_queue_ok_def)
  show ?thesis
  proof (cases "occupied (pq c) < pqsize (pq c)")
    case True
    from put_room [OF q True, of x 0] obtain q' where
      q': "pq_ok (length (wpcs c) + 8) q'" "mtx q' = None" "\<not> pclosed q'" "pq_list q' = pq_list (pq c) @ [x]"
        "occupied q' = occupied (pq c) + 1" "signals q' = signals (pq c) @ [SignalMore]"
      and put: "pqueue_put 0 (pq c) x = PQRet 1 q'" "pqueue_put_woken 0 (pq c) x = PQRet 1 q'" .
    have "put_result ch c (PQRet 1 q') = Some c'" using step pc todo put by (auto simp: main_step_def)
    from put_step_good [OF inv pc todo q' this] show ?thesis .
  next
    case False
    then have pc: "mpc c = MPut" using pc qk by (auto simp: pf_queue_ok_def)
    let ?c = "c\<lparr>pq := (pq c)\<lparr>mtx := None\<rparr>, mpc := MPutWait\<rparr>"
    have c': "c' = ?c" using step pc todo put_full [OF q(2,3)] False by (simp add: main_step_def)
    have full: "occupied (pq c) = pqsize (pq c)" using False q(1) by (simp add: pq_ok_def pq_wf_def)
    show ?thesis unfolding c'
    proof (rule pf_goodI)
      show "pf_queue_ok ?c" using qk full pc by (auto simp: pf_queue_ok_def before_close_def pq_ok_def)
      show "pf_threads_ok ?c" using putting_facts [OF th bc] todo by (simp add: pf_threads_ok_def before_close_def)
      show "pf_work_ok scan paths g0 ?c" using wk by (simp add: pf_work_ok_def)
      show "pf_measure ?c < pf_measure c" using pc by (simp add: pf_measure_def)
    qed
  qed
qed

lemma main_close_good:
  assumes inv: "pf_inv scan paths g0 c" and pc: "mpc c = MPut" and todo: "todo c = []" and step: "main_step ch c = Some c'"
  shows "pf_good scan paths g0 c c'"
proof -
  have qk: "pf_queue_ok c" and th: "pf_threads_ok c" and wk: "pf_work_ok scan paths g0 c" using inv by (simp_all add: pf_inv_def)
  have bc: "before_close (mpc c)" using pc by (simp add: before_close_def)
  note pf = putting_facts [OF th bc]
  let ?q = "(pq c)\<lparr>pclosed := True, mtx := None, signals := signals (pq c) @ [BroadcastMore]\<rparr>"
  let ?c = "c\<lparr>pq := ?q, mpc := MWait, wpcs := wake_all (wpcs c)\<rparr>"
  have q: "pq_ok (length (wpcs c) + 8) (pq c)" "mtx (pq c) = None" using qk by (simp_all add: pf_queue_ok_def)
  have c': "c' = ?c" using step pc todo q(2) by (simp add: main_step_def pqueue_close_def signals_of_def)
  show ?thesis unfolding c'
  proof (rule pf_goodI)
    show "pf_queue_ok ?c" using q by (simp add: pf_queue_ok_def before_close_def wake_all_set pq_ok_def)
    show "pf_threads_ok ?c" using pf todo by (simp add: pf_threads_ok_def before_close_def wake_all_set)
    show "pf_work_ok scan paths g0 ?c" using wk todo by (simp add: pf_work_ok_def)
    show "pf_measure ?c < pf_measure c" using pc wake_all_weight [of "wpcs c"] by (simp add: pf_measure_def)
  qed
qed

lemma main_wait_good:
  assumes inv: "pf_inv scan paths g0 c" and pc: "\<not> before_close (mpc c)" and step: "main_step ch c = Some c'"
  shows "pf_good scan paths g0 c c'"
proof -
  have qk: "pf_queue_ok c" and th: "pf_threads_ok c" and wk: "pf_work_ok scan paths g0 c" using inv by (simp_all add: pf_inv_def)
  obtain p where c': "c' = c\<lparr>mpc := p\<rparr>" and p: "\<not> before_close p" "mweight (length (wpcs c)) p < mweight (length (wpcs c)) (mpc c)"
    "p = MWaitCv \<longrightarrow> 0 < aworkers c" "\<forall>j. p = MJoin j \<longrightarrow> aworkers c = 0 \<and> j \<le> length (wpcs c)"
    "\<forall>r. p = MDone r \<longrightarrow> aworkers c = 0 \<and> r = n_matches (glob c)" "p \<noteq> MPutWait" "p \<noteq> MPutWoken"
  proof (cases "mpc c")
    case MWait
    then show ?thesis using that [of "if aworkers c > 0 then MWaitCv else MJoin 0"] step th alive_zero(1) [of "wpcs c"]
      by (auto simp: main_step_def before_close_def pf_threads_ok_def split: if_splits)
  next
    case (MJoin j)
    then have "aworkers c = 0" "j \<le> length (wpcs c)" using th by (auto simp: pf_threads_ok_def)
    then show ?thesis using that [of "if j < length (wpcs c) then MJoin (j + 1) else MDone (n_matches (glob c))"] step MJoin
      by (auto simp: main_step_def before_close_def split: if_splits)
  qed (use pc step in \<open>auto simp: before_close_def main_step_def\<close>)
  show ?thesis unfolding c'
  proof (rule pf_goodI)
    show "pf_queue_ok (c\<lparr>mpc := p\<rparr>)" using qk p pc by (simp add: pf_queue_ok_def)
    show "pf_threads_ok (c\<lparr>mpc := p\<rparr>)" using th p pc by (simp add: pf_threads_ok_def)
    show "pf_work_ok scan paths g0 (c\<lparr>mpc := p\<rparr>)" using wk by (simp add: pf_work_ok_def)
    show "pf_measure (c\<lparr>mpc := p\<rparr>) < pf_measure c" using p by (simp add: pf_measure_def)
  qed
qed

lemma main_step_good:
  assumes inv: "pf_inv scan paths g0 c" and step: "main_step ch c = Some c'"
  shows "pf_good scan paths g0 c c'"
proof (cases "before_close (mpc c)")
  case True
  then have "mpc c = MPut \<or> mpc c = MPutWoken" using step by (auto simp: before_close_def main_step_def)
  moreover have "mpc c = MPut" if "todo c = []" using inv that calculation by (auto simp: pf_inv_def pf_threads_ok_def)
  ultimately show ?thesis
    using main_put_good [OF inv _ _ step] main_close_good [OF inv _ _ step] by (cases "todo c") auto
next
  case False
  from main_wait_good [OF inv this step] show ?thesis .
qed

text \<open>A worker moves on: what its new place has to satisfy.\<close>

lemma pf_threads_upd:
  assumes th: "pf_threads_ok c" and i: "i < length (wpcs c)" and live: "wpcs c ! i \<noteq> WDone" "v \<noteq> WDone"
    and wait: "v = WWaitMore \<Longrightarrow> before_close (mpc c)" and fin: "v = WFinish \<Longrightarrow> \<not> before_close (mpc c)"
    and list: "WFinish \<in> set (wpcs c) \<or> WDone \<in> set (wpcs c) \<or> v = WFinish \<Longrightarrow> pq_list q = []"
  shows "pf_threads_ok (c\<lparr>pq := q, wpcs := (wpcs c)[i := v]\<rparr>)"
proof -
  have "alive ((wpcs c)[i := v]) = alive (wpcs c)"
    using alive_upd [OF i, of v] live by (simp add: is_alive_def)
  have "w = v \<or> w \<in> set (wpcs c)" if "w \<in> set ((wpcs c)[i := v])" for w
    using in_set_upd [OF i that] .
  note mem = this
  have t: "0 < length (wpcs c)" "aworkers c = alive (wpcs c)"
    "before_close (mpc c) \<longrightarrow> WFinish \<notin> set (wpcs c) \<and> WDone \<notin> set (wpcs c)"
    "\<not> before_close (mpc c) \<longrightarrow> todo c = [] \<and> WWaitMore \<notin> set (wpcs c)"
    "mpc c = MPutWait \<or> mpc c = MPutWoken \<longrightarrow> todo c \<noteq> []" "mpc c = MWaitCv \<longrightarrow> 0 < aworkers c"
    "\<forall>j. mpc c = MJoin j \<longrightarrow> aworkers c = 0 \<and> j \<le> length (wpcs c)"
    "\<forall>r. mpc c = MDone r \<longrightarrow> aworkers c = 0 \<and> r = n_matches (glob c)"
    using th unfolding pf_threads_ok_def by blast+
  have "before_close (mpc c) \<longrightarrow> WFinish \<notin> set ((wpcs c)[i := v]) \<and> WDone \<notin> set ((wpcs c)[i := v])"
    using t(3) mem live(2) fin by blast
  moreover have "\<not> before_close (mpc c) \<longrightarrow> WWaitMore \<notin> set ((wpcs c)[i := v])"
    using t(4) mem wait by blast
  moreover have "WFinish \<in> set ((wpcs c)[i := v]) \<or> WDone \<in> set ((wpcs c)[i := v]) \<longrightarrow> pq_list q = []"
    using mem list live(2) by blast
  moreover note \<open>alive ((wpcs c)[i := v]) = alive (wpcs c)\<close>
  ultimately show ?thesis using t unfolding pf_threads_ok_def by simp
qed

lemma mpc_less:
  assumes "pf_threads_ok c" shows "pf_threads_ok (if mpc c = MPutWait then c\<lparr>mpc := MPutWoken\<rparr> else c)"
proof (cases "mpc c = MPutWait")
  case True
  then show ?thesis using assms by (simp add: pf_threads_ok_def before_close_def)
next
  case False
  then show ?thesis using assms by simp
qed

lemma worker_item_good:
  assumes inv: "pf_inv scan paths g0 c" and i: "i < length (wpcs c)" and pc: "wpcs c ! i = WGet \<or> wpcs c ! i = WWoken"
    and list: "pq_list (pq c) = x # xs"
    and q': "pq_ok (length (wpcs c) + 8) q'" "mtx q' = None" "pclosed q' = pclosed (pq c)" "pq_list q' = xs"
      "occupied q' = length xs" "signals q' = signals (pq c) @ [SignalLess]"
    and step: "get_result ch i c (PQRet (1, x) q') = Some c'"
  shows "pf_good scan paths g0 c c'"
proof -
  have qk: "pf_queue_ok c" and th: "pf_threads_ok c" and wk: "pf_work_ok scan paths g0 c" using inv by (simp_all add: pf_inv_def)
  let ?ws = "(wpcs c)[i := WScan x]" and ?p = "if mpc c = MPutWait then MPutWoken else mpc c"
  let ?c1 = "c\<lparr>pq := q', wpcs := ?ws\<rparr>"
  have c': "c' = (if mpc ?c1 = MPutWait then ?c1\<lparr>mpc := MPutWoken\<rparr> else ?c1)"
    using step by (simp add: signals_of_def q'(6))
  have occ: "occupied (pq c) = Suc (length xs)" using length_pq_list [of "pq c"] list by simp
  have sums: "busy ?ws = busy (wpcs c) + {#x#}" "weight ?ws = weight (wpcs c) + 1" "woken (wpcs c) - 1 \<le> woken ?ws"
    using busy_upd [OF i, of "WScan x"] weight_upd [OF i, of "WScan x"] woken_upd [OF i, of "WScan x"] pc
    by (auto simp: worker_fns)
  have waits: "WWaitMore \<in> set ?ws \<Longrightarrow> WWaitMore \<in> set (wpcs c)" using in_set_upd [OF i] by blast
  have sz: "pqsize q' = pqsize (pq c)" using q'(1) qk by (simp add: pf_queue_ok_def pq_ok_def)
  have bc: "before_close (mpc c') = before_close (mpc c)" by (simp add: c' before_close_def)
  show ?thesis
  proof (rule pf_goodI)
    have "WWaitMore \<in> set ?ws \<Longrightarrow> int (length xs) \<le> woken ?ws"
      using waits sums(3) qk occ by (fastforce simp: pf_queue_ok_def)
    moreover have "mpc c' = MPutWoken \<Longrightarrow> length xs < pqsize q'"
      using qk occ sz by (auto simp: c' pf_queue_ok_def split: if_splits)
    moreover have "mpc c' \<noteq> MPutWait" "pq c' = q'" "wpcs c' = ?ws" by (simp_all add: c')
    ultimately show "pf_queue_ok c'"
      using qk q' bc by (simp add: pf_queue_ok_def)
    have "pf_threads_ok ?c1"
      by (rule pf_threads_upd [OF th i]) (use pc list th in \<open>auto simp: pf_threads_ok_def\<close>)
    from mpc_less [OF this] show "pf_threads_ok c'" by (simp add: c')
    show "pf_work_ok scan paths g0 c'" using wk list q'(4) sums(1) by (simp add: c' pf_work_ok_def)
    show "pf_measure c' < pf_measure c" using occ q'(5) sums(2) by (simp add: c' pf_measure_def)
  qed
qed

lemma worker_get_good:
  assumes inv: "pf_inv scan paths g0 c" and i: "i < length (wpcs c)" and pc: "wpcs c ! i = WGet \<or> wpcs c ! i = WWoken"
    and step: "worker_step scan ch i c = Some c'"
  shows "pf_good scan paths g0 c c'"
proof -
  have qk: "pf_queue_ok c" and th: "pf_threads_ok c" and wk: "pf_work_ok scan paths g0 c" using inv by (simp_all add: pf_inv_def)
  have q: "pq_ok (length (wpcs c) + 8) (pq c)" "mtx (pq c) = None" using qk by (simp_all add: pf_queue_ok_def)
  show ?thesis
  proof (cases "pq_list (pq c)")
    case (Cons x xs)
    from get_item [OF q Cons, of "i + 1"] obtain q' where
      q': "pq_ok (length (wpcs c) + 8) q'" "mtx q' = None" "pclosed q' = pclosed (pq c)" "pq_list q' = xs"
        "occupied q' = length xs" "signals q' = signals (pq c) @ [SignalLess]"
      and get: "pqueue_get (i + 1) (pq c) = PQRet (1, x) q'" "pqueue_get_woken (i + 1) (pq c) = PQRet (1, x) q'" .
    have "get_result ch i c (PQRet (1, x) q') = Some c'" using step pc get by (auto simp: worker_step_def)
    from worker_item_good [OF inv i pc Cons q' this] show ?thesis .
  next
    case Nil
    let ?v = "if pclosed (pq c) then WFinish else WWaitMore"
    let ?c = "c\<lparr>pq := (pq c)\<lparr>mtx := None\<rparr>, wpcs := (wpcs c)[i := ?v]\<rparr>"
    have c': "c' = ?c"
      using step pc get_empty [OF q(2) Nil, of "i + 1"] by (auto simp: worker_step_def signals_of_def split: if_splits)
    have occ: "occupied (pq c) = 0" using length_pq_list [of "pq c"] Nil by simp
    have bc: "pclosed (pq c) \<longleftrightarrow> \<not> before_close (mpc c)" using qk by (simp add: pf_queue_ok_def)
    have sums: "busy ((wpcs c)[i := ?v]) = busy (wpcs c)" "weight ((wpcs c)[i := ?v]) < weight (wpcs c)"
      using busy_upd [OF i, of ?v] weight_upd [OF i, of ?v] pc by (auto simp: worker_fns)
    show ?thesis unfolding c'
    proof (rule pf_goodI)
      show "pf_queue_ok ?c" using qk occ woken_nonneg [of "(wpcs c)[i := ?v]"] by (auto simp: pf_queue_ok_def pq_ok_def)
      show "pf_threads_ok ?c"
        by (rule pf_threads_upd [OF th i]) (use pc bc Nil in \<open>auto split: if_splits\<close>)
      show "pf_work_ok scan paths g0 ?c" using wk sums(1) by (simp add: pf_work_ok_def)
      show "pf_measure ?c < pf_measure c" using sums(2) by (simp add: pf_measure_def)
    qed
  qed
qed

lemma scan_all_snoc: "scan_all scan (xs @ [x]) g = do { g \<leftarrow> scan_all scan xs g; (r, g) \<leftarrow> scan x g; Some g }"
proof (induction xs arbitrary: g)
  case Nil
  then show ?case by (cases "scan x g") auto
next
  case (Cons y ys)
  then show ?case by (cases "scan y g") auto
qed

lemma worker_scan_good:
  assumes inv: "pf_inv scan paths g0 c" and i: "i < length (wpcs c)" and pc: "wpcs c ! i = WScan x"
    and step: "worker_step scan ch i c = Some c'"
  shows "pf_good scan paths g0 c c'"
proof -
  have qk: "pf_queue_ok c" and th: "pf_threads_ok c" and wk: "pf_work_ok scan paths g0 c" using inv by (simp_all add: pf_inv_def)
  let ?ws = "(wpcs c)[i := WGet]"
  obtain r g where g: "scan x (glob c) = Some (r, g)" and c': "c' = c\<lparr>glob := g, slog := slog c @ [x], wpcs := ?ws\<rparr>"
    using step pc by (auto simp: worker_step_def split: bind_splits)
  have sums: "busy (wpcs c) = busy ?ws + {#x#}" "weight ?ws < weight (wpcs c)" "woken ?ws = woken (wpcs c)"
    using busy_upd [OF i, of WGet] weight_upd [OF i, of WGet] woken_upd [OF i, of WGet] pc by (auto simp: worker_fns)
  have "wpcs c ! i \<noteq> WDone" using pc by simp
  then have run: "\<forall>r. mpc c \<noteq> MDone r"
    using th alive_zero(2) [of "wpcs c" "wpcs c ! i"] i by (auto simp: pf_threads_ok_def)
  have waits: "WWaitMore \<in> set ?ws \<Longrightarrow> WWaitMore \<in> set (wpcs c)" using in_set_upd [OF i] by blast
  show ?thesis
  proof (rule pf_goodI)
    show "pf_queue_ok c'" using qk waits sums(3) by (simp add: c' pf_queue_ok_def)
    have "pf_threads_ok (c\<lparr>pq := pq c, wpcs := ?ws\<rparr>)"
      by (rule pf_threads_upd [OF th i]) (use pc th in \<open>auto simp: pf_threads_ok_def\<close>)
    then show "pf_threads_ok c'" using run by (auto simp: c' pf_threads_ok_def)
    show "pf_work_ok scan paths g0 c'" using wk g sums(1) by (simp add: c' pf_work_ok_def scan_all_snoc)
    show "pf_measure c' < pf_measure c" using sums(2) by (simp add: c' pf_measure_def)
  qed
qed

lemma worker_finish_good:
  assumes inv: "pf_inv scan paths g0 c" and i: "i < length (wpcs c)" and pc: "wpcs c ! i = WFinish"
    and step: "worker_step scan ch i c = Some c'"
  shows "pf_good scan paths g0 c c'"
proof -
  have qk: "pf_queue_ok c" and th: "pf_threads_ok c" and wk: "pf_work_ok scan paths g0 c" using inv by (simp_all add: pf_inv_def)
  let ?ws = "(wpcs c)[i := WDone]" and ?p = "if mpc c = MWaitCv then MWait else mpc c"
  have c': "c' = c\<lparr>aworkers := aworkers c - 1, wpcs := ?ws, mpc := ?p\<rparr>"
    using step pc by (simp add: worker_step_def)
  have sums: "busy ?ws = busy (wpcs c)" "weight ?ws = weight (wpcs c) - 2" "alive ?ws = alive (wpcs c) - 1"
    using busy_upd [OF i, of WDone] weight_upd [OF i, of WDone] alive_upd [OF i, of WDone] pc by (auto simp: worker_fns)
  have mem: "WFinish \<in> set (wpcs c)" using pc i by (metis nth_mem)
  have t: "0 < length (wpcs c)" "aworkers c = alive (wpcs c)" "\<not> before_close (mpc c)" "todo c = []"
      "WWaitMore \<notin> set (wpcs c)" "pq_list (pq c) = []"
    using th mem unfolding pf_threads_ok_def by blast+
  have "alive (wpcs c) \<noteq> 0" using alive_zero(2) [of "wpcs c" WFinish] mem by auto
  then have run: "\<forall>j. ?p \<noteq> MJoin j" "\<forall>r. ?p \<noteq> MDone r" using th t(2) by (auto simp: pf_threads_ok_def)
  have waits: "WWaitMore \<notin> set ?ws" using t(5) in_set_upd [OF i, of WWaitMore WDone] by auto
  have bc: "\<not> before_close ?p" using t(3) by (simp add: before_close_def)
  then have p: "?p \<noteq> MPutWait" "?p \<noteq> MPutWoken" "?p \<noteq> MWaitCv" by (auto simp: before_close_def)
  show ?thesis unfolding c'
  proof (rule pf_goodI)
    show "pf_queue_ok (c\<lparr>aworkers := aworkers c - 1, wpcs := ?ws, mpc := ?p\<rparr>)"
      using qk waits t(3) bc p unfolding pf_queue_ok_def by simp
    show "pf_threads_ok (c\<lparr>aworkers := aworkers c - 1, wpcs := ?ws, mpc := ?p\<rparr>)"
      using t waits bc p run sums(3) unfolding pf_threads_ok_def by simp
    show "pf_work_ok scan paths g0 (c\<lparr>aworkers := aworkers c - 1, wpcs := ?ws, mpc := ?p\<rparr>)"
      using wk sums(1) by (simp add: pf_work_ok_def)
    show "pf_measure (c\<lparr>aworkers := aworkers c - 1, wpcs := ?ws, mpc := ?p\<rparr>) < pf_measure c"
      using sums(2) by (simp add: pf_measure_def)
  qed
qed

lemma pf_step_good: "pf_inv scan paths g0 c \<Longrightarrow> pf_step scan c c' \<Longrightarrow> pf_good scan paths g0 c c'"
proof (erule pf_step.cases)
  fix ch d d' assume "pf_inv scan paths g0 c" "c = d" "c' = d'" "main_step ch d = Some d'"
  then show ?thesis by (simp add: main_step_good)
next
  fix i ch d d' assume *: "pf_inv scan paths g0 c" "c = d" "c' = d'" "i < length (wpcs d)" "worker_step scan ch i d = Some d'"
  then show ?thesis
    using worker_get_good [of scan paths g0 c i ch c'] worker_scan_good [of scan paths g0 c i _ ch c']
      worker_finish_good [of scan paths g0 c i ch c']
    by (cases "wpcs c ! i") (auto simp: worker_step_def)
qed

lemma pf_init_inv: "0 < n \<Longrightarrow> pf_inv scan paths g (pf_init n paths g)"
proof -
  assume n: "0 < n"
  have a: "alive (replicate n WGet) = int n" by (induction n) (simp_all add: alive_def is_alive_def)
  have b: "busy (replicate n WGet) = {#}" by (induction n) (simp_all add: busy_def items_def)
  have "pq_ok (n + 8) (snd (pqueue_init True (n + 8) blank_q))" by (rule pq_init_ok) simp
  then show ?thesis using n a b pq_init_ok(2) [of "n + 8" blank_q]
    by (simp add: pf_inv_defs pf_init_def pqueue_init_def)
qed

section \<open>No deadlock\<close>

lemma busy_mem: "WScan x \<in> set ws \<Longrightarrow> x \<in># busy ws"
  by (induction ws) (auto simp: busy_def items_def)

lemma worker_enabled:
  assumes inv: "pf_inv scan paths g0 c" and scan: "\<And>x g. x \<in> set paths \<Longrightarrow> scan x g \<noteq> None"
    and i: "i < length (wpcs c)" and pc: "wpcs c ! i \<noteq> WWaitMore" "wpcs c ! i \<noteq> WDone"
  shows "\<exists>c'. pf_step scan c c'"
proof -
  have q: "pq_ok (length (wpcs c) + 8) (pq c)" "mtx (pq c) = None" using inv by (simp_all add: pf_inv_def pf_queue_ok_def)
  have less: "\<exists>d'. deliver 0 [SignalLess] d = Some d'" for d by simp
  have get: "\<exists>c'. get_result 0 i c (pqueue_get (i + 1) (pq c)) = Some c'" "\<exists>c'. get_result 0 i c (pqueue_get_woken (i + 1) (pq c)) = Some c'"
  proof -
    have "(\<exists>c'. get_result 0 i c (pqueue_get (i + 1) (pq c)) = Some c') \<and> (\<exists>c'. get_result 0 i c (pqueue_get_woken (i + 1) (pq c)) = Some c')"
    proof (cases "pq_list (pq c)")
      case Nil
      then show ?thesis using get_empty [OF q(2) Nil] by (simp add: signals_of_def)
    next
      case (Cons x xs)
      from get_item [OF q Cons, of "i + 1"] obtain q' where "signals q' = signals (pq c) @ [SignalLess]"
        "pqueue_get (i + 1) (pq c) = PQRet (1, x) q'" "pqueue_get_woken (i + 1) (pq c) = PQRet (1, x) q'" by blast
      then show ?thesis using less by (simp add: signals_of_def)
    qed
    then show "\<exists>c'. get_result 0 i c (pqueue_get (i + 1) (pq c)) = Some c'" "\<exists>c'. get_result 0 i c (pqueue_get_woken (i + 1) (pq c)) = Some c'"
      by blast+
  qed
  have "\<exists>c'. worker_step scan 0 i c = Some c'"
  proof (cases "wpcs c ! i")
    case (WScan x)
    then have "x \<in># busy (wpcs c)" using i busy_mem by (metis nth_mem)
    moreover have "mset paths = mset (slog c) + busy (wpcs c) + mset (pq_list (pq c)) + mset (todo c)"
      using inv by (simp add: pf_inv_def pf_work_ok_def)
    ultimately have "x \<in># mset paths" by simp
    then have "x \<in> set paths" by simp
    then obtain r g where "scan x (glob c) = Some (r, g)" using scan [of x "glob c"] by (cases "scan x (glob c)") auto
    with WScan show ?thesis by (simp add: worker_step_def)
  qed (use get pc in \<open>auto simp: worker_step_def\<close>)
  then show ?thesis using i pf_worker by blast
qed

lemma woken_none: "WWoken \<notin> set ws \<Longrightarrow> woken ws = 0"
  by (induction ws) (auto simp: woken_def is_woken_def)

lemma all_done: "set ws \<subseteq> {WDone} \<Longrightarrow> alive ws = 0"
  by (induction ws) (auto simp: alive_def is_alive_def)

lemma busy_done: "set ws \<subseteq> {WDone} \<Longrightarrow> busy ws = {#}"
  by (induction ws) (auto simp: busy_def items_def)

lemma main_put_enabled:
  assumes inv: "pf_inv scan paths g0 c" and pc: "mpc c = MPut \<or> mpc c = MPutWoken"
  shows "\<exists>c'. pf_step scan c c'"
proof -
  have qk: "pf_queue_ok c" and th: "pf_threads_ok c" using inv by (simp_all add: pf_inv_def)
  have "before_close (mpc c)" using pc by (auto simp: before_close_def)
  then have q: "pq_ok (length (wpcs c) + 8) (pq c)" "mtx (pq c) = None" "\<not> pclosed (pq c)"
    using qk by (simp_all add: pf_queue_ok_def)
  have more: "\<exists>ch d'. deliver ch [SignalMore] d = Some d'" for d
  proof (cases "WWaitMore \<in> set (wpcs d)")
    case True
    then obtain ch where "ch < length (wpcs d)" "wpcs d ! ch = WWaitMore" by (auto simp: in_set_conv_nth)
    with True show ?thesis by (intro exI [of _ ch]) simp
  qed simp
  have "\<exists>ch c'. main_step ch c = Some c'"
  proof (cases "todo c")
    case Nil
    then have "mpc c = MPut" using pc th by (auto simp: pf_threads_ok_def)
    then show ?thesis using Nil q(2) by (simp add: main_step_def pqueue_close_def signals_of_def)
  next
    case (Cons x xs)
    show ?thesis
    proof (cases "occupied (pq c) < pqsize (pq c)")
      case True
      from put_room [OF q True, of x 0] obtain q' where "signals q' = signals (pq c) @ [SignalMore]"
        and put: "pqueue_put 0 (pq c) x = PQRet 1 q'" "pqueue_put_woken 0 (pq c) x = PQRet 1 q'" by blast
      moreover obtain ch d where "deliver ch [SignalMore] (c\<lparr>pq := q', todo := xs, mpc := MPut\<rparr>) = Some d" using more by blast
      ultimately have "main_step ch c = Some d" using pc Cons by (auto simp: main_step_def signals_of_def)
      then show ?thesis by blast
    next
      case False
      then have "mpc c = MPut" using pc qk by (auto simp: pf_queue_ok_def)
      then show ?thesis using False put_full [OF q(2,3)] Cons by (simp add: main_step_def)
    qed
  qed
  then show ?thesis using pf_main by blast
qed

lemma pf_progress:
  assumes inv: "pf_inv scan paths g0 c" and scan: "\<And>x g. x \<in> set paths \<Longrightarrow> scan x g \<noteq> None"
    and stuck: "\<not> (\<exists>c'. pf_step scan c c')"
  shows "\<exists>r. mpc c = MDone r"
proof -
  have qk: "pf_queue_ok c" and th: "pf_threads_ok c" using inv by (simp_all add: pf_inv_def)
  have ws: "w = WWaitMore \<or> w = WDone" if "w \<in> set (wpcs c)" for w
    using that worker_enabled [OF inv scan] stuck by (metis in_set_conv_nth)
  have no_main: "main_step ch c = None" for ch using stuck pf_main by (metis not_None_eq)
  show ?thesis
  proof (cases "mpc c")
    case MPutWait
    then have "WDone \<notin> set (wpcs c)" "0 < length (wpcs c)" using th by (simp_all add: pf_threads_ok_def before_close_def)
    then have "WWaitMore \<in> set (wpcs c)" using ws by (metis length_greater_0_conv list.set_sel(1))
    moreover have "woken (wpcs c) = 0" using ws by (intro woken_none) blast
    moreover have "occupied (pq c) = length (wpcs c) + 8" using MPutWait qk by (simp add: pf_queue_ok_def pq_ok_def)
    ultimately show ?thesis using qk by (simp add: pf_queue_ok_def)
  next
    case MWaitCv
    then have "WWaitMore \<notin> set (wpcs c)" "alive (wpcs c) > 0" using th by (simp_all add: pf_threads_ok_def before_close_def)
    moreover have "set (wpcs c) \<subseteq> {WDone}" using ws calculation(1) by blast
    ultimately show ?thesis using all_done [of "wpcs c"] by simp
  next
    case (MJoin j)
    then have "alive (wpcs c) = 0" using th by (simp add: pf_threads_ok_def)
    then have "wpcs c ! j = WDone" if "j < length (wpcs c)" using alive_zero(2) that by (metis nth_mem)
    then show ?thesis using no_main [of 0] MJoin by (auto simp: main_step_def split: if_splits)
  next
    case MWait
    then show ?thesis using no_main [of 0] by (simp add: main_step_def)
  qed (use main_put_enabled [OF inv] stuck in auto)
qed

section \<open>Whole runs\<close>

text \<open>A schedule names for every step the thread, \<open>None\<close> for \<^verbatim>\<open>main\<close>, and the worker that a signal wakes.\<close>

definition pf_exec :: "(ptr \<Rightarrow> pfstate \<Rightarrow> (int \<times> pfstate) option) \<Rightarrow> nat option \<times> nat \<Rightarrow> pfcfg \<Rightarrow> pfcfg option" where
  "pf_exec scan s c =
     (case fst s of
        None \<Rightarrow> main_step (snd s) c
      | Some i \<Rightarrow> if i < length (wpcs c) then worker_step scan (snd s) i c else None)"

fun pf_run :: "(ptr \<Rightarrow> pfstate \<Rightarrow> (int \<times> pfstate) option) \<Rightarrow> (nat option \<times> nat) list \<Rightarrow> pfcfg \<Rightarrow> pfcfg option" where
  "pf_run scan [] c = Some c"
| "pf_run scan (s # ss) c = do { c \<leftarrow> pf_exec scan s c; pf_run scan ss c }"

lemma pf_exec_step: "pf_exec scan s c = Some c' \<Longrightarrow> pf_step scan c c'"
  by (auto simp: pf_exec_def split: option.splits if_splits intro: pf_step.intros)

lemma pf_step_exec: "pf_step scan c c' \<Longrightarrow> \<exists>s. pf_exec scan s c = Some c'"
proof (erule pf_step.cases)
  fix ch d d' assume "c = d" "c' = d'" "main_step ch d = Some d'"
  then show ?thesis by (intro exI [of _ "(None, ch)"]) (simp add: pf_exec_def)
next
  fix i ch d d' assume "c = d" "c' = d'" "i < length (wpcs d)" "worker_step scan ch i d = Some d'"
  then show ?thesis by (intro exI [of _ "(Some i, ch)"]) (simp add: pf_exec_def)
qed

lemma pf_run_inv:
  "pf_inv scan paths g0 c \<Longrightarrow> pf_run scan ss c = Some c' \<Longrightarrow>
    pf_inv scan paths g0 c' \<and> int (length ss) + pf_measure c' \<le> pf_measure c"
proof (induction ss arbitrary: c)
  case (Cons s ss)
  then obtain d where d: "pf_exec scan s c = Some d" "pf_run scan ss d = Some c'" by (auto split: bind_splits)
  then have "pf_good scan paths g0 c d" using Cons.prems(1) pf_exec_step pf_step_good by blast
  then show ?case using Cons.IH [of d] d(2) by (auto simp: pf_good_def)
qed simp

lemma pf_measure_nonneg: "pf_inv scan paths g0 c \<Longrightarrow> 0 \<le> pf_measure c"
  using weight_nonneg [of "wpcs c"] by (cases "mpc c") (auto simp: pf_measure_def pf_inv_def pf_threads_ok_def)

lemma pf_init_measure: "pf_measure (pf_init n paths g) = 5 * int (length paths) + 6 * int n + 5"
proof -
  have "weight (replicate n WGet) = 4 * int n" by (induction n) (simp_all add: weight_def wweight_def)
  then show ?thesis by (simp add: pf_measure_def pf_init_def pqueue_init_def)
qed

text \<open>A run is bounded, and where it can go no further the program has returned.\<close>

lemma pf_run_completes:
  assumes n: "0 < n" and scan: "\<And>x g. x \<in> set paths \<Longrightarrow> scan x g \<noteq> None"
    and run: "pf_run scan ss (pf_init n paths g) = Some c"
  shows "int (length ss) \<le> 5 * int (length paths) + 6 * int n + 5"
    and "(\<And>s. pf_exec scan s c = None) \<Longrightarrow>
      \<exists>order. mset order = mset paths \<and> scan_all scan order g = Some (glob c) \<and> mpc c = MDone (n_matches (glob c))"
proof -
  from pf_run_inv [OF pf_init_inv [OF n] run] have inv: "pf_inv scan paths g c"
    and m: "int (length ss) + pf_measure c \<le> 5 * int (length paths) + 6 * int n + 5"
    by (simp_all add: pf_init_measure)
  show "int (length ss) \<le> 5 * int (length paths) + 6 * int n + 5" using m pf_measure_nonneg [OF inv] by simp
  assume "\<And>s. pf_exec scan s c = None"
  then have "\<not> (\<exists>c'. pf_step scan c c')" using pf_step_exec by fastforce
  from pf_progress [OF inv scan this] obtain r where r: "mpc c = MDone r" by blast
  then have th: "alive (wpcs c) = 0" "r = n_matches (glob c)" "todo c = []" "0 < length (wpcs c)"
    "WDone \<in> set (wpcs c) \<longrightarrow> pq_list (pq c) = []"
    using inv by (simp_all add: pf_inv_def pf_threads_ok_def before_close_def)
  have all_d: "\<And>w. w \<in> set (wpcs c) \<Longrightarrow> w = WDone" using alive_zero(2) [OF th(1)] .
  then have "busy (wpcs c) = {#}" by (intro busy_done) blast
  moreover have "pq_list (pq c) = []" using th(4,5) all_d by (metis length_greater_0_conv list.set_sel(1))
  ultimately have "mset (slog c) = mset paths \<and> scan_all scan (slog c) g = Some (glob c)"
    using inv th(3) by (simp add: pf_inv_def pf_work_ok_def)
  with r th(2) show "\<exists>order. mset order = mset paths \<and> scan_all scan order g = Some (glob c) \<and> mpc c = MDone (n_matches (glob c))"
    by blast
qed

section \<open>The exit status of pfscan\<close>

text \<open>The number of occurrences in a file; 0 when a system call fails.  Documented behaviour of
  \<^verbatim>\<open>mmap\<close>: the mapping has the requested length.\<close>

definition file_matches :: "(byte \<Rightarrow> byte) \<Rightarrow> bool \<Rightarrow> byte list \<Rightarrow> file_env \<Rightarrow> nat" where
  "file_matches lower ic x env =
     (case (open_res env, fstat_res env, mmap_res env) of
        (Ok fd, Ok len, Ok buf) \<Rightarrow> length (occurrences (fold_case lower ic) (map (fold_case lower ic) x) buf len 0)
      | _ \<Rightarrow> 0)"

definition mapped_ok :: "file_env \<Rightarrow> bool" where
  "mapped_ok env = (case (fstat_res env, mmap_res env) of (Ok len, Ok buf) \<Rightarrow> 0 \<le> len \<and> len \<le> int (length buf) | _ \<Rightarrow> True)"

lemma scan_file_count:
  assumes "bm_ready lower x (ignore_case opt) bmb" "x \<noteq> []" "mapped_ok env"
  shows "\<exists>r st'. scan_file lower printable opt (Some x) bmb env path st = Some (r, st')
    \<and> n_matches st' = n_matches st + int (file_matches lower (ignore_case opt) x env)"
proof (cases "\<exists>fd len buf. open_res env = Ok fd \<and> fstat_res env = Ok len \<and> mmap_res env = Ok buf")
  case True
  then obtain fd len buf where e: "open_res env = Ok fd" "fstat_res env = Ok len" "mmap_res env = Ok buf" by blast
  with assms(3) have "len \<le> int (length buf)" by (simp add: mapped_ok_def)
  from bm_search_reports [OF assms(1,2) this, of printable opt path] obtain lines code where
    b: "\<And>st. bm_search lower bmb buf len (Some (matchfun printable opt path)) st
      = Some (code, st\<lparr>n_matches := n_matches st + int (length (occurrences (fold_case lower (ignore_case opt))
          (map (fold_case lower (ignore_case opt)) x) buf len 0)), out := out st @ concat lines\<rparr>)" by blast
  show ?thesis by (simp add: scan_file_def file_matches_def e b Let_def)
next
  case False
  then show ?thesis
    by (cases "open_res env"; cases "fstat_res env"; cases "mmap_res env")
      (auto simp: scan_file_def scan_error_def file_matches_def Let_def)
qed

lemma scan_all_count:
  assumes "\<And>x g. x \<in> set xs \<Longrightarrow> \<exists>r g'. scan x g = Some (r, g') \<and> n_matches g' = n_matches g + int (m x)"
    and "scan_all scan xs g = Some g'"
  shows "n_matches g' = n_matches g + int (\<Sum>x\<leftarrow>xs. m x)"
  using assms
proof (induction xs arbitrary: g)
  case (Cons x xs)
  then obtain r g1 where "scan x g = Some (r, g1)" "n_matches g1 = n_matches g + int (m x)" by fastforce
  with Cons show ?case by simp
qed simp

definition pf_scan :: "(byte \<Rightarrow> byte) \<Rightarrow> (byte \<Rightarrow> bool) \<Rightarrow> pfopts \<Rightarrow> byte list \<Rightarrow> BM \<Rightarrow> (ptr \<Rightarrow> file_env) \<Rightarrow> (ptr \<Rightarrow> string)
    \<Rightarrow> ptr \<Rightarrow> pfstate \<Rightarrow> (int \<times> pfstate) option" where
  "pf_scan lower printable opt x bmb env path p st = scan_file lower printable opt (Some x) bmb (env p) (path p) st"


text \<open>A run of one worker on one file that contains \<open>aba\<close> twice, to its end.\<close>

definition demo_env :: "ptr \<Rightarrow> file_env" where
  "demo_env p = \<lparr>open_res = Ok 3, fstat_res = Ok 6, mmap_res = Ok [99, 97, 98, 97, 98, 97]\<rparr>"

definition demo_sched :: "(nat option \<times> nat) list" where
  "demo_sched = [(None, 0), (Some 0, 0), (None, 0), (Some 0, 0), (Some 0, 0), (None, 0), (Some 0, 0), (None, 0), (None, 0), (None, 0)]"

lemma demo_end:
  assumes "\<And>st. \<exists>L. scan 7 st = Some (1, st\<lparr>n_matches := n_matches st + 2, out := out st @ L\<rparr>)"
  shows "\<exists>c. pf_run scan demo_sched (pf_init 1 [7] pf_blank) = Some c \<and> wpcs c = [WDone] \<and> (\<exists>r. mpc c = MDone r)"
proof -
  obtain L where L: "scan 7 pf_blank = Some (1, pf_blank\<lparr>n_matches := n_matches pf_blank + 2, out := out pf_blank @ L\<rparr>)"
    using assms [of pf_blank] by blast
  show ?thesis
    by (simp add: demo_sched_def pf_init_def pf_exec_def main_step_def worker_step_def pqueue_init_def pqueue_put_def
      pqueue_put_loop_def pqueue_close_def pqueue_get_def pqueue_get_loop_def blank_q_def signals_of_def wake_all_def L Let_def)
qed


text \<open>
  The option \<open>-n0\<close> is accepted, and then pfscan hangs on more than eight files: with no worker there
  is a run in which \<^verbatim>\<open>main\<close> waits on the full queue and no thread can move.
\<close>

theorem pfscan_no_workers_hangs:
  assumes "8 < length paths"
  shows "\<exists>ss c. pf_run scan ss (pf_init 0 paths g) = Some c \<and> mpc c = MPutWait \<and> (\<forall>s. pf_exec scan s c = None)"
proof -
  have put: "\<exists>c'. main_step 0 c = Some c' \<and> wpcs c' = [] \<and> pq_ok 8 (pq c') \<and> mtx (pq c') = None \<and> \<not> pclosed (pq c')
      \<and> mpc c' = MPut \<and> todo c' = tl (todo c) \<and> occupied (pq c') = occupied (pq c) + 1"
    if "wpcs c = []" "pq_ok 8 (pq c)" "mtx (pq c) = None" "\<not> pclosed (pq c)" "mpc c = MPut" "todo c \<noteq> []" "occupied (pq c) < 8" for c
  proof -
    from that(6) obtain x xs where t: "todo c = x # xs" by (cases "todo c") auto
    have "occupied (pq c) < pqsize (pq c)" using that(2,7) by (simp add: pq_ok_def)
    from put_room [OF that(2-4) this, of x 0] obtain q' where "pq_ok 8 q'" "mtx q' = None" "\<not> pclosed q'"
      "occupied q' = occupied (pq c) + 1" "signals q' = signals (pq c) @ [SignalMore]" "pqueue_put 0 (pq c) x = PQRet 1 q'" by metis
    then show ?thesis using that(1,5) t by (simp add: main_step_def signals_of_def)
  qed
  have fill: "\<exists>ss c'. pf_run scan ss c = Some c' \<and> mpc c' = MPutWait \<and> wpcs c' = []"
    if "wpcs c = []" "pq_ok 8 (pq c)" "mtx (pq c) = None" "\<not> pclosed (pq c)" "mpc c = MPut" "8 < occupied (pq c) + length (todo c)" for c
    using that
  proof (induction "length (todo c)" arbitrary: c)
    case 0
    then show ?case by (simp add: pq_ok_def pq_wf_def)
  next
    case (Suc k)
    then obtain x xs where t: "todo c = x # xs" by (cases "todo c") auto
    show ?case
    proof (cases "occupied (pq c) < 8")
      case True
      with put [of c] Suc.prems t obtain c1 where c1: "main_step 0 c = Some c1" "wpcs c1 = []" "pq_ok 8 (pq c1)" "mtx (pq c1) = None"
        "\<not> pclosed (pq c1)" "mpc c1 = MPut" "todo c1 = xs" "occupied (pq c1) = occupied (pq c) + 1" by auto
      with Suc.hyps(1) [of c1] Suc.hyps(2) Suc.prems t obtain ss c' where
        "pf_run scan ss c1 = Some c' \<and> mpc c' = MPutWait \<and> wpcs c' = []" by auto
      then show ?thesis using c1(1) by (intro exI [of _ "(None, 0) # ss"]) (simp add: pf_exec_def)
    next
      case False
      then have "main_step 0 c = Some (c\<lparr>pq := (pq c)\<lparr>mtx := None\<rparr>, mpc := MPutWait\<rparr>)"
        using Suc.prems t put_full [of "pq c" 0 x] by (simp add: main_step_def pq_ok_def)
      then show ?thesis using Suc.prems(1) by (intro exI [of _ "[(None, 0)]"]) (simp add: pf_exec_def)
    qed
  qed
  have "pq_ok 8 (snd (pqueue_init True (0 + 8) blank_q))" by (simp add: pq_init_ok)
  then obtain ss c where c: "pf_run scan ss (pf_init 0 paths g) = Some c" "mpc c = MPutWait" "wpcs c = []"
    using fill [of "pf_init 0 paths g"] assms by (auto simp: pf_init_def pqueue_init_def)
  then have "\<forall>s. pf_exec scan s c = None" by (auto simp: pf_exec_def main_step_def split: option.splits)
  with c show ?thesis by blast
qed

theorem pfscan_no_workers_hangs_witness:
  "\<exists>ss c. pf_run (\<lambda>x g. Some (1, g)) ss (pf_init 0 [1, 2, 3, 4, 5, 6, 7, 8, 9] pf_blank) = Some c \<and> mpc c = MPutWait
    \<and> (\<forall>s. pf_exec (\<lambda>x g. Some (1, g)) s c = None)"
  by (rule pfscan_no_workers_hangs) simp

end
