(* ===== verification/AgetUrl.thy ===== *)
theory AgetUrl
  imports CText
begin

text \<open>
  The URL of aget: \<^verbatim>\<open>parse_url\<close> and \<^verbatim>\<open>revstr\<close> of \<^verbatim>\<open>papps/aget-devel/Misc.c\<close> on the request of
  \<^verbatim>\<open>Data.h\<close>.  The arrays of the request have the sizes of \<^verbatim>\<open>Defs.h\<close>, pointers into the URL are
  indices, and accesses are checked.  A call has three outcomes: \<open>None\<close>, an access outside an
  array or a loop that does not end; \<open>Some (Inl c)\<close>, the call of \<^verbatim>\<open>exit(c)\<close>; \<open>Some (Inr v)\<close>, a
  result.
\<close>

section \<open>Data\<close>

definition MAXHOSTSIZ :: int where "MAXHOSTSIZ = 1024"

definition MAXURLSIZ :: int where "MAXURLSIZ = 1024"

definition MAXBUFSIZ :: int where "MAXBUFSIZ = 8192"

definition PROTO_HTTP :: int where "PROTO_HTTP = 255"

definition PROTO_FTP :: int where "PROTO_FTP = 0"

record request =
  host :: string
  url :: string
  rfile :: string
  lfile :: string
  ip :: string
  username :: string
  password :: string
  port :: int
  ftp_server_type :: int
  clength :: int
  proto :: int
  time_taken :: int

type_synonym 'a proc = "(int + 'a) option"

definition pbind :: "'a proc \<Rightarrow> ('a \<Rightarrow> 'b proc) \<Rightarrow> 'b proc" where
  "pbind m f = (case m of None \<Rightarrow> None | Some (Inl e) \<Rightarrow> Some (Inl e) | Some (Inr x) \<Rightarrow> f x)"

abbreviation pret :: "'a option \<Rightarrow> 'a proc" where
  "pret m \<equiv> map_option Inr m"

lemma pbind_simps [simp]: "pbind None f = None" "pbind (Some (Inl e)) f = Some (Inl e)" "pbind (Some (Inr x)) f = f x"
  by (simp_all add: pbind_def)

text \<open>The request that \<^verbatim>\<open>calloc\<close> returns.\<close>

definition blank_req :: request where
  "blank_req = \<lparr>host = replicate 1024 NUL, url = replicate 1024 NUL, rfile = replicate 8192 NUL, lfile = replicate 8192 NUL,
     ip = replicate 16 NUL, username = replicate 8192 NUL, password = replicate 8192 NUL, port = 0, ftp_server_type = 0,
     clength = 0, proto = 0, time_taken = 0\<rparr>"

section \<open>The code\<close>

text \<open>The copy \<open>p\<close> of the reversed string, then back into the cleared array.\<close>

definition revstr :: "string \<Rightarrow> string option" where
  "revstr str =
     do { n \<leftarrow> strlen str;
          if n = 0 then Some str
          else do {
            let p = map (\<lambda>i. str ! (i - 1)) (rev [1..<n + 1]);
            let str = replicate n NUL @ drop n str;
            strncpy str p n } }"

text \<open>The loops of the branch for \<open>user:password@\<close>.\<close>

function user_loop :: "string \<Rightarrow> int \<Rightarrow> int \<Rightarrow> int \<Rightarrow> string \<Rightarrow> (int \<times> int \<times> int \<times> string) option" where
  "user_loop u i s j user =
     do { c \<leftarrow> rd u s;
          if c \<noteq> CHR ''/'' then
            do { c \<leftarrow> rd u (s - 1); user \<leftarrow> wr user j c; user_loop u (i - 1) (s - 1) (j + 1) user }
          else Some (i, s, j, user) }"
  by pat_completeness auto
termination
  by (relation "measure (\<lambda>(u, i, s, j, user). nat (s + 1))") (auto simp: rd_def split: if_splits)

function seek :: "char \<Rightarrow> string \<Rightarrow> int \<Rightarrow> int option" where
  "seek ch u s = do { c \<leftarrow> rd u s; if c \<noteq> ch then seek ch u (s + 1) else Some s }"
  by pat_completeness auto
termination
  by (relation "measure (\<lambda>(ch, u, s). nat (int (length u) - s))") (auto simp: rd_def split: if_splits)

function pass_loop :: "string \<Rightarrow> int \<Rightarrow> int \<Rightarrow> string \<Rightarrow> (int + int \<times> int \<times> string) option" where
  "pass_loop u s k pass =
     do { c \<leftarrow> rd u s;
          if c \<noteq> CHR ''@'' then
            (if k > MAXBUFSIZ then Some (Inl 1)
             else do { c \<leftarrow> rd u (s + 1); pass \<leftarrow> wr pass k c; pass_loop u (s + 1) (k + 1) pass })
          else Some (Inr (s, k, pass)) }"
  by pat_completeness auto
termination
  by (relation "measure (\<lambda>(u, s, k, pass). nat (int (length u) - s))") (auto simp: rd_def split: if_splits)

definition credentials :: "string \<Rightarrow> int \<Rightarrow> int \<Rightarrow> int \<Rightarrow> int \<Rightarrow> request \<Rightarrow> (int \<times> int \<times> int \<times> int \<times> request) proc" where
  "credentials u i s j k r =
     pbind (pret (do { (i, s, j, user) \<leftarrow> user_loop u i s j (username r);
                       user \<leftarrow> wr user (j - 1) NUL;
                       user \<leftarrow> revstr user;
                       s \<leftarrow> seek (CHR '':'') u s;
                       Some (i, s, j - 1, user) }))
       (\<lambda>(i, s, j, user).
          pbind (pass_loop u s k (password r))
            (\<lambda>(s, k, pass). pret (do { pass \<leftarrow> wr pass (k - 1) NUL;
                                       Some (i, s, j, k - 1, r\<lparr>username := user, password := pass\<rparr>) })))"

text \<open>The loop up to the first slash after the protocol.\<close>

partial_function (option) host_loop :: "string \<Rightarrow> int \<Rightarrow> int \<Rightarrow> int \<Rightarrow> int \<Rightarrow> request \<Rightarrow> (int + int \<times> int \<times> request) option" where
  "host_loop u i s j k r =
     do { c \<leftarrow> rd u s;
          if c \<noteq> CHR ''/'' then
            (if i > MAXHOSTSIZ then Some (Inl 1)
             else do {
               x \<leftarrow> (if c = CHR '':'' then credentials u i s j k r else Some (Inr (i, s, j, k, r)));
               (case x of
                  Inl e \<Rightarrow> Some (Inl e)
                | Inr (i, s, j, k, r) \<Rightarrow>
                    do { c \<leftarrow> rd u s;
                         h \<leftarrow> wr (host r) i c;
                         host_loop u (i + 1) (s + 1) j k (r\<lparr>host := h\<rparr>) }) })
          else Some (Inr (i, s, r)) }"

text \<open>The copy of the rest, up to the terminator, and of the file name, backwards to the last slash.\<close>

function path_loop :: "string \<Rightarrow> int \<Rightarrow> int \<Rightarrow> string \<Rightarrow> (int + int \<times> int \<times> string) option" where
  "path_loop u i s a =
     do { c \<leftarrow> rd u s;
          if c \<noteq> NUL then
            (if i > MAXURLSIZ then Some (Inl 1)
             else do { a \<leftarrow> wr a i c; path_loop u (i + 1) (s + 1) a })
          else Some (Inr (i, s, a)) }"
  by pat_completeness auto
termination
  by (relation "measure (\<lambda>(u, i, s, a). nat (int (length u) - s))") (auto simp: rd_def split: if_splits)

function file_loop :: "string \<Rightarrow> int \<Rightarrow> int \<Rightarrow> string \<Rightarrow> (int + int \<times> string) option" where
  "file_loop u i s a =
     do { c \<leftarrow> rd u s;
          if c \<noteq> CHR ''/'' then
            (if i > MAXBUFSIZ then Some (Inl 1)
             else do { a \<leftarrow> wr a i c; file_loop u (i + 1) (s - 1) a })
          else Some (Inr (i, a)) }"
  by pat_completeness auto
termination
  by (relation "measure (\<lambda>(u, i, s, a). nat (s + 1))") (auto simp: rd_def split: if_splits)

declare path_loop.simps [simp del] file_loop.simps [simp del] user_loop.simps [simp del] seek.simps [simp del] pass_loop.simps [simp del]

definition parse_proto :: "string \<Rightarrow> request \<Rightarrow> request proc" where
  "parse_proto u r =
     (if starts ''https://'' u then Some (Inl 1)
      else if starts ''ftp://'' u then Some (Inr (r\<lparr>port := (if port r = 0 then 21 else port r), proto := PROTO_FTP\<rparr>))
      else if starts ''http://'' u then Some (Inr (r\<lparr>port := (if port r = 0 then 80 else port r), proto := PROTO_HTTP\<rparr>))
      else Some (Inl 1))"

definition anonymous :: "string \<Rightarrow> string \<Rightarrow> request \<Rightarrow> request option" where
  "anonymous ftpuser ftppass r =
     do { n \<leftarrow> strlen (username r);
          user \<leftarrow> (if n = 0 then strncpy (username r) ftpuser (nat (MAXBUFSIZ - 2)) else Some (username r));
          n \<leftarrow> strlen (password r);
          pass \<leftarrow> (if n = 0 then strncpy (password r) ftppass (nat (MAXBUFSIZ - 2)) else Some (password r));
          Some (r\<lparr>username := user, password := pass\<rparr>) }"

text \<open>\<^verbatim>\<open>parse_url\<close>; \<open>u\<close> is the URL with its terminator.\<close>

definition parse_url :: "string \<Rightarrow> string \<Rightarrow> string \<Rightarrow> request \<Rightarrow> request proc" where
  "parse_url ftpuser ftppass u r =
     pbind (parse_proto u r) (\<lambda>r.
       if \<not> starts ''http://'' u \<and> proto r = PROTO_HTTP then Some (Inl 1)
       else if \<not> starts ''ftp://'' u \<and> proto r = PROTO_FTP then Some (Inl 1)
       else
         pbind (host_loop u 0 (if proto r = PROTO_HTTP then 7 else 6) 0 0 r) (\<lambda>(i, s, r).
           pbind (pret (wr (host r) i NUL)) (\<lambda>h.
             pbind (path_loop u 0 s (url r)) (\<lambda>(i, s, a).
               pbind (pret (wr a i NUL)) (\<lambda>a.
                 pbind (file_loop u 0 (s - 1) (rfile r)) (\<lambda>(i, f).
                   pret (do { f \<leftarrow> wr f i NUL;
                              f \<leftarrow> revstr f;
                              anonymous ftpuser ftppass (r\<lparr>host := h, url := a, rfile := f\<rparr>) })))))))"

section \<open>The loops\<close>

lemma rd_at: "rd (pre @ c # post) (int (length pre)) = Some c"
  by (simp add: rd_def nth_append)

lemma wr_at: "rs \<noteq> [] \<Longrightarrow> wr (d @ rs) (int (length d)) c = Some ((d @ [c]) @ tl rs)"
  by (cases rs) (simp_all add: wr_def)

lemma host_loop_advance:
  assumes "\<forall>c \<in> set h. c \<noteq> CHR ''/'' \<and> c \<noteq> CHR '':''" "host r = d @ rs" "length h \<le> length rs" "int (length d) + int (length h) \<le> 1024"
  shows "host_loop (pre @ h @ post) (int (length d)) (int (length pre)) j k r
    = host_loop (pre @ h @ post) (int (length d + length h)) (int (length pre + length h)) j k (r\<lparr>host := d @ h @ drop (length h) rs\<rparr>)"
  using assms
proof (induction h arbitrary: d rs pre r)
  case Nil
  have "r\<lparr>host := d @ rs\<rparr> = r" using Nil.prems(2) by simp
  then show ?case by simp
next
  case (Cons c h)
  then have rs: "rs \<noteq> []" by auto
  have r: "rd (pre @ (c # h) @ post) (int (length pre)) = Some c"
    using rd_at [of pre c "h @ post"] by simp
  have w: "wr (host r) (int (length d)) c = Some ((d @ [c]) @ tl rs)" using wr_at [OF rs, of d c] Cons.prems(2) by simp
  have "host_loop (pre @ (c # h) @ post) (int (length d)) (int (length pre)) j k r
      = host_loop ((pre @ [c]) @ h @ post) (int (length (d @ [c]))) (int (length (pre @ [c]))) j k (r\<lparr>host := (d @ [c]) @ tl rs\<rparr>)"
    using r w Cons.prems(1,4) by (subst host_loop.simps) (simp add: MAXHOSTSIZ_def add.commute)
  also have "\<dots> = host_loop ((pre @ [c]) @ h @ post) (int (length (d @ [c]) + length h)) (int (length (pre @ [c]) + length h)) j k
      (r\<lparr>host := (d @ [c]) @ tl rs\<rparr>\<lparr>host := (d @ [c]) @ h @ drop (length h) (tl rs)\<rparr>)"
    using Cons.prems by (intro Cons.IH) auto
  finally show ?case using rs by (simp add: drop_Suc)
qed

lemma host_loop_copies:
  assumes "\<forall>c \<in> set h. c \<noteq> CHR ''/'' \<and> c \<noteq> CHR '':''" "host r = d @ rs" "length h \<le> length rs" "int (length d) + int (length h) \<le> 1024"
  shows "host_loop (pre @ h @ CHR ''/'' # post) (int (length d)) (int (length pre)) j k r
    = Some (Inr (int (length d + length h), int (length pre + length h), r\<lparr>host := d @ h @ drop (length h) rs\<rparr>))"
proof -
  have "rd (pre @ h @ CHR ''/'' # post) (int (length pre + length h)) = Some (CHR ''/'')"
    using rd_at [of "pre @ h" "CHR ''/''" post] by simp
  then show ?thesis unfolding host_loop_advance [OF assms] by (subst host_loop.simps) simp
qed

lemma path_loop_copies:
  assumes "NUL \<notin> set p" "length p \<le> length rs" "int (length d) + int (length p) \<le> 1024"
  shows "path_loop (pre @ p @ NUL # post) (int (length d)) (int (length pre)) (d @ rs)
    = Some (Inr (int (length d + length p), int (length pre + length p), d @ p @ drop (length p) rs))"
  using assms
proof (induction p arbitrary: d rs pre)
  case Nil
  then show ?case using rd_at [of pre NUL post] by (subst path_loop.simps) simp
next
  case (Cons c p)
  then have rs: "rs \<noteq> []" by auto
  have r: "rd (pre @ (c # p) @ NUL # post) (int (length pre)) = Some c"
    using rd_at [of pre c "p @ NUL # post"] by simp
  have c: "c \<noteq> NUL" using Cons.prems(1) by auto
  have "path_loop (pre @ (c # p) @ NUL # post) (int (length d)) (int (length pre)) (d @ rs)
      = path_loop ((pre @ [c]) @ p @ NUL # post) (int (length (d @ [c]))) (int (length (pre @ [c]))) ((d @ [c]) @ tl rs)"
    using r wr_at [OF rs, of d c] Cons.prems(2,3) c by (subst path_loop.simps) (simp add: MAXURLSIZ_def add.commute)
  also have "\<dots> = Some (Inr (int (length (d @ [c]) + length p), int (length (pre @ [c]) + length p), (d @ [c]) @ p @ drop (length p) (tl rs)))"
    using Cons.prems by (intro Cons.IH) auto
  finally show ?case using rs by (simp add: drop_Suc)
qed

lemma file_loop_copies:
  assumes "CHR ''/'' \<notin> set f" "length f \<le> length rs" "int (length d) + int (length f) \<le> 8192"
  shows "file_loop (pre @ CHR ''/'' # f @ post) (int (length d)) (int (length pre) + int (length f)) (d @ rs)
    = Some (Inr (int (length d + length f), d @ rev f @ drop (length f) rs))"
  using assms
proof (induction f arbitrary: d rs post rule: rev_induct)
  case Nil
  then show ?case using rd_at [of pre "CHR ''/''" post] by (subst file_loop.simps) simp
next
  case (snoc c f)
  then have rs: "rs \<noteq> []" by auto
  have r: "rd (pre @ CHR ''/'' # (f @ [c]) @ post) (int (length pre) + int (length (f @ [c]))) = Some c"
    using rd_at [of "pre @ CHR ''/'' # f" c post] by (simp add: add.commute add.left_commute)
  have c: "c \<noteq> CHR ''/''" using snoc.prems(1) by auto
  have "file_loop (pre @ CHR ''/'' # (f @ [c]) @ post) (int (length d)) (int (length pre) + int (length (f @ [c]))) (d @ rs)
      = file_loop (pre @ CHR ''/'' # f @ (c # post)) (int (length (d @ [c]))) (int (length pre) + int (length f)) ((d @ [c]) @ tl rs)"
    using r wr_at [OF rs, of d c] snoc.prems(2,3) c by (subst file_loop.simps) (simp add: MAXBUFSIZ_def add.commute)
  also have "\<dots> = Some (Inr (int (length (d @ [c]) + length f), (d @ [c]) @ rev f @ drop (length f) (tl rs)))"
    using snoc.prems by (intro snoc.IH) auto
  finally show ?case using rs by (simp add: drop_Suc)
qed

lemma revstr_spec: "NUL \<notin> set s \<Longrightarrow> revstr (s @ NUL # r) = Some (rev s @ NUL # r)"
proof -
  assume s: "NUL \<notin> set s"
  have u: "[1..<length s + 1] = map Suc [0..<length s]" by (simp add: map_Suc_upt)
  have "map (\<lambda>i. (s @ NUL # r) ! (i - 1)) [1..<length s + 1] = s"
    unfolding u map_map comp_def by (rule nth_equalityI) (simp_all add: nth_append)
  then have "map (\<lambda>i. (s @ NUL # r) ! (i - 1)) (rev [1..<length s + 1]) = rev s"
    by (metis rev_map)
  then show ?thesis using s by (simp add: revstr_def strncpy_def Let_def)
qed

section \<open>Properties\<close>

lemma anonymous_total:
  assumes "length (username r) = 8192" "length (password r) = 8192" "NUL \<in> set (username r)" "NUL \<in> set (password r)"
  shows "\<exists>user pass. anonymous ftpuser ftppass r = Some (r\<lparr>username := user, password := pass\<rparr>)"
proof -
  have total: "\<exists>b. (if n = 0 then strncpy a src (nat (MAXBUFSIZ - 2)) else Some a) = Some b" if "length a = 8192" for n :: nat and a src
    using that by (simp add: strncpy_def MAXBUFSIZ_def)
  obtain user where u: "(if length (c_str (username r)) = 0 then strncpy (username r) ftpuser (nat (MAXBUFSIZ - 2)) else Some (username r)) = Some user"
    using total [OF assms(1)] by blast
  obtain pass where p: "(if length (c_str (password r)) = 0 then strncpy (password r) ftppass (nat (MAXBUFSIZ - 2)) else Some (password r)) = Some pass"
    using total [OF assms(2)] by blast
  have "strlen (username r) = Some (length (c_str (username r)))" "strlen (password r) = Some (length (c_str (password r)))"
    using assms(3,4) by (simp_all add: strlen_def)
  with u p have "anonymous ftpuser ftppass r = Some (r\<lparr>username := user, password := pass\<rparr>)"
    unfolding anonymous_def by (simp del: length_0_conv)
  then show ?thesis by blast
qed

lemma drop_replicate_NUL: "n < m \<Longrightarrow> drop n (replicate m NUL) = NUL # replicate (m - Suc n) NUL"
  by (metis Suc_diff_Suc drop_replicate replicate_Suc)

lemma wr_end: "n < m \<Longrightarrow> wr (s @ drop n (replicate m NUL)) (int (length s)) NUL = Some (s @ NUL # replicate (m - Suc n) NUL)"
  using wr_at [of "drop n (replicate m NUL)" s NUL] by (simp add: drop_replicate_NUL)

lemma parse_proto_ok:
  assumes "pr = ''http://'' \<and> pn = PROTO_HTTP \<and> dp = 80 \<or> pr = ''ftp://'' \<and> pn = PROTO_FTP \<and> dp = 21"
  shows "parse_proto (pr @ u) r = Some (Inr (r\<lparr>port := (if port r = 0 then dp else port r), proto := pn\<rparr>))"
    and "starts ''http://'' (pr @ u) \<longleftrightarrow> pn = PROTO_HTTP" "starts ''ftp://'' (pr @ u) \<longleftrightarrow> pn = PROTO_FTP"
    and "length pr = (if pn = PROTO_HTTP then 7 else 6)"
  using assms by (auto simp: parse_proto_def starts_def PROTO_HTTP_def PROTO_FTP_def)

lemma parse_url_compose:
  assumes "parse_proto u r0 = Some (Inr r)"
    and "starts ''http://'' u \<longleftrightarrow> proto r = PROTO_HTTP" "starts ''ftp://'' u \<longleftrightarrow> proto r = PROTO_FTP"
    and "host_loop u 0 (if proto r = PROTO_HTTP then 7 else 6) 0 0 r = Some (Inr (hi, s1, r\<lparr>host := h0\<rparr>))" "wr h0 hi NUL = Some h"
    and "path_loop u 0 s1 (url r) = Some (Inr (ai, s2, a0))" "wr a0 ai NUL = Some a"
    and "file_loop u 0 (s2 - 1) (rfile r) = Some (Inr (fi, f0))" "wr f0 fi NUL = Some f1" "revstr f1 = Some f"
    and "length (username r) = 8192" "length (password r) = 8192" "NUL \<in> set (username r)" "NUL \<in> set (password r)"
  shows "\<exists>user pass. parse_url ftpuser ftppass u r0
    = Some (Inr (r\<lparr>host := h, url := a, rfile := f, username := user, password := pass\<rparr>))"
proof -
  obtain user pass where "anonymous ftpuser ftppass (r\<lparr>host := h, url := a, rfile := f\<rparr>)
      = Some (r\<lparr>host := h, url := a, rfile := f, username := user, password := pass\<rparr>)"
    using anonymous_total [of "r\<lparr>host := h, url := a, rfile := f\<rparr>" ftpuser ftppass] assms(11-14) by auto
  with assms(1-10) show ?thesis by (intro exI [of _ user] exI [of _ pass]) (simp add: parse_url_def)
qed

text \<open>The request that comes out for a URL without credentials.\<close>

lemma parse_url_parts:
  assumes pr: "pr = ''http://'' \<and> pn = PROTO_HTTP \<and> dp = 80 \<or> pr = ''ftp://'' \<and> pn = PROTO_FTP \<and> dp = 21"
    and h: "\<forall>c \<in> set h. c \<noteq> CHR ''/'' \<and> c \<noteq> CHR '':'' \<and> c \<noteq> NUL" "length h < 1024"
    and p: "dir @ ''/'' @ f = CHR ''/'' # q" "CHR ''/'' \<notin> set f" "NUL \<notin> set dir" "NUL \<notin> set f" "length (dir @ ''/'' @ f) < 1024"
  shows "\<exists>user pass. parse_url ftpuser ftppass (pr @ h @ dir @ ''/'' @ f @ [NUL]) (blank_req\<lparr>port := pt, lfile := lf\<rparr>)
    = Some (Inr (blank_req\<lparr>port := (if pt = 0 then dp else pt), lfile := lf, proto := pn, host := h @ NUL # replicate (1024 - Suc (length h)) NUL,
        url := (dir @ ''/'' @ f) @ NUL # replicate (1024 - Suc (length (dir @ ''/'' @ f))) NUL, rfile := f @ NUL # replicate (8192 - Suc (length f)) NUL,
        username := user, password := pass\<rparr>))"
proof -
  let ?u = "pr @ h @ dir @ ''/'' @ f @ [NUL]" and ?path = "dir @ ''/'' @ f"
  define r where "r = blank_req\<lparr>port := (if pt = 0 then dp else pt), lfile := lf, proto := pn\<rparr>"
  let ?h = "h @ NUL # replicate (1024 - Suc (length h)) NUL"
  let ?a = "?path @ NUL # replicate (1024 - Suc (length ?path)) NUL"
  let ?f = "f @ NUL # replicate (8192 - Suc (length f)) NUL"
  have r: "host r = replicate 1024 NUL" "url r = replicate 1024 NUL" "rfile r = replicate 8192 NUL" "proto r = pn"
      "username r = replicate 8192 NUL" "password r = replicate 8192 NUL" "port r = (if pt = 0 then dp else pt)"
    by (simp_all add: r_def blank_req_def)
  have proto: "parse_proto ?u (blank_req\<lparr>port := pt, lfile := lf\<rparr>) = Some (Inr r)"
    using parse_proto_ok(1) [OF pr, of "h @ dir @ ''/'' @ f @ [NUL]" "blank_req\<lparr>port := pt, lfile := lf\<rparr>"] by (simp add: r_def)
  have st: "starts ''http://'' ?u \<longleftrightarrow> pn = PROTO_HTTP" "starts ''ftp://'' ?u \<longleftrightarrow> pn = PROTO_FTP"
    by (rule parse_proto_ok(2) [OF pr], rule parse_proto_ok(3) [OF pr])
  have start: "(if proto r = PROTO_HTTP then 7 else 6) = int (length pr)" using parse_proto_ok(4) [OF pr] r(4) by simp
  have u: "?u = pr @ h @ CHR ''/'' # q @ [NUL]" using p(1) by simp
  have host: "host_loop ?u 0 (int (length pr)) 0 0 r
      = Some (Inr (int (length h), int (length pr + length h), r\<lparr>host := h @ drop (length h) (replicate 1024 NUL)\<rparr>))"
    unfolding u using host_loop_copies [of h r "[]" "replicate 1024 NUL" pr "q @ [NUL]" 0 0] h r(1) by simp
  have path: "path_loop ?u 0 (int (length pr + length h)) (replicate 1024 NUL)
      = Some (Inr (int (length ?path), int (length pr + length h + length ?path), ?path @ drop (length ?path) (replicate 1024 NUL)))"
    using path_loop_copies [of ?path "replicate 1024 NUL" "[]" "pr @ h" "[]"] p(3-5) by simp
  have fl: "file_loop ?u 0 (int (length pr + length h + length ?path) - 1) (replicate 8192 NUL)
      = Some (Inr (int (length f), rev f @ drop (length f) (replicate 8192 NUL)))"
    using file_loop_copies [of f "replicate 8192 NUL" "[]" "pr @ h @ dir" "[NUL]"] p(2,5) by (simp add: algebra_simps)
  have ends: "wr (h @ drop (length h) (replicate 1024 NUL)) (int (length h)) NUL = Some ?h"
    "wr (?path @ drop (length ?path) (replicate 1024 NUL)) (int (length ?path)) NUL = Some ?a"
    "wr (rev f @ drop (length f) (replicate 8192 NUL)) (int (length f)) NUL = Some (rev f @ NUL # replicate (8192 - Suc (length f)) NUL)"
    using wr_end [OF h(2), of h] wr_end [OF p(5), of ?path] wr_end [of "length f" 8192 "rev f"] p(5) by simp_all
  have rev: "revstr (rev f @ NUL # replicate (8192 - Suc (length f)) NUL) = Some ?f"
    using revstr_spec [of "rev f"] p(4) by simp
  have st': "starts ''http://'' ?u \<longleftrightarrow> proto r = PROTO_HTTP" "starts ''ftp://'' ?u \<longleftrightarrow> proto r = PROTO_FTP"
    unfolding r(4) by (fact st)+
  have cred: "length (username r) = 8192" "length (password r) = 8192" "NUL \<in> set (username r)" "NUL \<in> set (password r)"
    unfolding r(5,6) by simp_all
  have loops: "host_loop ?u 0 (if proto r = PROTO_HTTP then 7 else 6) 0 0 r
      = Some (Inr (int (length h), int (length pr + length h), r\<lparr>host := h @ drop (length h) (replicate 1024 NUL)\<rparr>))"
    "path_loop ?u 0 (int (length pr + length h)) (url r)
      = Some (Inr (int (length ?path), int (length pr + length h + length ?path), ?path @ drop (length ?path) (replicate 1024 NUL)))"
    "file_loop ?u 0 (int (length pr + length h + length ?path) - 1) (rfile r)
      = Some (Inr (int (length f), rev f @ drop (length f) (replicate 8192 NUL)))"
    unfolding start r(2,3) by (fact host, fact path, fact fl)
  from parse_url_compose [OF proto st' loops(1) ends(1) loops(2) ends(2) loops(3) ends(3) rev cred]
  obtain user pass where "parse_url ftpuser ftppass ?u (blank_req\<lparr>port := pt, lfile := lf\<rparr>)
      = Some (Inr (r\<lparr>host := ?h, url := ?a, rfile := ?f, username := user, password := pass\<rparr>))" by blast
  then show ?thesis unfolding r_def by blast
qed

text \<open>
  C35. \<^verbatim>\<open>parse_url\<close> splits a URL into its parts.  For \<open>http://\<close> or \<open>ftp://\<close>, a host of at most 1023 characters
  without \<open>/\<close> and \<open>:\<close>, and a path of at most 1023 characters whose last component is \<open>f\<close>, no access
  leaves an array, and the request gets the host, the path, the file name, the protocol, and the
  default port of the protocol unless a port was given.
\<close>

theorem parse_url_splits:
  assumes pr: "pr = ''http://'' \<and> pn = PROTO_HTTP \<and> dp = 80 \<or> pr = ''ftp://'' \<and> pn = PROTO_FTP \<and> dp = 21"
    and h: "\<forall>c \<in> set h. c \<noteq> CHR ''/'' \<and> c \<noteq> CHR '':'' \<and> c \<noteq> NUL" "length h < 1024"
    and p: "dir @ ''/'' @ f = CHR ''/'' # q" "CHR ''/'' \<notin> set f" "NUL \<notin> set dir" "NUL \<notin> set f" "length (dir @ ''/'' @ f) < 1024"
  shows "\<exists>r. parse_url ftpuser ftppass (pr @ h @ dir @ ''/'' @ f @ [NUL]) (blank_req\<lparr>port := pt\<rparr>) = Some (Inr r)
    \<and> c_str (host r) = h \<and> c_str (url r) = dir @ ''/'' @ f \<and> c_str (rfile r) = f
    \<and> port r = (if pt = 0 then dp else pt) \<and> proto r = pn"
proof -
  obtain user pass where "parse_url ftpuser ftppass (pr @ h @ dir @ ''/'' @ f @ [NUL]) (blank_req\<lparr>port := pt, lfile := lfile blank_req\<rparr>)
    = Some (Inr (blank_req\<lparr>port := (if pt = 0 then dp else pt), lfile := lfile blank_req, proto := pn, host := h @ NUL # replicate (1024 - Suc (length h)) NUL,
        url := (dir @ ''/'' @ f) @ NUL # replicate (1024 - Suc (length (dir @ ''/'' @ f))) NUL, rfile := f @ NUL # replicate (8192 - Suc (length f)) NUL,
        username := user, password := pass\<rparr>))"
    using parse_url_parts [OF pr h p] by blast
  moreover have "blank_req\<lparr>port := pt, lfile := lfile blank_req\<rparr> = blank_req\<lparr>port := pt\<rparr>" by simp
  moreover have "c_str (h @ NUL # z) = h" for z by (rule c_str_append) (use h(1) in blast)
  moreover have "c_str ((dir @ ''/'' @ f) @ NUL # z) = dir @ ''/'' @ f" for z by (rule c_str_append) (use p(3,4) in simp)
  moreover have "c_str (f @ NUL # z) = f" for z by (rule c_str_append) (use p(4) in simp)
  ultimately show ?thesis by (simp del: replicate.simps append_assoc)
qed

text \<open>The URL of a file in a directory of a host, with the default port.\<close>

theorem parse_url_splits_witness:
  "\<exists>r. parse_url ''ftp'' ''pw'' (''http://'' @ ''h.org'' @ ''/d'' @ ''/'' @ ''f.gz'' @ [NUL]) (blank_req\<lparr>port := 0\<rparr>) = Some (Inr r)
    \<and> c_str (host r) = ''h.org'' \<and> c_str (url r) = ''/d'' @ ''/'' @ ''f.gz'' \<and> c_str (rfile r) = ''f.gz''
    \<and> port r = (if (0::int) = 0 then 80 else 0) \<and> proto r = PROTO_HTTP"
  by (rule parse_url_splits [where q = "''d/f.gz''"]) simp_all

text \<open>Going back to the slash lowers the index by the distance.\<close>

lemma user_loop_back:
  assumes "user_loop u i s j a = Some (i', s', j', a')"
  shows "i' - i = s' - s \<and> s' \<le> s \<and> rd u s' = Some (CHR ''/'') \<and> (\<forall>t. s' < t \<and> t \<le> s \<longrightarrow> rd u t \<noteq> Some (CHR ''/''))"
  using assms
proof (induction u i s j a rule: user_loop.induct)
  case (1 u i s j a)
  show ?case
  proof (cases "rd u s = Some (CHR ''/'')")
    case True
    then show ?thesis using "1.prems" by (subst (asm) user_loop.simps) auto
  next
    case False
    then obtain c where c: "rd u s = Some c" "c \<noteq> CHR ''/''"
      using "1.prems" by (subst (asm) user_loop.simps) (auto split: bind_splits)
    then obtain d b where d: "rd u (s - 1) = Some d" "wr a j d = Some b" "user_loop u (i - 1) (s - 1) (j + 1) b = Some (i', s', j', a')"
      using "1.prems" by (subst (asm) user_loop.simps) (auto split: bind_splits)
    have IH: "i' - (i - 1) = s' - (s - 1) \<and> s' \<le> s - 1 \<and> rd u s' = Some (CHR ''/'')
        \<and> (\<forall>t. s' < t \<and> t \<le> s - 1 \<longrightarrow> rd u t \<noteq> Some (CHR ''/''))"
      by (rule "1.IH" [OF c(1) c(2) d])
    moreover have "rd u t \<noteq> Some (CHR ''/'')" if "s' < t" "t \<le> s" for t
      using IH that False by (cases "t = s") auto
    ultimately show ?thesis by auto
  qed
qed

lemma credentials_index:
  assumes "credentials u i s j k r = Some (Inr (i', s', j', k', r'))" "rd u t = Some (CHR ''/'')" "t \<le> s"
    and "\<And>x. t < x \<Longrightarrow> x \<le> s \<Longrightarrow> rd u x \<noteq> Some (CHR ''/'')"
  shows "i' = i + t - s \<and> host r' = host r"
proof -
  from assms(1) obtain s1 j1 a where ul: "user_loop u i s j (username r) = Some (i', s1, j1, a)" and h: "host r' = host r"
    by (auto simp: credentials_def pbind_def split: bind_splits option.splits sum.splits)
  from user_loop_back [OF ul] have b: "i' - i = s1 - s" "s1 \<le> s" "rd u s1 = Some (CHR ''/'')"
    "\<And>x. s1 < x \<Longrightarrow> x \<le> s \<Longrightarrow> rd u x \<noteq> Some (CHR ''/'')" by auto
  have "s1 = t" using b(2-4) assms(2-4) by (meson linorder_neqE_linordered_idom)
  with b(1) h show ?thesis by simp
qed



end
