(* ===== verification/AgetFetch.thy ===== *)
theory AgetFetch
  imports AgetUrl
begin

text \<open>
  Several download threads on one file.  The system calls the threads make are modelled by what
  they answer: \<^verbatim>\<open>recv\<close> takes bytes from the peer's stream, as many as the network delivers, and
  \<^verbatim>\<open>pwrite\<close> writes to the file, as much as the file system takes.  \<open>sched\<close> runs the steps of the
  threads in the order of a schedule.  The locale \<open>segment_getter\<close> is what the downloader relies on
  of a thread body, whatever the protocol; its lemmas hold for every schedule.
\<close>

section \<open>The system calls\<close>

definition put_at :: "string \<Rightarrow> nat \<Rightarrow> string \<Rightarrow> string" where
  "put_at fl p d = (if d = [] then fl else take p (fl @ replicate (p - length fl) NUL) @ d @ drop (p + length d) fl)"

text \<open>\<open>recv k n s\<close>: at most \<open>n\<close> bytes of the stream \<open>s\<close>, at most \<open>k + 1\<close> of which are there; nothing at the
  end of the stream; \<open>None\<close> for the answer -1.  The result is the byte count, the bytes and the rest of the stream.\<close>

definition recv :: "nat option \<Rightarrow> nat \<Rightarrow> string \<Rightarrow> int \<times> string \<times> string" where
  "recv k n s = (case k of None \<Rightarrow> (- 1, [], s)
     | Some k \<Rightarrow> let b = take (min n (Suc k)) s in (int (length b), b, drop (length b) s))"

text \<open>\<open>pwrite cap fl buf n off\<close>: the count is a \<^verbatim>\<open>size_t\<close>, so a negative one is refused like a negative
  offset; \<open>cap\<close> is what the file system takes, \<open>None\<close> for an error.  Reading past \<open>buf\<close> is undefined.\<close>

definition pwrite :: "nat option \<Rightarrow> string \<Rightarrow> string \<Rightarrow> int \<Rightarrow> int \<Rightarrow> (int \<times> string) option" where
  "pwrite cap fl buf n off =
     (case cap of None \<Rightarrow> Some (- 1, fl)
      | Some k \<Rightarrow>
          if n < 0 \<or> off < 0 then Some (- 1, fl)
          else if n > int (length buf) then None
          else let m = min k (nat n) in Some (int m, put_at fl (nat off) (take m buf)))"

definition c_uint :: "int \<Rightarrow> int" where
  "c_uint v = v mod 2 ^ 32"

text \<open>What the calls of one step answer: \<^verbatim>\<open>socket\<close>, \<^verbatim>\<open>connect\<close>, \<^verbatim>\<open>send\<close> and the first \<^verbatim>\<open>recv\<close> of a
  connection, a later \<^verbatim>\<open>recv\<close>, and \<^verbatim>\<open>pwrite\<close>.\<close>

record net_event =
  nsocket :: bool
  nconnect :: bool
  nsend :: bool
  nfirst :: "nat option"
  nrecv :: "nat option"
  nwrite :: "nat option"

section \<open>Schedules\<close>

text \<open>A schedule names the thread that runs next and what its calls answer; a thread that has ended
  does nothing.\<close>

fun sched :: "('e \<Rightarrow> 'g \<times> string \<times> int \<Rightarrow> ('g \<times> string \<times> int) proc) \<Rightarrow> ('g \<Rightarrow> bool) \<Rightarrow> (nat \<times> 'e) list
    \<Rightarrow> 'g list \<times> string \<times> int \<Rightarrow> ('g list \<times> string \<times> int) proc" where
  "sched stp fin [] st = Some (Inr st)"
| "sched stp fin ((i, e) # es) (gs, fl, bw) =
     (if i < length gs \<and> \<not> fin (gs ! i)
      then pbind (stp e (gs ! i, fl, bw)) (\<lambda>(g, fl, bw). sched stp fin es (gs[i := g], fl, bw))
      else sched stp fin es (gs, fl, bw))"

lemma sched_keeps:
  assumes "\<And>e g fl bw g' fl' bw'. stp e (g, fl, bw) = Some (Inr (g', fl', bw')) \<Longrightarrow> f g' = f g"
    and "sched stp fin es (gs, fl, bw) = Some (Inr (gs', fl', bw'))"
  shows "map f gs' = map f gs"
  using assms(2)
proof (induction es arbitrary: gs fl bw)
  case (Cons x es)
  obtain i e where x: "x = (i, e)" by (cases x)
  show ?case
  proof (cases "i < length gs \<and> \<not> fin (gs ! i)")
    case True
    then obtain g1 fl1 bw1 where g: "stp e (gs ! i, fl, bw) = Some (Inr (g1, fl1, bw1))"
        "sched stp fin es (gs[i := g1], fl1, bw1) = Some (Inr (gs', fl', bw'))"
      using Cons.prems x by (auto simp: pbind_def split: option.splits sum.splits)
    have "map f (gs[i := g1]) = map f gs" using assms(1) [OF g(1)] True by (simp add: map_update list_update_same_conv)
    then show ?thesis using Cons.IH [OF g(2)] by simp
  next
    case False
    then have "sched stp fin es (gs, fl, bw) = Some (Inr (gs', fl', bw'))" using Cons.prems unfolding x sched.simps by (simp only: if_False)
    then show ?thesis by (rule Cons.IH)
  qed
qed simp

section \<open>The file\<close>

text \<open>The positions at which the file already has the right byte.\<close>

definition agree :: "string \<Rightarrow> string \<Rightarrow> nat set" where
  "agree C fl = {p. p < length C \<and> fl ! p = C ! p}"

lemma length_put_at [simp]: "p + length d \<le> length fl \<Longrightarrow> length (put_at fl p d) = length fl"
  by (auto simp: put_at_def)

lemma nth_put_at:
  "p + length d \<le> length fl \<Longrightarrow> q < length fl \<Longrightarrow>
    put_at fl p d ! q = (if p \<le> q \<and> q < p + length d then d ! (q - p) else fl ! q)"
  by (auto simp: put_at_def nth_append min_def)

lemma agree_put_at:
  assumes "length fl = length C" "u + d \<le> length C"
  shows "agree C fl \<union> {u ..< u + d} \<subseteq> agree C (put_at fl u (take d (drop u C)))"
  using assms by (auto simp: agree_def nth_put_at)

lemma agree_all: "length fl = length C \<Longrightarrow> {..< length C} \<subseteq> agree C fl \<Longrightarrow> fl = C"
  by (rule nth_equalityI) (auto simp: agree_def subset_iff)

section \<open>The contract of a thread body\<close>

text \<open>\<open>C\<close> is the content on the server.  \<open>pos\<close> is how far the thread has come and \<open>fin\<close> the end of its
  segment.  A step of a valid thread, with calls that succeed, writes the next bytes of the
  content at \<open>pos\<close>; it ends the thread or raises its \<open>rank\<close>, which is bounded; a thread ends at or past its segment's
  end, and an exact thread ends there.\<close>

locale segment_getter =
  fixes stp :: "'e \<Rightarrow> 'g \<times> string \<times> int \<Rightarrow> ('g \<times> string \<times> int) proc"
    and good :: "'e \<Rightarrow> bool"
    and valid :: "string \<Rightarrow> 'g \<Rightarrow> bool"
    and exact :: "string \<Rightarrow> 'g \<Rightarrow> bool"
    and ended :: "'g \<Rightarrow> bool"
    and pos :: "'g \<Rightarrow> nat"
    and fin :: "'g \<Rightarrow> nat"
    and rank :: "'g \<Rightarrow> nat"
  assumes step_good: "good e \<Longrightarrow> valid C g \<Longrightarrow> \<not> ended g \<Longrightarrow> length fl = length C \<Longrightarrow>
      \<exists>g' d bw'. stp e (g, fl, bw) = Some (Inr (g', put_at fl (pos g) (take d (drop (pos g) C)), bw'))
        \<and> c_uint bw' = c_uint (bw + int d) \<and> valid C g' \<and> pos g' = pos g + d \<and> fin g' = fin g \<and> (ended g' \<or> rank g < rank g')
        \<and> (exact C g \<longrightarrow> exact C g')"
    and valid_pos: "valid C g \<Longrightarrow> pos g \<le> length C"
    and valid_rank: "valid C g \<Longrightarrow> rank g \<le> Suc (length C)"
    and valid_ended: "valid C g \<Longrightarrow> ended g \<Longrightarrow> fin g \<le> pos g"
    and exact_pos: "exact C g \<Longrightarrow> ended g \<Longrightarrow> pos g = fin g"
begin

definition progress :: "string \<Rightarrow> 'g list \<times> string \<times> int \<Rightarrow> 'g list \<times> string \<times> int \<Rightarrow> bool" where
  "progress C st st' \<longleftrightarrow>
     (case (st, st') of ((gs, fl, bw), (gs', fl', bw')) \<Rightarrow>
        length gs' = length gs \<and> length fl' = length C
        \<and> list_all (valid C) gs'
        \<and> list_all2 (\<lambda>g g'. fin g' = fin g \<and> pos g \<le> pos g' \<and> (exact C g \<longrightarrow> exact C g') \<and> (ended g \<longrightarrow> ended g')) gs gs'
        \<and> agree C fl \<union> (\<Union>i < length gs. {pos (gs ! i) ..< pos (gs' ! i)}) \<subseteq> agree C fl'
        \<and> c_uint bw' = c_uint (bw + int (sum_list (map pos gs')) - int (sum_list (map pos gs))))"

lemma progress_refl: "length fl = length C \<Longrightarrow> list_all (valid C) gs \<Longrightarrow> progress C (gs, fl, bw) (gs, fl, bw)"
  by (simp add: progress_def list_all2_same)

lemma progress_trans:
  assumes "progress C (gs, fl, bw) (gs1, fl1, bw1)" "progress C (gs1, fl1, bw1) (gs2, fl2, bw2)"
  shows "progress C (gs, fl, bw) (gs2, fl2, bw2)"
proof -
  let ?R = "\<lambda>g g'. fin g' = fin g \<and> pos g \<le> pos g' \<and> (exact C g \<longrightarrow> exact C g') \<and> (ended g \<longrightarrow> ended g')"
  have l: "list_all2 ?R gs gs1" "list_all2 ?R gs1 gs2" and len: "length gs1 = length gs" "length gs2 = length gs"
    and a: "agree C fl \<union> (\<Union>i < length gs. {pos (gs ! i) ..< pos (gs1 ! i)}) \<subseteq> agree C fl1"
      "agree C fl1 \<union> (\<Union>i < length gs1. {pos (gs1 ! i) ..< pos (gs2 ! i)}) \<subseteq> agree C fl2"
    and b: "c_uint bw1 = c_uint (bw + int (sum_list (map pos gs1)) - int (sum_list (map pos gs)))"
      "c_uint bw2 = c_uint (bw1 + int (sum_list (map pos gs2)) - int (sum_list (map pos gs1)))"
    using assms by (simp_all add: progress_def)
  have "list_all2 ?R gs gs2"
    by (rule list_all2_trans [OF _ l]) auto
  moreover have "agree C fl \<union> (\<Union>i < length gs. {pos (gs ! i) ..< pos (gs2 ! i)}) \<subseteq> agree C fl2"
  proof -
    have "{pos (gs ! i) ..< pos (gs2 ! i)} \<subseteq> agree C fl2" if i: "i \<in> {..< length gs}" for i
    proof -
      have "{pos (gs ! i) ..< pos (gs2 ! i)} \<subseteq> {pos (gs ! i) ..< pos (gs1 ! i)} \<union> {pos (gs1 ! i) ..< pos (gs2 ! i)}" by auto
      also have "\<dots> \<subseteq> agree C fl1 \<union> agree C fl2" using a i unfolding Un_subset_iff UN_subset_iff len(1) by blast
      also have "\<dots> \<subseteq> agree C fl2" using a(2) by blast
      finally show ?thesis .
    qed
    then show ?thesis using a unfolding Un_subset_iff UN_subset_iff by blast
  qed
  moreover have "c_uint bw2 = c_uint (bw + int (sum_list (map pos gs2)) - int (sum_list (map pos gs)))"
  proof -
    have "(bw1 + (int (sum_list (map pos gs2)) - int (sum_list (map pos gs1)))) mod 2 ^ 32
        = ((bw + int (sum_list (map pos gs1)) - int (sum_list (map pos gs))) + (int (sum_list (map pos gs2)) - int (sum_list (map pos gs1)))) mod 2 ^ 32"
      using b(1) unfolding c_uint_def by (rule mod_add_cong) (rule refl)
    then show ?thesis using b(2) by (simp add: c_uint_def algebra_simps)
  qed
  ultimately show ?thesis using assms(2) len by (simp add: progress_def)
qed

lemma progressD:
  assumes "progress C (gs, fl, bw) (gs', fl', bw')"
  shows "length gs' = length gs" "length fl' = length C" "list_all (valid C) gs'"
    "agree C fl \<union> (\<Union>i < length gs. {pos (gs ! i) ..< pos (gs' ! i)}) \<subseteq> agree C fl'"
    "c_uint bw' = c_uint (bw + int (sum_list (map pos gs')) - int (sum_list (map pos gs)))"
  using assms unfolding progress_def prod.case by - (elim conjE, assumption)+

lemma progress_nthD:
  assumes "progress C (gs, fl, bw) (gs', fl', bw')" "i < length gs"
  shows "fin (gs' ! i) = fin (gs ! i)" "exact C (gs ! i) \<Longrightarrow> exact C (gs' ! i)"
    "ended (gs ! i) \<Longrightarrow> ended (gs' ! i)" "pos (gs ! i) \<le> pos (gs' ! i)"
proof -
  have "list_all2 (\<lambda>g g'. fin g' = fin g \<and> pos g \<le> pos g' \<and> (exact C g \<longrightarrow> exact C g') \<and> (ended g \<longrightarrow> ended g')) gs gs'"
    using assms(1) unfolding progress_def prod.case by (elim conjE)
  from list_all2_nthD [OF this assms(2)]
  show "fin (gs' ! i) = fin (gs ! i)" "exact C (gs ! i) \<Longrightarrow> exact C (gs' ! i)"
    "ended (gs ! i) \<Longrightarrow> ended (gs' ! i)" "pos (gs ! i) \<le> pos (gs' ! i)" by blast+
qed

lemma progress_step:
  assumes fl: "length fl = length C" and v: "list_all (valid C) gs" and i: "i < length gs" "\<not> ended (gs ! i)" and e: "good e"
  shows "\<exists>g' fl' bw'. stp e (gs ! i, fl, bw) = Some (Inr (g', fl', bw')) \<and> progress C (gs, fl, bw) (gs[i := g'], fl', bw')
    \<and> (ended g' \<or> rank (gs ! i) < rank g')"
proof -
  let ?g = "gs ! i"
  have vg: "valid C ?g" using v i by (simp add: list_all_length)
  from step_good [OF e vg i(2) fl, of bw] obtain g' d bw' where
    s: "stp e (?g, fl, bw) = Some (Inr (g', put_at fl (pos ?g) (take d (drop (pos ?g) C)), bw'))"
    and bw': "c_uint bw' = c_uint (bw + int d)"
    and g': "valid C g'" "pos g' = pos ?g + d" "fin g' = fin ?g" "ended g' \<or> rank ?g < rank g'" "exact C ?g \<longrightarrow> exact C g'"
    by blast
  have d: "pos ?g + d \<le> length C" using valid_pos [OF g'(1)] g'(2) by simp
  let ?fl = "put_at fl (pos ?g) (take d (drop (pos ?g) C))"
  have "progress C (gs, fl, bw) (gs[i := g'], ?fl, bw')"
    unfolding progress_def prod.case
  proof (intro conjI)
    show "length ?fl = length C" using fl d by simp
    show "list_all (valid C) (gs[i := g'])" using v g'(1) i by (simp add: list_all_length nth_list_update)
    show "list_all2 (\<lambda>g g'. fin g' = fin g \<and> pos g \<le> pos g' \<and> (exact C g \<longrightarrow> exact C g') \<and> (ended g \<longrightarrow> ended g')) gs (gs[i := g'])"
      using g' i by (auto simp: list_all2_conv_all_nth nth_list_update)
    have "(\<Union>k < length gs. {pos (gs ! k) ..< pos (gs[i := g'] ! k)}) = {pos ?g ..< pos ?g + d}"
      using i g'(2) by (auto simp: nth_list_update split: if_splits)
    then show "agree C fl \<union> (\<Union>k < length gs. {pos (gs ! k) ..< pos (gs[i := g'] ! k)}) \<subseteq> agree C ?fl"
      using agree_put_at [OF fl d] by simp
    have "sum_list (map pos (gs[i := g'])) + pos ?g = sum_list (map pos gs) + pos g'"
      using i elem_le_sum_list [of i "map pos gs"] by (simp add: map_update sum_list_update)
    then have "int d = int (sum_list (map pos (gs[i := g']))) - int (sum_list (map pos gs))" using g'(2) by simp
    then show "c_uint bw' = c_uint (bw + int (sum_list (map pos (gs[i := g']))) - int (sum_list (map pos gs)))"
      using bw' by (simp add: c_uint_def add_diff_eq)
  qed simp
  with s g'(2,4) show ?thesis by auto
qed

theorem sched_progress:
  assumes "length fl = length C" "list_all (valid C) gs" "list_all (\<lambda>(i, e). good e) es"
  shows "\<exists>gs' fl' bw'. sched stp ended es (gs, fl, bw) = Some (Inr (gs', fl', bw')) \<and> progress C (gs, fl, bw) (gs', fl', bw')
    \<and> (\<forall>i < length gs. ended (gs' ! i) \<or> rank (gs ! i) + count_list (map fst es) i \<le> rank (gs' ! i))"
  using assms
proof (induction es arbitrary: gs fl bw)
  case Nil
  then show ?case using progress_refl [OF Nil.prems(1,2)] by simp
next
  case (Cons x es)
  obtain i e where x: "x = (i, e)" by (cases x)
  have es: "list_all (\<lambda>(i, e). good e) es" and e: "good e" using Cons.prems(3) x by simp_all
  show ?case
  proof (cases "i < length gs \<and> \<not> ended (gs ! i)")
    case False
    from Cons.IH [OF Cons.prems(1,2) es, where bw = bw] obtain gs' fl' bw' where
      r: "sched stp ended es (gs, fl, bw) = Some (Inr (gs', fl', bw'))" "progress C (gs, fl, bw) (gs', fl', bw')"
        "\<forall>i < length gs. ended (gs' ! i) \<or> rank (gs ! i) + count_list (map fst es) i \<le> rank (gs' ! i)" by blast
    have en: "ended (gs' ! i)" if "i < length gs" using progress_nthD(3) [OF r(2) that] that False by blast
    have "\<forall>k < length gs. ended (gs' ! k) \<or> rank (gs ! k) + count_list (map fst (x # es)) k \<le> rank (gs' ! k)"
    proof (intro allI impI)
      fix k assume k: "k < length gs"
      show "ended (gs' ! k) \<or> rank (gs ! k) + count_list (map fst (x # es)) k \<le> rank (gs' ! k)"
        using r(3) [rule_format, OF k] en k x by (cases "k = i") simp_all
    qed
    moreover have "sched stp ended (x # es) (gs, fl, bw) = Some (Inr (gs', fl', bw'))" using r(1) False by (simp only: x sched.simps if_False)
    ultimately show ?thesis using r(2) by blast
  next
    case True
    then have i: "i < length gs" "\<not> ended (gs ! i)" by simp_all
    from progress_step [OF Cons.prems(1,2) i e, of bw] obtain g' fl1 bw1 where
      s: "stp e (gs ! i, fl, bw) = Some (Inr (g', fl1, bw1))" and p: "progress C (gs, fl, bw) (gs[i := g'], fl1, bw1)"
      and inc: "ended g' \<or> rank (gs ! i) < rank g'" by blast
    have "length fl1 = length C" "list_all (valid C) (gs[i := g'])" using p by (simp_all add: progress_def)
    from Cons.IH [OF this es, where bw = bw1] obtain gs' fl' bw' where
      r: "sched stp ended es (gs[i := g'], fl1, bw1) = Some (Inr (gs', fl', bw'))" "progress C (gs[i := g'], fl1, bw1) (gs', fl', bw')"
        "\<forall>k < length gs. ended (gs' ! k) \<or> rank (gs[i := g'] ! k) + count_list (map fst es) k \<le> rank (gs' ! k)"
      unfolding length_list_update by blast
    have en: "ended g' \<Longrightarrow> ended (gs' ! i)" using progress_nthD(3) [OF r(2), of i] i by simp
    have "\<forall>k < length gs. ended (gs' ! k) \<or> rank (gs ! k) + count_list (map fst (x # es)) k \<le> rank (gs' ! k)"
    proof (intro allI impI)
      fix k assume k: "k < length gs"
      show "ended (gs' ! k) \<or> rank (gs ! k) + count_list (map fst (x # es)) k \<le> rank (gs' ! k)"
        using r(3) [rule_format, OF k] inc i x en by (cases "k = i") auto
    qed
    moreover have "sched stp ended (x # es) (gs, fl, bw) = Some (Inr (gs', fl', bw'))" using r(1) s x i by simp
    ultimately show ?thesis using progress_trans [OF p r(2)] by blast
  qed
qed

text \<open>When every thread is given enough steps, all end, and the file agrees
  with the content on every segment and wherever it did before.\<close>

theorem sched_completes:
  assumes "length fl = length C" "list_all (valid C) gs" "list_all (\<lambda>(i, e). good e) es"
    and "\<And>i. i < length gs \<Longrightarrow> Suc (length C) < rank (gs ! i) + count_list (map fst es) i"
    and "{..< length C} \<subseteq> agree C fl \<union> (\<Union>i < length gs. {pos (gs ! i) ..< fin (gs ! i)})"
  shows "\<exists>gs' bw'. sched stp ended es (gs, fl, bw) = Some (Inr (gs', C, bw')) \<and> progress C (gs, fl, bw) (gs', C, bw')
    \<and> list_all ended gs'"
proof -
  from sched_progress [OF assms(1-3), where bw = bw] obtain gs' fl' bw' where
    r: "sched stp ended es (gs, fl, bw) = Some (Inr (gs', fl', bw'))" "progress C (gs, fl, bw) (gs', fl', bw')"
      "\<forall>i < length gs. ended (gs' ! i) \<or> rank (gs ! i) + count_list (map fst es) i \<le> rank (gs' ! i)" by blast
  note pr = progressD [OF r(2)]
  have v: "valid C (gs' ! i)" if "i < length gs" for i using pr(1,3) that by (simp add: list_all_length)
  have e: "ended (gs' ! i)" if "i < length gs" for i
    using r(3) [rule_format, OF that] assms(4) [OF that] valid_rank [OF v [OF that]] by linarith
  have f: "fin (gs ! i) \<le> pos (gs' ! i)" if "i < length gs" for i
    using valid_ended [OF v e, OF that that] progress_nthD(1) [OF r(2) that] by simp
  have "{pos (gs ! i) ..< fin (gs ! i)} \<subseteq> agree C fl'" if "i < length gs" for i
  proof -
    have "{pos (gs ! i) ..< fin (gs ! i)} \<subseteq> {pos (gs ! i) ..< pos (gs' ! i)}" using f [OF that] by auto
    then show ?thesis using pr(4) that unfolding Un_subset_iff UN_subset_iff by blast
  qed
  then have "(\<Union>i < length gs. {pos (gs ! i) ..< fin (gs ! i)}) \<subseteq> agree C fl'" by (intro UN_least) simp
  moreover have "agree C fl \<subseteq> agree C fl'" using pr(4) by simp
  ultimately have "agree C fl \<union> (\<Union>i < length gs. {pos (gs ! i) ..< fin (gs ! i)}) \<subseteq> agree C fl'" by (rule Un_least [rotated])
  with assms(5) have "{..< length C} \<subseteq> agree C fl'" by (rule subset_trans)
  then have fl': "fl' = C" by (rule agree_all [OF pr(2)])
  have "list_all ended gs'" using e pr(1) by (simp add: list_all_length)
  with r(1,2) show ?thesis unfolding fl' by (intro exI conjI)
qed

end

end
