(* ===== verification/AgetSegments.thy ===== *)
theory AgetSegments
  imports AgetFetch
begin

text \<open>
  The segments of a download: \<^verbatim>\<open>numofthreads\<close> and \<^verbatim>\<open>calc_offset\<close> of \<^verbatim>\<open>papps/aget-devel/Misc.c\<close> and the choice of the
  number of threads, which \<^verbatim>\<open>startHTTP\<close> and \<^verbatim>\<open>startFTP\<close> make alike.  The segments cover the file, and threads that keep the
  contract \<open>segment_getter\<close> together fetch all of it.
\<close>

section \<open>Segments\<close>

definition BUFSIZ :: int where "BUFSIZ = 8192"

definition numofthreads :: "int \<Rightarrow> int" where
  "numofthreads n =
     (if n = 0 then 0
      else if n < BUFSIZ * 4 then 1
      else if n \<ge> BUFSIZ * 4 \<and> n < BUFSIZ * 8 then 2
      else if n \<ge> BUFSIZ * 8 \<and> n < BUFSIZ * 16 then 3
      else if n \<ge> BUFSIZ * 16 \<and> n < BUFSIZ * 32 then 4
      else if n \<ge> BUFSIZ * 32 \<and> n < BUFSIZ * 64 then 5
      else if n \<ge> BUFSIZ * 64 \<and> n < BUFSIZ * 128 then 6
      else if n \<ge> BUFSIZ * 128 \<and> n < BUFSIZ * 256 then 7
      else if n \<ge> BUFSIZ * 256 \<and> n < BUFSIZ * 512 then 8
      else if n \<ge> BUFSIZ * 512 \<and> n < BUFSIZ * 1024 then 9
      else 10)"

text \<open>The division of C rounds towards zero and is undefined for the divisor 0.\<close>

definition calc_offset :: "int \<Rightarrow> int \<Rightarrow> int \<Rightarrow> int option" where
  "calc_offset sz part n = (if n = 0 then None else Some (part * (sgn sz * sgn n * (\<bar>sz\<bar> div \<bar>n\<bar>))))"

definition choose_threads :: "int \<Rightarrow> int \<Rightarrow> int \<Rightarrow> int" where
  "choose_threads fsuggested nthreads len =
     (let ret = numofthreads len in if fsuggested = 0 then (if ret = 0 then 1 else ret) else nthreads)"

section \<open>The segments cover the file\<close>

definition seg_start :: "int \<Rightarrow> int \<Rightarrow> nat \<Rightarrow> int" where
  "seg_start len n k = int k * (len div n)"

definition seg_end :: "int \<Rightarrow> int \<Rightarrow> nat \<Rightarrow> int" where
  "seg_end len n k = (if int k = n - 1 then len else seg_start len n (Suc k))"

lemma calc_offset_eq: "0 \<le> len \<Longrightarrow> 0 < n \<Longrightarrow> calc_offset len (int k) n = Some (seg_start len n k)"
  by (cases "len = 0") (simp_all add: calc_offset_def seg_start_def)

lemma seg_start_le:
  assumes "0 \<le> len" "0 < n" "int k \<le> n"
  shows "0 \<le> seg_start len n k" "seg_start len n k \<le> len"
proof -
  have "int k * (len div n) \<le> n * (len div n)" using assms by (intro mult_right_mono) (auto simp: pos_imp_zdiv_nonneg_iff)
  also have "\<dots> \<le> len" using assms mult_div_mod_eq [of n len] pos_mod_sign [of n len] by linarith
  finally show "seg_start len n k \<le> len" by (simp add: seg_start_def)
  show "0 \<le> seg_start len n k" using assms by (simp add: seg_start_def pos_imp_zdiv_nonneg_iff)
qed

text \<open>The automatic number of threads never makes a segment shorter than the buffer, unless there
  is only one.\<close>

lemma auto_threads:
  assumes "0 < len"
  shows "1 \<le> choose_threads 0 n len" "choose_threads 0 n len \<le> 10" "choose_threads 0 n len = 1 \<or> MAXBUFSIZ \<le> len div choose_threads 0 n len"
proof -
  have d: "m \<noteq> 0 \<Longrightarrow> 8192 * m \<le> len \<Longrightarrow> 0 < m \<Longrightarrow> 8192 \<le> len div m" for m
    using zdiv_mono1 [of "8192 * m" len m] by simp
  show "1 \<le> choose_threads 0 n len" "choose_threads 0 n len \<le> 10"
    using assms by (simp_all add: choose_threads_def numofthreads_def)
  have "numofthreads len = 1 \<or> (2 \<le> numofthreads len \<and> 8192 * numofthreads len \<le> len)"
    using assms by (auto simp: numofthreads_def BUFSIZ_def)
  then show "choose_threads 0 n len = 1 \<or> MAXBUFSIZ \<le> len div choose_threads 0 n len"
    using d by (auto simp: choose_threads_def MAXBUFSIZ_def Let_def)
qed

lemma chain_cover:
  assumes "s 0 = (0::nat)" "\<And>k. k < m \<Longrightarrow> e k = s (Suc k)"
  shows "{..< s m} \<subseteq> (\<Union>k < m. {s k ..< e k})"
  using assms(2)
proof (induction m)
  case 0
  then show ?case using assms(1) by simp
next
  case (Suc m)
  have "{..< s (Suc m)} \<subseteq> {..< s m} \<union> {s m ..< e m}" using Suc.prems [of m] by auto
  also have "\<dots> \<subseteq> (\<Union>k < Suc m. {s k ..< e k})" using Suc by (auto simp: lessThan_Suc)
  finally show ?case .
qed

definition bound :: "int \<Rightarrow> nat \<Rightarrow> nat \<Rightarrow> nat" where
  "bound len n k = (if k = n then nat len else nat (seg_start len (int n) k))"

lemma segments_cover:
  assumes "0 < n"
  shows "{..< nat len} \<subseteq> (\<Union>k < n. {nat (seg_start len (int n) k) ..< nat (seg_end len (int n) k)})"
proof -
  have "{..< bound len n n} \<subseteq> (\<Union>k < n. {bound len n k ..< nat (seg_end len (int n) k)})"
    using assms by (intro chain_cover) (auto simp: bound_def seg_end_def seg_start_def)
  then show ?thesis using assms by (simp add: bound_def)
qed

lemma segs_sum:
  assumes "0 < n"
  shows "(\<Sum>k < n. int (nat (seg_end len (int n) k)) - int (nat (seg_start len (int n) k))) = int (nat len)"
proof -
  have "(\<Sum>k < n. int (nat (seg_end len (int n) k)) - int (nat (seg_start len (int n) k))) = (\<Sum>k < n. int (bound len n (Suc k)) - int (bound len n k))"
    by (rule sum.cong) (auto simp: bound_def seg_end_def)
  also have "\<dots> = int (bound len n n) - int (bound len n 0)" by (rule sum_lessThan_telescope)
  also have "\<dots> = int (nat len)" using assms by (simp add: bound_def seg_start_def)
  finally show ?thesis .
qed

lemma segment_bounds:
  assumes "0 < len" "0 < n" "int k < n"
  shows "0 \<le> seg_start len n k" "seg_start len n k \<le> seg_end len n k" "seg_end len n k \<le> len"
    "n = 1 \<or> MAXBUFSIZ \<le> len div n \<Longrightarrow> MAXBUFSIZ \<le> seg_end len n k - seg_start len n k \<or> seg_end len n k = len"
proof -
  note a = seg_start_le [of len n k] seg_start_le [of len n "Suc k"]
  show "0 \<le> seg_start len n k" "seg_end len n k \<le> len" using a assms by (auto simp: seg_end_def)
  have s: "seg_start len n (Suc k) = seg_start len n k + len div n" by (simp add: seg_start_def algebra_simps)
  have "0 \<le> len div n" using assms by (simp add: pos_imp_zdiv_nonneg_iff)
  then show "seg_start len n k \<le> seg_end len n k" using a assms s by (auto simp: seg_end_def)
  show "MAXBUFSIZ \<le> seg_end len n k - seg_start len n k \<or> seg_end len n k = len" if "n = 1 \<or> MAXBUFSIZ \<le> len div n"
    using that s assms(3) by (auto simp: seg_end_def)
qed

text \<open>Threads that fetch the segments of the content fetch all of it; after a part of the run every byte is in the file or
  still ahead of its thread.\<close>

context segment_getter
begin

lemma sched_partial:
  assumes n: "0 < n" and fl: "length fl = length C" and gs: "length gs = n" and es: "list_all (\<lambda>(i, e). good e) es"
    and g: "\<And>k. k < n \<Longrightarrow> valid C (gs ! k) \<and> pos (gs ! k) = nat (seg_start (int (length C)) (int n) k) \<and> fin (gs ! k) = nat (seg_end (int (length C)) (int n) k)"
    and run: "sched stp ended es (gs, fl, bw) = Some (Inr (gs', fl', bw'))"
  shows "progress C (gs, fl, bw) (gs', fl', bw')" "{..< length C} \<subseteq> agree C fl' \<union> (\<Union>k < n. {pos (gs' ! k) ..< fin (gs' ! k)})"
    "c_uint (bw' + (\<Sum>k < n. int (fin (gs' ! k)) - int (pos (gs' ! k)))) = c_uint (bw + int (length C))"
proof -
  let ?len = "int (length C)"
  have "list_all (valid C) gs" using g gs by (simp add: list_all_length)
  from sched_progress [OF fl this es, where bw = bw] run show p: "progress C (gs, fl, bw) (gs', fl', bw')" by auto
  have seg: "{nat (seg_start ?len (int n) k) ..< nat (seg_end ?len (int n) k)} \<subseteq> agree C fl' \<union> {pos (gs' ! k) ..< fin (gs' ! k)}" if k: "k < n" for k
  proof -
    have "{pos (gs ! k) ..< pos (gs' ! k)} \<subseteq> agree C fl'" using progressD(4) [OF p] k gs by (simp add: UN_subset_iff)
    moreover have "{pos (gs ! k) ..< fin (gs' ! k)} \<subseteq> {pos (gs ! k) ..< pos (gs' ! k)} \<union> {pos (gs' ! k) ..< fin (gs' ! k)}" by auto
    ultimately have "{pos (gs ! k) ..< fin (gs' ! k)} \<subseteq> agree C fl' \<union> {pos (gs' ! k) ..< fin (gs' ! k)}" by blast
    moreover have "pos (gs ! k) = nat (seg_start ?len (int n) k)" "fin (gs' ! k) = nat (seg_end ?len (int n) k)"
      using g [OF k] progress_nthD(1) [OF p, of k] k gs by simp_all
    ultimately show ?thesis by simp
  qed
  have "{..< length C} \<subseteq> (\<Union>k < n. {nat (seg_start ?len (int n) k) ..< nat (seg_end ?len (int n) k)})" using segments_cover [OF n, of ?len] by simp
  also have "\<dots> \<subseteq> (\<Union>k < n. agree C fl' \<union> {pos (gs' ! k) ..< fin (gs' ! k)})" using seg by (intro UN_mono) simp_all
  also have "\<dots> \<subseteq> agree C fl' \<union> (\<Union>k < n. {pos (gs' ! k) ..< fin (gs' ! k)})" unfolding UN_Un_distrib by (rule Un_mono) auto
  finally show "{..< length C} \<subseteq> agree C fl' \<union> (\<Union>k < n. {pos (gs' ! k) ..< fin (gs' ! k)})" .
  have "(\<Sum>k < n. int (fin (gs' ! k)) - int (pos (gs' ! k))) + (int (sum_list (map pos gs')) - int (sum_list (map pos gs)))
      = (\<Sum>k < n. int (fin (gs' ! k)) - int (pos (gs ! k)))"
    using progressD(1) [OF p] gs by (simp add: sum_list_sum_nth atLeast0LessThan sum_subtractf)
  also have "\<dots> = (\<Sum>k < n. int (nat (seg_end ?len (int n) k)) - int (nat (seg_start ?len (int n) k)))"
    using g progress_nthD(1) [OF p] gs by (intro sum.cong) simp_all
  also have "\<dots> = ?len" using segs_sum [OF n, of ?len] by simp
  finally have "(\<Sum>k < n. int (fin (gs' ! k)) - int (pos (gs' ! k))) = ?len - (int (sum_list (map pos gs')) - int (sum_list (map pos gs)))" by simp
  moreover have "c_uint (bw' + x) = c_uint (bw + int (sum_list (map pos gs')) - int (sum_list (map pos gs)) + x)" for x
    using progressD(5) [OF p] unfolding c_uint_def by (rule mod_add_cong) (rule refl)
  ultimately show "c_uint (bw' + (\<Sum>k < n. int (fin (gs' ! k)) - int (pos (gs' ! k)))) = c_uint (bw + int (length C))" by simp
qed

lemma sched_exact:
  assumes fl: "length fl = length C" and es: "list_all (\<lambda>(i, e). good e) es"
    and g: "\<And>k. k < length gs \<Longrightarrow> valid C (gs ! k) \<and> exact C (gs ! k)"
    and enough: "\<And>k. k < length gs \<Longrightarrow> Suc (length C) < count_list (map fst es) k"
    and cover: "{..< length C} \<subseteq> agree C fl \<union> (\<Union>k < length gs. {pos (gs ! k) ..< fin (gs ! k)})"
  shows "\<exists>gs' bw'. sched stp ended es (gs, fl, bw) = Some (Inr (gs', C, bw')) \<and> length gs' = length gs
    \<and> list_all (\<lambda>g. ended g \<and> exact C g) gs' \<and> c_uint bw' = c_uint (bw + (\<Sum>k < length gs. int (fin (gs ! k)) - int (pos (gs ! k))))"
proof -
  have v: "list_all (valid C) gs" using g by (simp add: list_all_length)
  have "Suc (length C) < rank (gs ! k) + count_list (map fst es) k" if "k < length gs" for k using enough [OF that] by simp
  from sched_completes [OF fl v es this cover, where bw = bw] obtain gs' bw' where
    s: "sched stp ended es (gs, fl, bw) = Some (Inr (gs', C, bw'))" and p: "progress C (gs, fl, bw) (gs', C, bw')" and e: "list_all ended gs'"
    by blast
  have len: "length gs' = length gs" using progressD(1) [OF p] .
  have x: "exact C (gs' ! k)" "pos (gs' ! k) = fin (gs ! k)" if k: "k < length gs" for k
  proof -
    show ex: "exact C (gs' ! k)" using progress_nthD(2) [OF p k] g [OF k] by blast
    have "ended (gs' ! k)" using e k len by (simp add: list_all_length)
    then show "pos (gs' ! k) = fin (gs ! k)" using exact_pos [OF ex] progress_nthD(1) [OF p k] by simp
  qed
  have "int (sum_list (map pos gs')) - int (sum_list (map pos gs)) = (\<Sum>k < length gs. int (fin (gs ! k)) - int (pos (gs ! k)))"
    using x(2) len by (simp add: sum_list_sum_nth atLeast0LessThan sum_subtractf)
  then have "c_uint bw' = c_uint (bw + (\<Sum>k < length gs. int (fin (gs ! k)) - int (pos (gs ! k))))"
    using progressD(5) [OF p] by (simp add: add_diff_eq [symmetric])
  moreover have "list_all (\<lambda>g. ended g \<and> exact C g) gs'" using e x(1) len by (simp add: list_all_length)
  ultimately show ?thesis using s len by blast
qed

lemma sched_segments:
  assumes n: "0 < n" and fl: "length fl = length C" and gs: "length gs = n" and es: "list_all (\<lambda>(i, e). good e) es"
    and g: "\<And>k. k < n \<Longrightarrow> valid C (gs ! k) \<and> exact C (gs ! k)
      \<and> pos (gs ! k) = nat (seg_start (int (length C)) (int n) k) \<and> fin (gs ! k) = nat (seg_end (int (length C)) (int n) k)"
    and enough: "\<And>k. k < n \<Longrightarrow> Suc (length C) < count_list (map fst es) k"
  shows "\<exists>gs' bw'. sched stp ended es (gs, fl, bw) = Some (Inr (gs', C, bw')) \<and> length gs' = n
    \<and> list_all (\<lambda>g. ended g \<and> exact C g) gs' \<and> c_uint bw' = c_uint (bw + int (length C))"
proof -
  have "{..< length C} \<subseteq> (\<Union>k < length gs. {pos (gs ! k) ..< fin (gs ! k)})"
    using segments_cover [OF n, of "int (length C)"] g gs by simp
  then have cover: "{..< length C} \<subseteq> agree C fl \<union> (\<Union>k < length gs. {pos (gs ! k) ..< fin (gs ! k)})" by (rule subset_trans) simp
  have "(\<Sum>k < length gs. int (fin (gs ! k)) - int (pos (gs ! k))) = int (length C)"
    using segs_sum [OF n, of "int (length C)"] g gs by simp
  then show ?thesis using sched_exact [OF fl es _ _ cover, of bw] g enough gs by simp
qed

end

end
