(* ===== verification/AgetHttp.thy ===== *)
theory AgetHttp
  imports AgetSegments
begin

text \<open>
  The HTTP download thread: \<^verbatim>\<open>http_get\<close> of \<^verbatim>\<open>papps/aget-devel/Download.c\<close> and
  \<^verbatim>\<open>handleHttpRetcode\<close> of \<^verbatim>\<open>Misc.c\<close>, on the thread data of \<^verbatim>\<open>Data.h\<close>.  A step of the thread is
  the part up to the first \<^verbatim>\<open>pwrite\<close>, or one turn of the loop; the shared data, the file and
  \<^verbatim>\<open>bwritten\<close>, are touched once in a step.  The last part is the interpretation of
  \<open>segment_getter\<close>.
\<close>

section \<open>Data\<close>

definition STAT_OK :: int where "STAT_OK = 255"

record thread_data =
  td_sin :: "string \<times> int"
  getstr :: string
  soffset :: int
  foffset :: int
  offset :: int
  td_clength :: int
  td_fd :: int
  td_tid :: int
  status :: int
  td_username :: string
  td_password :: string
  td_url :: string
  head_sd :: int

text \<open>Where a thread stands, its data, and what the server will still send.\<close>

datatype get_pc = GStart | GLoop | GDone

record getter =
  gpc :: get_pc
  gtd :: thread_data
  gstrm :: string

section \<open>The code\<close>

text \<open>\<^verbatim>\<open>strstr(rbuf, p) != NULL\<close>.\<close>

definition substr :: "string \<Rightarrow> string \<Rightarrow> bool" where
  "substr p s \<longleftrightarrow> list_ex (\<lambda>i. starts p (drop i s)) [0..<Suc (length s)]"

definition strstr :: "string \<Rightarrow> string \<Rightarrow> bool" where
  "strstr a p \<longleftrightarrow> substr p (c_str a)"

definition handleHttpRetcode :: "string \<Rightarrow> unit proc" where
  "handleHttpRetcode rbuf =
     (if strstr rbuf ''HTTP/1.1 416'' then Some (Inl 1)
      else if strstr rbuf ''HTTP/1.1 403'' then Some (Inl 1)
      else if strstr rbuf ''HTTP/1.1 404'' then Some (Inl 1)
      else Some (Inr ()))"

abbreviation CR :: char where "CR \<equiv> CHR 0x0D"
abbreviation LF :: char where "LF \<equiv> CHR 0x0A"

text \<open>The test for the end of the header looks back three characters, one after the other.\<close>

definition ends_at :: "string \<Rightarrow> int \<Rightarrow> bool option" where
  "ends_at rbuf s =
     do { c \<leftarrow> rd rbuf s;
          if c \<noteq> LF then Some False else
          do { c \<leftarrow> rd rbuf (s - 1);
               if c \<noteq> CR then Some False else
               do { c \<leftarrow> rd rbuf (s - 2);
                    if c \<noteq> LF then Some False else
                    do { c \<leftarrow> rd rbuf (s - 3); Some (c = CR) } } } }"

function header_loop :: "string \<Rightarrow> int \<Rightarrow> int \<Rightarrow> int option" where
  "header_loop rbuf dr i =
     (if i < dr then do { m \<leftarrow> ends_at rbuf i; if m then Some (i + 1) else header_loop rbuf dr (i + 1) }
      else Some i)"
  by pat_completeness auto
termination
  by (relation "measure (\<lambda>(rbuf, dr, i). nat (dr - i))") auto

declare header_loop.simps [simp del]

text \<open>The condition of the \<^verbatim>\<open>while\<close> loop and what follows the loop.\<close>

definition loop_test :: "'a getter_scheme \<Rightarrow> 'a getter_scheme" where
  "loop_test g =
     (let td = gtd g in
      if offset td < foffset td then g\<lparr>gpc := GLoop\<rparr>
      else g\<lparr>gpc := GDone, gtd := (if offset td = foffset td then td\<lparr>status := STAT_OK\<rparr> else td)\<rparr>)"

definition buffer :: "string \<Rightarrow> string" where
  "buffer b = b @ replicate (nat MAXBUFSIZ - length b) NUL"

definition http_get_start :: "net_event \<Rightarrow> getter \<times> string \<times> int \<Rightarrow> (getter \<times> string \<times> int) proc" where
  "http_get_start e = (\<lambda>(g, fl, bw).
     (let td = gtd g; leave = Some (Inr (g\<lparr>gpc := GDone\<rparr>, fl, bw)) in
      if soffset td < 0 \<or> soffset td \<ge> foffset td
      then Some (Inr (g\<lparr>gpc := GDone, gtd := td\<lparr>status := STAT_OK\<rparr>\<rparr>, fl, bw))
      else if \<not> nsocket e then leave
      else if \<not> nconnect e then leave
      else if \<not> nsend e then leave
      else let (dr, b, rest) = recv (nfirst e) (nat (MAXBUFSIZ - 1)) (gstrm g) in
        if dr = - 1 then leave
        else pbind (pret (wr (buffer b) dr NUL)) (\<lambda>rbuf.
          pbind (handleHttpRetcode rbuf) (\<lambda>_.
            if \<not> strstr rbuf ''HTTP/1.1 206'' then Some (Inl 1)
            else pret (do {
              i \<leftarrow> header_loop rbuf dr 0;
              (dw, fl) \<leftarrow> pwrite (nwrite e) fl (drop (nat i) rbuf)
                 (if dr - i > foffset td then foffset td - i else dr - i) (soffset td);
              Some (loop_test (g\<lparr>gtd := td\<lparr>offset := soffset td + dw\<rparr>, gstrm := rest\<rparr>), fl, c_uint (bw + dw)) })))))"

definition http_get_turn :: "net_event \<Rightarrow> getter \<times> string \<times> int \<Rightarrow> (getter \<times> string \<times> int) proc" where
  "http_get_turn e = (\<lambda>(g, fl, bw).
     (let td = gtd g; (dr, b, rest) = recv (nrecv e) (nat MAXBUFSIZ) (gstrm g) in
      pret (do {
        (dw, fl) \<leftarrow> pwrite (nwrite e) fl (buffer b)
           (if offset td + dr > foffset td then foffset td - offset td else dr) (offset td);
        Some (loop_test (g\<lparr>gtd := td\<lparr>offset := offset td + dw\<rparr>, gstrm := rest\<rparr>), fl, c_uint (bw + dw)) })))"

definition http_get_step :: "net_event \<Rightarrow> getter \<times> string \<times> int \<Rightarrow> (getter \<times> string \<times> int) proc" where
  "http_get_step e = (\<lambda>(g, fl, bw).
     (case gpc g of GStart \<Rightarrow> http_get_start e (g, fl, bw) | GLoop \<Rightarrow> http_get_turn e (g, fl, bw) | GDone \<Rightarrow> Some (Inr (g, fl, bw))))"

section \<open>The reply\<close>

abbreviation crlf2 :: string where "crlf2 \<equiv> [CR, LF, CR, LF]"

text \<open>A header of a range reply: the status line first, and its empty line last.\<close>

definition http_header :: "string \<Rightarrow> bool" where
  "http_header h \<longleftrightarrow> starts ''HTTP/1.1 206'' h \<and> (\<exists>h'. h = h' @ crlf2) \<and> \<not> substr crlf2 (butlast h)"

text \<open>The texts \<^verbatim>\<open>handleHttpRetcode\<close> looks for, which it does in all of the buffer.\<close>

definition clean :: "string \<Rightarrow> bool" where
  "clean s \<longleftrightarrow> \<not> substr ''HTTP/1.1 416'' s \<and> \<not> substr ''HTTP/1.1 403'' s \<and> \<not> substr ''HTTP/1.1 404'' s"

lemma substr_iff: "substr p s \<longleftrightarrow> (\<exists>i \<le> length s. starts p (drop i s))"
  by (auto simp: substr_def list_ex_iff less_Suc_eq_le simp del: upt_Suc)

lemma starts_iff: "starts p s \<longleftrightarrow> (\<exists>r. s = p @ r)"
  by (metis append_take_drop_id starts_append starts_def)

lemma substr_prefix: "substr p s \<Longrightarrow> substr p (s @ r)"
proof -
  assume "substr p s"
  then obtain i t where "i \<le> length s" "drop i s = p @ t" by (auto simp: substr_iff starts_iff)
  then have "i \<le> length (s @ r)" "drop i (s @ r) = p @ t @ r" by simp_all
  then show ?thesis unfolding substr_iff starts_iff by blast
qed

lemma c_str_prefix: "\<exists>r. s = c_str s @ r"
  unfolding c_str_def by (metis takeWhile_dropWhile_id)

lemma substr_c_str: "\<not> substr p s \<Longrightarrow> \<not> substr p (c_str s)"
  using substr_prefix c_str_prefix by metis

lemma c_str_buffer: "c_str (b @ replicate n NUL) = c_str b"
  by (induction b) (auto simp: c_str_def takeWhile_replicate)

lemma clean_prefix: "clean (s @ r) \<Longrightarrow> clean s"
  unfolding clean_def using substr_prefix by blast

lemma starts_c_str: "starts p s \<Longrightarrow> NUL \<notin> set p \<Longrightarrow> starts p (c_str s)"
proof -
  assume "starts p s" "NUL \<notin> set p"
  then show ?thesis by (auto simp: starts_iff c_str_def takeWhile_append)
qed

lemma ends_at_eq:
  assumes "i < length s" "3 \<le> i \<or> s ! i \<noteq> LF"
  shows "ends_at (s @ r) (int i) = Some (3 \<le> i \<and> starts crlf2 (drop (i - 3) s))"
proof (cases "3 \<le> i")
  case False
  then show ?thesis using assms by (simp add: ends_at_def nth_append)
next
  case True
  then obtain k where k: "i = k + 3" using le_Suc_ex by (metis add.commute)
  have n: "nat (int k + 2) = k + 2" "nat (int k + 1) = k + 1" "nat (int k) = k" "nat (3 + int k) = k + 3" "nat (2 + int k) = k + 2" "nat (1 + int k) = k + 1"
    by linarith+
  have "starts crlf2 (drop k s) \<longleftrightarrow> s ! k = CR \<and> s ! (k + 1) = LF \<and> s ! (k + 2) = CR \<and> s ! (k + 3) = LF"
  proof -
    have "drop k s = s ! k # s ! (k + 1) # s ! (k + 2) # s ! (k + 3) # drop (k + 4) s"
      using assms(1) k by (simp add: Cons_nth_drop_Suc eval_nat_numeral)
    then show ?thesis by (simp add: starts_def)
  qed
  then show ?thesis using assms(1) k n by (auto simp: ends_at_def nth_append algebra_simps)
qed

lemma header_loop_finds:
  assumes "http_header h" "int (length h) \<le> dr"
  shows "header_loop (h @ r) dr 0 = Some (int (length h))"
proof -
  obtain h' where h': "h = h' @ crlf2" and st: "starts ''HTTP/1.1 206'' h" and no: "\<not> substr crlf2 (butlast h)"
    using assms(1) by (auto simp: http_header_def)
  have low: "h ! i \<noteq> LF" if "i < 3" for i
  proof -
    obtain t where "h = ''HTTP/1.1 206'' @ t" using st by (auto simp: starts_iff)
    with that show ?thesis by (auto simp: less_Suc_eq numeral_3_eq_3)
  qed
  have "header_loop (h @ r) dr (int i) = Some (int (length h))" if "i < length h" for i
    using that
  proof (induction "length h - i" arbitrary: i)
    case 0
    then show ?case by simp
  next
    case (Suc n)
    have e: "ends_at (h @ r) (int i) = Some (3 \<le> i \<and> starts crlf2 (drop (i - 3) h))"
      using Suc.prems low by (intro ends_at_eq) auto
    show ?case
    proof (cases "Suc i = length h")
      case True
      then have "i - 3 = length h'" using h' by simp
      then have "starts crlf2 (drop (i - 3) h)" using h' by (simp add: starts_def)
      then show ?thesis using e True h' assms(2) by (subst header_loop.simps) simp
    next
      case False
      have "\<not> (3 \<le> i \<and> starts crlf2 (drop (i - 3) h))"
      proof
        assume a: "3 \<le> i \<and> starts crlf2 (drop (i - 3) h)"
        then have "starts crlf2 (drop (i - 3) (butlast h))"
          using False Suc.prems by (auto simp: starts_def take_drop butlast_conv_take)
        then show False using no Suc.prems by (auto simp: substr_iff)
      qed
      then show ?thesis using e False Suc.prems Suc.hyps(1) [of "Suc i"] Suc.hyps(2) assms(2)
        by (subst header_loop.simps) (simp add: add.commute)
    qed
  qed
  from this [of 0] show ?thesis using h' by simp
qed

section \<open>One step\<close>

text \<open>What the first part does when the calls succeed and the whole header comes with the first
  \<^verbatim>\<open>recv\<close>: \<open>b\<close> is the part of the body that comes with it.\<close>

definition first_body :: "nat \<Rightarrow> string \<Rightarrow> string \<Rightarrow> string" where
  "first_body k h body = take (min 8191 (Suc k) - length h) body"

lemma buffer_wr:
  assumes "length b \<le> 8191"
  shows "wr (buffer b) (int (length b)) NUL = Some (buffer b)"
proof -
  have "buffer b ! length b = NUL" "length b < length (buffer b)"
    using assms by (simp_all add: buffer_def MAXBUFSIZ_def nth_append)
  then show ?thesis using list_update_id [of "buffer b" "length b"] by simp
qed

lemma buffer_retcode:
  assumes "clean b"
  shows "handleHttpRetcode (buffer b) = Some (Inr ())"
  using assms unfolding clean_def handleHttpRetcode_def strstr_def buffer_def c_str_buffer
  by (simp add: substr_c_str)

lemma buffer_206:
  assumes "http_header h"
  shows "strstr (buffer (h @ b)) ''HTTP/1.1 206''"
proof -
  have "starts ''HTTP/1.1 206'' (h @ b)"
  proof -
    obtain t where "h = ''HTTP/1.1 206'' @ t" using assms unfolding http_header_def starts_iff by blast
    then have "h @ b = ''HTTP/1.1 206'' @ t @ b" by simp
    then show ?thesis unfolding starts_iff by blast
  qed
  then have "starts ''HTTP/1.1 206'' (c_str (h @ b))" by (rule starts_c_str) simp
  then have "substr ''HTTP/1.1 206'' (c_str (h @ b))" unfolding substr_iff by (intro exI [of _ 0]) simp
  then show ?thesis unfolding strstr_def buffer_def c_str_buffer .
qed

lemma take_drop_length: "take n xs @ drop (length (take n xs)) xs = xs"
  by (simp add: min_def)

lemma http_start_eval:
  assumes so: "0 \<le> soffset (gtd g)" "soffset (gtd g) < foffset (gtd g)"
    and e: "nsocket e" "nconnect e" "nsend e" "nfirst e = Some k"
    and h: "http_header h" "length h \<le> min 8191 (Suc k)" and strm: "gstrm g = h @ body" "clean (h @ body)"
    and b: "b = first_body k h body"
    and n: "n = (if int (length b) > foffset (gtd g) then foffset (gtd g) - int (length h) else int (length b))"
    and w: "pwrite (nwrite e) fl (b @ replicate (8192 - length h - length b) NUL) n (soffset (gtd g)) = Some (dw, fl')"
  shows "http_get_start e (g, fl, bw) =
    Some (Inr (loop_test (g\<lparr>gtd := (gtd g)\<lparr>offset := soffset (gtd g) + dw\<rparr>, gstrm := drop (length b) body\<rparr>), fl', c_uint (bw + dw)))"
proof -
  have r: "recv (nfirst e) (nat (MAXBUFSIZ - 1)) (gstrm g) = (int (length (h @ b)), h @ b, drop (length b) body)"
    using h(2) by (simp add: recv_def e strm b first_body_def MAXBUFSIZ_def Let_def)
  have len: "length (h @ b) \<le> 8191" using h(2) by (simp add: b first_body_def)
  have "h @ body = (h @ b) @ drop (length b) body" unfolding b first_body_def append.assoc take_drop_length ..
  then have c: "clean (h @ b)" using strm(2) clean_prefix by metis
  have buf: "buffer (h @ b) = h @ (b @ replicate (8192 - length h - length b) NUL)"
    by (simp add: buffer_def MAXBUFSIZ_def)
  have hl: "header_loop (buffer (h @ b)) (int (length (h @ b))) 0 = Some (int (length h))"
    unfolding buf by (rule header_loop_finds [OF h(1)]) simp
  have d: "drop (nat (int (length h))) (buffer (h @ b)) = b @ replicate (8192 - length h - length b) NUL"
    unfolding buf by simp
  have n': "(if int (length (h @ b)) - int (length h) > foffset (gtd g) then foffset (gtd g) - int (length h)
      else int (length (h @ b)) - int (length h)) = n" by (simp add: n)
  have so': "(soffset (gtd g) < 0 \<or> soffset (gtd g) \<ge> foffset (gtd g)) = False" "(int (length (h @ b)) = - 1) = False"
    using so by simp_all
  show ?thesis
    unfolding http_get_start_def prod.case Let_def r so' buffer_wr [OF len] option.map pbind_simps buffer_retcode [OF c]
    unfolding hl bind.bind_lunit d n' w using e(1-3) buffer_206 [OF h(1), of b] by simp
qed

lemma pwrite_full:
  assumes "cap = Some k" "n \<le> k" "n \<le> length buf" "0 \<le> off"
  shows "pwrite cap fl buf (int n) off = Some (int n, put_at fl (nat off) (take n buf))"
  using assms by (simp add: pwrite_def Let_def)

lemma http_turn_eval:
  assumes e: "nrecv e = Some k" and b: "b = take (min 8192 (Suc k)) (gstrm g)"
    and w: "pwrite (nwrite e) fl (buffer b)
       (if offset (gtd g) + int (length b) > foffset (gtd g) then foffset (gtd g) - offset (gtd g) else int (length b)) (offset (gtd g)) = Some (dw, fl')"
  shows "http_get_turn e (g, fl, bw) =
    Some (Inr (loop_test (g\<lparr>gtd := (gtd g)\<lparr>offset := offset (gtd g) + dw\<rparr>, gstrm := drop (length b) (gstrm g)\<rparr>), fl', c_uint (bw + dw)))"
proof -
  have r: "recv (nrecv e) (nat MAXBUFSIZ) (gstrm g) = (int (length b), b, drop (length b) (gstrm g))"
    by (simp add: recv_def e b MAXBUFSIZ_def Let_def)
  show ?thesis unfolding http_get_turn_def prod.case Let_def r using w by simp
qed

section \<open>The contract\<close>

text \<open>The server answers the request for the bytes from \<open>soffset\<close> on with a header of at most \<open>H\<close>
  bytes and these bytes of the content.\<close>

definition served :: "nat \<Rightarrow> string \<Rightarrow> getter \<Rightarrow> bool" where
  "served H C g \<longleftrightarrow> (\<exists>h. http_header h \<and> length h \<le> H \<and> length h \<le> 8191
     \<and> gstrm g = h @ drop (nat (soffset (gtd g))) C \<and> clean (gstrm g))"

text \<open>The calls succeed, the first \<^verbatim>\<open>recv\<close> brings at least \<open>H\<close> bytes, and \<^verbatim>\<open>pwrite\<close> takes everything.\<close>

definition http_good :: "nat \<Rightarrow> net_event \<Rightarrow> bool" where
  "http_good H e \<longleftrightarrow> nsocket e \<and> nconnect e \<and> nsend e \<and> nrecv e \<noteq> None
     \<and> (case nfirst e of None \<Rightarrow> False | Some k \<Rightarrow> H \<le> Suc k)
     \<and> (case nwrite e of None \<Rightarrow> False | Some w \<Rightarrow> 8192 \<le> w)"

definition http_valid :: "nat \<Rightarrow> string \<Rightarrow> getter \<Rightarrow> bool" where
  "http_valid H C g \<longleftrightarrow>
     (let td = gtd g in length (getstr td) = 256 \<and> foffset td \<le> int (length C) \<and> 0 \<le> offset td \<and> offset td \<le> int (length C)
      \<and> (case gpc g of
           GStart \<Rightarrow> offset td = soffset td
             \<and> (soffset td < foffset td \<longrightarrow> served H C g \<and> (MAXBUFSIZ \<le> foffset td \<or> foffset td = int (length C)))
         | GLoop \<Rightarrow> offset td < foffset td \<and> gstrm g = drop (nat (offset td)) C
         | GDone \<Rightarrow> foffset td \<le> offset td))"

definition http_exact :: "string \<Rightarrow> getter \<Rightarrow> bool" where
  "http_exact C g \<longleftrightarrow>
     (let td = gtd g in td_tid td \<noteq> - 1 \<and>
      (case gpc g of
        GStart \<Rightarrow> 0 \<le> soffset td \<and> offset td = soffset td \<and> soffset td \<le> foffset td
          \<and> (MAXBUFSIZ \<le> foffset td - soffset td \<or> foffset td = int (length C))
      | GLoop \<Rightarrow> True
      | GDone \<Rightarrow> offset td = foffset td \<and> status td = STAT_OK))"

definition http_ended :: "'a getter_scheme \<Rightarrow> bool" where
  "http_ended g \<longleftrightarrow> gpc g = GDone"

definition http_pos :: "'a getter_scheme \<Rightarrow> nat" where
  "http_pos g = nat (offset (gtd g))"

definition http_fin :: "'a getter_scheme \<Rightarrow> nat" where
  "http_fin g = nat (foffset (gtd g))"

definition http_rank :: "'a getter_scheme \<Rightarrow> nat" where
  "http_rank g = http_pos g + (if gpc g = GStart then 0 else 1)"

lemma loop_test_sel [simp]:
  "gpc (loop_test g) = (if offset (gtd g) < foffset (gtd g) then GLoop else GDone)"
  "offset (gtd (loop_test g)) = offset (gtd g)" "foffset (gtd (loop_test g)) = foffset (gtd g)"
  "gstrm (loop_test g) = gstrm g" "td_tid (gtd (loop_test g)) = td_tid (gtd g)"
  "getstr (gtd (loop_test g)) = getstr (gtd g)" "soffset (gtd (loop_test g)) = soffset (gtd g)"
  "offset (gtd g) = foffset (gtd g) \<Longrightarrow> status (gtd (loop_test g)) = STAT_OK"
  by (simp_all add: loop_test_def Let_def)

lemmas http_contract = http_valid_def http_exact_def http_ended_def http_pos_def http_fin_def http_rank_def Let_def

text \<open>What both kinds of step come to: the next \<open>d\<close> bytes are written.\<close>

definition advanced :: "nat \<Rightarrow> string \<Rightarrow> getter \<Rightarrow> getter \<Rightarrow> nat \<Rightarrow> bool" where
  "advanced H C g g' d \<longleftrightarrow> http_valid H C g' \<and> http_pos g' = http_pos g + d \<and> http_fin g' = http_fin g
     \<and> (http_ended g' \<or> http_rank g < http_rank g') \<and> (http_exact C g \<longrightarrow> http_exact C g')"

lemma http_start_good:
  assumes e: "http_good H e" and v: "http_valid H C g" and pc: "gpc g = GStart"
  shows "\<exists>g' d bw'. http_get_start e (g, fl, bw) = Some (Inr (g', put_at fl (http_pos g) (take d (drop (http_pos g) C)), bw'))
    \<and> c_uint bw' = c_uint (bw + int d) \<and> advanced H C g g' d"
proof (cases "soffset (gtd g) < foffset (gtd g)")
  case False
  let ?g = "g\<lparr>gpc := GDone, gtd := (gtd g)\<lparr>status := STAT_OK\<rparr>\<rparr>"
  have "http_get_start e (g, fl, bw) = Some (Inr (?g, fl, bw))"
    using False by (simp add: http_get_start_def Let_def)
  moreover have "advanced H C g ?g 0" using v pc False by (auto simp: advanced_def http_contract)
  ultimately show ?thesis by (intro exI [of _ ?g] exI [of _ 0] exI [of _ bw]) (simp add: put_at_def)
next
  case True
  let ?td = "gtd g" and ?C = "drop (nat (soffset (gtd g))) C"
  have vs: "0 \<le> soffset ?td" "offset ?td = soffset ?td" "foffset ?td \<le> int (length C)" "served H C g"
    "MAXBUFSIZ \<le> foffset ?td \<or> foffset ?td = int (length C)" "length (getstr ?td) = 256"
    using v pc True by (auto simp: http_valid_def Let_def)
  obtain h where h: "http_header h" "length h \<le> H" "length h \<le> 8191" "gstrm g = h @ ?C" "clean (h @ ?C)"
    using vs(4) by (auto simp: served_def)
  obtain k w where k: "nfirst e = Some k" "H \<le> Suc k" and w: "nwrite e = Some w" "8192 \<le> w" and e': "nsocket e" "nconnect e" "nsend e"
    using e by (auto simp: http_good_def split: option.splits)
  define b where "b = first_body k h ?C"
  have lb: "length b + length h \<le> 8191" "int (length b) \<le> int (length C) - soffset ?td"
    using h(2,3) k vs True by (auto simp: b_def first_body_def)
  have b: "b = take (length b) ?C" by (simp add: b_def first_body_def min_def)
  have n: "int (length b) = (if int (length b) > foffset ?td then foffset ?td - int (length h) else int (length b))"
    using vs lb by (auto simp: MAXBUFSIZ_def)
  have pw: "pwrite (nwrite e) fl (b @ replicate (8192 - length h - length b) NUL) (int (length b)) (soffset ?td)
      = Some (int (length b), put_at fl (nat (soffset ?td)) b)"
    using pwrite_full [OF w(1), of "length b"] w(2) lb(1) vs(1) by simp
  let ?g = "loop_test (g\<lparr>gtd := ?td\<lparr>offset := soffset ?td + int (length b)\<rparr>, gstrm := drop (length b) ?C\<rparr>)"
  have "http_get_start e (g, fl, bw) = Some (Inr (?g, put_at fl (nat (soffset ?td)) b, c_uint (bw + int (length b))))"
    using h k by (intro http_start_eval [OF vs(1) True e' k(1) h(1) _ h(4,5) b_def n pw]) auto
  moreover have "advanced H C g ?g (length b)"
    using vs lb True pc by (auto simp: advanced_def http_contract nat_add_distrib add.commute MAXBUFSIZ_def)
  ultimately show ?thesis using vs(2) b
    by (intro exI [of _ ?g] exI [of _ "length b"] exI [of _ "c_uint (bw + int (length b))"])
      (simp add: http_pos_def c_uint_def)
qed

text \<open>A chunk that has arrived is written as far as it belongs to the segment.\<close>

lemma chunk_write:
  assumes o: "0 \<le> off" "off < fo" "fo \<le> int (length C)" and w: "cap = Some w" "8192 \<le> w"
    and b: "b = take (min 8192 (Suc k)) (drop (nat off) C)"
  shows "\<exists>d. 0 < d \<and> off + int d \<le> fo \<and> (off + int d < fo \<longrightarrow> d = length b)
    \<and> pwrite cap fl (buffer b) (if off + int (length b) > fo then fo - off else int (length b)) off
      = Some (int d, put_at fl (nat off) (take d (drop (nat off) C)))"
proof -
  define d where "d = (if off + int (length b) > fo then nat (fo - off) else length b)"
  have lb: "length b \<le> 8192" "0 < length b" "int (length b) \<le> int (length C) - off" using o by (auto simp: b)
  have d: "d \<le> length b" "0 < d" "off + int d \<le> fo" "off + int d < fo \<longrightarrow> d = length b" using lb o by (auto simp: d_def)
  have "take d (buffer b) = take d b" using d(1) by (simp add: buffer_def)
  also have "\<dots> = take d (drop (nat off) C)" using d(1) by (simp add: b min_absorb1)
  finally have "pwrite cap fl (buffer b) (int d) off = Some (int d, put_at fl (nat off) (take d (drop (nat off) C)))"
    using pwrite_full [OF w(1), of d "buffer b" off fl] w(2) lb(1) d(1) o(1) by (simp add: buffer_def)
  moreover have "(if off + int (length b) > fo then fo - off else int (length b)) = int d" using o by (simp add: d_def)
  ultimately show ?thesis using d by (intro exI [of _ d]) simp
qed

lemma http_turn_good:
  assumes e: "http_good H e" and v: "http_valid H C g" and pc: "gpc g = GLoop"
  shows "\<exists>g' d bw'. http_get_turn e (g, fl, bw) = Some (Inr (g', put_at fl (http_pos g) (take d (drop (http_pos g) C)), bw'))
    \<and> c_uint bw' = c_uint (bw + int d) \<and> advanced H C g g' d"
proof -
  let ?td = "gtd g" and ?C = "drop (nat (offset (gtd g))) C"
  have vs: "0 \<le> offset ?td" "offset ?td < foffset ?td" "foffset ?td \<le> int (length C)" "gstrm g = ?C" "length (getstr ?td) = 256"
    using v pc by (auto simp: http_valid_def Let_def)
  obtain k w where k: "nrecv e = Some k" and w: "nwrite e = Some w" "8192 \<le> w"
    using e by (auto simp: http_good_def split: option.splits)
  define b where "b = take (min 8192 (Suc k)) (gstrm g)"
  from chunk_write [OF vs(1-3) w, where b = b and k = k and fl = fl] vs(4) obtain d where
    d: "0 < d" "offset ?td + int d \<le> foffset ?td" "offset ?td + int d < foffset ?td \<longrightarrow> d = length b"
    and pw: "pwrite (nwrite e) fl (buffer b) (if offset ?td + int (length b) > foffset ?td then foffset ?td - offset ?td else int (length b)) (offset ?td)
      = Some (int d, put_at fl (nat (offset ?td)) (take d ?C))"
    unfolding b_def by auto
  let ?g = "loop_test (g\<lparr>gtd := ?td\<lparr>offset := offset ?td + int d\<rparr>, gstrm := drop (length b) (gstrm g)\<rparr>)"
  have "http_get_turn e (g, fl, bw) = Some (Inr (?g, put_at fl (nat (offset ?td)) (take d ?C), c_uint (bw + int d)))"
    by (rule http_turn_eval [OF k b_def pw])
  moreover have "advanced H C g ?g d"
    using vs d pc by (auto simp: advanced_def http_contract nat_add_distrib add.commute)
  ultimately show ?thesis
    by (intro exI [of _ ?g] exI [of _ d] exI [of _ "c_uint (bw + int d)"]) (simp add: http_pos_def c_uint_def)
qed

lemma http_step_good:
  assumes "http_good H e" "http_valid H C g" "\<not> http_ended g"
  shows "\<exists>g' d bw'. http_get_step e (g, fl, bw) = Some (Inr (g', put_at fl (http_pos g) (take d (drop (http_pos g) C)), bw'))
    \<and> c_uint bw' = c_uint (bw + int d) \<and> advanced H C g g' d"
proof (cases "gpc g")
  case GStart
  then show ?thesis using http_start_good [OF assms(1,2) GStart, of fl bw] by (simp add: http_get_step_def)
next
  case GLoop
  then show ?thesis using http_turn_good [OF assms(1,2) GLoop, of fl bw] by (simp add: http_get_step_def)
qed (use assms(3) in \<open>simp add: http_ended_def\<close>)

interpretation hg: segment_getter http_get_step "http_good H" "http_valid H" http_exact http_ended http_pos http_fin http_rank
  for H :: nat
proof
  fix e C g bw and fl :: string
  assume "http_good H e" "http_valid H C g" "\<not> http_ended g" "length fl = length C"
  then show "\<exists>g' d bw'. http_get_step e (g, fl, bw) = Some (Inr (g', put_at fl (http_pos g) (take d (drop (http_pos g) C)), bw'))
      \<and> c_uint bw' = c_uint (bw + int d) \<and> http_valid H C g' \<and> http_pos g' = http_pos g + d \<and> http_fin g' = http_fin g
      \<and> (http_ended g' \<or> http_rank g < http_rank g') \<and> (http_exact C g \<longrightarrow> http_exact C g')"
    using http_step_good [of H e C g fl bw] unfolding advanced_def by blast
next
  fix C g
  assume v: "http_valid H C g"
  then show "http_pos g \<le> length C" "http_rank g \<le> Suc (length C)" by (auto simp: http_contract)
  show "http_fin g \<le> http_pos g" if "http_ended g" using v that by (auto simp: http_contract)
next
  fix C g
  assume "http_exact C g" "http_ended g"
  then show "http_pos g = http_fin g" by (simp add: http_contract)
qed

end
