(* ===== verification/AgetHead.thy ===== *)
theory AgetHead
  imports AgetHttp
begin

text \<open>
  The head request of aget: \<^verbatim>\<open>http_head_req\<close> of \<^verbatim>\<open>papps/aget-devel/Head.c\<close>, which finds the length of
  the file in the reply of the server.  \<^verbatim>\<open>strtok\<close> works in the buffer of the reply: it writes a
  terminator after each token, and the position of a number is counted from the start of the
  token, not from its end.
\<close>

section \<open>Tokens\<close>

text \<open>\<^verbatim>\<open>strtok\<close> with the delimiters \<open>del\<close> on a buffer from a position: the start of the next token, the buffer with
  the terminator after the token, and the position where the next call goes on.\<close>

definition strtok :: "(char \<Rightarrow> bool) \<Rightarrow> string \<Rightarrow> nat \<Rightarrow> (nat \<times> string \<times> nat) option" where
  "strtok del buf p =
     (let s = p + length (takeWhile del (c_str (drop p buf)));
          t = takeWhile (\<lambda>c. \<not> del c) (c_str (drop s buf));
          e = s + length t
      in if t = [] then None
         else if e < length buf \<and> buf ! e \<noteq> NUL then Some (s, buf[e := NUL], e + 1) else Some (s, buf, e))"

lemma strtok_progress:
  assumes "strtok del buf p = Some (s, b, q)"
  shows "p < q \<and> q \<le> length buf \<and> length b = length buf"
proof -
  let ?s = "p + length (takeWhile del (c_str (drop p buf)))"
  let ?t = "takeWhile (\<lambda>c. \<not> del c) (c_str (drop ?s buf))"
  have t: "?t \<noteq> []" and q: "q = ?s + length ?t \<or> q = ?s + length ?t + 1 \<and> ?s + length ?t < length buf" "length b = length buf"
    using assms by (auto simp: strtok_def Let_def split: if_splits)
  have "length ?t \<le> length (drop ?s buf)"
    using length_takeWhile_le [of "\<lambda>c. \<not> del c" "c_str (drop ?s buf)"] length_takeWhile_le [of "\<lambda>c. c \<noteq> NUL" "drop ?s buf"]
    by (simp add: c_str_def)
  then have "length ?t \<le> length buf - ?s" by simp
  moreover have "0 < length ?t" using t by simp
  ultimately show ?thesis using q by arith
qed

definition is_eol :: "char \<Rightarrow> bool" where
  "is_eol c \<longleftrightarrow> c = CR \<or> c = LF"

text \<open>The string in an array, which must have a terminator.\<close>

definition str_of :: "string \<Rightarrow> string option" where
  "str_of a = (if NUL \<in> set a then Some (c_str a) else None)"

text \<open>The loop over the tokens after the first, with the length found so far.\<close>

function length_loop :: "string \<Rightarrow> nat \<Rightarrow> int \<Rightarrow> int option" where
  "length_loop buf p len =
     (case strtok is_eol buf p of None \<Rightarrow> Some len
      | Some (s, buf, p) \<Rightarrow>
          if substr ''Content-Length'' (c_str (drop s buf))
          then (case str_of (drop (s + 16) buf) of None \<Rightarrow> None | Some t \<Rightarrow> length_loop buf p (atoi t))
          else length_loop buf p len)"
  by pat_completeness auto
termination
  by (relation "measure (\<lambda>(buf, p, len). length buf - p)") (auto dest!: strtok_progress)

declare length_loop.simps [simp del]

section \<open>The request\<close>

definition HEADREQ :: "string \<Rightarrow> string \<Rightarrow> string \<Rightarrow> string" where
  "HEADREQ u h v = ''HEAD '' @ u @ '' HTTP/1.1'' @ [CR, LF] @ ''Host: '' @ h @ [CR, LF] @ ''User-Agent: '' @ v @ [CR, LF]
     @ ''Connection: close'' @ crlf2"

definition PROGVERSION :: string where "PROGVERSION = ''EnderUNIX Aget 0.59''"

text \<open>The text of the request: 511 bytes with the terminator for \<^verbatim>\<open>snprintf\<close>, of a larger buffer.\<close>

definition head_text :: "string \<Rightarrow> request \<Rightarrow> string \<Rightarrow> string \<Rightarrow> string" where
  "head_text proxyhost r h u =
     take 510 (HEADREQ (if proxyhost \<noteq> [] then take 8190 (''http://'' @ h @ '':'' @ dec_int (port r) @ u) else u) h PROGVERSION)"

text \<open>The work on what \<^verbatim>\<open>recv\<close> has brought: at most 512 bytes, into an array of 512 bytes.\<close>

definition head_reply :: "request \<Rightarrow> string \<Rightarrow> request proc" where
  "head_reply r reply =
     (let b = take 512 reply in
      pbind (pret (wr (b @ replicate (512 - length b) NUL) (int (length b)) NUL)) (\<lambda>rbuf.
        pbind (handleHttpRetcode rbuf) (\<lambda>_.
          case strtok is_eol rbuf 0 of None \<Rightarrow> None
          | Some (s, rbuf, p) \<Rightarrow>
              if substr ''HTTP/1.1 200'' (c_str (drop s rbuf))
              then pret (do { len \<leftarrow> length_loop rbuf p (clength r); Some (r\<lparr>clength := len\<rparr>) })
              else Some (Inr r))))"

text \<open>\<open>resolve\<close> is \<^verbatim>\<open>gethostbyname\<close> with \<^verbatim>\<open>inet_ntoa\<close>, \<open>sock\<close> tells whether the socket can be created, \<open>conn\<close>
  whether the host can be reached at the port, and \<open>server\<close> what the first \<^verbatim>\<open>recv\<close> brings after the
  request, \<open>None\<close> when \<^verbatim>\<open>send\<close> or \<^verbatim>\<open>recv\<close> fails.\<close>

definition http_head_req :: "string \<Rightarrow> int \<Rightarrow> (string \<Rightarrow> string option) \<Rightarrow> bool \<Rightarrow> (string \<Rightarrow> int \<Rightarrow> bool) \<Rightarrow> (string \<Rightarrow> string option)
    \<Rightarrow> request \<Rightarrow> request proc" where
  "http_head_req proxyhost proxyport resolve sock conn server r =
     pbind (pret (do { h \<leftarrow> str_of (host r); u \<leftarrow> str_of (url r); Some (h, u) })) (\<lambda>(h, u).
       let connect_host = (if proxyhost \<noteq> [] then proxyhost else h);
           connect_port = (if proxyhost \<noteq> [] then (if proxyport \<le> 0 then 80 else proxyport) else port r)
       in if 1023 \<le> length connect_host then None
       else case resolve connect_host of None \<Rightarrow> Some (Inl 1)
       | Some a \<Rightarrow>
         pbind (pret (do { a \<leftarrow> strncpy (ip r) a 15; t \<leftarrow> str_of a; Some (r\<lparr>ip := a\<rparr>, t) })) (\<lambda>(r, t).
           if \<not> sock then Some (Inl 1)
           else if \<not> conn t connect_port then Some (Inl 1)
           else case server (head_text proxyhost r h u) of None \<Rightarrow> Some (Inl 1)
           | Some reply \<Rightarrow> head_reply r reply))"

section \<open>A reply in lines\<close>

definition plain_line :: "string \<Rightarrow> bool" where
  "plain_line l \<longleftrightarrow> l \<noteq> [] \<and> list_all (\<lambda>c. \<not> is_eol c \<and> c \<noteq> NUL) l"

definition header_lines :: "string list \<Rightarrow> string" where
  "header_lines ls = concat (map (\<lambda>l. l @ [CR, LF]) ls) @ [CR, LF]"

text \<open>What one line does to the length: a line with the text of the field, as long as
  \<^verbatim>\<open>"Content-Length: "\<close> at least, gives the number at that distance from its start.\<close>

definition line_length :: "int \<Rightarrow> string \<Rightarrow> int" where
  "line_length len l = (if substr ''Content-Length'' l then atoi (drop 16 l) else len)"

lemma plain_lineD:
  assumes "plain_line l"
  shows "l \<noteq> []" "NUL \<notin> set l" "takeWhile (\<lambda>c. \<not> is_eol c) l = l" "takeWhile (\<lambda>c. c \<noteq> NUL) l = l"
  using assms by (auto simp: plain_line_def list_all_iff takeWhile_eq_all_conv)

lemma is_eol_simps [simp]: "is_eol CR" "is_eol LF"
  by (simp_all add: is_eol_def)

lemma eol_not_NUL: "list_all is_eol es \<Longrightarrow> c \<in> set es \<Longrightarrow> c \<noteq> NUL"
  by (auto simp: list_all_iff is_eol_def)

lemma strtok_line:
  assumes es: "list_all is_eol es" and l: "plain_line l" and c: "is_eol c"
  shows "strtok is_eol (pre @ es @ l @ c # post) (length pre)
    = Some (length pre + length es, pre @ es @ l @ NUL # post, length pre + length es + length l + 1)"
proof -
  obtain x xs where x: "l = x # xs" "\<not> is_eol x" "x \<noteq> NUL" using l by (cases l) (auto simp: plain_line_def)
  have "c_str (es @ l @ c # post) = es @ c_str (l @ c # post)"
    using eol_not_NUL [OF es] by (simp add: c_str_def takeWhile_append)
  moreover have "takeWhile is_eol (es @ c_str (l @ c # post)) = es"
    using es x by (simp add: c_str_def takeWhile_append list_all_iff)
  ultimately have s: "takeWhile is_eol (c_str (drop (length pre) (pre @ es @ l @ c # post))) = es" by simp
  have "c \<noteq> NUL" using c by (auto simp: is_eol_def)
  then have "c_str (l @ c # post) = l @ c # c_str post"
    using plain_lineD [OF l] by (simp add: c_str_def takeWhile_append2)
  then have t: "takeWhile (\<lambda>c. \<not> is_eol c) (c_str (drop (length pre + length es) (pre @ es @ l @ c # post))) = l"
    using l c by (simp add: takeWhile_append plain_line_def list_all_iff)
  show ?thesis unfolding strtok_def s t Let_def
    using plain_lineD(1) [OF l] \<open>c \<noteq> NUL\<close> by (simp add: nth_append list_update_append)
qed

lemma strtok_none:
  assumes "list_all is_eol es"
  shows "strtok is_eol (pre @ es @ NUL # post) (length pre) = None"
proof -
  have "c_str (es @ NUL # post) = es" using eol_not_NUL [OF assms] by (intro c_str_append) blast
  moreover have "takeWhile is_eol es = es" using assms by (simp add: list_all_iff takeWhile_eq_all_conv)
  ultimately have s: "takeWhile is_eol (c_str (drop (length pre) (pre @ es @ NUL # post))) = es" by simp
  show ?thesis unfolding strtok_def s Let_def by (simp add: c_str_def)
qed

lemma length_loop_lines:
  assumes "list_all is_eol es" "list_all (\<lambda>l. plain_line l \<and> (substr ''Content-Length'' l \<longrightarrow> 16 \<le> length l)) ls"
  shows "length_loop (pre @ es @ header_lines ls @ NUL # post) (length pre) len = Some (foldl line_length len ls)"
  using assms
proof (induction ls arbitrary: pre es len)
  case Nil
  have "strtok is_eol (pre @ (es @ [CR, LF]) @ NUL # post) (length pre) = None"
    using Nil by (intro strtok_none) simp
  then show ?case by (simp add: length_loop.simps header_lines_def)
next
  case (Cons l ls)
  let ?pre = "pre @ es @ l @ [NUL]" and ?b = "pre @ es @ l @ NUL # LF # header_lines ls @ NUL # post"
  have l: "plain_line l" "substr ''Content-Length'' l \<Longrightarrow> 16 \<le> length l" using Cons.prems by auto
  have tok: "strtok is_eol (pre @ es @ header_lines (l # ls) @ NUL # post) (length pre)
      = Some (length pre + length es, ?b, length ?pre)"
    using strtok_line [OF Cons.prems(1) l(1), where c = CR] by (simp add: header_lines_def)
  have IH: "length_loop ?b (length ?pre) n = Some (foldl line_length n ls)" for n
    using Cons.IH [of "[LF]" ?pre n] Cons.prems(2) by simp
  have s: "c_str (drop (length pre + length es) ?b) = l" using plain_lineD(2) [OF l(1)] by simp
  have "str_of (drop (length pre + length es + 16) ?b) = Some (drop 16 l)" if "16 \<le> length l"
  proof -
    have "drop (length pre + length es + 16) ?b = drop 16 l @ NUL # LF # header_lines ls @ NUL # post" using that by simp
    moreover have "NUL \<notin> set (drop 16 l)" using plain_lineD(2) [OF l(1)] in_set_dropD by fast
    ultimately show ?thesis by (simp add: str_of_def del: drop_append)
  qed
  then show ?case using l(2)
    by (subst length_loop.simps) (simp add: tok s IH line_length_def del: drop_append length_append)
qed

lemma foldl_line_length: "foldl line_length len ls = foldl line_length len (filter (substr ''Content-Length'') ls)"
  by (induction ls arbitrary: len) (auto simp: line_length_def)

lemma field_length: "substr ''Content-Length'' (''Content-Length: '' @ s)"
  using substr_prefix [of "''Content-Length''" "''Content-Length''" "'': '' @ s"] by (simp add: substr_def starts_def)

section \<open>The length found\<close>

text \<open>A reply in lines that comes whole with the first \<^verbatim>\<open>recv\<close>, with the status 200 and the field once.\<close>

definition length_reply :: "nat \<Rightarrow> string \<Rightarrow> bool" where
  "length_reply n reply \<longleftrightarrow>
     (\<exists>st ls. reply = header_lines (st # ls) \<and> length reply < 512 \<and> list_all plain_line (st # ls) \<and> starts ''HTTP/1.1 200'' st
        \<and> clean reply \<and> filter (substr ''Content-Length'') ls = [''Content-Length: '' @ dec n] \<and> n < 2 ^ 31)"

text \<open>What the request must find: strings in its arrays, an address of the host to connect to that answers
  at the port, and the reply of the server there.\<close>

definition head_served :: "string \<Rightarrow> int \<Rightarrow> (string \<Rightarrow> string option) \<Rightarrow> (string \<Rightarrow> int \<Rightarrow> bool) \<Rightarrow> (string \<Rightarrow> string option)
    \<Rightarrow> request \<Rightarrow> string \<Rightarrow> nat \<Rightarrow> bool" where
  "head_served proxyhost proxyport resolve conn server r a n \<longleftrightarrow>
     (let ch = (if proxyhost \<noteq> [] then proxyhost else c_str (host r));
          cp = (if proxyhost \<noteq> [] then (if proxyport \<le> 0 then 80 else proxyport) else port r)
      in NUL \<in> set (host r) \<and> NUL \<in> set (url r) \<and> length ch < 1023 \<and> resolve ch = Some a
         \<and> length (ip r) = 16 \<and> ip r ! 15 = NUL \<and> length a \<le> 15 \<and> NUL \<notin> set a \<and> conn a cp
         \<and> (case server (head_text proxyhost r (c_str (host r)) (c_str (url r))) of None \<Rightarrow> False | Some b \<Rightarrow> length_reply n b))"

lemma head_length_loop:
  assumes "length_reply n b"
  shows "\<exists>s rbuf p. strtok is_eol (b @ NUL # z) 0 = Some (s, rbuf, p) \<and> substr ''HTTP/1.1 200'' (c_str (drop s rbuf))
    \<and> length_loop rbuf p len = Some (int n)"
proof -
  obtain st ls where b: "b = header_lines (st # ls)" and pl: "plain_line st" "list_all plain_line ls"
      and st: "starts ''HTTP/1.1 200'' st" and f: "filter (substr ''Content-Length'') ls = [''Content-Length: '' @ dec n]" and n: "n < 2 ^ 31"
    using assms by (auto simp: length_reply_def)
  let ?r = "st @ NUL # LF # header_lines ls @ NUL # z"
  have tok: "strtok is_eol (b @ NUL # z) 0 = Some (0, ?r, length (st @ [NUL]))"
    using strtok_line [of "[]" st CR "[]", OF _ pl(1)] by (simp add: b header_lines_def)
  have "16 \<le> length l" if "l \<in> set ls" "substr ''Content-Length'' l" for l
  proof -
    have "l \<in> set (filter (substr ''Content-Length'') ls)" using that by simp
    then show ?thesis by (simp add: f)
  qed
  then have "length_loop ((st @ [NUL]) @ [LF] @ header_lines ls @ NUL # z) (length (st @ [NUL])) len = Some (foldl line_length len ls)"
    using pl(2) by (intro length_loop_lines) (simp_all add: list_all_iff)
  moreover have "foldl line_length len ls = int n"
    unfolding foldl_line_length [of len ls] f
    using atoi_dec [of "[]" n] n field_length [of "dec n"] by (simp add: line_length_def)
  moreover have "substr ''HTTP/1.1 200'' (c_str (drop 0 ?r))"
    using st plain_lineD(2) [OF pl(1)] by (auto simp: substr_iff)
  ultimately show ?thesis using tok by auto
qed

lemma ip_copied:
  assumes "length p = 16" "p ! 15 = NUL" "length a \<le> 15" "NUL \<notin> set a"
  shows "strncpy p a 15 = Some (a @ replicate (16 - length a) NUL)"
proof -
  have "drop 15 p = [NUL]" using assms(1,2) Cons_nth_drop_Suc [of 15 p] by simp
  then show ?thesis using assms(1,3) replicate_append_same [of "15 - length a" NUL]
    by (simp add: strncpy_def Suc_diff_le flip: replicate_Suc)
qed

text \<open>The request up to the reply.\<close>

lemma http_head_connects:
  assumes "head_served proxyhost proxyport resolve conn server r a n"
  shows "http_head_req proxyhost proxyport resolve True conn server2 r
    = (case server2 (head_text proxyhost r (c_str (host r)) (c_str (url r))) of None \<Rightarrow> Some (Inl 1)
       | Some b \<Rightarrow> head_reply (r\<lparr>ip := a @ replicate (16 - length a) NUL\<rparr>) b)"
proof -
  let ?a = "a @ replicate (16 - length a) NUL"
  let ?ch = "if proxyhost \<noteq> [] then proxyhost else c_str (host r)"
  let ?cp = "if proxyhost \<noteq> [] then (if proxyport \<le> 0 then 80 else proxyport) else port r"
  have h: "str_of (host r) = Some (c_str (host r))" "str_of (url r) = Some (c_str (url r))" "length ?ch < 1023" "resolve ?ch = Some a"
      "conn a ?cp" "strncpy (ip r) a 15 = Some ?a" and a: "length a \<le> 15" "NUL \<notin> set a"
    using assms by (simp_all add: head_served_def str_of_def ip_copied Let_def)
  have "16 - length a = Suc (15 - length a)" using a(1) by simp
  then have sa: "str_of ?a = Some a" using a(2) by (simp add: str_of_def)
  have ht: "head_text proxyhost (r\<lparr>ip := ?a\<rparr>) x y = head_text proxyhost r x y" for x y by (simp add: head_text_def)
  show ?thesis unfolding http_head_req_def Let_def h(1,2) using h(3-5)
    by (simp add: h(6) sa ht split del: if_split)
qed

lemma head_reply_length:
  assumes "length_reply n b"
  shows "head_reply r b = Some (Inr (r\<lparr>clength := int n\<rparr>))"
proof -
  let ?z = "replicate (511 - length b) NUL"
  have len: "length b < 512" and cl: "clean b" using assms by (auto simp: length_reply_def)
  have "512 - length b = Suc (511 - length b)" using len by simp
  then have eq: "b @ replicate (512 - length b) NUL = b @ NUL # ?z" by simp
  have w: "wr (b @ NUL # ?z) (int (length b)) NUL = Some (b @ NUL # ?z)" by simp
  have rc: "handleHttpRetcode (b @ NUL # ?z) = Some (Inr ())"
    using cl unfolding clean_def handleHttpRetcode_def strstr_def eq [symmetric] c_str_buffer by (simp add: substr_c_str)
  obtain s rbuf p where t: "strtok is_eol (b @ NUL # ?z) 0 = Some (s, rbuf, p)" "substr ''HTTP/1.1 200'' (c_str (drop s rbuf))"
      "length_loop rbuf p (clength r) = Some (int n)"
    using head_length_loop [OF assms] by blast
  have "take 512 b = b" using len by simp
  then show ?thesis unfolding head_reply_def Let_def by (simp only: eq w) (simp add: rc t)
qed

lemma head_reply_long: "512 \<le> length b \<Longrightarrow> head_reply r b = None"
  by (simp add: head_reply_def Let_def wr_def min_absorb2)

lemma http_head_length:
  assumes "head_served proxyhost proxyport resolve conn server r a n"
  shows "http_head_req proxyhost proxyport resolve True conn server r
    = Some (Inr (r\<lparr>ip := a @ replicate (16 - length a) NUL, clength := int n\<rparr>))"
proof -
  obtain b where "server (head_text proxyhost r (c_str (host r)) (c_str (url r))) = Some b" "length_reply n b"
    using assms by (auto simp: head_served_def Let_def split: option.splits)
  then show ?thesis by (simp add: http_head_connects [OF assms] head_reply_length)
qed

text \<open>A reply that fills the buffer makes the program write behind it.\<close>

lemma long_reply_overflows:
  assumes "head_served proxyhost proxyport resolve conn server r a n" "512 \<le> length b"
  shows "http_head_req proxyhost proxyport resolve True conn (\<lambda>_. Some b) r = None"
  using assms(2) by (simp add: http_head_connects [OF assms(1)] head_reply_long)

text \<open>Without the space after the colon the number is skipped and the length becomes 0.\<close>

lemma no_space_no_length: "line_length len ''Content-Length:5'' = 0"
proof -
  have "substr ''Content-Length'' ''Content-Length:5''" by code_simp
  moreover have "atoi (drop 16 ''Content-Length:5'') = 0" by code_simp
  ultimately show ?thesis by (simp add: line_length_def)
qed

end
