(* ===== verification/AgetJob.thy ===== *)
theory AgetJob
  imports AgetHead
begin

text \<open>
  A download job of aget over HTTP: \<^verbatim>\<open>startHTTP\<close> and \<^verbatim>\<open>resumeDownload\<close> of
  \<^verbatim>\<open>papps/aget-devel/Aget.c\<close>,
  \<^verbatim>\<open>save_log\<close> and \<^verbatim>\<open>read_log\<close> of \<^verbatim>\<open>Resume.c\<close> and the interrupt handler of \<^verbatim>\<open>Signal.c\<close>.
  The threads run by a schedule of \<open>http_get_step\<close>; a round of a job is the part from the label
  \<^verbatim>\<open>retry\<close> to the test of \<^verbatim>\<open>nok\<close>.
\<close>

section \<open>Requests\<close>

definition GETREQ :: "string \<Rightarrow> string \<Rightarrow> string \<Rightarrow> int \<Rightarrow> string" where
  "GETREQ u h v o1 = ''GET '' @ u @ '' HTTP/1.1'' @ [CR, LF] @ ''Host: '' @ h @ [CR, LF] @ ''User-Agent: '' @ v @ [CR, LF]
     @ ''Range: bytes='' @ dec_int o1 @ ''-'' @ [CR, LF] @ ''Connection: close'' @ crlf2"

text \<open>\<^verbatim>\<open>snprintf(buf, n, s)\<close>.\<close>

definition snprintf :: "string \<Rightarrow> nat \<Rightarrow> string \<Rightarrow> string option" where
  "snprintf buf n s =
     (let t = take (n - 1) s @ [NUL] in if length t \<le> length buf then Some (t @ drop (length t) buf) else None)"

text \<open>The request of one thread into the buffer \<open>fmt\<close> and from there into the thread's data.\<close>

definition put_request :: "string \<Rightarrow> string \<Rightarrow> thread_data \<Rightarrow> (string \<times> thread_data) option" where
  "put_request u fmt td =
     do { fmt \<leftarrow> snprintf fmt 256 u;
          s \<leftarrow> str_of fmt;
          gs \<leftarrow> strncpy (getstr td) s 256;
          Some (fmt, td\<lparr>getstr := gs\<rparr>) }"

definition proxy_url :: "request \<Rightarrow> string \<Rightarrow> string \<Rightarrow> string" where
  "proxy_url r h u = (if proto r = PROTO_HTTP then ''http://'' else ''ftp://'') @ h @ u"

section \<open>A job\<close>

text \<open>The body of the first loop of \<^verbatim>\<open>startHTTP\<close>; \<open>proxy\<close> is \<^verbatim>\<open>http_proxyhost\<close> and \<open>dupfd\<close> what \<^verbatim>\<open>dup(fd)\<close> returns.\<close>

definition start_thread :: "request \<Rightarrow> string \<Rightarrow> int \<Rightarrow> int \<Rightarrow> int \<Rightarrow> string \<Rightarrow> thread_data \<Rightarrow> (string \<times> thread_data) option" where
  "start_thread r proxy dupfd n i fmt td =
     do { so \<leftarrow> calc_offset (clength r) i n;
          fo \<leftarrow> calc_offset (clength r) (i + 1) n;
          a \<leftarrow> str_of (ip r);
          u \<leftarrow> str_of (url r);
          h \<leftarrow> str_of (host r);
          let td = td\<lparr>soffset := so, foffset := (if i = n - 1 then clength r else fo), offset := so,
                      td_sin := (a, port r), td_fd := dupfd, td_clength := clength r\<rparr>;
          put_request (if proxy \<noteq> [] then GETREQ (proxy_url r h u) h PROGVERSION so else GETREQ u h PROGVERSION so) fmt td }"

text \<open>The body of the first loop of \<^verbatim>\<open>resumeDownload\<close>.\<close>

definition resume_thread :: "request \<Rightarrow> int \<Rightarrow> int \<Rightarrow> string \<Rightarrow> thread_data \<Rightarrow> (string \<times> thread_data) option" where
  "resume_thread r dupfd i fmt td =
     do { u \<leftarrow> str_of (url r);
          h \<leftarrow> str_of (host r);
          put_request (GETREQ u h PROGVERSION (offset td)) fmt
            (td\<lparr>head_sd := - 1, soffset := offset td, td_fd := dupfd\<rparr>) }"

text \<open>\<^verbatim>\<open>for (i = 0; i < nthreads && wthread[i].status | STAT_OK; i++)\<close>.\<close>

fun prepare :: "(int \<Rightarrow> string \<Rightarrow> thread_data \<Rightarrow> (string \<times> thread_data) option) \<Rightarrow> int \<Rightarrow> string \<Rightarrow> thread_data list
    \<Rightarrow> (string \<times> thread_data list) option" where
  "prepare body i fmt [] = Some (fmt, [])"
| "prepare body i fmt (td # tds) =
     (if Bit_Operations.or (status td) STAT_OK \<noteq> 0 then
        do { (fmt, td) \<leftarrow> body i fmt td; (fmt, tds) \<leftarrow> prepare body (i + 1) fmt tds; Some (fmt, td # tds) }
      else Some (fmt, td # tds))"

text \<open>The threads are created, with the thread handles \<open>hs\<close> and the streams the server sends them.\<close>

definition launch :: "int list \<Rightarrow> string list \<Rightarrow> thread_data list \<Rightarrow> getter list" where
  "launch hs ss tds = map2 (\<lambda>(h, s) td. \<lparr>gpc = GStart, gtd = td\<lparr>td_tid := h\<rparr>, gstrm = s\<rparr>) (zip hs ss) tds"

fun join_loop :: "thread_data list \<Rightarrow> int \<Rightarrow> thread_data list \<times> int" where
  "join_loop [] nok = ([], nok)"
| "join_loop (td # tds) nok =
     (let nok = (if td_tid td \<noteq> - 1 then (if status td = STAT_OK then nok + 1 else nok) else nok);
          (tds, nok) = join_loop tds nok
      in (td\<lparr>td_tid := - 1\<rparr> # tds, nok))"

text \<open>What the world does in one round: whether the thread that waits for signals can be created, the
  handles of the download threads, \<open>None\<close> where \<^verbatim>\<open>pthread_create\<close> fails, the streams and the schedule.\<close>

record round =
  waiter :: bool
  handles :: "int option list"
  streams :: "string list"
  events :: "(nat \<times> net_event) list"

record job =
  jfmt :: string
  wthread :: "thread_data list"
  jfile :: string
  bwritten :: int
  nok :: int

text \<open>One round; \<open>None\<close> also when a thread has not ended, which \<^verbatim>\<open>pthread_join\<close> waits for.  \<open>fail\<close> is what
  follows when a download thread cannot be created: \<^verbatim>\<open>startHTTP\<close> exits, \<^verbatim>\<open>resumeDownload\<close> does not notice
  and joins a thread that is not there.\<close>

definition job_round :: "(int \<Rightarrow> string \<Rightarrow> thread_data \<Rightarrow> (string \<times> thread_data) option) \<Rightarrow> int option \<Rightarrow> round \<Rightarrow> job \<Rightarrow> job proc" where
  "job_round body fail w j =
     pbind (pret (prepare body 0 (jfmt j) (wthread j))) (\<lambda>(fmt, tds).
       if \<not> waiter w then Some (Inl (- 1))
       else if None \<in> set (handles w) then map_option Inl fail
       else pbind (sched http_get_step http_ended (events w) (launch (map the (handles w)) (streams w) tds, jfile j, bwritten j)) (\<lambda>(gs, fl, bw).
         if list_all http_ended gs then
           let (tds, k) = join_loop (map gtd gs) (nok j)
           in Some (Inr \<lparr>jfmt = fmt, wthread = tds, jfile = fl, bwritten = bw, nok = k\<rparr>)
         else None))"

text \<open>Rounds until \<^verbatim>\<open>nok == nthreads\<close>; \<open>None\<close> when the job is still running after the rounds given.\<close>

fun job_rounds :: "(int \<Rightarrow> string \<Rightarrow> thread_data \<Rightarrow> (string \<times> thread_data) option) \<Rightarrow> int option \<Rightarrow> int \<Rightarrow> round list \<Rightarrow> job \<Rightarrow> job proc" where
  "job_rounds body fail n [] j = None"
| "job_rounds body fail n (w # ws) j =
     pbind (job_round body fail w j) (\<lambda>j. if nok j = n then Some (Inr j) else job_rounds body fail n ws j)"

text \<open>Opening the local file: \<open>old\<close> is the file that is there, \<open>ok\<close> and \<open>ok2\<close> whether the two calls of
  \<^verbatim>\<open>open\<close> can succeed, \<open>answers\<close> the first characters the user types; then \<^verbatim>\<open>lseek\<close> and the byte \<^verbatim>\<open>"0"\<close>.\<close>

fun ask_overwrite :: "string \<Rightarrow> string \<Rightarrow> bool \<Rightarrow> string proc" where
  "ask_overwrite [] old ok2 = None"
| "ask_overwrite (a # as) old ok2 =
     (if a = CHR ''n'' then Some (Inl 1)
      else if a = CHR ''y'' then (if ok2 then Some (Inr old) else Some (Inl 1))
      else ask_overwrite as old ok2)"

definition open_file :: "string option \<Rightarrow> bool \<Rightarrow> bool \<Rightarrow> string \<Rightarrow> int \<Rightarrow> string proc" where
  "open_file old ok ok2 answers len =
     pbind (case old of None \<Rightarrow> if ok then Some (Inr []) else Some (Inl 1) | Some old \<Rightarrow> ask_overwrite answers old ok2) (\<lambda>fl.
       if len - 1 < 0 then Some (Inl 1) else Some (Inr (put_at fl (nat (len - 1)) ''0'')))"

definition blank_td :: thread_data where
  "blank_td = \<lparr>td_sin = ([], 0), getstr = replicate 256 NUL, soffset = 0, foffset = 0, offset = 0, td_clength = 0, td_fd = 0,
     td_tid = 0, status = 0, td_username = replicate 8192 NUL, td_password = replicate 8192 NUL, td_url = replicate 1024 NUL, head_sd = 0\<rparr>"

text \<open>\<open>head\<close> is the head request, which fills in \<open>r\<close>, and \<open>opened\<close> the opening of the file for a length.\<close>

definition startHTTP :: "(request \<Rightarrow> request proc) \<Rightarrow> string \<Rightarrow> int \<Rightarrow> int \<Rightarrow> int \<Rightarrow> (int \<Rightarrow> string proc) \<Rightarrow> round list
    \<Rightarrow> request \<Rightarrow> (int \<times> job) proc" where
  "startHTTP head proxy dupfd fsuggested nthreads opened ws r =
     pbind (head r) (\<lambda>r.
       let n = choose_threads fsuggested nthreads (clength r) in
       pbind (opened (clength r)) (\<lambda>fl.
         pbind (job_rounds (start_thread r proxy dupfd n) (Some 2) n ws
             \<lparr>jfmt = replicate 254 NUL, wthread = replicate (nat n) blank_td, jfile = fl, bwritten = 0, nok = 0\<rparr>)
           (\<lambda>j. Some (Inr (n, j)))))"

section \<open>The log of an interrupted job\<close>

definition MAXTHREADS :: nat where "MAXTHREADS = 10"

definition STAT_INT :: int where "STAT_INT = 15"

record hist_data =
  hreq :: request
  hnthreads :: int
  hbwritten :: int
  hwthread :: "thread_data list"

text \<open>The name after the last slash, with the slash; the pointer goes back to the first character at most.\<close>

function scan_back :: "string \<Rightarrow> int \<Rightarrow> int option" where
  "scan_back lf s = do { c \<leftarrow> rd lf s; if c \<noteq> CHR ''/'' \<and> s \<noteq> 0 then scan_back lf (s - 1) else Some s }"
  by pat_completeness auto
termination
  by (relation "measure (\<lambda>(lf, s). nat (s + 1))") (auto simp: rd_def split: if_splits)

declare scan_back.simps [simp del]

definition log_suffix :: "request \<Rightarrow> string" where
  "log_suffix r = ''-aget'' @ [if proto r = PROTO_HTTP then CHR ''h'' else CHR ''f''] @ ''.log''"

definition log_here :: "request \<Rightarrow> string option" where
  "log_here r = do { lf \<leftarrow> str_of (lfile r); Some (take 254 (lf @ log_suffix r)) }"

definition log_home :: "string \<Rightarrow> request \<Rightarrow> string option" where
  "log_home dir r =
     do { lf \<leftarrow> str_of (lfile r);
          s \<leftarrow> scan_back lf (int (length lf) - 1);
          Some (take 254 (dir @ drop (nat s) lf @ log_suffix r)) }"

text \<open>\<open>home\<close> is the directory of the password entry, \<open>writable\<close> whether \<^verbatim>\<open>fopen(.., "w")\<close> succeeds,
  \<open>secs\<close> the time since the start, \<open>junk\<close> what the stack has in \<^verbatim>\<open>h.wthread\<close>.\<close>

definition save_log :: "string option \<Rightarrow> (string \<Rightarrow> bool) \<Rightarrow> int \<Rightarrow> thread_data list \<Rightarrow> request \<Rightarrow> thread_data list option \<Rightarrow> int
    \<Rightarrow> (string \<rightharpoonup> hist_data) \<Rightarrow> (request \<times> (string \<rightharpoonup> hist_data)) proc" where
  "save_log home writable secs junk r wt bw fs =
     (case wt of None \<Rightarrow> Some (Inr (r, fs))
      | Some tds \<Rightarrow>
          if bw = clength r then Some (Inr (r, fs))
          else pbind (pret (case home of None \<Rightarrow> log_here r | Some dir \<Rightarrow> log_home dir r)) (\<lambda>name.
            if \<not> writable name then Some (Inl 1)
            else let r = r\<lparr>time_taken := time_taken r + (if secs = 0 then 1 else secs)\<rparr> in
              if length tds > MAXTHREADS then None
              else Some (Inr (r, fs(name \<mapsto> \<lparr>hreq = r, hnthreads = int (length tds), hbwritten = bw,
                     hwthread = tds @ drop (length tds) junk\<rparr>)))))"

definition open_log :: "(string \<Rightarrow> bool) \<Rightarrow> (string \<rightharpoonup> hist_data) \<Rightarrow> string \<Rightarrow> hist_data option proc" where
  "open_log readable fs name =
     (case fs name of None \<Rightarrow> Some (Inr None) | Some h \<Rightarrow> if readable name then Some (Inr (Some h)) else Some (Inl 1))"

text \<open>The log and the rest of the file system; \<open>None\<close> for the result -1.  \<open>removable\<close> tells whether
  \<^verbatim>\<open>unlink\<close> succeeds.\<close>

definition read_log :: "string option \<Rightarrow> (string \<Rightarrow> bool) \<Rightarrow> (string \<Rightarrow> bool) \<Rightarrow> request \<Rightarrow> (string \<rightharpoonup> hist_data)
    \<Rightarrow> (hist_data option \<times> (string \<rightharpoonup> hist_data)) proc" where
  "read_log home readable removable r fs =
     (let use = (\<lambda>name h. Some (Inr (Some h, if removable name then fs(name := None) else fs))) in
      pbind (pret (log_here r)) (\<lambda>name.
        pbind (open_log readable fs name) (\<lambda>x.
          case x of Some h \<Rightarrow> use name h
          | None \<Rightarrow>
              (case home of None \<Rightarrow> Some (Inr (None, fs))
               | Some dir \<Rightarrow>
                   pbind (pret (log_home dir r)) (\<lambda>name.
                     pbind (open_log readable fs name) (\<lambda>x.
                       case x of Some h \<Rightarrow> use name h | None \<Rightarrow> Some (Inr (None, fs))))))))"

text \<open>\<^verbatim>\<open>sigint_handler\<close> on the data of the threads, and \<^verbatim>\<open>resumeDownload\<close> for the protocol HTTP.\<close>

definition interrupt :: "thread_data \<Rightarrow> thread_data" where
  "interrupt td = td\<lparr>status := Bit_Operations.and (status td) STAT_INT\<rparr>"

definition resumeDownload :: "hist_data \<Rightarrow> int \<Rightarrow> string option \<Rightarrow> int \<Rightarrow> round list \<Rightarrow> (int \<times> request \<times> job) proc" where
  "resumeDownload h dupfd file bw ws =
     (let n = hnthreads h; r = hreq h in
      if nat n > length (hwthread h) then None
      else case file of None \<Rightarrow> Some (Inl 1)
      | Some fl \<Rightarrow>
          pbind (job_rounds (resume_thread r dupfd) None n ws
              \<lparr>jfmt = replicate 254 NUL, wthread = take (nat n) (hwthread h), jfile = fl, bwritten = bw, nok = 0\<rparr>)
            (\<lambda>j. Some (Inr (n, r, j))))"

section \<open>Preparing the threads\<close>

lemma or_STAT_OK [simp]: "Bit_Operations.or s STAT_OK \<noteq> 0"
  by (simp add: STAT_OK_def or_eq_0_iff)

lemma snprintf_fits:
  assumes "length s \<le> 253" "NUL \<notin> set s" "length buf = 254"
  shows "snprintf buf 256 s = Some (s @ NUL # drop (Suc (length s)) buf)"
  using assms by (simp add: snprintf_def Let_def)

lemma put_request_fits:
  assumes u: "length u \<le> 253" "NUL \<notin> set u" and f: "length fmt = 254" and g: "length (getstr td) = 256"
  shows "\<exists>fmt'. length fmt' = 254 \<and> put_request u fmt td = Some (fmt', td\<lparr>getstr := u @ replicate (256 - length u) NUL\<rparr>)"
proof -
  have "str_of (u @ NUL # drop (Suc (length u)) fmt) = Some u" using u by (simp add: str_of_def)
  moreover have "strncpy (getstr td) u 256 = Some (u @ replicate (256 - length u) NUL)" using u g by (simp add: strncpy_def)
  ultimately show ?thesis using snprintf_fits [OF u f] u f by (simp add: put_request_def)
qed

text \<open>When the body of the loop succeeds for every thread, the loop prepares all of them.\<close>

lemma prepare_all:
  assumes "Q fmt"
    and "\<And>k f. k < length tds \<Longrightarrow> Q f \<Longrightarrow> \<exists>f' td. Q f' \<and> body (i + int k) f (tds ! k) = Some (f', td) \<and> P k td"
  shows "\<exists>fmt' tds'. Q fmt' \<and> prepare body i fmt tds = Some (fmt', tds') \<and> length tds' = length tds \<and> (\<forall>k < length tds. P k (tds' ! k))"
  using assms
proof (induction tds arbitrary: i fmt P)
  case Nil
  then show ?case by simp
next
  case (Cons td tds)
  from Cons.prems(2) [of 0 fmt] Cons.prems(1) obtain f1 td1 where
    b: "Q f1" "body i fmt td = Some (f1, td1)" "P 0 td1" by auto
  have "\<exists>fmt' tds'. Q fmt' \<and> prepare body (i + 1) f1 tds = Some (fmt', tds') \<and> length tds' = length tds
      \<and> (\<forall>k < length tds. P (Suc k) (tds' ! k))"
  proof (rule Cons.IH [OF b(1)])
    fix k and f :: string assume "k < length tds" "Q f"
    with Cons.prems(2) [of "Suc k" f] show "\<exists>f' td. Q f' \<and> body (i + 1 + int k) f (tds ! k) = Some (f', td) \<and> P (Suc k) td"
      by (simp add: add.assoc)
  qed
  then obtain fmt' tds' where r: "Q fmt'" "prepare body (i + 1) f1 tds = Some (fmt', tds')" "length tds' = length tds"
    "\<forall>k < length tds. P (Suc k) (tds' ! k)" by blast
  have "\<forall>k < length (td # tds). P k ((td1 # tds') ! k)" using b(3) r(4) by (auto simp: less_Suc_eq_0_disj)
  then show ?case using b r by (intro exI [of _ fmt'] exI [of _ "td1 # tds'"]) simp
qed

definition request_text :: "request \<Rightarrow> string \<Rightarrow> int \<Rightarrow> string" where
  "request_text r proxy so =
     (if proxy \<noteq> [] then GETREQ (proxy_url r (c_str (host r)) (c_str (url r))) (c_str (host r)) PROGVERSION so
      else GETREQ (c_str (url r)) (c_str (host r)) PROGVERSION so)"

text \<open>A request whose strings have terminators and whose text fits in the buffer.\<close>

definition sendable :: "request \<Rightarrow> string \<Rightarrow> bool" where
  "sendable r proxy \<longleftrightarrow> NUL \<in> set (host r) \<and> NUL \<in> set (url r) \<and> NUL \<in> set (ip r)
     \<and> (\<forall>so. 0 \<le> so \<longrightarrow> so \<le> clength r \<longrightarrow> length (request_text r proxy so) \<le> 253)"

lemma c_str_no_NUL [simp]: "NUL \<notin> set (c_str a)"
  by (auto simp: c_str_def dest: set_takeWhileD)

lemma dec_int_no_NUL [simp]: "NUL \<notin> set (dec_int v)"
proof
  assume "NUL \<in> set (dec_int v)"
  then have "is_digit NUL" by (auto simp: dec_int_def split: if_splits dest: dec_digits)
  then show False by (simp add: is_digit_def)
qed

lemma request_text_no_NUL: "NUL \<notin> set (request_text r proxy so)"
  by (simp add: request_text_def GETREQ_def PROGVERSION_def proxy_url_def)

lemma start_thread_fits:
  assumes s: "sendable r proxy" and c: "0 < clength r" "0 < n" "int k < n" and f: "length fmt = 254" "length (getstr td) = 256"
  shows "\<exists>fmt' td'. length fmt' = 254 \<and> start_thread r proxy dupfd n (int k) fmt td = Some (fmt', td')
    \<and> soffset td' = seg_start (clength r) n k \<and> foffset td' = seg_end (clength r) n k \<and> offset td' = soffset td'
    \<and> status td' = status td \<and> length (getstr td') = 256
    \<and> c_str (getstr td') = request_text r proxy (seg_start (clength r) n k)"
proof -
  let ?so = "seg_start (clength r) n k" and ?u = "request_text r proxy (seg_start (clength r) n k)"
  let ?td = "td\<lparr>soffset := ?so, foffset := seg_end (clength r) n k, offset := ?so, td_sin := (c_str (ip r), port r),
    td_fd := dupfd, td_clength := clength r\<rparr>"
  have le: "0 \<le> ?so" "?so \<le> clength r" using seg_start_le [of "clength r" n k] c by simp_all
  have u: "length ?u \<le> 253" using s le by (simp add: sendable_def)
  have o1: "calc_offset (clength r) (int k) n = Some ?so" "calc_offset (clength r) (int k + 1) n = Some (seg_start (clength r) n (Suc k))"
    using calc_offset_eq [of "clength r" n k] calc_offset_eq [of "clength r" n "Suc k"] c by (simp_all add: add.commute)
  have strs: "str_of (ip r) = Some (c_str (ip r))" "str_of (url r) = Some (c_str (url r))" "str_of (host r) = Some (c_str (host r))"
    using s by (simp_all add: sendable_def str_of_def)
  have "start_thread r proxy dupfd n (int k) fmt td = put_request ?u fmt ?td"
    by (simp add: start_thread_def o1 strs request_text_def seg_end_def Let_def)
  moreover obtain fmt' where "length fmt' = 254" "put_request ?u fmt ?td = Some (fmt', ?td\<lparr>getstr := ?u @ replicate (256 - length ?u) NUL\<rparr>)"
    using put_request_fits [OF u request_text_no_NUL f(1), of ?td] f(2) by auto
  moreover have "c_str (?u @ replicate (256 - length ?u) NUL) = ?u"
    using request_text_no_NUL [of r proxy ?so] by (simp add: c_str_def takeWhile_append takeWhile_eq_all_conv [THEN iffD2])
  ultimately show ?thesis using u by auto
qed

section \<open>A round\<close>

text \<open>The server sends every thread the content from its start offset on, the calls succeed, and
  every thread takes enough steps.\<close>

definition round_ok :: "nat \<Rightarrow> string \<Rightarrow> (nat \<Rightarrow> int) \<Rightarrow> nat \<Rightarrow> round \<Rightarrow> bool" where
  "round_ok H C start n w \<longleftrightarrow> waiter w \<and> length (handles w) = n \<and> length (streams w) = n \<and> None \<notin> set (handles w) \<and> Some (- 1) \<notin> set (handles w)
     \<and> (\<forall>k < n. \<exists>h. http_header h \<and> length h \<le> H \<and> length h \<le> 8191 \<and> streams w ! k = h @ drop (nat (start k)) C \<and> clean (streams w ! k))
     \<and> list_all (\<lambda>(i, e). http_good H e) (events w)"

definition enough_steps :: "string \<Rightarrow> nat \<Rightarrow> round \<Rightarrow> bool" where
  "enough_steps C n w \<longleftrightarrow> (\<forall>k < n. Suc (length C) < count_list (map fst (events w)) k)"

lemma launch_nth:
  assumes "length hs = length tds" "length ss = length tds" "k < length tds"
  shows "launch hs ss tds ! k = \<lparr>gpc = GStart, gtd = (tds ! k)\<lparr>td_tid := hs ! k\<rparr>, gstrm = ss ! k\<rparr>"
  using assms by (simp add: launch_def)

lemma length_launch [simp]: "length hs = length tds \<Longrightarrow> length ss = length tds \<Longrightarrow> length (launch hs ss tds) = length tds"
  by (simp add: launch_def)

text \<open>Threads that are ready to run: segments inside the content, and none so short that
  the first \<^verbatim>\<open>recv\<close> can bring more than the offset of its end.\<close>

definition td_ready :: "string \<Rightarrow> thread_data \<Rightarrow> bool" where
  "td_ready C td \<longleftrightarrow> length (getstr td) = 256 \<and> offset td = soffset td \<and> 0 \<le> soffset td \<and> soffset td \<le> int (length C) \<and> foffset td \<le> int (length C)
     \<and> (MAXBUFSIZ \<le> foffset td \<or> foffset td = int (length C))"

lemma launch_valid:
  assumes w: "round_ok H C start (length tds) w" and t: "\<And>k. k < length tds \<Longrightarrow> td_ready C (tds ! k) \<and> soffset (tds ! k) = start k"
  shows "list_all (http_valid H C) (launch (map the (handles w)) (streams w) tds)"
  unfolding list_all_length
proof (intro allI impI)
  have l: "length (map the (handles w)) = length tds" "length (streams w) = length tds" using w by (simp_all add: round_ok_def)
  fix k assume "k < length (launch (map the (handles w)) (streams w) tds)"
  then have k: "k < length tds" using l by simp
  from w k obtain h where "http_header h" "length h \<le> H" "length h \<le> 8191" "streams w ! k = h @ drop (nat (start k)) C" "clean (streams w ! k)"
    unfolding round_ok_def by blast
  then show "http_valid H C (launch (map the (handles w)) (streams w) tds ! k)"
    using t [OF k] by (auto simp: launch_nth [OF l k] http_valid_def td_ready_def served_def Let_def)
qed

lemma join_loop_all:
  "\<forall>td \<in> set tds. td_tid td \<noteq> - 1 \<and> status td = STAT_OK \<Longrightarrow> snd (join_loop tds k) = k + int (length tds)"
  by (induction tds arbitrary: k) (auto simp: Let_def split_def)

lemma join_loop_keeps: "fst (join_loop tds k) = map (td_tid_update (\<lambda>_. - 1)) tds"
  by (induction tds arbitrary: k) (auto simp: Let_def split_def)

text \<open>A round in which every thread ends exactly at its segment's end is the last one.\<close>

lemma round_completes:
  assumes prep: "prepare body 0 (jfmt j) (wthread j) = Some (fmt, tds)"
    and w: "round_ok H C start (length tds) w" "enough_steps C (length tds) w"
    and t: "\<And>k. k < length tds \<Longrightarrow> td_ready C (tds ! k) \<and> soffset (tds ! k) = start k"
    and fl: "length (jfile j) = length C"
    and cover: "{..< length C} \<subseteq> agree C (jfile j) \<union> (\<Union>k < length tds. {nat (start k) ..< nat (foffset (tds ! k))})"
  shows "\<exists>gs bw. let tds' = map gtd gs in
      job_round body fail w j = Some (Inr \<lparr>jfmt = fmt, wthread = fst (join_loop tds' (nok j)), jfile = C, bwritten = bw, nok = snd (join_loop tds' (nok j))\<rparr>)
      \<and> length gs = length tds \<and> hg.progress H C (launch (map the (handles w)) (streams w) tds, jfile j, bwritten j) (gs, C, bw) \<and> list_all http_ended gs"
proof -
  let ?gs = "launch (map the (handles w)) (streams w) tds"
  have l: "length (map the (handles w)) = length tds" "length (streams w) = length tds" using w(1) by (simp_all add: round_ok_def)
  have nth: "http_pos (?gs ! k) = nat (start k)" "http_fin (?gs ! k) = nat (foffset (tds ! k))" "http_rank (?gs ! k) = nat (start k)"
    if "k < length tds" for k
    using t [OF that] by (simp_all add: launch_nth [OF l that] http_pos_def http_fin_def http_rank_def td_ready_def)
  have "{..< length C} \<subseteq> agree C (jfile j) \<union> (\<Union>k < length ?gs. {http_pos (?gs ! k) ..< http_fin (?gs ! k)})"
    using cover nth l by simp
  moreover have "Suc (length C) < http_rank (?gs ! k) + count_list (map fst (events w)) k" if "k < length ?gs" for k
    using w(2) nth(3) [of k] that l unfolding enough_steps_def by (simp add: trans_less_add2)
  moreover have "list_all (\<lambda>(i, e). http_good H e) (events w)" using w(1) by (simp add: round_ok_def)
  ultimately obtain gs bw where
    s: "sched http_get_step http_ended (events w) (?gs, jfile j, bwritten j) = Some (Inr (gs, C, bw))"
    and p: "hg.progress H C (?gs, jfile j, bwritten j) (gs, C, bw)" and e: "list_all http_ended gs"
    using hg.sched_completes [OF fl launch_valid [OF w(1) t], where es = "events w" and bw = "bwritten j"] by blast
  have "job_round body fail w j = Some (Inr \<lparr>jfmt = fmt, wthread = fst (join_loop (map gtd gs) (nok j)), jfile = C, bwritten = bw,
      nok = snd (join_loop (map gtd gs) (nok j))\<rparr>)"
    using prep s e w(1) by (simp add: job_round_def round_ok_def split_def Let_def)
  moreover have "length gs = length tds" using hg.progressD(1) [OF p] l by simp
  ultimately show ?thesis using p e unfolding Let_def by (intro exI [of _ gs] exI [of _ bw]) simp
qed

section \<open>A job from the start\<close>

definition start_job :: "int \<Rightarrow> string \<Rightarrow> job" where
  "start_job n fl = \<lparr>jfmt = replicate 254 NUL, wthread = replicate (nat n) blank_td, jfile = fl, bwritten = 0, nok = 0\<rparr>"

lemma start_prepare:
  assumes s: "sendable r proxy" and c: "0 < clength r" "0 < n"
  shows "\<exists>fmt tds. prepare (start_thread r proxy dupfd n) 0 (jfmt (start_job n fl)) (wthread (start_job n fl)) = Some (fmt, tds)
    \<and> length tds = nat n
    \<and> (\<forall>k < nat n. soffset (tds ! k) = seg_start (clength r) n k \<and> foffset (tds ! k) = seg_end (clength r) n k \<and> offset (tds ! k) = soffset (tds ! k)
        \<and> status (tds ! k) = 0 \<and> length (getstr (tds ! k)) = 256 \<and> c_str (getstr (tds ! k)) = request_text r proxy (seg_start (clength r) n k))"
proof -
  let ?P = "\<lambda>k td. soffset td = seg_start (clength r) n k \<and> foffset td = seg_end (clength r) n k \<and> offset td = soffset td
    \<and> status td = 0 \<and> length (getstr td) = 256 \<and> c_str (getstr td) = request_text r proxy (seg_start (clength r) n k)"
  have "\<exists>f' td. length f' = 254 \<and> start_thread r proxy dupfd n (0 + int k) f (replicate (nat n) blank_td ! k) = Some (f', td) \<and> ?P k td"
    if "k < length (replicate (nat n) blank_td)" "length f = 254" for k and f :: string
    using start_thread_fits [OF s c _ that(2), of k blank_td dupfd] that(1) by (auto simp: blank_td_def)
  from prepare_all [where P = ?P and Q = "\<lambda>f. length f = 254" and body = "start_thread r proxy dupfd n" and i = 0 and fmt = "replicate 254 NUL"
      and tds = "replicate (nat n) blank_td", OF _ this]
  obtain fmt tds where "prepare (start_thread r proxy dupfd n) 0 (replicate 254 NUL) (replicate (nat n) blank_td) = Some (fmt, tds)"
    "length tds = nat n" "\<forall>k < nat n. ?P k (tds ! k)" by auto
  then show ?thesis unfolding start_job_def job.simps by blast
qed

lemma start_tds_ready:
  assumes c: "clength r = int (length C)" "0 < length C" and n: "0 < n" "n = 1 \<or> MAXBUFSIZ \<le> clength r div n"
    and k: "int k < n" and td: "soffset td = seg_start (clength r) n k" "foffset td = seg_end (clength r) n k" "offset td = soffset td" "length (getstr td) = 256"
  shows "td_ready C td" "MAXBUFSIZ \<le> foffset td - soffset td \<or> foffset td = int (length C)" "0 \<le> soffset td" "soffset td \<le> foffset td"
  using segment_bounds [OF _ n(1) k, of "clength r"] c n(2) td by (auto simp: td_ready_def)

lemma start_job_completes:
  assumes s: "sendable r proxy" and c: "clength r = int (length C)" "0 < length C"
    and n: "0 < n" "n = 1 \<or> MAXBUFSIZ \<le> clength r div n"
    and w: "round_ok H C (seg_start (clength r) n) (nat n) w" "enough_steps C (nat n) w" and fl: "length fl = length C"
  shows "\<exists>j. job_round (start_thread r proxy dupfd n) fail w (start_job n fl) = Some (Inr j) \<and> jfile j = C \<and> nok j = n
    \<and> c_uint (bwritten j) = c_uint (clength r) \<and> (\<forall>td \<in> set (wthread j). status td = STAT_OK \<and> offset td = foffset td)"
proof -
  from start_prepare [OF s _ n(1), where dupfd = dupfd and fl = fl] c obtain fmt tds where
    pr: "prepare (start_thread r proxy dupfd n) 0 (jfmt (start_job n fl)) (wthread (start_job n fl)) = Some (fmt, tds)"
    and len: "length tds = nat n"
    and td: "\<And>k. k < nat n \<Longrightarrow> soffset (tds ! k) = seg_start (clength r) n k \<and> foffset (tds ! k) = seg_end (clength r) n k \<and> offset (tds ! k) = soffset (tds ! k)
      \<and> length (getstr (tds ! k)) = 256"
    by auto
  have int_k: "int k < n" if "k < nat n" for k using that n(1) by linarith
  have ready: "td_ready C (tds ! k) \<and> soffset (tds ! k) = seg_start (clength r) n k"
    "MAXBUFSIZ \<le> foffset (tds ! k) - soffset (tds ! k) \<or> foffset (tds ! k) = int (length C)" "0 \<le> soffset (tds ! k)" "soffset (tds ! k) \<le> foffset (tds ! k)"
    if "k < nat n" for k
    using start_tds_ready [OF c n int_k [OF that], of "tds ! k"] td [OF that] by auto
  let ?gs = "launch (map the (handles w)) (streams w) tds"
  have l: "length (map the (handles w)) = length tds" "length (streams w) = length tds" using w(1) len by (simp_all add: round_ok_def)
  have lgs: "length ?gs = nat n" using l len by simp
  have g: "http_valid H C (?gs ! k) \<and> http_exact C (?gs ! k) \<and> http_pos (?gs ! k) = nat (seg_start (int (length C)) (int (nat n)) k)
      \<and> http_fin (?gs ! k) = nat (seg_end (int (length C)) (int (nat n)) k)" if k: "k < nat n" for k
  proof -
    have "handles w ! k \<in> set (handles w)" "None \<notin> set (handles w)" "Some (- 1) \<notin> set (handles w)"
      using w(1) k by (simp_all add: round_ok_def)
    then have "map the (handles w) ! k \<noteq> - 1" using l(1) k len by (metis length_map nth_map option.exhaust_sel)
    moreover have "http_valid H C (?gs ! k)"
      using launch_valid [OF w(1) [folded len] ready(1) [folded len]] k lgs by (simp add: list_all_length)
    ultimately show ?thesis
      using td [OF k] ready(2-4) [OF k] k len n(1) c(1) by (simp add: launch_nth [OF l] http_exact_def http_pos_def http_fin_def)
  qed
  have "list_all (\<lambda>(i, e). http_good H e) (events w)" "\<And>k. k < nat n \<Longrightarrow> Suc (length C) < count_list (map fst (events w)) k"
    using w by (simp_all add: round_ok_def enough_steps_def)
  from hg.sched_segments [OF _ fl lgs this(1) g this(2), where bw = 0] n(1) obtain gs bw where
    sc: "sched http_get_step http_ended (events w) (?gs, fl, 0) = Some (Inr (gs, C, bw))" and gs: "length gs = nat n"
    and e: "list_all (\<lambda>g. http_ended g \<and> http_exact C g) gs" and bw: "c_uint bw = c_uint (clength r)"
    using c(1) by auto
  have all: "\<forall>td \<in> set (map gtd gs). td_tid td \<noteq> - 1 \<and> status td = STAT_OK \<and> offset td = foffset td"
    using e by (auto simp: list_all_iff http_exact_def http_ended_def Let_def)
  have nok: "snd (join_loop (map gtd gs) 0) = n" using join_loop_all [of "map gtd gs" 0] all gs n(1) by simp
  have "list_all http_ended gs" using e by (simp add: list_all_iff)
  then have "job_round (start_thread r proxy dupfd n) fail w (start_job n fl)
      = Some (Inr \<lparr>jfmt = fmt, wthread = fst (join_loop (map gtd gs) 0), jfile = C, bwritten = bw, nok = snd (join_loop (map gtd gs) 0)\<rparr>)"
    using pr sc w(1) by (simp add: job_round_def round_ok_def start_job_def split_def Let_def)
  then show ?thesis using nok all bw by (auto simp: join_loop_keeps)
qed

text \<open>A job from the head request on.\<close>

lemma http_job_completes:
  assumes "head_served proxy proxyport resolve conn server rq a (length C)"
    and "r = rq\<lparr>ip := a @ replicate (16 - length a) NUL, clength := int (length C)\<rparr>"
    and "sendable r proxy" "0 < length C" "n = choose_threads 0 nt (clength r)"
    and "round_ok H C (seg_start (clength r) n) (nat n) w" "enough_steps C (nat n) w"
  shows "\<exists>j. startHTTP (http_head_req proxy proxyport resolve True conn server) proxy dupfd 0 nt (open_file None True ok2 answers) (w # ws) rq
      = Some (Inr (n, j))
    \<and> jfile j = C \<and> c_uint (bwritten j) = c_uint (clength r) \<and> (\<forall>td \<in> set (wthread j). status td = STAT_OK \<and> offset td = foffset td)"
proof -
  have c: "clength r = int (length C)" by (simp add: assms(2))
  have n: "0 < n" "n = 1 \<or> MAXBUFSIZ \<le> clength r div n"
    using auto_threads [of "clength r" nt] c assms(4,5) by auto
  let ?fl = "put_at [] (nat (clength r - 1)) ''0''"
  have fl: "length ?fl = length C" using c assms(4) by (cases C) (auto simp: put_at_def)
  have o: "open_file None True ok2 answers (clength r) = Some (Inr ?fl)" using c assms(4) by (simp add: open_file_def)
  have h: "http_head_req proxy proxyport resolve True conn server rq = Some (Inr r)"
    unfolding assms(2) by (rule http_head_length [OF assms(1)])
  from start_job_completes [where fail = "Some 2", OF assms(3) c assms(4) n assms(6,7) fl] obtain j where
    "job_round (start_thread r proxy dupfd n) (Some 2) w (start_job n ?fl) = Some (Inr j)" "jfile j = C" "nok j = n"
    "c_uint (bwritten j) = c_uint (clength r)" "\<forall>td \<in> set (wthread j). status td = STAT_OK \<and> offset td = foffset td" by blast
  then show ?thesis by (auto simp: startHTTP_def h o assms(5) [symmetric] start_job_def)
qed

definition demo_req :: request where
  "demo_req = blank_req\<lparr>host := ''h.org'' @ [NUL], url := ''/f'' @ [NUL], ip := ''1.2.3.4'' @ replicate 9 NUL, lfile := ''/d/f'' @ [NUL],
     port := 80, clength := 5, proto := PROTO_HTTP\<rparr>"

definition demo_header :: string where
  "demo_header = ''HTTP/1.1 206 OK'' @ crlf2"

definition demo_event :: net_event where
  "demo_event = \<lparr>nsocket = True, nconnect = True, nsend = True, nfirst = Some 20, nrecv = Some 0, nwrite = Some 8192\<rparr>"

definition demo_round :: round where
  "demo_round = \<lparr>waiter = True, handles = [Some 7], streams = [demo_header @ ''hello''], events = map (\<lambda>t. (0, demo_event)) [1, 2, 3, 4, 5, 6, 7 :: nat]\<rparr>"

lemma demo_header_ok: "http_header demo_header" "length demo_header = 19" "clean (demo_header @ ''hello'')"
proof -
  have "starts ''HTTP/1.1 206'' demo_header" by (simp add: demo_header_def starts_def)
  moreover have "\<not> substr crlf2 (butlast demo_header)" by code_simp
  ultimately show "http_header demo_header" unfolding http_header_def demo_header_def by blast
  show "length demo_header = 19" by (simp add: demo_header_def)
  show "clean (demo_header @ ''hello'')" by code_simp
qed

lemma small_dec: "0 \<le> so \<Longrightarrow> so \<le> 5 \<Longrightarrow> length (dec_int so) = 1"
  by (simp add: dec_int_def dec.simps)

lemma demo_sendable: "sendable demo_req []"
  by (auto simp: sendable_def demo_req_def request_text_def GETREQ_def PROGVERSION_def small_dec c_str_def)

lemma demo_round_ok: "round_ok 20 ''hello'' (seg_start 5 1) 1 demo_round" "enough_steps ''hello'' 1 demo_round"
proof -
  have "\<exists>h. http_header h \<and> length h \<le> 20 \<and> length h \<le> 8191 \<and> demo_header @ ''hello'' = h @ drop (nat (seg_start 5 1 0)) ''hello''"
    using demo_header_ok by (intro exI [of _ demo_header]) (simp add: seg_start_def)
  then show "round_ok 20 ''hello'' (seg_start 5 1) 1 demo_round"
    using demo_header_ok(3) by (simp add: round_ok_def demo_round_def demo_event_def http_good_def)
  show "enough_steps ''hello'' 1 demo_round" by (simp add: enough_steps_def demo_round_def)
qed

definition demo_asked :: request where
  "demo_asked = demo_req\<lparr>ip := replicate 16 NUL, clength := 0\<rparr>"

definition demo_reply :: string where
  "demo_reply = header_lines [''HTTP/1.1 200 OK'', ''Content-Length: 5'']"

lemma demo_head_served:
  "head_served [] 0 (\<lambda>_. Some ''1.2.3.4'') (\<lambda>_ _. True) (\<lambda>_. Some demo_reply) demo_asked ''1.2.3.4'' 5"
proof -
  have f: "filter (substr ''Content-Length'') [''Content-Length: 5''] = [''Content-Length: '' @ dec 5]" by code_simp
  moreover have "clean demo_reply" by code_simp
  moreover have "list_all plain_line [''HTTP/1.1 200 OK'', ''Content-Length: 5'']" by code_simp
  moreover have "starts ''HTTP/1.1 200'' ''HTTP/1.1 200 OK''" "length demo_reply < 512" by code_simp+
  ultimately have "length_reply 5 demo_reply" unfolding length_reply_def
    by (intro exI [of _ "''HTTP/1.1 200 OK''"] exI [of _ "[''Content-Length: 5'']"]) (simp only: demo_reply_def, simp)
  then show ?thesis by (simp add: head_served_def demo_asked_def demo_req_def c_str_def)
qed

section \<open>An interrupted job\<close>

text \<open>The log that is saved is the one that is read, unless a log of the same name lies in the
  directory of the file itself.\<close>

lemma save_read:
  assumes "log_home dir r = Some name" "log_here r = Some here" "name \<noteq> here" "fs here = None"
    and "length tds \<le> MAXTHREADS" "bw \<noteq> clength r" "lfile r2 = lfile r" "proto r2 = proto r"
  shows "\<exists>r1 h. save_log (Some dir) (\<lambda>_. True) secs junk r (Some tds) bw fs = Some (Inr (r1, fs(name \<mapsto> h)))
    \<and> read_log (Some dir) (\<lambda>_. True) (\<lambda>_. True) r2 (fs(name \<mapsto> h)) = Some (Inr (Some h, fs(name := None)))
    \<and> hreq h = r1 \<and> r1 = r\<lparr>time_taken := time_taken r1\<rparr> \<and> hnthreads h = int (length tds) \<and> hbwritten h = bw
    \<and> take (length tds) (hwthread h) = tds"
proof -
  have l: "log_home dir r2 = Some name" "log_here r2 = Some here"
    using assms(1,2,7,8) by (simp_all add: log_home_def log_here_def log_suffix_def)
  define r1 where "r1 = r\<lparr>time_taken := time_taken r + (if secs = 0 then 1 else secs)\<rparr>"
  define h where "h = \<lparr>hreq = r1, hnthreads = int (length tds), hbwritten = bw, hwthread = tds @ drop (length tds) junk\<rparr>"
  have "save_log (Some dir) (\<lambda>_. True) secs junk r (Some tds) bw fs = Some (Inr (r1, fs(name \<mapsto> h)))"
    using assms(1,5,6) by (simp add: save_log_def Let_def r1_def h_def)
  moreover have "read_log (Some dir) (\<lambda>_. True) (\<lambda>_. True) r2 (fs(name \<mapsto> h)) = Some (Inr (Some h, fs(name := None)))"
    using assms(3,4) by (simp add: read_log_def open_log_def l Let_def)
  ultimately show ?thesis by (intro exI [of _ r1] exI [of _ h]) (simp add: h_def r1_def)
qed

definition resume_job :: "hist_data \<Rightarrow> string \<Rightarrow> int \<Rightarrow> job" where
  "resume_job h fl bw = \<lparr>jfmt = replicate 254 NUL, wthread = take (nat (hnthreads h)) (hwthread h), jfile = fl, bwritten = bw, nok = 0\<rparr>"

definition resumed :: "thread_data \<Rightarrow> thread_data \<Rightarrow> bool" where
  "resumed td td' \<longleftrightarrow> length (getstr td') = 256 \<and> td' = td\<lparr>head_sd := - 1, soffset := offset td, td_fd := td_fd td', getstr := getstr td'\<rparr>"

lemma resumedD:
  assumes "resumed td td'"
  shows "soffset td' = offset td" "foffset td' = foffset td" "offset td' = offset td" "length (getstr td') = 256" "head_sd td' = - 1"
    "td_username td' = td_username td" "td_password td' = td_password td" "td_url td' = td_url td"
proof -
  have e: "td' = td\<lparr>head_sd := - 1, soffset := offset td, td_fd := td_fd td', getstr := getstr td'\<rparr>" using assms by (simp add: resumed_def)
  show "soffset td' = offset td" "foffset td' = foffset td" "offset td' = offset td" "head_sd td' = - 1"
    "td_username td' = td_username td" "td_password td' = td_password td" "td_url td' = td_url td"
    by (subst e, simp)+
  show "length (getstr td') = 256" using assms by (simp add: resumed_def)
qed

lemma resume_thread_fits:
  assumes s: "sendable r []" and o: "0 \<le> offset td" "offset td \<le> clength r" and f: "length fmt = 254" "length (getstr td) = 256"
  shows "\<exists>fmt' td'. length fmt' = 254 \<and> resume_thread r dupfd i fmt td = Some (fmt', td') \<and> resumed td td'"
proof -
  have strs: "str_of (url r) = Some (c_str (url r))" "str_of (host r) = Some (c_str (host r))"
    using s by (simp_all add: sendable_def str_of_def)
  let ?u = "request_text r [] (offset td)" and ?td = "td\<lparr>head_sd := - 1, soffset := offset td, td_fd := dupfd\<rparr>"
  have u: "length ?u \<le> 253" using s o by (simp add: sendable_def)
  have "resume_thread r dupfd i fmt td = put_request ?u fmt ?td"
    by (simp add: resume_thread_def strs request_text_def)
  then show ?thesis using put_request_fits [OF u request_text_no_NUL f(1), of ?td] f(2) u by (auto simp: resumed_def)
qed

lemma resume_prepare:
  assumes s: "sendable r []" and t: "\<And>k. k < length tds \<Longrightarrow> 0 \<le> offset (tds ! k) \<and> offset (tds ! k) \<le> clength r \<and> length (getstr (tds ! k)) = 256"
  shows "\<exists>fmt tds'. prepare (resume_thread r dupfd) 0 (replicate 254 NUL) tds = Some (fmt, tds') \<and> length tds' = length tds
    \<and> (\<forall>k < length tds. resumed (tds ! k) (tds' ! k))"
proof -
  have "\<exists>f' td'. length f' = 254 \<and> resume_thread r dupfd (0 + int k) f (tds ! k) = Some (f', td') \<and> resumed (tds ! k) td'"
    if "k < length tds" "length f = 254" for k and f :: string
    using resume_thread_fits [OF s _ _ that(2), of "tds ! k" dupfd "0 + int k"] t [OF that(1)] by blast
  from prepare_all [where P = "\<lambda>k. resumed (tds ! k)" and Q = "\<lambda>f. length f = 254" and body = "resume_thread r dupfd" and i = 0
      and fmt = "replicate 254 NUL" and tds = tds, OF _ this]
  show ?thesis by auto
qed

text \<open>What holds of the threads and the file after any part of a round.\<close>

lemma partial_round:
  assumes s: "sendable r proxy" and c: "clength r = int (length C)" "0 < length C"
    and n: "0 < n" "n = 1 \<or> MAXBUFSIZ \<le> clength r div n"
    and prep: "prepare (start_thread r proxy dupfd n) 0 (jfmt (start_job n fl)) (wthread (start_job n fl)) = Some (fmt, tds)"
    and w: "round_ok H C (seg_start (clength r) n) (nat n) w" and fl: "length fl = length C"
    and run: "sched http_get_step http_ended (events w) (launch (map the (handles w)) (streams w) tds, fl, 0) = Some (Inr (gs, fl1, bw1))"
  shows "length gs = nat n" "length fl1 = length C"
    "{..< length C} \<subseteq> agree C fl1 \<union> (\<Union>k < nat n. {nat (offset (gtd (gs ! k))) ..< nat (foffset (gtd (gs ! k)))})"
    "k < nat n \<Longrightarrow> td_ready C ((gtd (gs ! k))\<lparr>soffset := offset (gtd (gs ! k))\<rparr>)"
proof -
  from start_prepare [OF s _ n(1), where dupfd = dupfd and fl = fl] prep c have
    len: "length tds = nat n" and td: "\<And>k. k < nat n \<Longrightarrow> soffset (tds ! k) = seg_start (clength r) n k
        \<and> foffset (tds ! k) = seg_end (clength r) n k \<and> offset (tds ! k) = soffset (tds ! k) \<and> length (getstr (tds ! k)) = 256"
    by auto
  have int_k: "int k < n" if "k < nat n" for k using that n(1) by linarith
  have ready: "td_ready C (tds ! k) \<and> soffset (tds ! k) = seg_start (clength r) n k" if "k < nat n" for k
    using start_tds_ready(1) [OF c n int_k [OF that], of "tds ! k"] td [OF that] by auto
  let ?gs = "launch (map the (handles w)) (streams w) tds"
  have l: "length (map the (handles w)) = length tds" "length (streams w) = length tds" using w len by (simp_all add: round_ok_def)
  have e: "list_all (\<lambda>(i, e). http_good H e) (events w)" using w by (simp add: round_ok_def)
  have lgs: "length ?gs = nat n" using l len by simp
  have v: "list_all (http_valid H C) ?gs" by (rule launch_valid [OF w [folded len] ready [folded len]])
  have g: "http_valid H C (?gs ! k) \<and> http_pos (?gs ! k) = nat (seg_start (int (length C)) (int (nat n)) k)
      \<and> http_fin (?gs ! k) = nat (seg_end (int (length C)) (int (nat n)) k)" if "k < nat n" for k
    using v td [OF that] that l len c n(1) by (simp add: launch_nth [OF l] http_pos_def http_fin_def list_all_length)
  have n0: "0 < nat n" using n(1) by simp
  note p = hg.sched_partial [OF n0 fl lgs e g run]
  show lg: "length gs = nat n" "length fl1 = length C" using hg.progressD(1,2) [OF p(1)] lgs by simp_all
  show "{..< length C} \<subseteq> agree C fl1 \<union> (\<Union>k < nat n. {nat (offset (gtd (gs ! k))) ..< nat (foffset (gtd (gs ! k)))})"
    using p(2) by (simp add: http_pos_def http_fin_def)
  show "td_ready C ((gtd (gs ! k))\<lparr>soffset := offset (gtd (gs ! k))\<rparr>)" if k: "k < nat n"
  proof -
    have "http_valid H C (gs ! k)" using hg.progressD(3) [OF p(1)] lg k by (simp add: list_all_length)
    moreover have "http_fin (gs ! k) = nat (seg_end (clength r) n k)" using hg.progress_nthD(1) [OF p(1), of k] g [OF k] lgs k c n(1) by simp
    moreover have "0 < seg_end (clength r) n k"
      using segment_bounds [OF _ n(1) int_k [OF k], of "clength r"] n(2) c by (auto simp: MAXBUFSIZ_def)
    ultimately have "http_valid H C (gs ! k)" "foffset (gtd (gs ! k)) = seg_end (clength r) n k" by (simp_all add: http_fin_def)
    then show ?thesis using ready [OF k] td [OF k] by (auto simp: td_ready_def http_valid_def Let_def)
  qed
qed


definition demo_round1 :: round where
  "demo_round1 = demo_round\<lparr>events := [(0, demo_event)]\<rparr>"

definition demo_round2 :: round where
  "demo_round2 = demo_round\<lparr>handles := [Some 8], streams := [demo_header @ ''llo'']\<rparr>"

definition demo_log :: string where "demo_log = ''/home/f-ageth.log''"

lemma demo_logs: "log_home ''/home'' demo_req = Some demo_log" "log_here demo_req = Some ''/d/f-ageth.log''"
proof -
  have "str_of (lfile demo_req) = Some ''/d/f''" by (simp add: demo_req_def str_of_def c_str_def)
  moreover have "scan_back ''/d/f'' 3 = Some 2" by (simp add: scan_back.simps)
  moreover have "log_suffix demo_req = ''-ageth.log''" by (simp add: log_suffix_def demo_req_def)
  ultimately show "log_home ''/home'' demo_req = Some demo_log" "log_here demo_req = Some ''/d/f-ageth.log''"
    by (simp_all add: log_home_def log_here_def demo_log_def)
qed

lemma demo_partial:
  "\<exists>fmt tds gs. prepare (start_thread demo_req [] 3 1) 0 (jfmt (start_job 1 ''xxxxx'')) (wthread (start_job 1 ''xxxxx'')) = Some (fmt, tds)
     \<and> sched http_get_step http_ended (events demo_round1) (launch (map the (handles demo_round1)) (streams demo_round1) tds, ''xxxxx'', 0)
         = Some (Inr (gs, ''hexxx'', 2)) \<and> length gs = 1 \<and> offset (gtd (gs ! 0)) = 2"
proof -
  from start_prepare [OF demo_sendable, where n = 1 and dupfd = 3 and fl = "''xxxxx''"] obtain fmt tds where
    p: "prepare (start_thread demo_req [] 3 1) 0 (jfmt (start_job 1 ''xxxxx'')) (wthread (start_job 1 ''xxxxx'')) = Some (fmt, tds)"
    and l: "length tds = 1" and t: "soffset (tds ! 0) = 0" "foffset (tds ! 0) = 5"
    by (auto simp: demo_req_def seg_start_def seg_end_def)
  then obtain td where tds: "tds = [td]" by (auto simp: length_Suc_conv)
  let ?g = "\<lparr>gpc = GStart, gtd = td\<lparr>td_tid := 7\<rparr>, gstrm = demo_header @ ''hello''\<rparr>"
  let ?g' = "loop_test (?g\<lparr>gtd := (gtd ?g)\<lparr>offset := 2\<rparr>, gstrm := ''llo''\<rparr>)"
  have b: "first_body 20 demo_header ''hello'' = ''he''" by (simp add: first_body_def demo_header_def)
  have "http_get_start demo_event (?g, ''xxxxx'', 0) =
      Some (Inr (loop_test (?g\<lparr>gtd := (gtd ?g)\<lparr>offset := soffset (gtd ?g) + 2\<rparr>, gstrm := drop (length ''he'') ''hello''\<rparr>), ''hexxx'', c_uint (0 + 2)))"
  proof (rule http_start_eval [where k = 20 and h = demo_header and b = "''he''" and n = 2])
    show "pwrite (nwrite demo_event) ''xxxxx'' (''he'' @ replicate (8192 - length demo_header - length ''he'') NUL) 2 (soffset (gtd ?g)) = Some (2, ''hexxx'')"
      using pwrite_full [of "nwrite demo_event" 8192 2 "''he'' @ replicate (8192 - length demo_header - length ''he'') NUL" 0 "''xxxxx''"] t tds
      by (simp add: demo_event_def put_at_def)
  qed (use demo_header_ok t tds b in \<open>simp_all add: demo_event_def\<close>)
  then have "sched http_get_step http_ended (events demo_round1) (launch (map the (handles demo_round1)) (streams demo_round1) tds, ''xxxxx'', 0)
      = Some (Inr ([?g'], ''hexxx'', 2))"
    using t tds by (simp add: demo_round1_def demo_round_def launch_def http_ended_def http_get_step_def c_uint_def)
  then show ?thesis using p by (intro exI [of _ fmt] exI [of _ tds] exI [of _ "[?g']"]) simp
qed

lemma demo_round2_ok:
  assumes "offset (gtd (gs ! 0)) = 2"
  shows "round_ok 20 ''hello'' (\<lambda>k. offset (gtd (gs ! k))) 1 demo_round2" "enough_steps ''hello'' 1 demo_round2"
    "round_ok 20 ''hello'' (seg_start 5 1) 1 demo_round1"
proof -
  have "clean (demo_header @ ''llo'')" by code_simp
  moreover have "\<exists>h. http_header h \<and> length h \<le> 20 \<and> length h \<le> 8191 \<and> demo_header @ ''llo'' = h @ drop (nat (offset (gtd (gs ! 0)))) ''hello''"
    using demo_header_ok assms by (intro exI [of _ demo_header]) simp
  ultimately show "round_ok 20 ''hello'' (\<lambda>k. offset (gtd (gs ! k))) 1 demo_round2"
    by (simp add: round_ok_def demo_round2_def demo_round_def demo_event_def http_good_def)
  show "enough_steps ''hello'' 1 demo_round2" by (simp add: enough_steps_def demo_round2_def demo_round_def)
  show "round_ok 20 ''hello'' (seg_start 5 1) 1 demo_round1"
    using demo_round_ok(1) by (simp add: round_ok_def demo_round1_def demo_round_def)
qed


section \<open>Further properties\<close>

text \<open>
  The segments of the automatic choice: between one and ten threads, each segment inside
  the file, and none shorter than the receive buffer unless there is only one.
\<close>

theorem auto_segments:
  assumes "0 < len" "n = choose_threads 0 nt len" "int k < n" "calc_offset len (int k) n = Some so" "calc_offset len (int k + 1) n = Some fo"
  shows "1 \<le> n \<and> n \<le> 10 \<and> 0 \<le> so \<and> so \<le> fo \<and> fo \<le> len \<and> (n = 1 \<or> MAXBUFSIZ \<le> fo - so)"
proof -
  note a = auto_threads [OF assms(1), of nt, folded assms(2)]
  have so: "so = seg_start len n k" "fo = seg_start len n (Suc k)"
    using assms(1,4,5) a(1) calc_offset_eq [of len n k] calc_offset_eq [of len n "Suc k"] by (simp_all add: add.commute)
  have "fo - so = len div n" by (simp add: so seg_start_def algebra_simps)
  moreover have "0 \<le> len div n" using assms(1) a(1) by (simp add: pos_imp_zdiv_nonneg_iff)
  ultimately show ?thesis
    using a assms(1,3) seg_start_le [of len n k] seg_start_le [of len n "Suc k"] by (auto simp: so)
qed

theorem auto_segments_witness:
  "1 \<le> choose_threads 0 0 100000 \<and> choose_threads 0 0 100000 \<le> 10 \<and> 0 \<le> (33333::int) \<and> (33333::int) \<le> 66666 \<and> (66666::int) \<le> 100000
    \<and> (choose_threads 0 0 100000 = 1 \<or> MAXBUFSIZ \<le> 66666 - 33333)"
  by (rule auto_segments [where k = 1, OF _ refl]) (simp_all add: choose_threads_def numofthreads_def BUFSIZ_def calc_offset_def)



text \<open>
  A first segment that is shorter than what the first \<^verbatim>\<open>recv\<close> brings: the length of the header is
  subtracted from the end of the segment, and the bytes between are lost, as the stream is past
  them.
\<close>

theorem first_chunk_loses_bytes:
  assumes "soffset (gtd g) = 0" "nsocket e" "nconnect e" "nsend e" "nfirst e = Some k" "nwrite e = Some 8192"
    and "http_header h" "length h \<le> min 8191 (Suc k)" "gstrm g = h @ body" "clean (h @ body)"
    and "foffset (gtd g) = int f" "length h < f" "f < length (first_body k h body)"
  shows "\<exists>g' bw'. http_get_start e (g, fl, bw) = Some (Inr (g', put_at fl 0 (take (f - length h) (first_body k h body)), bw'))
    \<and> gpc g' = GLoop \<and> offset (gtd g') = int (f - length h) \<and> gstrm g' = drop (length (first_body k h body)) body"
proof -
  let ?b = "first_body k h body" and ?n = "f - length h"
  have lb: "length ?b \<le> 8191" by (simp add: first_body_def)
  have n: "int ?n = (if int (length ?b) > foffset (gtd g) then foffset (gtd g) - int (length h) else int (length ?b))"
    using assms(11-13) by simp
  have "pwrite (nwrite e) fl (?b @ replicate (8192 - length h - length ?b) NUL) (int ?n) (soffset (gtd g)) = Some (int ?n, put_at fl 0 (take ?n ?b))"
    using pwrite_full [OF assms(6), of ?n] lb assms(1,12,13) by simp
  from http_start_eval [OF _ _ assms(2-5,7-10) refl n this, of bw] assms(1,7,11-13) show ?thesis by (auto simp: http_header_def)
qed

text \<open>
  The count of threads that succeeded is never reset: when it is past the number of threads, no
  further round ends the job.
\<close>

lemma join_loop_grows: "k \<le> snd (join_loop tds k)"
proof (induction tds arbitrary: k)
  case (Cons td tds)
  show ?case using Cons.IH [of k] Cons.IH [of "k + 1"] by (simp add: Let_def split_def)
qed simp

theorem retry_never_ends:
  assumes "n < nok j"
  shows "job_rounds body fail n ws j \<noteq> Some (Inr j')"
  using assms
proof (induction ws arbitrary: j)
  case (Cons w ws)
  show ?case
  proof
    assume a: "job_rounds body fail n (w # ws) j = Some (Inr j')"
    then obtain j1 where j1: "job_round body fail w j = Some (Inr j1)" "(if nok j1 = n then Some (Inr j1) else job_rounds body fail n ws j1) = Some (Inr j')"
      by (auto simp: pbind_def split: option.splits sum.splits)
    then have "nok j \<le> nok j1"
      by (auto simp: job_round_def pbind_def Let_def split_def join_loop_grows split: option.splits sum.splits if_splits)
    then show False using j1(2) Cons.IH [of j1] Cons.prems by (auto split: if_splits)
  qed
qed simp

theorem retry_never_ends_witness:
  "job_rounds (resume_thread demo_req 3) None 2 [demo_round2] (resume_job \<lparr>hreq = demo_req, hnthreads = 2, hbwritten = 2, hwthread = []\<rparr> [] 0\<lparr>nok := 3\<rparr>)
    \<noteq> Some (Inr (start_job 0 []))"
  by (rule retry_never_ends) simp

text \<open>When the server closes the connection early, the loop goes round without a change.\<close>

theorem early_close_spins:
  assumes "gpc g = GLoop" "gstrm g = []" "offset (gtd g) < foffset (gtd g)" "0 \<le> offset (gtd g)" "nrecv e = Some k" "nwrite e = Some m" "c_uint bw = bw"
  shows "http_get_step e (g, fl, bw) = Some (Inr (g, fl, bw))"
proof -
  have "pwrite (nwrite e) fl (buffer [])
      (if offset (gtd g) + int (length []) > foffset (gtd g) then foffset (gtd g) - offset (gtd g) else int (length ([] :: string))) (offset (gtd g)) = Some (0, fl)"
    using assms(3,4,6) by (simp add: pwrite_def put_at_def)
  moreover have "loop_test (g\<lparr>gtd := (gtd g)\<lparr>offset := offset (gtd g) + 0\<rparr>, gstrm := drop (length ([] :: string)) (gstrm g)\<rparr>) = g"
    using assms(1-3) by (simp add: loop_test_def Let_def)
  ultimately show ?thesis
    using http_turn_eval [OF assms(5), of "[]" g fl 0 fl bw] assms(1,2,7) by (simp add: http_get_step_def)
qed

text \<open>\<^verbatim>\<open>open\<close> without \<^verbatim>\<open>O_TRUNC\<close>: a longer file that is overwritten keeps its length.\<close>

theorem overwrite_keeps_tail:
  assumes "0 < len" "len \<le> int (length old)" "open_file (Some old) ok True ''y'' len = Some (Inr fl)"
  shows "length fl = length old \<and> drop (nat len) fl = drop (nat len) old"
proof -
  have fl: "fl = put_at old (nat (len - 1)) ''0''" using assms(1,3) by (auto simp: open_file_def split: if_splits)
  have "nat len = Suc (nat (len - 1))" "nat (len - 1) < length old" using assms(1,2) by linarith+
  then show ?thesis by (simp add: fl put_at_def)
qed

text \<open>The buffer for the request has 254 bytes, \<^verbatim>\<open>snprintf\<close> is told 256.\<close>

theorem long_request_overflows:
  assumes "254 \<le> length u" "length fmt = 254"
  shows "put_request u fmt td = None"
  using assms by (auto simp: put_request_def snprintf_def Let_def min_def)

end
