(* ===== verification/AgetFtp.thy ===== *)
theory AgetFtp
  imports AgetHead
begin

text \<open>
  The FTP side of aget: \<^verbatim>\<open>recv_reply\<close> and \<^verbatim>\<open>recv_data\<close> of \<^verbatim>\<open>papps/aget-devel/Misc.c\<close>,
  \<^verbatim>\<open>parse_pasv_reply2\<close>, \<^verbatim>\<open>ftp_get_size\<close> and \<^verbatim>\<open>ftp_head_req\<close> of \<^verbatim>\<open>Head.c\<close>, and the download thread
  \<^verbatim>\<open>ftp_get\<close> of \<^verbatim>\<open>Ftp.c\<close>, the second interpretation of \<open>segment_getter\<close>.  The control connection holds
  the chunks that have arrived; \<^verbatim>\<open>recv_reply\<close> opens a new stream on the socket each time, and what an
  earlier stream has read ahead is lost.  A server answers the commands it has been sent so far.
\<close>

section \<open>Replies\<close>

text \<open>A stream of the C library: the bytes read ahead, and the chunks the socket will return.  \<open>fgets n\<close> returns at
  most \<open>n\<close> characters, up to the end of the line; nothing when the connection has ended.\<close>

fun fgets :: "nat \<Rightarrow> string \<Rightarrow> string list \<Rightarrow> string \<times> string \<times> string list" where
  "fgets 0 b cs = ([], b, cs)"
| "fgets (Suc n) [] [] = ([], [], [])"
| "fgets (Suc n) [] (x # cs) = fgets (Suc n) x cs"
| "fgets (Suc n) (c # b) cs =
     (if c = LF then ([c], b, cs) else let (l, b, cs) = fgets n b cs in (c # l, b, cs))"

text \<open>\<^verbatim>\<open>memcpy(rbuf + n, line, k)\<close>.\<close>

definition copy_to :: "string \<Rightarrow> nat \<Rightarrow> string \<Rightarrow> string option" where
  "copy_to rbuf n t = (if n + length t \<le> length rbuf then Some (take n rbuf @ t @ drop (n + length t) rbuf) else None)"

text \<open>The loop of \<^verbatim>\<open>recv_reply\<close>; \<open>line\<close> is the array of 1024 characters, \<open>st\<close> the four of \<^verbatim>\<open>status\<close>.  At the end of the
  connection \<^verbatim>\<open>fgets\<close> leaves the line as it is, and the loop may not end.\<close>

partial_function (option) reply_loop :: "string \<Rightarrow> string \<Rightarrow> string \<Rightarrow> nat \<Rightarrow> string \<Rightarrow> string list \<Rightarrow> (nat \<times> string \<times> string list) option" where
  "reply_loop line st rbuf nread b cs =
     (let (l, b, cs) = fgets 1019 b cs;
          line = (if l = [] then line else l @ NUL # drop (Suc (length l)) line)
      in do {
        c \<leftarrow> rd line 3;
        s0 \<leftarrow> rd st 0;
        st \<leftarrow> (if c = CHR ''-'' \<and> s0 = NUL then strncpy st (c_str (take 3 line)) 3 else Some st);
        s0 \<leftarrow> rd st 0;
        let fin = c = CHR '' '' \<and> (s0 \<noteq> NUL \<longrightarrow> c_str (take 3 st) = c_str (take 3 line));
        t \<leftarrow> str_of line;
        rbuf \<leftarrow> copy_to rbuf nread t;
        let nread = nread + length t;
        if \<not> fin \<and> nread < 1022 then reply_loop line st rbuf nread b cs else Some (nread, rbuf, cs) })"

text \<open>\<open>ok\<close> tells whether \<^verbatim>\<open>fdopen\<close> succeeds, \<open>junk\<close> is what lies in the array of the line.\<close>

definition recv_reply :: "bool \<Rightarrow> string \<Rightarrow> string list \<Rightarrow> string \<Rightarrow> (int \<times> string \<times> string list) option" where
  "recv_reply ok junk cs rbuf =
     (if \<not> ok then Some (- 1, rbuf, cs)
      else do { (n, rbuf, cs) \<leftarrow> reply_loop junk (replicate 4 NUL) rbuf 0 [] cs; Some (int n, rbuf, cs) })"

section \<open>The address of the data connection\<close>

definition ends_line :: "char \<Rightarrow> bool" where
  "ends_line c \<longleftrightarrow> c = NUL \<or> c = CR \<or> c = LF"

function skip_to_paren :: "string \<Rightarrow> int \<Rightarrow> int \<Rightarrow> int option" where
  "skip_to_paren rbuf len s =
     (if s < len then do { c \<leftarrow> rd rbuf s; if ends_line c \<or> c = CHR ''('' then Some s else skip_to_paren rbuf len (s + 1) }
      else Some s)"
  by pat_completeness auto
termination
  by (relation "measure (\<lambda>(rbuf, len, s). nat (len - s))") auto

text \<open>The inner loop, which fills \<^verbatim>\<open>tmp\<close> with at most three characters.\<close>

fun number_text :: "string \<Rightarrow> int \<Rightarrow> int \<Rightarrow> nat \<Rightarrow> (string \<times> int) option" where
  "number_text rbuf len s 0 = Some ([], s)"
| "number_text rbuf len s (Suc j) =
     (if s < len then do {
        c \<leftarrow> rd rbuf s;
        if ends_line c \<or> c = CHR '','' \<or> c = CHR '')'' then Some ([], s)
        else do { (t, s) \<leftarrow> number_text rbuf len (s + 1) j; Some (c # t, s) } }
      else Some ([], s))"

text \<open>The loop over the six numbers; \<open>n\<close> is how many are still missing.\<close>

fun number_loop :: "string \<Rightarrow> int \<Rightarrow> nat \<Rightarrow> int \<Rightarrow> int list option" where
  "number_loop rbuf len 0 s = Some []"
| "number_loop rbuf len (Suc n) s =
     (if s < len then do {
        c \<leftarrow> rd rbuf s;
        if ends_line c then Some []
        else do { (t, s) \<leftarrow> number_text rbuf len s 3; ns \<leftarrow> number_loop rbuf len n (s + 1); Some (atoi t # ns) } }
      else Some [])"

text \<open>The address as text and the port; the result \<open>Some None\<close> is the return value -1.\<close>

definition parse_pasv_reply2 :: "string \<Rightarrow> int \<Rightarrow> (string \<times> int) option option" where
  "parse_pasv_reply2 rbuf len =
     do { s \<leftarrow> skip_to_paren rbuf len 0;
          ns \<leftarrow> number_loop rbuf len 6 (s + 1);
          let addr = ns @ replicate (10 - length ns) 0;
          if addr ! 0 = 0 then Some None
          else Some (Some (take 14 (dec_int (addr ! 0) @ ''.'' @ dec_int (addr ! 1) @ ''.'' @ dec_int (addr ! 2) @ ''.'' @ dec_int (addr ! 3)),
            (addr ! 4 * 256 + addr ! 5) mod 2 ^ 16)) }"

declare skip_to_paren.simps [simp del]

section \<open>The dialogue\<close>

text \<open>A server: what it sends on the control connection at first and after the commands so far, the address at
  which it accepts the data connection, and what it sends there after the commands so far.\<close>

record ftp_server =
  greeting :: "string list"
  replies :: "string list \<Rightarrow> string list"
  listens :: "string \<times> int \<Rightarrow> bool"
  content :: "string list \<Rightarrow> string"

record control =
  said :: "string list"
  inbox :: "string list"

definition send_cmd :: "ftp_server \<Rightarrow> string \<Rightarrow> control \<Rightarrow> control" where
  "send_cmd srv cmd c = (let h = said c @ [cmd] in \<lparr>said = h, inbox = inbox c @ replies srv h\<rparr>)"

text \<open>What the calls of one step answer, besides those of \<open>net_event\<close>: \<^verbatim>\<open>fdopen\<close> and the stack for the calls of
  \<^verbatim>\<open>recv_reply\<close>, by their number, \<^verbatim>\<open>socket\<close> and \<^verbatim>\<open>connect\<close> of the data connection, \<^verbatim>\<open>recv\<close> of a listing, and the attempts of \<^verbatim>\<open>recv_data\<close>:
  the answer of \<^verbatim>\<open>recv\<close>, whether an error is \<^verbatim>\<open>EINTR\<close>, and the answer of \<^verbatim>\<open>select\<close>.\<close>

record ftp_event =
  fsocket :: bool
  fconnect :: bool
  fdopens :: "nat \<Rightarrow> bool"
  fjunk :: "nat \<Rightarrow> string"
  dsocket :: bool
  dconnect :: bool
  flist :: "nat option"
  attempts :: "(nat option \<times> bool \<times> int) list"
  fwrite :: "nat option"

definition reply_of :: "ftp_event \<Rightarrow> nat \<Rightarrow> control \<Rightarrow> (string \<times> control) option" where
  "reply_of e k c = do { (n, rbuf, cs) \<leftarrow> recv_reply (fdopens e k) (fjunk e k) (inbox c) (replicate 8192 NUL); Some (rbuf, c\<lparr>inbox := cs\<rparr>) }"

text \<open>A command as \<^verbatim>\<open>snprintf(sbuf, MAXBUFSIZ - 1, ..)\<close> makes it, and its reply in the cleared buffer.\<close>

abbreviation eol :: string where "eol \<equiv> [CR, LF]"

definition cmdline :: "string \<Rightarrow> string" where
  "cmdline t = take 8190 (t @ eol)"

definition ask :: "ftp_event \<Rightarrow> ftp_server \<Rightarrow> nat \<Rightarrow> string \<Rightarrow> control \<Rightarrow> (string \<times> control) option" where
  "ask e srv k t c = reply_of e k (send_cmd srv (cmdline t) c)"

text \<open>Greeting, user name and password, on a new connection; \<open>None\<close> when the server does not want a connection.\<close>

definition ftp_login :: "ftp_event \<Rightarrow> ftp_server \<Rightarrow> string \<Rightarrow> string \<Rightarrow> control option proc" where
  "ftp_login e srv user pass =
     pbind (pret (recv_reply (fdopens e 0) (fjunk e 0) (greeting srv) (replicate 8192 NUL))) (\<lambda>(n, rbuf, cs).
       if n = - 1 then Some (Inr None)
       else if \<not> list_ex (\<lambda>d. starts [d] rbuf) ''213'' then Some (Inr None)
       else pbind (pret (do { u \<leftarrow> str_of user; ask e srv 1 (''USER '' @ u) \<lparr>said = [], inbox = cs\<rparr> })) (\<lambda>(rbuf, c).
         if \<not> starts ''331'' rbuf then Some (Inl 1)
         else pbind (pret (do { p \<leftarrow> str_of pass; ask e srv 2 (''PASS '' @ p) c })) (\<lambda>(rbuf, c).
           if \<not> starts ''230'' rbuf then Some (Inl 1) else Some (Inr (Some c)))))"

text \<open>\<^verbatim>\<open>TYPE I\<close> and \<^verbatim>\<open>PASV\<close>.  When the reply has no address, \<^verbatim>\<open>sin_dc\<close> stays as it is, not initialised.\<close>

definition ftp_passive :: "ftp_event \<Rightarrow> ftp_server \<Rightarrow> nat \<Rightarrow> control \<Rightarrow> ((string \<times> int) \<times> control) option" where
  "ftp_passive e srv k c =
     do { (rbuf, c) \<leftarrow> ask e srv k ''TYPE I'' c;
          (rbuf, c) \<leftarrow> ask e srv (k + 1) ''PASV'' c;
          a \<leftarrow> parse_pasv_reply2 rbuf MAXBUFSIZ;
          a \<leftarrow> a;
          Some (a, c) }"

section \<open>The head request\<close>

fun scan_words :: "nat \<Rightarrow> string \<Rightarrow> string list" where
  "scan_words 0 s = []"
| "scan_words (Suc n) s =
     (let s = dropWhile is_space s; w = take 15 (takeWhile (\<lambda>c. \<not> is_space c) s)
      in if w = [] then [] else w # scan_words n (drop (length w) s))"

text \<open>The size is the fifth word of the listing; both kinds of server are treated alike.\<close>

definition ftp_get_size :: "ftp_event \<Rightarrow> ftp_server \<Rightarrow> string \<times> int \<Rightarrow> string list \<Rightarrow> int" where
  "ftp_get_size e srv a cmds =
     (if \<not> dsocket e then - 1
      else if \<not> (dconnect e \<and> listens srv a) then - 1
      else let (n, b, rest) = recv (flist e) (nat (MAXBUFSIZ - 1)) (content srv cmds); ws = scan_words 9 (c_str b)
        in atoi (if 4 < length ws then ws ! 4 else []))"

definition SERVER_TYPE_UNIX :: int where "SERVER_TYPE_UNIX = 1"
definition SERVER_TYPE_NT :: int where "SERVER_TYPE_NT = 2"

text \<open>The request with address, server type and length, and the connection, which the first thread goes on with;
  the function returns 1 or ends the program.\<close>

definition ftp_head_req :: "(string \<Rightarrow> string option) \<Rightarrow> ftp_event \<Rightarrow> ftp_server \<Rightarrow> request \<Rightarrow> (request \<times> control) proc" where
  "ftp_head_req resolve e srv r =
     pbind (pret (do { h \<leftarrow> str_of (host r); u \<leftarrow> str_of (drop 1 (url r)); Some (h, u) })) (\<lambda>(h, u).
       case resolve h of None \<Rightarrow> Some (Inl 1)
       | Some a \<Rightarrow>
         pbind (pret (do { a \<leftarrow> strncpy (ip r) a 15; _ \<leftarrow> str_of a; Some (r\<lparr>ip := a\<rparr>) })) (\<lambda>r.
           if \<not> fsocket e then Some (Inl 1)
           else if \<not> fconnect e then Some (Inl 1)
           else pbind (ftp_login e srv (username r) (password r)) (\<lambda>co. case co of None \<Rightarrow> Some (Inl 1)
           | Some c \<Rightarrow>
             pbind (pret (ask e srv 3 ''REST 150'' c)) (\<lambda>(rbuf, c).
               if \<not> starts ''350'' rbuf then Some (Inl 1)
               else pbind (pret (ask e srv 4 ''SYST'' c)) (\<lambda>(rbuf, c).
                 if \<not> starts ''215'' rbuf then Some (Inl 1)
                 else let r = r\<lparr>ftp_server_type := (if strstr rbuf ''UNIX'' then SERVER_TYPE_UNIX else SERVER_TYPE_NT)\<rparr> in
                   pbind (pret (ftp_passive e srv 5 c)) (\<lambda>(a, c).
                     let c = send_cmd srv (cmdline (''LIST '' @ u)) c; r = r\<lparr>clength := ftp_get_size e srv a (said c)\<rparr>
                     in if clength r = - 1 then Some (Inl 1)
                     else pret (do { (rbuf, c) \<leftarrow> reply_of e 7 c; Some (r, c) })))))))"

section \<open>The download thread\<close>

record ftp_getter = getter +
  gsrv :: ftp_server
  gctl :: control

text \<open>From \<^verbatim>\<open>REST\<close> to \<^verbatim>\<open>RETR\<close>: the connection and what comes over the data connection.\<close>

definition ftp_transfer :: "ftp_event \<Rightarrow> ftp_server \<Rightarrow> thread_data \<Rightarrow> control \<Rightarrow> (control \<times> string) proc" where
  "ftp_transfer e srv td c =
     pbind (pret (ask e srv 3 (''REST '' @ dec_int (soffset td)) c)) (\<lambda>(rbuf, c).
       if \<not> starts ''350'' rbuf then Some (Inl 1)
       else pbind (pret (ftp_passive e srv 4 c)) (\<lambda>(a, c).
         if \<not> dsocket e then Some (Inl 1)
         else if \<not> (dconnect e \<and> listens srv a) then Some (Inl 1)
         else pret (do {
           u \<leftarrow> str_of (drop 1 (td_url td));
           let c = send_cmd srv (cmdline (''RETR '' @ u)) c;
           Some (c, content srv (said c)) })))"

definition ftp_get_start :: "ftp_event \<Rightarrow> ftp_getter \<times> string \<times> int \<Rightarrow> (ftp_getter \<times> string \<times> int) proc" where
  "ftp_get_start e = (\<lambda>(g, fl, bw).
     (let td = gtd g; leave = Some (Inr (g\<lparr>gpc := GDone\<rparr>, fl, bw)) in
      if soffset td < 0 \<or> soffset td \<ge> foffset td
      then Some (Inr (g\<lparr>gpc := GDone, gtd := td\<lparr>status := STAT_OK\<rparr>\<rparr>, fl, bw))
      else pbind
        (if head_sd td = - 1 then
           (if \<not> fsocket e then Some (Inr None)
            else if \<not> fconnect e then Some (Inr None)
            else ftp_login e (gsrv g) (td_username td) (td_password td))
         else pret (do { (rbuf, c) \<leftarrow> reply_of e 0 (gctl g); Some (Some c) })) (\<lambda>co. case co of None \<Rightarrow> leave
        | Some c \<Rightarrow>
            pbind (ftp_transfer e (gsrv g) td c) (\<lambda>(c, s).
              Some (Inr (loop_test (g\<lparr>gtd := td\<lparr>offset := soffset td\<rparr>, gstrm := s, gctl := c\<rparr>), fl, bw))))))"

text \<open>\<^verbatim>\<open>recv_data\<close>: at the end of the data three more attempts while \<^verbatim>\<open>select\<close> says that there is something to read; \<open>None\<close>
  when it has not returned after the attempts given.\<close>

fun recv_data :: "(nat option \<times> bool \<times> int) list \<Rightarrow> nat \<Rightarrow> string \<Rightarrow> (int \<times> string \<times> string) proc" where
  "recv_data [] m s = None"
| "recv_data ((k, eintr, ret) # as) m s =
     (let (nrecv, b, rest) = recv k (nat MAXBUFSIZ) s in
      if nrecv = - 1 \<and> \<not> eintr then Some (Inl 1)
      else if nrecv = 0 then
        (if ret = - 1 then Some (Inl 1)
         else if ret > 0 \<and> m \<noteq> 0 then recv_data as (m - 1) rest
         else Some (Inr (nrecv, b, rest)))
      else Some (Inr (nrecv, b, rest)))"

definition ftp_get_turn :: "ftp_event \<Rightarrow> ftp_getter \<times> string \<times> int \<Rightarrow> (ftp_getter \<times> string \<times> int) proc" where
  "ftp_get_turn e = (\<lambda>(g, fl, bw).
     (let td = gtd g in
      pbind (recv_data (attempts e) 3 (gstrm g)) (\<lambda>(dr, b, rest).
        pret (do {
          (dw, fl) \<leftarrow> pwrite (fwrite e) fl (buffer b)
             (if offset td + dr > foffset td then foffset td - offset td else dr) (offset td);
          Some (loop_test (g\<lparr>gtd := td\<lparr>offset := offset td + dw\<rparr>, gstrm := rest\<rparr>), fl, c_uint (bw + dw)) }))))"

definition ftp_get_step :: "ftp_event \<Rightarrow> ftp_getter \<times> string \<times> int \<Rightarrow> (ftp_getter \<times> string \<times> int) proc" where
  "ftp_get_step e = (\<lambda>(g, fl, bw).
     (case gpc g of GStart \<Rightarrow> ftp_get_start e (g, fl, bw) | GLoop \<Rightarrow> ftp_get_turn e (g, fl, bw) | GDone \<Rightarrow> Some (Inr (g, fl, bw))))"

section \<open>Reading a reply\<close>

definition reply_line :: "string \<Rightarrow> string \<Rightarrow> bool" where
  "reply_line code l \<longleftrightarrow> (\<exists>t. l = code @ '' '' @ t @ eol \<and> length code = 3 \<and> list_all (\<lambda>c. c \<noteq> LF \<and> c \<noteq> NUL) (code @ t) \<and> length l \<le> 1019)"

lemma fgets_line: "LF \<notin> set x \<Longrightarrow> length x < n \<Longrightarrow> fgets n (x @ LF # b) cs = (x @ [LF], b, cs)"
proof (induction x arbitrary: n)
  case Nil
  then show ?case by (cases n) auto
next
  case (Cons c x)
  then obtain m where "n = Suc m" "length x < m" by (cases n) auto
  then show ?case using Cons by auto
qed

text \<open>One line is read; what has come with it in one chunk is lost with the stream.\<close>

lemma recv_reply_chunk:
  assumes l: "reply_line code l" and j: "length junk = 1024" and r: "length rbuf = 8192"
  shows "recv_reply True junk ((l @ m) # cs) rbuf = Some (int (length l), l @ drop (length l) rbuf, cs)"
proof -
  obtain t where t: "l = (code @ '' '' @ t @ [CR]) @ [LF]" "length code = 3" "list_all (\<lambda>c. c \<noteq> LF \<and> c \<noteq> NUL) (code @ t)" "length l \<le> 1019"
    using l by (auto simp: reply_line_def)
  have nl: "LF \<notin> set (code @ '' '' @ t @ [CR])" and nz: "NUL \<notin> set l" using t by (auto simp: list_all_iff)
  have "fgets 1019 (l @ m) cs = (l, m, cs)"
    using fgets_line [OF nl, of 1019 m cs] t by simp
  moreover have "fgets 1019 [] ((l @ m) # cs) = fgets 1019 (l @ m) cs" using fgets.simps(3) [of 1018] by (simp only: eval_nat_numeral(3) numeral_eq_Suc pred_numeral_simps)
  ultimately have f: "fgets 1019 [] ((l @ m) # cs) = (l, m, cs)" by simp
  let ?line = "l @ NUL # drop (Suc (length l)) junk"
  have "l \<noteq> []" using t(1) by simp
  have c: "rd ?line 3 = Some (CHR '' '')" using t(1,2) by (simp add: rd_def nth_append)
  have s: "str_of ?line = Some l" using nz by (simp add: str_of_def)
  have cp: "copy_to rbuf 0 l = Some (l @ drop (length l) rbuf)" using t(4) r by (simp add: copy_to_def)
  have z: "rd (replicate 4 NUL) 0 = Some NUL" by (simp add: rd_def)
  show ?thesis unfolding recv_reply_def
    by (subst reply_loop.simps) (simp add: f \<open>l \<noteq> []\<close> c s cp z Let_def del: replicate.simps)
qed

lemmas recv_reply_line = recv_reply_chunk [where m = "[]", unfolded append_Nil2]

text \<open>A server that answers each of a list of commands with one line of the given code.\<close>

fun answers :: "ftp_server \<Rightarrow> string list \<Rightarrow> (string \<times> string) list \<Rightarrow> bool" where
  "answers srv h [] = True"
| "answers srv h ((cmd, code) # xs) = ((\<exists>l. replies srv (h @ [cmd]) = [l] \<and> reply_line code l) \<and> answers srv (h @ [cmd]) xs)"

definition calls_ok :: "ftp_event \<Rightarrow> bool" where
  "calls_ok e \<longleftrightarrow> fsocket e \<and> fconnect e \<and> dsocket e \<and> dconnect e
     \<and> list_all (\<lambda>k. fdopens e k \<and> length (fjunk e k) = 1024) [0..<8]"

lemma calls_okD: "calls_ok e \<Longrightarrow> k < 8 \<Longrightarrow> fdopens e k \<and> length (fjunk e k) = 1024"
  by (simp add: calls_ok_def list_all_iff)

lemma reply_of_line:
  assumes "calls_ok e" "k < 8" "reply_line code l" "inbox c = l # cs"
  shows "reply_of e k c = Some (l @ drop (length l) (replicate 8192 NUL), c\<lparr>inbox := cs\<rparr>)"
  using recv_reply_line [OF assms(3), of "fjunk e k" "replicate 8192 NUL" cs] calls_okD [OF assms(1,2)] assms(4)
  by (simp add: reply_of_def del: drop_replicate)

lemma reply_line_starts: "reply_line code l \<Longrightarrow> starts code (l @ z)"
  by (auto simp: reply_line_def starts_def)

lemma ask_line:
  assumes "calls_ok e" "k < 8" "replies srv (h @ [cmdline t]) = [l]" "reply_line code l"
  shows "ask e srv k t \<lparr>said = h, inbox = []\<rparr> = Some (l @ drop (length l) (replicate 8192 NUL), \<lparr>said = h @ [cmdline t], inbox = []\<rparr>)"
proof -
  have "ask e srv k t \<lparr>said = h, inbox = []\<rparr> = reply_of e k \<lparr>said = h @ [cmdline t], inbox = [l]\<rparr>"
    using assms(3) by (simp add: ask_def send_cmd_def Let_def)
  then show ?thesis using reply_of_line [OF assms(1,2,4), of "\<lparr>said = h @ [cmdline t], inbox = [l]\<rparr>" "[]"] by (simp del: drop_replicate)
qed

lemma ask_answered:
  assumes "calls_ok e" "k < 8" "answers srv h ((cmdline t, code) # xs)"
  shows "\<exists>b. starts code b \<and> ask e srv k t \<lparr>said = h, inbox = []\<rparr> = Some (b, \<lparr>said = h @ [cmdline t], inbox = []\<rparr>)"
proof -
  obtain l where l: "replies srv (h @ [cmdline t]) = [l]" "reply_line code l" using assms(3) by auto
  then show ?thesis using ask_line [OF assms(1,2) l] reply_line_starts [OF l(2)] by blast
qed

section \<open>The data address\<close>

lemma skip_to_paren_finds:
  assumes "list_all (\<lambda>c. \<not> ends_line c \<and> c \<noteq> CHR ''('') p" "int (length (a @ p)) < len"
  shows "skip_to_paren (a @ p @ CHR ''('' # z) len (int (length a)) = Some (int (length (a @ p)))"
  using assms
proof (induction p arbitrary: a)
  case Nil
  then show ?case by (subst skip_to_paren.simps) (simp add: rd_at)
next
  case (Cons c p)
  have "skip_to_paren ((a @ [c]) @ p @ CHR ''('' # z) len (int (length (a @ [c]))) = Some (int (length ((a @ [c]) @ p)))"
    using Cons.prems by (intro Cons.IH) simp_all
  then show ?case using Cons.prems rd_at [of a c "p @ CHR ''('' # z"]
    by (subst skip_to_paren.simps) (simp add: add.commute)
qed

lemma number_text_finds:
  assumes "list_all is_digit t" "length t \<le> n" "x = CHR '','' \<or> x = CHR '')''" "int (length (a @ t)) < len"
  shows "number_text (a @ t @ x # z) len (int (length a)) n = Some (t, int (length (a @ t)))"
  using assms
proof (induction n arbitrary: a t)
  case (Suc n)
  show ?case
  proof (cases t)
    case Nil
    then show ?thesis using Suc.prems by (simp add: rd_at)
  next
    case (Cons c u)
    have c: "\<not> ends_line c" "c \<noteq> CHR '',''" "c \<noteq> CHR '')''" using Suc.prems(1) Cons by (auto simp: ends_line_def is_digit_def)
    have "number_text ((a @ [c]) @ u @ x # z) len (int (length (a @ [c]))) n = Some (u, int (length ((a @ [c]) @ u)))"
      using Suc.prems Cons by (intro Suc.IH) simp_all
    then show ?thesis using Suc.prems(4) c rd_at [of a c "u @ x # z"] by (simp add: Cons add.commute)
  qed
qed simp

text \<open>Numbers with a separator after each.\<close>

fun separated :: "nat list \<Rightarrow> string" where
  "separated [] = []"
| "separated (n # ns) = dec n @ (if ns = [] then CHR '')'' else CHR '','') # separated ns"

lemma dec_short: "n < 1000 \<Longrightarrow> length (dec n) \<le> 3"
  by (simp add: dec.simps)

lemma dec_all_digits: "list_all is_digit (dec n)"
  by (auto simp: list_all_iff dest: dec_digits)

lemma number_loop_reads:
  assumes "list_all (\<lambda>n. n < 256) ns" "int (length (a @ separated ns)) < len"
  shows "number_loop (a @ separated ns @ z) len (length ns) (int (length a)) = Some (map int ns)"
  using assms
proof (induction ns arbitrary: a)
  case (Cons n ns)
  let ?x = "if ns = [] then CHR '')'' else CHR '',''"
  obtain c u where d: "dec n = c # u" by (cases "dec n") auto
  have c: "\<not> ends_line c" using dec_all_digits [of n] by (auto simp: d ends_line_def is_digit_def)
  have t: "number_text (a @ dec n @ ?x # (separated ns @ z)) len (int (length a)) 3 = Some (dec n, int (length (a @ dec n)))"
    using Cons.prems dec_short [of n] dec_all_digits [of n] by (intro number_text_finds) auto
  have "number_loop ((a @ dec n @ [?x]) @ separated ns @ z) len (length ns) (int (length (a @ dec n @ [?x]))) = Some (map int ns)"
    using Cons.prems by (intro Cons.IH) (simp_all add: algebra_simps)
  moreover have "atoi (dec n) = int n" using atoi_dec [of "[]" n] Cons.prems by simp
  moreover have "rd (a @ dec n @ ?x # (separated ns @ z)) (int (length a)) = Some c" using rd_at [of a c] by (simp add: d)
  ultimately show ?case using t c Cons.prems(2) by (simp add: algebra_simps)
qed simp

text \<open>The address in the form of \<^verbatim>\<open>inet_addr\<close>.\<close>

definition dotted :: "nat \<Rightarrow> nat \<Rightarrow> nat \<Rightarrow> nat \<Rightarrow> string" where
  "dotted a b c d = dec a @ ''.'' @ dec b @ ''.'' @ dec c @ ''.'' @ dec d"

lemma pasv_reads:
  assumes p: "list_all (\<lambda>c. \<not> ends_line c \<and> c \<noteq> CHR ''('') p"
    and n: "0 < a" "list_all (\<lambda>n. n < 256) [a, b, c, d, h, l]" and len: "int (length (p @ ''('' @ separated [a, b, c, d, h, l])) < len"
  shows "parse_pasv_reply2 (p @ ''('' @ separated [a, b, c, d, h, l] @ z) len = Some (Some (take 14 (dotted a b c d), int (h * 256 + l)))"
proof -
  let ?ns = "[a, b, c, d, h, l]"
  have s: "skip_to_paren (p @ ''('' @ separated ?ns @ z) len 0 = Some (int (length p))"
    using skip_to_paren_finds [OF p, of "[]" len "separated ?ns @ z"] len by simp
  have "number_loop ((p @ ''('') @ separated ?ns @ z) len (length ?ns) (int (length (p @ ''(''))) = Some (map int ?ns)"
    using len n(2) by (intro number_loop_reads) (simp_all del: separated.simps)
  moreover have "length ?ns = 6" "int (length (p @ ''('')) = int (length p) + 1" by simp_all
  ultimately have m: "number_loop (p @ ''('' @ separated ?ns @ z) len 6 (int (length p) + 1) = Some (map int ?ns)"
    by (simp only: append_assoc)
  have "int h * 256 + int l < 2 ^ 16" using n(2) by simp
  then have "(int h * 256 + int l) mod 2 ^ 16 = int h * 256 + int l" by simp
  then show ?thesis unfolding parse_pasv_reply2_def s m bind.bind_lunit Let_def
    using n(1) by (simp add: dotted_def dec_int_def)
qed

section \<open>The contract of a download thread\<close>

text \<open>The reply to \<^verbatim>\<open>PASV\<close> has the address at which the server listens; the program has room for 14 characters of it.\<close>

definition pasv_ok :: "ftp_server \<Rightarrow> string list \<Rightarrow> bool" where
  "pasv_ok srv h \<longleftrightarrow>
     (\<exists>l p a b c d ph pl z. replies srv (h @ [cmdline ''PASV'']) = [l] \<and> reply_line ''227'' l
        \<and> l = p @ ''('' @ separated [a, b, c, d, ph, pl] @ z \<and> list_all (\<lambda>c. \<not> ends_line c \<and> c \<noteq> CHR ''('') p
        \<and> 0 < a \<and> list_all (\<lambda>n. n < 256) [a, b, c, d, ph, pl] \<and> length (dotted a b c d) \<le> 14
        \<and> listens srv (dotted a b c d, int (ph * 256 + pl)))"

lemma ftp_passive_ok:
  assumes e: "calls_ok e" and k: "k < 7" and t: "answers srv h [(cmdline ''TYPE I'', ''200'')]" and p: "pasv_ok srv (h @ [cmdline ''TYPE I''])"
  shows "\<exists>a. ftp_passive e srv k \<lparr>said = h, inbox = []\<rparr> = Some (a, \<lparr>said = h @ [cmdline ''TYPE I'', cmdline ''PASV''], inbox = []\<rparr>) \<and> listens srv a"
proof -
  define t1 where "t1 = ''TYPE I''"
  obtain l p a b c d ph pl z where r: "replies srv ((h @ [cmdline t1]) @ [cmdline ''PASV'']) = [l]" "reply_line ''227'' l"
      and l: "l = p @ ''('' @ separated [a, b, c, d, ph, pl] @ z" "list_all (\<lambda>c. \<not> ends_line c \<and> c \<noteq> CHR ''('') p"
      and n: "0 < a" "list_all (\<lambda>n. n < 256) [a, b, c, d, ph, pl]" "length (dotted a b c d) \<le> 14" "listens srv (dotted a b c d, int (ph * 256 + pl))"
    using p unfolding pasv_ok_def t1_def by blast
  have kk: "k < 8" "k + 1 < 8" using k by simp_all
  obtain b1 where a1: "ask e srv k t1 \<lparr>said = h, inbox = []\<rparr> = Some (b1, \<lparr>said = h @ [cmdline t1], inbox = []\<rparr>)"
    using ask_answered [OF e kk(1) t [folded t1_def]] by blast
  have a2: "ask e srv (Suc k) ''PASV'' \<lparr>said = h @ [cmdline t1], inbox = []\<rparr>
      = Some (l @ drop (length l) (replicate 8192 NUL), \<lparr>said = (h @ [cmdline t1]) @ [cmdline ''PASV''], inbox = []\<rparr>)"
    using ask_line [OF e kk(2) r] by (simp only: Suc_eq_plus1)
  have "length l \<le> 1019" using r(2) by (auto simp: reply_line_def)
  then have "parse_pasv_reply2 (l @ drop (length l) (replicate 8192 NUL)) MAXBUFSIZ = Some (Some (dotted a b c d, int (ph * 256 + pl)))"
    using pasv_reads [OF l(2) n(1,2), of MAXBUFSIZ] n(3) by (simp add: l(1) MAXBUFSIZ_def del: separated.simps drop_replicate)
  then show ?thesis using n(4) unfolding ftp_passive_def t1_def [symmetric]
    by (simp add: a1 a2 del: drop_replicate)
qed

text \<open>What a thread needs of its server.\<close>

definition login_cmds :: "string \<Rightarrow> string \<Rightarrow> (string \<times> string) list" where
  "login_cmds u p = [(cmdline (''USER '' @ u), ''331''), (cmdline (''PASS '' @ p), ''230'')]"

definition ftp_welcomes :: "ftp_server \<Rightarrow> string \<Rightarrow> string \<Rightarrow> bool" where
  "ftp_welcomes srv user pass \<longleftrightarrow> NUL \<in> set user \<and> NUL \<in> set pass
     \<and> (\<exists>code l. greeting srv = [l] \<and> reply_line code l \<and> list_ex (\<lambda>d. starts [d] code) ''213'')
     \<and> answers srv [] (login_cmds (c_str user) (c_str pass))"

lemma ftp_login_ok:
  assumes e: "calls_ok e" and w: "ftp_welcomes srv user pass"
  shows "ftp_login e srv user pass = Some (Inr (Some \<lparr>said = map fst (login_cmds (c_str user) (c_str pass)), inbox = []\<rparr>))"
proof -
  obtain code l where g: "greeting srv = [l]" "reply_line code l" "list_ex (\<lambda>d. starts [d] code) ''213''"
    using w unfolding ftp_welcomes_def by blast
  have st: "str_of user = Some (c_str user)" "str_of pass = Some (c_str pass)" using w by (simp_all add: ftp_welcomes_def str_of_def)
  define u p where "u = ''USER '' @ c_str user" and "p = ''PASS '' @ c_str pass"
  have an: "answers srv [] [(cmdline u, ''331''), (cmdline p, ''230'')]"
    using w unfolding ftp_welcomes_def login_cmds_def u_def p_def by blast
  define b where "b = l @ drop (length l) (replicate 8192 NUL)"
  have r: "recv_reply (fdopens e 0) (fjunk e 0) [l] (replicate 8192 NUL) = Some (int (length l), b, [])"
    using recv_reply_line [OF g(2), of "fjunk e 0" "replicate 8192 NUL" "[]"] calls_okD [OF e, of 0] by (simp add: b_def)
  have b: "list_ex (\<lambda>d. starts [d] b) ''213''"
    using g(2,3) unfolding b_def by (auto simp: reply_line_def starts_def numeral_3_eq_3 Suc_length_conv split: if_splits)
  obtain b1 where a1: "starts ''331'' b1" "ask e srv 1 u \<lparr>said = [], inbox = []\<rparr> = Some (b1, \<lparr>said = [cmdline u], inbox = []\<rparr>)"
    using ask_answered [OF e _ an, of 1] by auto
  have an2: "answers srv [cmdline u] [(cmdline p, ''230'')]" using an by simp
  obtain b2 where a2: "starts ''230'' b2"
      "ask e srv 2 p \<lparr>said = [cmdline u], inbox = []\<rparr> = Some (b2, \<lparr>said = [cmdline u, cmdline p], inbox = []\<rparr>)"
    using ask_answered [OF e _ an2, of 2] by auto
  show ?thesis
    unfolding ftp_login_def g(1) r option.map pbind_simps prod.case st bind.bind_lunit u_def [symmetric] p_def [symmetric] login_cmds_def
    using b a1 a2 by simp
qed

definition rest_cmd :: "int \<Rightarrow> string" where
  "rest_cmd so = cmdline (''REST '' @ dec_int so)"

text \<open>After the commands \<open>h\<close> the server accepts the start offset and sends the content of the file \<open>u\<close> from there on.\<close>

definition ftp_sends :: "ftp_server \<Rightarrow> string list \<Rightarrow> int \<Rightarrow> string \<Rightarrow> string \<Rightarrow> bool" where
  "ftp_sends srv h so u C \<longleftrightarrow>
     answers srv h [(rest_cmd so, ''350''), (cmdline ''TYPE I'', ''200'')]
     \<and> pasv_ok srv (h @ [rest_cmd so, cmdline ''TYPE I''])
     \<and> content srv (h @ [rest_cmd so, cmdline ''TYPE I'', cmdline ''PASV'', cmdline (''RETR '' @ u)]) = drop (nat so) C"

definition ftp_served :: "string \<Rightarrow> ftp_getter \<Rightarrow> bool" where
  "ftp_served C g \<longleftrightarrow>
     (let td = gtd g; srv = gsrv g; u = c_str (drop 1 (td_url td)) in
      NUL \<in> set (drop 1 (td_url td)) \<and>
      (if head_sd td = - 1
       then ftp_welcomes srv (td_username td) (td_password td)
         \<and> ftp_sends srv (map fst (login_cmds (c_str (td_username td)) (c_str (td_password td)))) (soffset td) u C
       else (\<exists>code l. inbox (gctl g) = [l] \<and> reply_line code l) \<and> ftp_sends srv (said (gctl g)) (soffset td) u C))"

lemma ftp_transfer_ok:
  assumes e: "calls_ok e" and z: "NUL \<in> set (drop 1 (td_url td))" and s: "ftp_sends srv h (soffset td) (c_str (drop 1 (td_url td))) C"
  shows "\<exists>c. ftp_transfer e srv td \<lparr>said = h, inbox = []\<rparr> = Some (Inr (c, drop (nat (soffset td)) C))"
proof -
  define t where "t = ''REST '' @ dec_int (soffset td)"
  define u where "u = c_str (drop 1 (td_url td))"
  have rc: "rest_cmd (soffset td) = cmdline t" by (simp add: rest_cmd_def t_def)
  have an: "answers srv h ((cmdline t, ''350'') # [(cmdline ''TYPE I'', ''200'')])" and p: "pasv_ok srv ((h @ [cmdline t]) @ [cmdline ''TYPE I''])"
    and u: "str_of (drop 1 (td_url td)) = Some u"
    and c: "content srv (h @ [cmdline t, cmdline ''TYPE I'', cmdline ''PASV'', cmdline (''RETR '' @ u)]) = drop (nat (soffset td)) C"
    using s z unfolding ftp_sends_def rc u_def str_of_def by simp_all
  obtain b where b: "starts ''350'' b" "ask e srv 3 t \<lparr>said = h, inbox = []\<rparr> = Some (b, \<lparr>said = h @ [cmdline t], inbox = []\<rparr>)"
    using ask_answered [OF e _ an, of 3] by auto
  have "answers srv (h @ [cmdline t]) [(cmdline ''TYPE I'', ''200'')]" using an by simp
  from ftp_passive_ok [OF e _ this p, of 4] obtain a where
    a: "ftp_passive e srv 4 \<lparr>said = h @ [cmdline t], inbox = []\<rparr>
        = Some (a, \<lparr>said = (h @ [cmdline t]) @ [cmdline ''TYPE I'', cmdline ''PASV''], inbox = []\<rparr>)" "listens srv a" by auto
  show ?thesis
    unfolding ftp_transfer_def t_def [symmetric] b(2) option.map pbind_simps prod.case a(1) u
    using b(1) a(2) e c by (simp add: send_cmd_def calls_ok_def Let_def)
qed

text \<open>A thread does not change its strings.\<close>

definition td_strings :: "'a getter_scheme \<Rightarrow> string \<times> string \<times> string \<times> string" where
  "td_strings g = (td_username (gtd g), td_password (gtd g), td_url (gtd g), getstr (gtd g))"

lemma ftp_step_strings:
  assumes "ftp_get_step e (g, fl, bw) = Some (Inr (g', fl', bw'))"
  shows "td_strings g' = td_strings g"
proof (cases "gpc g")
  case GStart
  then show ?thesis using assms
    by (auto simp: ftp_get_step_def ftp_get_start_def Let_def pbind_def td_strings_def loop_test_def split: if_splits option.splits sum.splits)
next
  case GLoop
  then show ?thesis using assms
    by (auto simp: ftp_get_step_def ftp_get_turn_def Let_def pbind_def td_strings_def loop_test_def split: if_splits option.splits sum.splits bind_splits)
qed (use assms in \<open>simp add: ftp_get_step_def\<close>)

text \<open>The calls succeed, data are there, and \<^verbatim>\<open>pwrite\<close> takes everything.\<close>

definition ftp_good :: "ftp_event \<Rightarrow> bool" where
  "ftp_good e \<longleftrightarrow> calls_ok e
     \<and> (case attempts e of [] \<Rightarrow> False | (k, _, _) # _ \<Rightarrow> k \<noteq> None)
     \<and> (case fwrite e of None \<Rightarrow> False | Some w \<Rightarrow> 8192 \<le> w)"

definition ftp_valid :: "string \<Rightarrow> ftp_getter \<Rightarrow> bool" where
  "ftp_valid C g \<longleftrightarrow>
     (let td = gtd g in foffset td \<le> int (length C) \<and> 0 \<le> offset td \<and> offset td \<le> int (length C)
      \<and> (case gpc g of
           GStart \<Rightarrow> offset td = soffset td \<and> (soffset td < foffset td \<longrightarrow> ftp_served C g)
         | GLoop \<Rightarrow> offset td < foffset td \<and> gstrm g = drop (nat (offset td)) C
         | GDone \<Rightarrow> foffset td \<le> offset td))"

definition ftp_exact :: "string \<Rightarrow> ftp_getter \<Rightarrow> bool" where
  "ftp_exact C g \<longleftrightarrow>
     (let td = gtd g in td_tid td \<noteq> - 1 \<and>
      (case gpc g of
        GStart \<Rightarrow> 0 \<le> soffset td \<and> offset td = soffset td \<and> soffset td \<le> foffset td
      | GLoop \<Rightarrow> offset td \<le> foffset td
      | GDone \<Rightarrow> offset td = foffset td \<and> status td = STAT_OK))"

lemmas ftp_contract = ftp_valid_def ftp_exact_def http_ended_def http_pos_def http_fin_def http_rank_def Let_def

definition ftp_advanced :: "string \<Rightarrow> ftp_getter \<Rightarrow> ftp_getter \<Rightarrow> nat \<Rightarrow> bool" where
  "ftp_advanced C g g' d \<longleftrightarrow> ftp_valid C g' \<and> http_pos g' = http_pos g + d \<and> http_fin g' = http_fin g
     \<and> (http_ended g' \<or> http_rank g < http_rank g') \<and> (ftp_exact C g \<longrightarrow> ftp_exact C g')"

lemma ftp_start_good:
  assumes e: "ftp_good e" and v: "ftp_valid C g" and pc: "gpc g = GStart"
  shows "\<exists>g'. ftp_get_start e (g, fl, bw) = Some (Inr (g', fl, bw)) \<and> ftp_advanced C g g' 0"
proof (cases "soffset (gtd g) < foffset (gtd g)")
  case False
  let ?g = "g\<lparr>gpc := GDone, gtd := (gtd g)\<lparr>status := STAT_OK\<rparr>\<rparr>"
  have "ftp_get_start e (g, fl, bw) = Some (Inr (?g, fl, bw))" using False by (simp add: ftp_get_start_def Let_def)
  moreover have "ftp_advanced C g ?g 0" using v pc False by (auto simp: ftp_advanced_def ftp_contract)
  ultimately show ?thesis by blast
next
  case True
  let ?td = "gtd g"
  have vs: "0 \<le> soffset ?td" "offset ?td = soffset ?td" "foffset ?td \<le> int (length C)" "ftp_served C g"
    using v pc True by (auto simp: ftp_valid_def Let_def)
  have ce: "calls_ok e" using e by (simp add: ftp_good_def)
  have "\<exists>c s. (if head_sd ?td = - 1 then ftp_login e (gsrv g) (td_username ?td) (td_password ?td)
      else pret (do { (rbuf, c) \<leftarrow> reply_of e 0 (gctl g); Some (Some c) })) = Some (Inr (Some c))
      \<and> ftp_transfer e (gsrv g) ?td c = Some (Inr (s, drop (nat (soffset ?td)) C))"
  proof (cases "head_sd ?td = - 1")
    case True
    then show ?thesis using vs(4) ftp_login_ok [OF ce] ftp_transfer_ok [OF ce] by (auto simp: ftp_served_def Let_def)
  next
    case False
    then obtain code l where l: "inbox (gctl g) = [l]" "reply_line code l" "NUL \<in> set (drop 1 (td_url ?td))"
        "ftp_sends (gsrv g) (said (gctl g)) (soffset ?td) (c_str (drop 1 (td_url ?td))) C"
      using vs(4) by (auto simp: ftp_served_def Let_def)
    have "reply_of e 0 (gctl g) = Some (l @ drop (length l) (replicate 8192 NUL), \<lparr>said = said (gctl g), inbox = []\<rparr>)"
      using reply_of_line [OF ce _ l(2,1), of 0] by simp
    then show ?thesis using False ftp_transfer_ok [OF ce l(3,4)] by auto
  qed
  then obtain c s where cs: "(if head_sd ?td = - 1 then ftp_login e (gsrv g) (td_username ?td) (td_password ?td)
      else pret (do { (rbuf, c) \<leftarrow> reply_of e 0 (gctl g); Some (Some c) })) = Some (Inr (Some c))"
      "ftp_transfer e (gsrv g) ?td c = Some (Inr (s, drop (nat (soffset ?td)) C))" by blast
  let ?g = "loop_test (g\<lparr>gtd := ?td\<lparr>offset := soffset ?td\<rparr>, gstrm := drop (nat (soffset ?td)) C, gctl := s\<rparr>)"
  have "ftp_get_start e (g, fl, bw) = Some (Inr (?g, fl, bw))"
    using cs ce True vs(1) unfolding ftp_get_start_def prod.case Let_def calls_ok_def
    by (cases "head_sd ?td = - 1") simp_all
  moreover have "ftp_advanced C g ?g 0"
    using vs True pc by (auto simp: ftp_advanced_def ftp_contract)
  ultimately show ?thesis by blast
qed

lemma ftp_turn_good:
  assumes e: "ftp_good e" and v: "ftp_valid C g" and pc: "gpc g = GLoop"
  shows "\<exists>g' d bw'. ftp_get_turn e (g, fl, bw) = Some (Inr (g', put_at fl (http_pos g) (take d (drop (http_pos g) C)), bw'))
    \<and> c_uint bw' = c_uint (bw + int d) \<and> ftp_advanced C g g' d"
proof -
  let ?td = "gtd g" and ?C = "drop (nat (offset (gtd g))) C"
  have vs: "0 \<le> offset ?td" "offset ?td < foffset ?td" "foffset ?td \<le> int (length C)" "gstrm g = ?C"
    using v pc by (auto simp: ftp_valid_def Let_def)
  obtain k x as w where k: "attempts e = (Some k, x) # as" and w: "fwrite e = Some w" "8192 \<le> w"
    using e by (auto simp: ftp_good_def split: option.splits list.splits)
  define b where "b = take (min 8192 (Suc k)) (gstrm g)"
  have lb: "0 < length b" using vs by (auto simp: b_def)
  have "recv (Some k) (nat MAXBUFSIZ) (gstrm g) = (int (length b), b, drop (length b) (gstrm g))"
    by (simp add: recv_def b_def MAXBUFSIZ_def Let_def)
  then have r: "recv_data (attempts e) 3 (gstrm g) = Some (Inr (int (length b), b, drop (length b) (gstrm g)))"
    using lb by (cases x) (simp add: k)
  from chunk_write [OF vs(1-3) w, where b = b and k = k and fl = fl] vs(4) obtain d where
    d: "0 < d" "offset ?td + int d \<le> foffset ?td" "offset ?td + int d < foffset ?td \<longrightarrow> d = length b"
    and pw: "pwrite (fwrite e) fl (buffer b) (if offset ?td + int (length b) > foffset ?td then foffset ?td - offset ?td else int (length b)) (offset ?td)
      = Some (int d, put_at fl (nat (offset ?td)) (take d ?C))"
    unfolding b_def by auto
  let ?g = "loop_test (g\<lparr>gtd := ?td\<lparr>offset := offset ?td + int d\<rparr>, gstrm := drop (length b) (gstrm g)\<rparr>)"
  have "ftp_get_turn e (g, fl, bw) = Some (Inr (?g, put_at fl (nat (offset ?td)) (take d ?C), c_uint (bw + int d)))"
    unfolding ftp_get_turn_def prod.case Let_def r pbind_simps pw by simp
  moreover have "ftp_advanced C g ?g d"
    using vs d pc by (auto simp: ftp_advanced_def ftp_contract nat_add_distrib add.commute)
  ultimately show ?thesis
    by (intro exI [of _ ?g] exI [of _ d] exI [of _ "c_uint (bw + int d)"]) (simp add: http_pos_def c_uint_def)
qed

lemma ftp_step_good:
  assumes "ftp_good e" "ftp_valid C g" "\<not> http_ended g"
  shows "\<exists>g' d bw'. ftp_get_step e (g, fl, bw) = Some (Inr (g', put_at fl (http_pos g) (take d (drop (http_pos g) C)), bw'))
    \<and> c_uint bw' = c_uint (bw + int d) \<and> ftp_advanced C g g' d"
proof (cases "gpc g")
  case GStart
  from ftp_start_good [OF assms(1,2) GStart, of fl bw] obtain g' where
    "ftp_get_start e (g, fl, bw) = Some (Inr (g', fl, bw))" "ftp_advanced C g g' 0" by blast
  then show ?thesis using GStart
    by (intro exI [of _ g'] exI [of _ 0] exI [of _ bw]) (simp add: ftp_get_step_def put_at_def)
next
  case GLoop
  then show ?thesis using ftp_turn_good [OF assms(1,2) GLoop, of fl bw] by (simp add: ftp_get_step_def)
qed (use assms(3) in \<open>simp add: http_ended_def\<close>)

interpretation fg: segment_getter ftp_get_step ftp_good ftp_valid ftp_exact http_ended http_pos http_fin http_rank
proof
  fix e C g bw and fl :: string
  assume "ftp_good e" "ftp_valid C g" "\<not> http_ended g" "length fl = length C"
  then show "\<exists>g' d bw'. ftp_get_step e (g, fl, bw) = Some (Inr (g', put_at fl (http_pos g) (take d (drop (http_pos g) C)), bw'))
      \<and> c_uint bw' = c_uint (bw + int d) \<and> ftp_valid C g' \<and> http_pos g' = http_pos g + d \<and> http_fin g' = http_fin g
      \<and> (http_ended g' \<or> http_rank g < http_rank g') \<and> (ftp_exact C g \<longrightarrow> ftp_exact C g')"
    using ftp_step_good [of e C g fl bw] unfolding ftp_advanced_def by blast
next
  fix C g
  assume v: "ftp_valid C g"
  then show "http_pos g \<le> length C" "http_rank g \<le> Suc (length C)" by (auto simp: ftp_contract)
  show "http_fin g \<le> http_pos g" if "http_ended g" using v that by (auto simp: ftp_contract)
next
  fix C g
  assume "ftp_exact C g" "http_ended g"
  then show "http_pos g = http_fin g" by (simp add: ftp_contract)
qed

section \<open>The head request finds the length\<close>

definition gap :: "string \<Rightarrow> bool" where
  "gap s \<longleftrightarrow> s \<noteq> [] \<and> list_all (\<lambda>c. is_space c \<and> c \<noteq> NUL) s"

definition word15 :: "string \<Rightarrow> bool" where
  "word15 w \<longleftrightarrow> w \<noteq> [] \<and> list_all (\<lambda>c. \<not> is_space c \<and> c \<noteq> NUL) w \<and> length w \<le> 15"

text \<open>A line of a listing: words with space between them, the fifth being the size.\<close>

definition listing :: "nat \<Rightarrow> string \<Rightarrow> bool" where
  "listing n t \<longleftrightarrow> n < 2 ^ 31 \<and>
     (\<exists>a b c d sa sb sc sd se z. t = a @ sa @ b @ sb @ c @ sc @ d @ sd @ dec n @ se @ z \<and> list_all word15 [a, b, c, d] \<and> list_all gap [sa, sb, sc, sd, se]
        \<and> NUL \<notin> set z)"

declare scan_words.simps [simp del]

lemma scan_word:
  assumes "word15 w" "gap s"
  shows "scan_words (Suc n) (w @ s @ z) = w # scan_words n (s @ z)"
proof -
  obtain c v where w: "w = c # v" "\<not> is_space c" "length w \<le> 15" using assms(1) by (cases w) (auto simp: word15_def)
  obtain x y where s: "s = x # y" "is_space x" using assms(2) by (cases s) (auto simp: gap_def)
  have "takeWhile (\<lambda>c. \<not> is_space c) (w @ s @ z) = w @ takeWhile (\<lambda>c. \<not> is_space c) (s @ z)"
    using assms(1) by (intro takeWhile_append2) (auto simp: word15_def list_all_iff)
  then have "takeWhile (\<lambda>c. \<not> is_space c) (w @ s @ z) = w" using s by simp
  moreover have "dropWhile is_space (w @ s @ z) = w @ s @ z" using w by simp
  ultimately show ?thesis using w(1,3) unfolding scan_words.simps Let_def by simp
qed

lemma scan_gap: "gap s \<Longrightarrow> scan_words n (s @ z) = scan_words n z"
proof -
  assume "gap s"
  then have "dropWhile is_space (s @ z) = dropWhile is_space z" by (intro dropWhile_append2) (simp add: gap_def list_all_iff)
  then show ?thesis by (cases n) (simp_all only: scan_words.simps)
qed

lemma length_dec: "n < 10 ^ k \<Longrightarrow> 0 < k \<Longrightarrow> length (dec n) \<le> k"
proof (induction k arbitrary: n)
  case (Suc k)
  show ?case
  proof (cases "n < 10")
    case False
    then have "0 < k" using Suc.prems(1) by (cases k) simp_all
    then have "length (dec (n div 10)) \<le> k" using Suc.prems(1) by (intro Suc.IH) (simp_all add: div_less_iff_less_mult mult.commute)
    then show ?thesis using False by (subst dec.simps) simp
  qed (simp add: dec.simps)
qed simp

lemma dec_word:
  assumes "n < 2 ^ 31"
  shows "word15 (dec n)"
proof -
  have "n < 10 ^ 15" using assms by simp
  then have "length (dec n) \<le> 15" by (rule length_dec) simp
  moreover have "\<not> is_space c \<and> c \<noteq> NUL" if "c \<in> set (dec n)" for c
    using digit_not_space(1) [OF dec_digits [OF that]] dec_digits [OF that] by (auto simp: is_digit_def)
  ultimately show ?thesis by (simp add: word15_def list_all_iff)
qed

lemma listing_size:
  assumes "listing n t"
  shows "NUL \<notin> set t" "4 < length (scan_words 9 t)" "scan_words 9 t ! 4 = dec n"
proof -
  obtain a b c d sa sb sc sd se z where t: "t = a @ sa @ b @ sb @ c @ sc @ d @ sd @ dec n @ se @ z"
    and la: "list_all word15 [a, b, c, d]" "list_all gap [sa, sb, sc, sd, se]" and z: "NUL \<notin> set z" and n: "n < 2 ^ 31"
    using assms unfolding listing_def by (elim conjE exE)
  have w: "word15 a" "word15 b" "word15 c" "word15 d" and g: "gap sa" "gap sb" "gap sc" "gap sd" "gap se" using la by simp_all
  have nz: "word15 x \<Longrightarrow> NUL \<notin> set x" "gap x \<Longrightarrow> NUL \<notin> set x" for x by (auto simp: word15_def gap_def list_all_iff)
  show "NUL \<notin> set t" unfolding t set_append Un_iff using w [THEN nz(1)] g [THEN nz(2)] z nz(1) [OF dec_word [OF n]] by simp
  have "scan_words (Suc (Suc (Suc (Suc (Suc 4))))) t = a # b # c # d # dec n # scan_words 4 (se @ z)"
    unfolding t scan_word [OF w(1) g(1)] scan_gap [OF g(1)] scan_word [OF w(2) g(2)] scan_gap [OF g(2)] scan_word [OF w(3) g(3)] scan_gap [OF g(3)]
      scan_word [OF w(4) g(4)] scan_gap [OF g(4)] scan_word [OF dec_word [OF n] g(5)] by (rule refl)
  then have "scan_words 9 t = a # b # c # d # dec n # scan_words 4 (se @ z)" by (simp only: eval_nat_numeral BitM.simps)
  then show "4 < length (scan_words 9 t)" "scan_words 9 t ! 4 = dec n" by simp_all
qed

text \<open>What the head request must find: the dialogue up to the listing, whose two replies come in two chunks, and the listing whole
  with the first \<^verbatim>\<open>recv\<close>.\<close>

definition head_cmds :: "request \<Rightarrow> string list" where
  "head_cmds r = map fst (login_cmds (c_str (username r)) (c_str (password r))) @ [cmdline ''REST 150'', cmdline ''SYST'', cmdline ''TYPE I'', cmdline ''PASV'',
     cmdline (''LIST '' @ c_str (drop 1 (url r)))]"

definition ftp_head_served :: "(string \<Rightarrow> string option) \<Rightarrow> ftp_event \<Rightarrow> ftp_server \<Rightarrow> request \<Rightarrow> string \<Rightarrow> string \<Rightarrow> nat \<Rightarrow> bool" where
  "ftp_head_served resolve e srv r a l2 n \<longleftrightarrow>
     (let h = map fst (login_cmds (c_str (username r)) (c_str (password r))) in
      calls_ok e \<and> NUL \<in> set (host r) \<and> NUL \<in> set (drop 1 (url r)) \<and> resolve (c_str (host r)) = Some a
      \<and> length (ip r) = 16 \<and> ip r ! 15 = NUL \<and> length a \<le> 15 \<and> NUL \<notin> set a
      \<and> ftp_welcomes srv (username r) (password r)
      \<and> answers srv h [(cmdline ''REST 150'', ''350''), (cmdline ''SYST'', ''215''), (cmdline ''TYPE I'', ''200'')]
      \<and> pasv_ok srv (h @ [cmdline ''REST 150'', cmdline ''SYST'', cmdline ''TYPE I''])
      \<and> (\<exists>c1 l1. replies srv (head_cmds r) = [l1, l2] \<and> reply_line c1 l1)
      \<and> listing n (content srv (head_cmds r)) \<and> length (content srv (head_cmds r)) \<le> 8191
      \<and> (case flist e of None \<Rightarrow> False | Some k \<Rightarrow> length (content srv (head_cmds r)) \<le> Suc k))"

lemma ftp_get_size_listing:
  assumes "calls_ok e" "listens srv a" "listing n (content srv h)" "flist e = Some k" "length (content srv h) \<le> Suc k" "length (content srv h) \<le> 8191"
  shows "ftp_get_size e srv a h = int n"
proof -
  have "c_str (content srv h) = content srv h"
    using listing_size(1) [OF assms(3)] unfolding c_str_def by (intro takeWhile_eq_all_conv [THEN iffD2]) auto
  moreover have "recv (flist e) (nat (MAXBUFSIZ - 1)) (content srv h) = (int (length (content srv h)), content srv h, [])"
    using assms(4-6) by (simp add: recv_def Let_def MAXBUFSIZ_def)
  moreover have "atoi (dec n) = int n" using assms(3) atoi_dec [of "[]" n] by (simp add: listing_def)
  ultimately show ?thesis using assms(1,2) listing_size(2,3) [OF assms(3)] by (simp add: ftp_get_size_def calls_ok_def)
qed

lemma ftp_head_length:
  assumes "ftp_head_served resolve e srv r a l2 n"
  shows "\<exists>t. ftp_head_req resolve e srv r = Some (Inr (r\<lparr>ip := a @ replicate (16 - length a) NUL, ftp_server_type := t, clength := int n\<rparr>,
    \<lparr>said = head_cmds r, inbox = [l2]\<rparr>))"
proof -
  define h where "h = map fst (login_cmds (c_str (username r)) (c_str (password r)))"
  define t1 t2 t3 where "t1 = ''REST 150''" and "t2 = ''SYST''" and "t3 = ''LIST '' @ c_str (drop 1 (url r))"
  let ?a = "a @ replicate (16 - length a) NUL"
  note S = assms [unfolded ftp_head_served_def Let_def, folded h_def t1_def t2_def]
  have H: "head_cmds r = (h @ [cmdline t1, cmdline t2]) @ [cmdline ''TYPE I'', cmdline ''PASV'', cmdline t3]"
    by (simp add: head_cmds_def h_def t1_def t2_def t3_def)
  have e: "calls_ok e" and strs: "str_of (host r) = Some (c_str (host r))" "str_of (drop 1 (url r)) = Some (c_str (drop 1 (url r)))"
    and rs: "resolve (c_str (host r)) = Some a" and ip: "strncpy (ip r) a 15 = Some ?a" and a: "length a \<le> 15" "NUL \<notin> set a"
    and wl: "ftp_welcomes srv (username r) (password r)"
    and an: "answers srv h ((cmdline t1, ''350'') # (cmdline t2, ''215'') # [(cmdline ''TYPE I'', ''200'')])"
    and pv: "pasv_ok srv ((h @ [cmdline t1, cmdline t2]) @ [cmdline ''TYPE I''])"
    using S by (simp_all add: str_of_def ip_copied)
  obtain c1 l1 k where l1: "replies srv (head_cmds r) = [l1, l2]" "reply_line c1 l1" and k: "flist e = Some k" "length (content srv (head_cmds r)) \<le> Suc k"
      and ls: "listing n (content srv (head_cmds r))" "length (content srv (head_cmds r)) \<le> 8191"
    using S by (auto split: option.splits)
  have "16 - length a = Suc (15 - length a)" using a(1) by simp
  then have sa: "str_of ?a = Some a" using a(2) by (simp add: str_of_def)
  obtain b1 where b1: "starts ''350'' b1" "ask e srv 3 t1 \<lparr>said = h, inbox = []\<rparr> = Some (b1, \<lparr>said = h @ [cmdline t1], inbox = []\<rparr>)"
    using ask_answered [OF e _ an, of 3] by auto
  have an2: "answers srv (h @ [cmdline t1]) ((cmdline t2, ''215'') # [(cmdline ''TYPE I'', ''200'')])"
    and an3: "answers srv (h @ [cmdline t1, cmdline t2]) [(cmdline ''TYPE I'', ''200'')]" using an by simp_all
  obtain b2 where b2: "starts ''215'' b2"
      "ask e srv 4 t2 \<lparr>said = h @ [cmdline t1], inbox = []\<rparr> = Some (b2, \<lparr>said = h @ [cmdline t1, cmdline t2], inbox = []\<rparr>)"
    using ask_answered [OF e _ an2, of 4] by auto
  obtain x where x: "ftp_passive e srv 5 \<lparr>said = h @ [cmdline t1, cmdline t2], inbox = []\<rparr>
      = Some (x, \<lparr>said = (h @ [cmdline t1, cmdline t2]) @ [cmdline ''TYPE I'', cmdline ''PASV''], inbox = []\<rparr>)" "listens srv x"
    using ftp_passive_ok [OF e _ an3 pv, of 5] by auto
  have lst: "send_cmd srv (cmdline t3) \<lparr>said = h @ [cmdline t1, cmdline t2, cmdline ''TYPE I'', cmdline ''PASV''], inbox = []\<rparr>
      = \<lparr>said = head_cmds r, inbox = [l1, l2]\<rparr>"
    using l1(1) unfolding H by (simp add: send_cmd_def Let_def)
  have sz: "ftp_get_size e srv x (head_cmds r) = int n" by (rule ftp_get_size_listing [OF e x(2) ls(1) k ls(2)])
  have rp: "reply_of e 7 \<lparr>said = head_cmds r, inbox = [l1, l2]\<rparr> = Some (l1 @ drop (length l1) (replicate 8192 NUL), \<lparr>said = head_cmds r, inbox = [l2]\<rparr>)"
    using reply_of_line [OF e _ l1(2), of 7 "\<lparr>said = head_cmds r, inbox = [l1, l2]\<rparr>" "[l2]"] by simp
  have lg: "ftp_login e srv (username r) (password r) = Some (Inr (Some \<lparr>said = h, inbox = []\<rparr>))"
    unfolding h_def by (rule ftp_login_ok [OF e wl])
  have conn: "fsocket e" "fconnect e" using e by (simp_all add: calls_ok_def)
  show ?thesis
    unfolding ftp_head_req_def strs bind.bind_lunit option.map pbind_simps prod.case t1_def [symmetric] t2_def [symmetric] t3_def [symmetric]
    using b1(1) b2(1) conn by (simp add: rs ip sa lg b1(2) b2(2) x(1) lst sz rp Let_def) blast
qed

section \<open>The address in the reply\<close>

text \<open>
  C37. The address and the port a server gives in its reply to \<^verbatim>\<open>PASV\<close> are read back, whatever text comes before
  the parenthesis and after the numbers, when the address has at most 14 characters.
\<close>

theorem pasv_address:
  assumes "list_all (\<lambda>c. \<not> ends_line c \<and> c \<noteq> CHR ''('') p" "0 < a" "list_all (\<lambda>n. n < 256) [a, b, c, d, h, l]"
    and "int (length (p @ ''('' @ separated [a, b, c, d, h, l])) < len" "length (dotted a b c d) \<le> 14"
  shows "parse_pasv_reply2 (p @ ''('' @ separated [a, b, c, d, h, l] @ z) len = Some (Some (dotted a b c d, int (h * 256 + l)))"
  using pasv_reads [OF assms(1-4)] assms(5) by simp

theorem pasv_address_witness:
  "parse_pasv_reply2 (''227 Passive '' @ ''('' @ separated [10, 0, 0, 1, 4, 1] @ eol) 50 = Some (Some (dotted 10 0 0 1, 1025))"
proof -
  have "list_all (\<lambda>c. \<not> ends_line c \<and> c \<noteq> CHR ''('') ''227 Passive ''" by (simp add: ends_line_def)
  moreover have "list_all (\<lambda>n. n < 256) [10, 0, 0, 1, 4, 1 :: nat]" by simp
  moreover have "int (length (''227 Passive '' @ ''('' @ separated [10, 0, 0, 1, 4, 1])) < 50" "length (dotted 10 0 0 1) \<le> 14"
    by (simp_all add: dec.simps dotted_def)
  ultimately have "parse_pasv_reply2 (''227 Passive '' @ ''('' @ separated [10, 0, 0, 1, 4, 1] @ eol) 50 = Some (Some (dotted 10 0 0 1, int (4 * 256 + 1)))"
    by (intro pasv_address) simp_all
  then show ?thesis by simp
qed

text \<open>An address of 15 characters loses its last digit: the program connects to another host.\<close>

lemma pasv_long_address:
  "parse_pasv_reply2 (''('' @ separated [192, 168, 100, 200, 4, 1] @ z) 50 = Some (Some (''192.168.100.20'', 1025))"
proof -
  have "parse_pasv_reply2 ([] @ ''('' @ separated [192, 168, 100, 200, 4, 1] @ z) 50 = Some (Some (take 14 (dotted 192 168 100 200), int (4 * 256 + 1)))"
    by (rule pasv_reads) (simp_all add: dec.simps)
  moreover have "take 14 (dotted 192 168 100 200) = ''192.168.100.20''" by code_simp
  ultimately show ?thesis by simp
qed

text \<open>When the data connection ends early every turn of the loop leaves the thread as it is, after four attempts.\<close>

lemma ftp_early_close_spins:
  assumes "gpc g = GLoop" "gstrm g = []" "0 \<le> offset (gtd g)" "offset (gtd g) < foffset (gtd g)" "0 \<le> bw" "bw < 2 ^ 32"
    and "attempts e = replicate 4 (Some k, False, 1)" "fwrite e = Some w"
  shows "ftp_get_step e (g, fl, bw) = Some (Inr (g, fl, bw))"
proof -
  have "recv_data (attempts e) 3 [] = Some (Inr (0, [], []))"
    by (simp add: assms(7) numeral_eq_Suc recv_def)
  then show ?thesis using assms
    by (simp add: ftp_get_step_def ftp_get_turn_def pwrite_def put_at_def loop_test_def c_uint_def)
qed

text \<open>Two replies that arrive together: the second stays in the stream of the first and is lost.\<close>

lemma second_reply_lost:
  assumes l: "reply_line code l" and e: "calls_ok e" "k < 8" and c: "inbox c = [l @ m]"
  shows "\<exists>b. reply_of e k c = Some (b, c\<lparr>inbox := []\<rparr>)"
  using recv_reply_chunk [OF l, of "fjunk e k" "replicate 8192 NUL" m "[]"] calls_okD [OF e] c by (simp add: reply_of_def)

end
