(* ===== verification/AgetFtpJob.thy ===== *)
theory AgetFtpJob
  imports AgetJob AgetFtp
begin

text \<open>
  A download job of aget over FTP: \<^verbatim>\<open>startFTP\<close> of \<^verbatim>\<open>papps/aget-devel/Aget.c\<close>, and \<^verbatim>\<open>resumeDownload\<close> for the protocol
  FTP.  The first thread goes on with the control connection of the head request, the others log in anew, and so do
  all threads of a job that is resumed.
\<close>

section \<open>The code\<close>

text \<open>The body of the first loop; \<open>hsd\<close> is the descriptor of the head request's connection.  The buffer \<open>fmt\<close> of the other
  jobs is not used.\<close>

definition start_ftp_thread :: "request \<Rightarrow> int \<Rightarrow> int \<Rightarrow> int \<Rightarrow> int \<Rightarrow> string \<Rightarrow> thread_data \<Rightarrow> (string \<times> thread_data) option" where
  "start_ftp_thread r hsd dupfd n i fmt td =
     do { so \<leftarrow> calc_offset (clength r) i n;
          fo \<leftarrow> calc_offset (clength r) (i + 1) n;
          a \<leftarrow> str_of (ip r);
          us \<leftarrow> strncpy (td_username td) (c_str (username r)) 8191;
          pw \<leftarrow> strncpy (td_password td) (c_str (password r)) 8191;
          u \<leftarrow> strncpy (td_url td) (c_str (url r)) 1023;
          Some (fmt, td\<lparr>head_sd := (if i = 0 then hsd else - 1), soffset := so, foffset := (if i = n - 1 then clength r else fo), offset := so,
            td_sin := (a, port r), td_fd := dupfd, td_clength := clength r, td_username := us, td_password := pw, td_url := u\<rparr>) }"

text \<open>What the world does in one round, as for HTTP.\<close>

record ftp_round =
  fwaiter :: bool
  fhandles :: "int option list"
  fevents :: "(nat \<times> ftp_event) list"

definition launch_ftp :: "int list \<Rightarrow> ftp_server \<Rightarrow> control \<Rightarrow> thread_data list \<Rightarrow> ftp_getter list" where
  "launch_ftp hs srv c tds = map2 (\<lambda>h td. \<lparr>gpc = GStart, gtd = td\<lparr>td_tid := h\<rparr>, gstrm = [], gsrv = srv, gctl = c\<rparr>) hs tds"

text \<open>One round from the label \<^verbatim>\<open>retry\<close> on; \<open>fail\<close> is what follows when a download thread cannot be created, as for HTTP.\<close>

definition ftp_job_round :: "(int \<Rightarrow> string \<Rightarrow> thread_data \<Rightarrow> (string \<times> thread_data) option) \<Rightarrow> int option \<Rightarrow> ftp_server \<Rightarrow> control
    \<Rightarrow> ftp_round \<Rightarrow> job \<Rightarrow> job proc" where
  "ftp_job_round body fail srv c w j =
     pbind (pret (prepare body 0 (jfmt j) (wthread j))) (\<lambda>(fmt, tds).
       if \<not> fwaiter w then Some (Inl (- 1))
       else if None \<in> set (fhandles w) then map_option Inl fail
       else pbind (sched ftp_get_step http_ended (fevents w) (launch_ftp (map the (fhandles w)) srv c tds, jfile j, bwritten j)) (\<lambda>(gs, fl, bw).
         if list_all http_ended gs then
           let (tds, k) = join_loop (map gtd gs) (nok j)
           in Some (Inr \<lparr>jfmt = fmt, wthread = tds, jfile = fl, bwritten = bw, nok = k\<rparr>)
         else None))"

text \<open>Rounds until all threads have reported success.  After the first round the connection of the head request is
  closed: nothing more comes from it.\<close>

fun ftp_job_rounds :: "(int \<Rightarrow> string \<Rightarrow> thread_data \<Rightarrow> (string \<times> thread_data) option) \<Rightarrow> int option \<Rightarrow> ftp_server \<Rightarrow> control \<Rightarrow> int
    \<Rightarrow> ftp_round list \<Rightarrow> job \<Rightarrow> job proc" where
  "ftp_job_rounds body fail srv c n [] j = None"
| "ftp_job_rounds body fail srv c n (w # ws) j =
     pbind (ftp_job_round body fail srv c w j) (\<lambda>j. if nok j = n then Some (Inr j) else ftp_job_rounds body fail srv (c\<lparr>inbox := []\<rparr>) n ws j)"

text \<open>\<open>http\<close> is \<^verbatim>\<open>startHTTP\<close> with its effect on the request and on \<^verbatim>\<open>bwritten\<close>, \<open>head\<close> the head request.\<close>

definition startFTP :: "string \<Rightarrow> (request \<times> int \<Rightarrow> (request \<times> int) proc) \<Rightarrow> (request \<Rightarrow> (request \<times> control) proc) \<Rightarrow> ftp_server
    \<Rightarrow> int \<Rightarrow> int \<Rightarrow> int \<Rightarrow> int \<Rightarrow> (int \<Rightarrow> string proc) \<Rightarrow> ftp_round list \<Rightarrow> request \<Rightarrow> (int \<times> job) proc" where
  "startFTP proxy http head srv hsd dupfd fsuggested nthreads opened ws r =
     pbind (if proxy \<noteq> [] then http (r, 0) else Some (Inr (r, 0))) (\<lambda>(r, bw).
       pbind (head r) (\<lambda>(r, c).
         let n = choose_threads fsuggested nthreads (clength r) in
         pbind (opened (clength r)) (\<lambda>fl.
           pbind (ftp_job_rounds (start_ftp_thread r hsd dupfd n) (Some 2) srv c n ws
               \<lparr>jfmt = [], wthread = replicate (nat n) blank_td, jfile = fl, bwritten = bw, nok = 0\<rparr>)
             (\<lambda>j. Some (Inr (n, j))))))"

text \<open>\<^verbatim>\<open>resumeDownload(h, PROTO_FTP)\<close>.\<close>

definition resumeFTP :: "hist_data \<Rightarrow> ftp_server \<Rightarrow> int \<Rightarrow> string option \<Rightarrow> int \<Rightarrow> ftp_round list \<Rightarrow> (int \<times> request \<times> job) proc" where
  "resumeFTP h srv dupfd file bw ws =
     (let n = hnthreads h; r = hreq h in
      if nat n > length (hwthread h) then None
      else case file of None \<Rightarrow> Some (Inl 1)
      | Some fl \<Rightarrow>
          pbind (ftp_job_rounds (resume_thread r dupfd) None srv \<lparr>said = [], inbox = []\<rparr> n ws
              \<lparr>jfmt = replicate 254 NUL, wthread = take (nat n) (hwthread h), jfile = fl, bwritten = bw, nok = 0\<rparr>)
            (\<lambda>j. Some (Inr (n, r, j))))"

section \<open>The threads\<close>

text \<open>A request whose strings fit in the thread data.\<close>

definition ftp_sendable :: "request \<Rightarrow> bool" where
  "ftp_sendable r \<longleftrightarrow> NUL \<in> set (ip r) \<and> length (c_str (username r)) \<le> 8191 \<and> length (c_str (password r)) \<le> 8191
     \<and> 1 \<le> length (c_str (url r)) \<and> length (c_str (url r)) \<le> 1023"

lemma strncpy_room:
  assumes "length dst = Suc n" "last dst = NUL" "length s \<le> n"
  shows "strncpy dst s n = Some (s @ NUL # replicate (n - length s) NUL)"
proof -
  have "drop n dst = [NUL]" using assms(1,2) by (cases dst rule: rev_cases) simp_all
  then show ?thesis using assms(1,3) replicate_append_same [of "n - length s" NUL] by (simp add: strncpy_def)
qed

definition td_strings_ok :: "request \<Rightarrow> thread_data \<Rightarrow> bool" where
  "td_strings_ok r td \<longleftrightarrow> length (getstr td) = 256 \<and> c_str (td_username td) = c_str (username r) \<and> NUL \<in> set (td_username td)
     \<and> c_str (td_password td) = c_str (password r) \<and> NUL \<in> set (td_password td)
     \<and> c_str (drop 1 (td_url td)) = c_str (drop 1 (url r)) \<and> NUL \<in> set (drop 1 (td_url td))"

definition ftp_td_ok :: "request \<Rightarrow> int \<Rightarrow> int \<Rightarrow> nat \<Rightarrow> thread_data \<Rightarrow> bool" where
  "ftp_td_ok r hsd n k td \<longleftrightarrow> soffset td = seg_start (clength r) n k \<and> foffset td = seg_end (clength r) n k \<and> offset td = soffset td
     \<and> head_sd td = (if k = 0 then hsd else - 1) \<and> td_strings_ok r td"

lemma start_ftp_thread_fits:
  assumes s: "ftp_sendable r" and c: "0 < clength r" "0 < n"
  shows "\<exists>td. start_ftp_thread r hsd dupfd n (int k) fmt blank_td = Some (fmt, td) \<and> ftp_td_ok r hsd n k td"
proof -
  have o1: "calc_offset (clength r) (int k) n = Some (seg_start (clength r) n k)"
      "calc_offset (clength r) (int k + 1) n = Some (seg_start (clength r) n (Suc k))"
    using calc_offset_eq [of "clength r" n k] calc_offset_eq [of "clength r" n "Suc k"] c by (simp_all add: add.commute)
  obtain x u where u: "c_str (url r) = x # u" using s by (cases "c_str (url r)") (auto simp: ftp_sendable_def)
  have "NUL \<notin> set (x # u)" using c_str_no_NUL [of "url r"] by (simp add: u)
  then have nu: "NUL \<notin> set u" by simp
  have cp: "strncpy (td_username blank_td) (c_str (username r)) 8191 = Some (c_str (username r) @ NUL # replicate (8191 - length (c_str (username r))) NUL)"
      "strncpy (td_password blank_td) (c_str (password r)) 8191 = Some (c_str (password r) @ NUL # replicate (8191 - length (c_str (password r))) NUL)"
      "strncpy (td_url blank_td) (x # u) 1023 = Some ((x # u) @ NUL # replicate (1023 - length (x # u)) NUL)"
    using s u strncpy_room [of "td_username blank_td" 8191 "c_str (username r)"] strncpy_room [of "td_password blank_td" 8191 "c_str (password r)"]
      strncpy_room [of "td_url blank_td" 1023 "x # u"]
    by (simp_all add: blank_td_def ftp_sendable_def del: replicate.simps)
  obtain y where "url r = (x # u) @ y" using c_str_prefix [of "url r"] u by auto
  then have cu: "c_str (drop 1 (url r)) = u" using u by (auto simp: c_str_def split: if_splits)
  have a: "str_of (ip r) = Some (c_str (ip r))" using s by (simp add: ftp_sendable_def str_of_def)
  have gs: "length (getstr blank_td) = 256" by (simp add: blank_td_def)
  show ?thesis unfolding start_ftp_thread_def o1 a u cp bind.bind_lunit
    using nu by (auto simp: ftp_td_ok_def td_strings_ok_def seg_end_def cu [simplified] gs simp del: replicate.simps)
qed

section \<open>A job\<close>

text \<open>The server gives every thread the content from its start offset on: the first one after the commands of the
  head request, the others after a login.\<close>

definition ftp_job_served :: "ftp_server \<Rightarrow> request \<Rightarrow> string \<Rightarrow> nat \<Rightarrow> string \<Rightarrow> bool" where
  "ftp_job_served srv r l2 n C \<longleftrightarrow>
     (\<exists>code. reply_line code l2) \<and> ftp_sends srv (head_cmds r) 0 (c_str (drop 1 (url r))) C
     \<and> (\<forall>k < n. 0 < k \<longrightarrow>
          ftp_sends srv (map fst (login_cmds (c_str (username r)) (c_str (password r)))) (seg_start (int (length C)) (int n) k) (c_str (drop 1 (url r))) C)"

definition ftp_round_ok :: "string \<Rightarrow> nat \<Rightarrow> ftp_round \<Rightarrow> bool" where
  "ftp_round_ok C n w \<longleftrightarrow> fwaiter w \<and> length (fhandles w) = n \<and> None \<notin> set (fhandles w) \<and> Some (- 1) \<notin> set (fhandles w)
     \<and> list_all (\<lambda>(i, e). ftp_good e) (fevents w) \<and> (\<forall>k < n. Suc (length C) < count_list (map fst (fevents w)) k)"

lemma launch_ftp_nth:
  assumes "length hs = length tds" "k < length tds"
  shows "launch_ftp hs srv c tds ! k = \<lparr>gpc = GStart, gtd = (tds ! k)\<lparr>td_tid := hs ! k\<rparr>, gstrm = [], gsrv = srv, gctl = c\<rparr>"
  using assms by (simp add: launch_ftp_def)

lemma launch_ftp_ready:
  assumes c: "clength r = int (length C)" "0 < length C" and n: "0 < n" and k: "k < nat n" and td: "ftp_td_ok r hsd n k td" and h: "h \<noteq> - 1" "hsd \<noteq> - 1"
    and w: "ftp_welcomes srv (username r) (password r)" and s: "ftp_job_served srv r l2 (nat n) C"
  shows "let g = \<lparr>gpc = GStart, gtd = td\<lparr>td_tid := h\<rparr>, gstrm = [], gsrv = srv, gctl = \<lparr>said = head_cmds r, inbox = [l2]\<rparr>\<rparr> in
    ftp_valid C g \<and> ftp_exact C g \<and> http_pos g = nat (seg_start (int (length C)) (int (nat n)) k)
      \<and> http_fin g = nat (seg_end (int (length C)) (int (nat n)) k)"
proof -
  have len: "0 < clength r" and kn: "int k < n" using c k n by linarith+
  note b = segment_bounds [OF len n kn]
  let ?g = "\<lparr>gpc = GStart, gtd = td\<lparr>td_tid := h\<rparr>, gstrm = [], gsrv = srv, gctl = \<lparr>said = head_cmds r, inbox = [l2]\<rparr>\<rparr>"
  have t: "soffset td = seg_start (clength r) n k" "foffset td = seg_end (clength r) n k" "offset td = soffset td"
      "c_str (drop 1 (td_url td)) = c_str (drop 1 (url r))" "NUL \<in> set (drop 1 (td_url td))"
    using td by (simp_all add: ftp_td_ok_def td_strings_ok_def)
  have "ftp_served C ?g"
  proof (cases "k = 0")
    case True
    then have "head_sd td = hsd" "soffset td = 0" using td t(1) by (simp_all add: ftp_td_ok_def seg_start_def)
    then show ?thesis using s h(2) t(4,5) by (auto simp: ftp_served_def ftp_job_served_def Let_def)
  next
    case False
    then have "head_sd td = - 1" "ftp_welcomes srv (td_username td) (td_password td)"
      using td w by (auto simp: ftp_td_ok_def td_strings_ok_def ftp_welcomes_def)
    moreover have "ftp_sends srv (map fst (login_cmds (c_str (td_username td)) (c_str (td_password td)))) (soffset td) (c_str (drop 1 (td_url td))) C"
      using s td t k n c(1) False unfolding ftp_job_served_def ftp_td_ok_def td_strings_ok_def by auto
    ultimately show ?thesis using t(5) by (simp add: ftp_served_def)
  qed
  then show ?thesis using t b c n h(1) by (simp add: ftp_valid_def ftp_exact_def http_pos_def http_fin_def)
qed

lemma start_ftp_prepare:
  assumes "ftp_sendable r" "0 < clength r" "0 < n"
  shows "\<exists>tds. prepare (start_ftp_thread r hsd dupfd n) 0 [] (replicate (nat n) blank_td) = Some ([], tds)
    \<and> length tds = nat n \<and> (\<forall>k < nat n. ftp_td_ok r hsd n k (tds ! k))"
proof -
  have "\<exists>f' td. f' = [] \<and> start_ftp_thread r hsd dupfd n (0 + int k) f (replicate (nat n) blank_td ! k) = Some (f', td) \<and> ftp_td_ok r hsd n k td"
    if "k < length (replicate (nat n) blank_td)" "f = []" for k and f :: string
    using start_ftp_thread_fits [OF assms, of hsd dupfd k f] that by auto
  from prepare_all [where Q = "\<lambda>f. f = []" and P = "ftp_td_ok r hsd n" and tds = "replicate (nat n) blank_td" and i = 0
      and body = "start_ftp_thread r hsd dupfd n", OF refl this]
  show ?thesis by auto
qed

text \<open>A round whose threads have what they need and together the bytes that are missing.\<close>

lemma ftp_handles:
  assumes "ftp_round_ok C n w" "k < n"
  shows "map the (fhandles w) ! k \<noteq> - 1"
proof -
  have "fhandles w ! k \<in> set (fhandles w)" "None \<notin> set (fhandles w)" "Some (- 1) \<notin> set (fhandles w)"
    using assms by (simp_all add: ftp_round_ok_def)
  then have "fhandles w ! k \<noteq> None" "fhandles w ! k \<noteq> Some (- 1)" by metis+
  moreover have "map the (fhandles w) ! k = the (fhandles w ! k)" using assms by (simp add: ftp_round_ok_def)
  ultimately show ?thesis by (cases "fhandles w ! k") simp_all
qed

lemma ftp_round_completes:
  assumes prep: "prepare body 0 (jfmt j) (wthread j) = Some (fmt, tds)" and w: "ftp_round_ok C (length tds) w" and fl: "length (jfile j) = length C"
    and g: "\<And>k h. k < length tds \<Longrightarrow> h \<noteq> - 1 \<Longrightarrow>
      ftp_valid C \<lparr>gpc = GStart, gtd = (tds ! k)\<lparr>td_tid := h\<rparr>, gstrm = [], gsrv = srv, gctl = c\<rparr>
      \<and> ftp_exact C \<lparr>gpc = GStart, gtd = (tds ! k)\<lparr>td_tid := h\<rparr>, gstrm = [], gsrv = srv, gctl = c\<rparr>"
    and cover: "{..< length C} \<subseteq> agree C (jfile j) \<union> (\<Union>k < length tds. {nat (offset (tds ! k)) ..< nat (foffset (tds ! k))})"
  shows "\<exists>j'. ftp_job_round body fail srv c w j = Some (Inr j') \<and> jfile j' = C \<and> nok j' = nok j + int (length tds)
    \<and> c_uint (bwritten j') = c_uint (bwritten j + (\<Sum>k < length tds. int (nat (foffset (tds ! k))) - int (nat (offset (tds ! k)))))
    \<and> (\<forall>td \<in> set (wthread j'). status td = STAT_OK \<and> offset td = foffset td)"
proof -
  let ?gs = "launch_ftp (map the (fhandles w)) srv c tds"
  have l: "length (map the (fhandles w)) = length tds" using w by (simp add: ftp_round_ok_def)
  have lgs: "length ?gs = length tds" using l by (simp add: launch_ftp_def)
  have nth: "http_pos (?gs ! k) = nat (offset (tds ! k))" "http_fin (?gs ! k) = nat (foffset (tds ! k))" if "k < length tds" for k
    using that by (simp_all add: launch_ftp_nth [OF l] http_pos_def http_fin_def)
  have "ftp_valid C (?gs ! k) \<and> ftp_exact C (?gs ! k)" if "k < length ?gs" for k
    using g ftp_handles [OF w] that lgs by (simp add: launch_ftp_nth [OF l])
  moreover have "list_all (\<lambda>(i, e). ftp_good e) (fevents w)" "\<And>k. k < length ?gs \<Longrightarrow> Suc (length C) < count_list (map fst (fevents w)) k"
    using w lgs by (simp_all add: ftp_round_ok_def)
  moreover have "{..< length C} \<subseteq> agree C (jfile j) \<union> (\<Union>k < length ?gs. {http_pos (?gs ! k) ..< http_fin (?gs ! k)})"
    using cover nth lgs by simp
  ultimately obtain gs bw where
    sc: "sched ftp_get_step http_ended (fevents w) (?gs, jfile j, bwritten j) = Some (Inr (gs, C, bw))" and gs: "length gs = length tds"
    and e: "list_all (\<lambda>g. http_ended g \<and> ftp_exact C g) gs"
    and bw: "c_uint bw = c_uint (bwritten j + (\<Sum>k < length ?gs. int (http_fin (?gs ! k)) - int (http_pos (?gs ! k))))"
    using fg.sched_exact [OF fl, where gs = ?gs and es = "fevents w" and bw = "bwritten j"] lgs by auto
  have all: "\<forall>td \<in> set (map gtd gs). td_tid td \<noteq> - 1 \<and> status td = STAT_OK \<and> offset td = foffset td"
    using e by (auto simp: list_all_iff ftp_exact_def http_ended_def Let_def)
  have nok: "snd (join_loop (map gtd gs) (nok j)) = nok j + int (length tds)" using join_loop_all [of "map gtd gs" "nok j"] all gs by simp
  have "list_all http_ended gs" using e by (simp add: list_all_iff)
  then have "ftp_job_round body fail srv c w j
      = Some (Inr \<lparr>jfmt = fmt, wthread = fst (join_loop (map gtd gs) (nok j)), jfile = C, bwritten = bw, nok = snd (join_loop (map gtd gs) (nok j))\<rparr>)"
    using prep sc w by (simp add: ftp_job_round_def ftp_round_ok_def split_def Let_def)
  then show ?thesis using nok all bw nth lgs by (auto simp: join_loop_keeps)
qed

lemma ftp_start_completes:
  assumes s: "ftp_sendable r" and c: "clength r = int (length C)" "0 < length C" and n: "0 < n" and hsd: "hsd \<noteq> - 1"
    and w: "ftp_round_ok C (nat n) w" and wl: "ftp_welcomes srv (username r) (password r)" and sv: "ftp_job_served srv r l2 (nat n) C"
    and fl: "length fl = length C"
  shows "\<exists>j. ftp_job_round (start_ftp_thread r hsd dupfd n) fail srv \<lparr>said = head_cmds r, inbox = [l2]\<rparr> w
      \<lparr>jfmt = [], wthread = replicate (nat n) blank_td, jfile = fl, bwritten = 0, nok = 0\<rparr> = Some (Inr j)
    \<and> jfile j = C \<and> nok j = n \<and> c_uint (bwritten j) = c_uint (int (length C)) \<and> (\<forall>td \<in> set (wthread j). status td = STAT_OK \<and> offset td = foffset td)"
proof -
  let ?j = "\<lparr>jfmt = [], wthread = replicate (nat n) blank_td, jfile = fl, bwritten = 0, nok = 0\<rparr>"
  obtain tds where p: "prepare (start_ftp_thread r hsd dupfd n) 0 [] (replicate (nat n) blank_td) = Some ([], tds)"
    and len: "length tds = nat n" and td: "\<And>k. k < nat n \<Longrightarrow> ftp_td_ok r hsd n k (tds ! k)"
    using start_ftp_prepare [OF s _ n, where hsd = hsd and dupfd = dupfd] c by auto
  have n0: "0 < nat n" "int (nat n) = n" using n by simp_all
  have o: "offset (tds ! k) = seg_start (int (length C)) (int (nat n)) k" "foffset (tds ! k) = seg_end (int (length C)) (int (nat n)) k" if "k < nat n" for k
    using td [OF that] c n by (simp_all add: ftp_td_ok_def)
  have "(\<Union>k < length tds. {nat (offset (tds ! k)) ..< nat (foffset (tds ! k))})
      = (\<Union>k < nat n. {nat (seg_start (int (length C)) (int (nat n)) k) ..< nat (seg_end (int (length C)) (int (nat n)) k)})"
    unfolding len by (rule SUP_cong [OF refl]) (simp add: o)
  then have cover: "{..< length C} \<subseteq> agree C (jfile ?j) \<union> (\<Union>k < length tds. {nat (offset (tds ! k)) ..< nat (foffset (tds ! k))})"
    using segments_cover [OF n0(1), of "int (length C)"] by (simp add: le_supI2)
  have sum: "(\<Sum>k < length tds. int (nat (foffset (tds ! k))) - int (nat (offset (tds ! k)))) = int (length C)"
    using segs_sum [OF n0(1), of "int (length C)"] o len by simp
  have p': "prepare (start_ftp_thread r hsd dupfd n) 0 (jfmt ?j) (wthread ?j) = Some ([], tds)" "length (jfile ?j) = length C" using p fl by simp_all
  have g: "ftp_valid C \<lparr>gpc = GStart, gtd = (tds ! k)\<lparr>td_tid := h\<rparr>, gstrm = [], gsrv = srv, gctl = \<lparr>said = head_cmds r, inbox = [l2]\<rparr>\<rparr>
      \<and> ftp_exact C \<lparr>gpc = GStart, gtd = (tds ! k)\<lparr>td_tid := h\<rparr>, gstrm = [], gsrv = srv, gctl = \<lparr>said = head_cmds r, inbox = [l2]\<rparr>\<rparr>"
    if "k < length tds" "h \<noteq> - 1" for k h
    using launch_ftp_ready [OF c n _ td that(2) hsd wl sv] that(1) unfolding len Let_def by blast
  from ftp_round_completes [OF p'(1) w [folded len] p'(2) g cover, where fail = fail] show ?thesis
    unfolding sum unfolding len n0(2) job.simps by simp
qed


section \<open>A job that is resumed\<close>

text \<open>What a thread of an interrupted job has in the log, and what the resumed one needs.\<close>

lemma ftp_interrupted:
  assumes s: "ftp_sendable r" and c: "clength r = int (length C)" "0 < length C" and n: "0 < n" and hsd: "hsd \<noteq> - 1"
    and wl: "ftp_welcomes srv (username r) (password r)" and sv: "ftp_job_served srv r l2 (nat n) C"
    and prep: "prepare (start_ftp_thread r hsd dupfd n) 0 [] (replicate (nat n) blank_td) = Some ([], tds)"
    and fl: "length fl = length C" and hs: "length hs = nat n" "- 1 \<notin> set hs" and es: "list_all (\<lambda>(i, e). ftp_good e) es"
    and run: "sched ftp_get_step http_ended es (launch_ftp hs srv \<lparr>said = head_cmds r, inbox = [l2]\<rparr> tds, fl, 0) = Some (Inr (gs, flp, bwp))"
  shows "length gs = nat n" "length flp = length C"
    "{..< length C} \<subseteq> agree C flp \<union> (\<Union>k < nat n. {nat (offset (gtd (gs ! k))) ..< nat (foffset (gtd (gs ! k)))})"
    "c_uint (bwp + (\<Sum>k < nat n. int (nat (foffset (gtd (gs ! k)))) - int (nat (offset (gtd (gs ! k)))))) = c_uint (int (length C))"
    "\<And>k. k < nat n \<Longrightarrow> 0 \<le> offset (gtd (gs ! k)) \<and> offset (gtd (gs ! k)) \<le> foffset (gtd (gs ! k)) \<and> foffset (gtd (gs ! k)) \<le> int (length C)"
    "\<And>k. k < nat n \<Longrightarrow> td_strings_ok r (gtd (gs ! k))"
proof -
  let ?c = "\<lparr>said = head_cmds r, inbox = [l2]\<rparr>"
  let ?gs = "launch_ftp hs srv ?c tds"
  have len: "length tds = nat n" and td: "\<And>k. k < nat n \<Longrightarrow> ftp_td_ok r hsd n k (tds ! k)"
    using start_ftp_prepare [OF s _ n, where hsd = hsd and dupfd = dupfd] c prep by auto
  have l: "length hs = length tds" using hs(1) len by simp
  have lgs: "length ?gs = nat n" using l len by (simp add: launch_ftp_def)
  have n0: "0 < nat n" using n by simp
  have g: "ftp_valid C (?gs ! k) \<and> ftp_exact C (?gs ! k) \<and> http_pos (?gs ! k) = nat (seg_start (int (length C)) (int (nat n)) k)
      \<and> http_fin (?gs ! k) = nat (seg_end (int (length C)) (int (nat n)) k)" if k: "k < nat n" for k
  proof -
    have "hs ! k \<noteq> - 1" using hs k by (metis nth_mem)
    then show ?thesis using launch_ftp_ready [OF c n k td [OF k] _ hsd wl sv] k len by (simp add: launch_ftp_nth [OF l] Let_def)
  qed
  then have gv: "ftp_valid C (?gs ! k) \<and> http_pos (?gs ! k) = nat (seg_start (int (length C)) (int (nat n)) k)
      \<and> http_fin (?gs ! k) = nat (seg_end (int (length C)) (int (nat n)) k)" if "k < nat n" for k using that by blast
  note p = fg.sched_partial [OF n0 fl lgs es gv run]
  show lg: "length gs = nat n" "length flp = length C" using fg.progressD(1,2) [OF p(1)] lgs by simp_all
  show "{..< length C} \<subseteq> agree C flp \<union> (\<Union>k < nat n. {nat (offset (gtd (gs ! k))) ..< nat (foffset (gtd (gs ! k)))})"
    "c_uint (bwp + (\<Sum>k < nat n. int (nat (foffset (gtd (gs ! k)))) - int (nat (offset (gtd (gs ! k)))))) = c_uint (int (length C))"
    using p(2,3) unfolding http_pos_def http_fin_def by simp_all
  show "0 \<le> offset (gtd (gs ! k)) \<and> offset (gtd (gs ! k)) \<le> foffset (gtd (gs ! k)) \<and> foffset (gtd (gs ! k)) \<le> int (length C)" if k: "k < nat n" for k
  proof -
    have "ftp_valid C (gs ! k)" using fg.progressD(3) [OF p(1)] lg k by (simp add: list_all_length)
    moreover have "ftp_exact C (gs ! k)" using fg.progress_nthD(2) [OF p(1), of k] g [OF k] lgs k by simp
    ultimately show ?thesis by (auto simp: ftp_valid_def ftp_exact_def Let_def split: get_pc.splits)
  qed
  have "map td_strings gs = map td_strings ?gs" by (rule sched_keeps [OF _ run]) (rule ftp_step_strings)
  then have "td_strings (gs ! k) = td_strings (?gs ! k)" if "k < nat n" for k using that lg(1) lgs by (metis length_map nth_map)
  then show "td_strings_ok r (gtd (gs ! k))" if k: "k < nat n" for k
    using td [OF k] k len by (simp add: td_strings_def launch_ftp_nth [OF l] ftp_td_ok_def td_strings_ok_def)
qed

lemma ftp_resumed_ready:
  assumes d: "resumed td td'" and o: "0 \<le> offset td \<and> offset td \<le> foffset td \<and> foffset td \<le> int (length C)" and t: "td_strings_ok r td"
    and w: "ftp_welcomes srv (username r) (password r)"
    and v: "ftp_sends srv (map fst (login_cmds (c_str (username r)) (c_str (password r)))) (offset td) (c_str (drop 1 (url r))) C" and x: "x \<noteq> - 1"
  shows "ftp_valid C \<lparr>gpc = GStart, gtd = td'\<lparr>td_tid := x\<rparr>, gstrm = [], gsrv = srv, gctl = c\<rparr>
    \<and> ftp_exact C \<lparr>gpc = GStart, gtd = td'\<lparr>td_tid := x\<rparr>, gstrm = [], gsrv = srv, gctl = c\<rparr>"
proof -
  note d = resumedD [OF d]
  have "ftp_welcomes srv (td_username td') (td_password td')" using w d t by (simp add: ftp_welcomes_def td_strings_ok_def)
  then have "ftp_served C \<lparr>gpc = GStart, gtd = td'\<lparr>td_tid := x\<rparr>, gstrm = [], gsrv = srv, gctl = c\<rparr>"
    using v d t by (simp add: ftp_served_def td_strings_ok_def)
  then show ?thesis using o d x by (simp add: ftp_valid_def ftp_exact_def)
qed


text \<open>A server with one file.\<close>

definition demo_answer :: "string \<Rightarrow> string list" where
  "demo_answer cmd =
     (if starts ''USER'' cmd then [''331 p'' @ eol] else if starts ''PASS'' cmd then [''230 ok'' @ eol]
      else if starts ''REST'' cmd then [''350 ok'' @ eol] else if starts ''SYST'' cmd then [''215 UNIX'' @ eol]
      else if starts ''TYPE'' cmd then [''200 ok'' @ eol] else if starts ''PASV'' cmd then [''227 (10,0,0,1,4,1)'' @ eol]
      else [''150 ok'' @ eol, ''226 ok'' @ eol])"

definition demo_ftp :: ftp_server where
  "demo_ftp = \<lparr>greeting = [''220 hi'' @ eol], replies = (\<lambda>h. demo_answer (last h)), listens = (\<lambda>a. a = (''10.0.0.1'', 1025)),
     content = (\<lambda>h. if starts ''LIST'' (last h) then ''-rw 1 u g 5 f'' @ eol else ''hello'')\<rparr>"

definition demo_ftp_event :: ftp_event where
  "demo_ftp_event = \<lparr>fsocket = True, fconnect = True, fdopens = (\<lambda>_. True), fjunk = (\<lambda>_. replicate 1024 NUL), dsocket = True, dconnect = True,
     flist = Some 100, attempts = [(Some 1, False, 1)], fwrite = Some 8192\<rparr>"

definition demo_ftp_req :: request where
  "demo_ftp_req = demo_asked\<lparr>username := ''ftp'' @ [NUL], password := ''me'' @ [NUL], port := 21, proto := PROTO_FTP\<rparr>"

definition demo_ftp_round :: ftp_round where
  "demo_ftp_round = \<lparr>fwaiter = True, fhandles = [Some 7], fevents = map (\<lambda>t. (0, demo_ftp_event)) [1, 2, 3, 4, 5, 6, 7 :: nat]\<rparr>"

lemma demo_calls: "calls_ok demo_ftp_event" "ftp_good demo_ftp_event"
  by (simp_all add: calls_ok_def ftp_good_def demo_ftp_event_def list_all_iff)

lemma reply_lineI: "length code = 3 \<Longrightarrow> list_all (\<lambda>c. c \<noteq> LF \<and> c \<noteq> NUL) (code @ t) \<Longrightarrow> length t \<le> 100 \<Longrightarrow> reply_line code (code @ '' '' @ t @ eol)"
  by (auto simp: reply_line_def)

lemma demo_answers:
  "\<exists>l. demo_answer (cmdline (''USER '' @ s)) = [l] \<and> reply_line ''331'' l" "\<exists>l. demo_answer (cmdline (''PASS '' @ s)) = [l] \<and> reply_line ''230'' l"
  "\<exists>l. demo_answer (cmdline (''REST '' @ s)) = [l] \<and> reply_line ''350'' l" "\<exists>l. demo_answer (cmdline ''SYST'') = [l] \<and> reply_line ''215'' l"
  "\<exists>l. demo_answer (cmdline ''TYPE I'') = [l] \<and> reply_line ''200'' l"
  using reply_lineI [of "''331''" "''p''"] reply_lineI [of "''230''" "''ok''"] reply_lineI [of "''350''" "''ok''"] reply_lineI [of "''215''" "''UNIX''"]
    reply_lineI [of "''200''" "''ok''"]
  by (simp_all add: demo_answer_def cmdline_def starts_def)

lemma demo_pasv: "pasv_ok demo_ftp h"
proof -
  let ?l = "''227 (10,0,0,1,4,1)'' @ eol"
  have "replies demo_ftp (h @ [cmdline ''PASV'']) = [?l]" by (simp add: demo_ftp_def demo_answer_def cmdline_def starts_def)
  moreover have "reply_line ''227'' ?l" using reply_lineI [of "''227''" "''(10,0,0,1,4,1)''"] by simp
  moreover have "?l = ''227 '' @ ''('' @ separated [10, 0, 0, 1, 4, 1] @ eol" by code_simp
  moreover have "list_all (\<lambda>c. \<not> ends_line c \<and> c \<noteq> CHR ''('') ''227 ''" by (simp add: ends_line_def)
  moreover have "(0 :: nat) < 10" "list_all (\<lambda>n. n < 256) [10, 0, 0, 1, 4, 1 :: nat]" by simp_all
  moreover have "length (dotted 10 0 0 1) \<le> 14" by code_simp
  moreover have "listens demo_ftp (dotted 10 0 0 1, int (4 * 256 + 1))"
  proof -
    have "dotted 10 0 0 1 = ''10.0.0.1''" by code_simp
    then show ?thesis by (simp add: demo_ftp_def)
  qed
  ultimately show ?thesis unfolding pasv_ok_def by (intro exI conjI)
qed

lemma demo_welcomes: "ftp_welcomes demo_ftp (username demo_ftp_req) (password demo_ftp_req)"
proof -
  have "reply_line ''220'' (''220 hi'' @ eol)" using reply_lineI [of "''220''" "''hi''"] by simp
  moreover have "list_ex (\<lambda>d. starts [d] ''220'') ''213''" by (simp add: starts_def)
  moreover have "greeting demo_ftp = [''220 hi'' @ eol]" by (simp add: demo_ftp_def)
  ultimately have "\<exists>code l. greeting demo_ftp = [l] \<and> reply_line code l \<and> list_ex (\<lambda>d. starts [d] code) ''213''" by blast
  moreover have "answers demo_ftp [] (login_cmds (c_str (username demo_ftp_req)) (c_str (password demo_ftp_req)))"
    unfolding login_cmds_def using demo_answers(1,2) by (simp add: demo_ftp_def)
  ultimately show ?thesis by (simp add: ftp_welcomes_def demo_ftp_req_def)
qed

lemma demo_sends: "ftp_sends demo_ftp h 0 u ''hello''"
proof -
  have "content demo_ftp (h @ [rest_cmd 0, cmdline ''TYPE I'', cmdline ''PASV'', cmdline (''RETR '' @ u)]) = ''hello''"
    by (simp add: demo_ftp_def cmdline_def starts_def)
  moreover have "answers demo_ftp h [(rest_cmd 0, ''350''), (cmdline ''TYPE I'', ''200'')]"
    unfolding rest_cmd_def using demo_answers(3,5) by (simp add: demo_ftp_def)
  ultimately show ?thesis using demo_pasv [of "h @ [rest_cmd 0, cmdline ''TYPE I'']"] by (simp add: ftp_sends_def)
qed

lemma demo_listing: "listing 5 (''-rw 1 u g 5 f'' @ eol)"
proof -
  have "''-rw 1 u g 5 f'' @ eol = ''-rw'' @ '' '' @ ''1'' @ '' '' @ ''u'' @ '' '' @ ''g'' @ '' '' @ dec 5 @ '' '' @ (''f'' @ eol)" by code_simp
  moreover have "list_all word15 [''-rw'', ''1'', ''u'', ''g'']" "list_all gap ['' '', '' '', '' '', '' '', '' '']"
    by (simp_all add: word15_def gap_def is_space_def)
  moreover have "NUL \<notin> set (''f'' @ eol)" by simp
  ultimately have "\<exists>a b c d sa sb sc sd se z. ''-rw 1 u g 5 f'' @ eol = a @ sa @ b @ sb @ c @ sc @ d @ sd @ dec 5 @ se @ z \<and> list_all word15 [a, b, c, d]
      \<and> list_all gap [sa, sb, sc, sd, se] \<and> NUL \<notin> set z"
    by (intro exI conjI)
  moreover have "(5 :: nat) < 2 ^ 31" by simp
  ultimately show ?thesis unfolding listing_def by (intro conjI)
qed

lemma demo_ftp_head: "ftp_head_served (\<lambda>_. Some ''1.2.3.4'') demo_ftp_event demo_ftp demo_ftp_req ''1.2.3.4'' (''226 ok'' @ eol) 5"
proof -
  let ?h = "head_cmds demo_ftp_req"
  obtain s where h: "last ?h = cmdline (''LIST '' @ s)" by (simp add: head_cmds_def)
  have "replies demo_ftp ?h = demo_answer (last ?h)" "content demo_ftp ?h = (if starts ''LIST'' (last ?h) then ''-rw 1 u g 5 f'' @ eol else ''hello'')"
    by (simp_all add: demo_ftp_def)
  then have "replies demo_ftp ?h = [''150 ok'' @ eol, ''226 ok'' @ eol]" and ct: "content demo_ftp ?h = ''-rw 1 u g 5 f'' @ eol"
    unfolding h by (simp_all add: demo_answer_def cmdline_def starts_def)
  moreover have "reply_line ''150'' (''150 ok'' @ eol)" using reply_lineI [of "''150''" "''ok''"] by simp
  ultimately have rp: "\<exists>c1 l1. replies demo_ftp ?h = [l1, ''226 ok'' @ eol] \<and> reply_line c1 l1" by blast
  have an: "answers demo_ftp g [(cmdline ''REST 150'', ''350''), (cmdline ''SYST'', ''215''), (cmdline ''TYPE I'', ''200'')]" for g
    using demo_answers(3) [of "''150''"] demo_answers(4,5) by (simp add: demo_ftp_def)
  have ls: "listing 5 (content demo_ftp ?h)" unfolding ct by (rule demo_listing)
  have sz: "length (content demo_ftp ?h) \<le> 8191" "case flist demo_ftp_event of None \<Rightarrow> False | Some k \<Rightarrow> length (content demo_ftp ?h) \<le> Suc k"
    unfolding ct by (simp_all add: demo_ftp_event_def)
  have f: "NUL \<in> set (host demo_ftp_req)" "NUL \<in> set (drop 1 (url demo_ftp_req))" "length (ip demo_ftp_req) = 16" "ip demo_ftp_req ! 15 = NUL"
      "length ''1.2.3.4'' \<le> 15" "NUL \<notin> set ''1.2.3.4''"
    by (simp_all add: demo_ftp_req_def demo_asked_def demo_req_def)
  show ?thesis unfolding ftp_head_served_def Let_def
    by (intro conjI) (fact demo_calls(1) f demo_welcomes an demo_pasv rp ls sz refl)+
qed

lemma demo_ftp_served: "ftp_job_served demo_ftp r (''226 ok'' @ eol) 1 ''hello''"
proof -
  have "reply_line ''226'' (''226 ok'' @ eol)" using reply_lineI [of "''226''" "''ok''"] by simp
  then show ?thesis unfolding ftp_job_served_def using demo_sends by auto
qed


text \<open>The same download, interrupted after two bytes and taken up by a server that then sends the rest.\<close>

definition demo_ftp_asked :: request where
  "demo_ftp_asked = demo_ftp_req\<lparr>clength := 5\<rparr>"

definition demo_ftp2 :: ftp_server where
  "demo_ftp2 = demo_ftp\<lparr>content := (\<lambda>_. ''llo'')\<rparr>"

lemma demo_ftp_asked_ok: "ftp_sendable demo_ftp_asked" "sendable demo_ftp_asked []" "ftp_welcomes demo_ftp (username demo_ftp_asked) (password demo_ftp_asked)"
  using demo_welcomes
  by (auto simp: ftp_sendable_def sendable_def demo_ftp_asked_def demo_ftp_req_def demo_asked_def demo_req_def c_str_def request_text_def GETREQ_def PROGVERSION_def small_dec)

lemma demo_ftp2_ok: "ftp_welcomes demo_ftp2 (username demo_ftp_asked) (password demo_ftp_asked)" "ftp_sends demo_ftp2 h 2 u ''hello''"
proof -
  have "answers demo_ftp2 g l = answers demo_ftp g l" for g l by (induction l arbitrary: g) (auto simp: demo_ftp2_def)
  moreover have "pasv_ok demo_ftp2 g = pasv_ok demo_ftp g" for g by (simp add: pasv_ok_def demo_ftp2_def)
  moreover have "answers demo_ftp h [(rest_cmd 2, ''350''), (cmdline ''TYPE I'', ''200'')]"
    unfolding rest_cmd_def using demo_answers(3,5) by (simp add: demo_ftp_def)
  ultimately show "ftp_welcomes demo_ftp2 (username demo_ftp_asked) (password demo_ftp_asked)" "ftp_sends demo_ftp2 h 2 u ''hello''"
    using demo_ftp_asked_ok(3) demo_pasv [of "h @ [rest_cmd 2, cmdline ''TYPE I'']"] by (simp_all add: ftp_welcomes_def ftp_sends_def demo_ftp2_def)
qed

lemma demo_ftp_turn:
  assumes "offset (gtd g) = 0" "foffset (gtd g) = 5" "gstrm g = ''hello''"
  shows "ftp_get_turn demo_ftp_event (g, ''xxxxx'', 0)
    = Some (Inr (loop_test (g\<lparr>gtd := (gtd g)\<lparr>offset := 2\<rparr>, gstrm := ''llo''\<rparr>), ''hexxx'', 2))"
proof -
  have "recv_data (attempts demo_ftp_event) 3 (gstrm g) = Some (Inr (2, ''he'', ''llo''))"
    by (simp add: demo_ftp_event_def assms recv_def MAXBUFSIZ_def)
  moreover have "pwrite (fwrite demo_ftp_event) ''xxxxx'' (buffer ''he'') 2 0 = Some (2, ''hexxx'')"
    by (simp add: demo_ftp_event_def pwrite_def buffer_def put_at_def MAXBUFSIZ_def del: replicate.simps)
  ultimately show ?thesis by (simp add: ftp_get_turn_def assms c_uint_def)
qed

lemma demo_ftp_partial:
  "\<exists>tds gs. prepare (start_ftp_thread demo_ftp_asked 3 4 1) 0 [] (replicate (nat 1) blank_td) = Some ([], tds)
     \<and> sched ftp_get_step http_ended [(0, demo_ftp_event), (0, demo_ftp_event)]
         (launch_ftp [7] demo_ftp \<lparr>said = head_cmds demo_ftp_asked, inbox = [''226 ok'' @ eol]\<rparr> tds, ''xxxxx'', 0) = Some (Inr (gs, ''hexxx'', 2))
     \<and> offset (gtd (gs ! 0)) = 2"
proof -
  let ?C = "''hello''" and ?r = demo_ftp_asked
  have c: "clength ?r = int (length ?C)" "0 < length ?C" by (simp_all add: demo_ftp_asked_def)
  obtain tds where p: "prepare (start_ftp_thread ?r 3 4 1) 0 [] (replicate (nat 1) blank_td) = Some ([], tds)"
    and l: "length tds = 1" and t: "ftp_td_ok ?r 3 1 0 (tds ! 0)"
    using start_ftp_prepare [OF demo_ftp_asked_ok(1), where hsd = 3 and dupfd = 4 and n = 1] c by auto
  let ?g = "\<lparr>gpc = GStart, gtd = (tds ! 0)\<lparr>td_tid := 7\<rparr>, gstrm = [], gsrv = demo_ftp, gctl = \<lparr>said = head_cmds ?r, inbox = [''226 ok'' @ eol]\<rparr>\<rparr>"
  have g: "ftp_valid ?C ?g" "http_pos ?g = 0" "http_fin ?g = 5"
    using launch_ftp_ready [OF c _ _ t _ _ demo_ftp_asked_ok(3), where h = 7 and ?l2.0 = "''226 ok'' @ eol"] demo_ftp_served [of ?r]
    by (simp_all add: Let_def seg_start_def seg_end_def)
  from ftp_start_good [OF demo_calls(2) g(1), of "''xxxxx''" 0] obtain g' where
    s: "ftp_get_start demo_ftp_event (?g, ''xxxxx'', 0) = Some (Inr (g', ''xxxxx'', 0))" and a: "ftp_advanced ?C ?g g' 0" by auto
  have g': "ftp_valid ?C g'" "http_pos g' = 0" "http_fin g' = 5" "http_ended g' \<or> http_rank ?g < http_rank g'"
    using a g by (simp_all add: ftp_advanced_def)
  then have "gpc g' = GLoop" "offset (gtd g') = 0" "foffset (gtd g') = 5" "gstrm g' = ?C"
    using g(2) by (cases "gpc g'"; auto simp: ftp_contract)+
  note d = this demo_ftp_turn [OF this(2-4)]
  have "launch_ftp [7] demo_ftp \<lparr>said = head_cmds ?r, inbox = [''226 ok'' @ eol]\<rparr> tds = [?g]"
    using l by (cases tds) (simp_all add: launch_ftp_def)
  then have "sched ftp_get_step http_ended [(0, demo_ftp_event), (0, demo_ftp_event)]
      (launch_ftp [7] demo_ftp \<lparr>said = head_cmds ?r, inbox = [''226 ok'' @ eol]\<rparr> tds, ''xxxxx'', 0)
      = Some (Inr ([loop_test (g'\<lparr>gtd := (gtd g')\<lparr>offset := 2\<rparr>, gstrm := ''llo''\<rparr>)], ''hexxx'', 2))"
    using s d by (simp add: http_ended_def ftp_get_step_def)
  moreover have "offset (gtd ([loop_test (g'\<lparr>gtd := (gtd g')\<lparr>offset := 2\<rparr>, gstrm := ''llo''\<rparr>)] ! 0)) = 2" by simp
  ultimately show ?thesis using p by blast
qed

lemma demo_ftp_logs: "log_home ''/home'' demo_ftp_asked = Some ''/home/f-agetf.log''" "log_here demo_ftp_asked = Some ''/d/f-agetf.log''"
proof -
  have "str_of (lfile demo_ftp_asked) = Some ''/d/f''" by (simp add: demo_ftp_asked_def demo_ftp_req_def demo_asked_def demo_req_def str_of_def c_str_def)
  moreover have "scan_back ''/d/f'' 3 = Some 2" by (simp add: scan_back.simps)
  moreover have "log_suffix demo_ftp_asked = ''-agetf.log''" by (simp add: log_suffix_def demo_ftp_asked_def demo_ftp_req_def PROTO_FTP_def PROTO_HTTP_def)
  ultimately show "log_home ''/home'' demo_ftp_asked = Some ''/home/f-agetf.log''" "log_here demo_ftp_asked = Some ''/d/f-agetf.log''"
    by (simp_all add: log_home_def log_here_def)
qed


end
