(* ===== verification/AgetRc.thy ===== *)
theory AgetRc
  imports AgetFtp
begin

text \<open>
  The configuration file of aget: \<^verbatim>\<open>loadconfig\<close>, \<^verbatim>\<open>createrc\<close> and \<^verbatim>\<open>readrc\<close> of \<^verbatim>\<open>papps/aget-devel/loadrc.c\<close>.  A line is read into
  an array of 1024 characters, in which two pointers move; what an earlier line has left behind its end stays there.
\<close>

section \<open>The code\<close>

record rc =
  ftpanonymoususer :: string
  ftpanonymouspass :: string
  preferredthread :: int
  http_proxyhost :: string
  http_proxyport :: int
  http_proxyuser :: string
  http_proxypass :: string

definition blank_rc :: rc where
  "blank_rc = \<lparr>ftpanonymoususer = replicate 256 NUL, ftpanonymouspass = replicate 256 NUL, preferredthread = - 1,
     http_proxyhost = replicate 256 NUL, http_proxyport = - 1, http_proxyuser = replicate 256 NUL, http_proxypass = replicate 256 NUL\<rparr>"

definition is_graph :: "char \<Rightarrow> bool" where
  "is_graph c \<longleftrightarrow> 33 \<le> (of_char c :: nat) \<and> (of_char c :: nat) \<le> 126"

text \<open>The loops that move the first pointer; the character is looked at before the position.\<close>

function skip_while :: "(char \<Rightarrow> bool) \<Rightarrow> string \<Rightarrow> int \<Rightarrow> int \<Rightarrow> int option" where
  "skip_while P buf slen p = do { c \<leftarrow> rd buf p; if P c \<and> p < slen then skip_while P buf slen (p + 1) else Some p }"
  by pat_completeness auto
termination
  by (relation "measure (\<lambda>(P, buf, slen, p). nat (slen - p))") auto

text \<open>The loops that copy at most \<open>n\<close> characters.\<close>

fun copy_while :: "(char \<Rightarrow> bool) \<Rightarrow> string \<Rightarrow> int \<Rightarrow> int \<Rightarrow> nat \<Rightarrow> (string \<times> int) option" where
  "copy_while P buf slen p 0 = do { c \<leftarrow> rd buf p; Some ([], p) }"
| "copy_while P buf slen p (Suc n) =
     do { c \<leftarrow> rd buf p;
          if P c \<and> p < slen then do { (k, p) \<leftarrow> copy_while P buf slen (p + 1) n; Some (c # k, p) } else Some ([], p) }"

definition set_var :: "string \<Rightarrow> string \<Rightarrow> rc \<Rightarrow> rc option" where
  "set_var k v r =
     (if k = ''ftpanonymoususer'' then map_option (\<lambda>a. r\<lparr>ftpanonymoususer := a\<rparr>) (strncpy (ftpanonymoususer r) v 256)
      else if k = ''ftpanonymouspass'' then map_option (\<lambda>a. r\<lparr>ftpanonymouspass := a\<rparr>) (strncpy (ftpanonymouspass r) v 256)
      else if k = ''http_proxyhost'' then map_option (\<lambda>a. r\<lparr>http_proxyhost := a\<rparr>) (strncpy (http_proxyhost r) v 256)
      else if k = ''http_proxyuser'' then map_option (\<lambda>a. r\<lparr>http_proxyuser := a\<rparr>) (strncpy (http_proxyuser r) v 256)
      else if k = ''http_proxypass'' then map_option (\<lambda>a. r\<lparr>http_proxypass := a\<rparr>) (strncpy (http_proxypass r) v 256)
      else if k = ''preferredthread'' then Some (r\<lparr>preferredthread := atoi v\<rparr>)
      else Some r)"

text \<open>The body of the loop over the lines, after the line is in \<open>buf\<close>.\<close>

definition config_line :: "string \<Rightarrow> rc \<Rightarrow> rc option" where
  "config_line buf r =
     do { c \<leftarrow> rd buf 0;
          if c = CHR ''#'' then Some r
          else do {
            n \<leftarrow> strlen buf;
            if n \<le> 1 then Some r
            else do {
              let slen = int n;
              p \<leftarrow> skip_while is_space buf slen 0;
              (k, p) \<leftarrow> copy_while (\<lambda>c. is_graph c \<and> c \<noteq> CHR ''='') buf slen p 62;
              p \<leftarrow> skip_while (\<lambda>c. c \<noteq> NUL \<and> c \<noteq> LF \<and> c \<noteq> CHR ''='') buf slen p;
              p \<leftarrow> skip_while is_space buf slen (p + 1);
              c \<leftarrow> rd buf p;
              (v, p) \<leftarrow> copy_while (\<lambda>c. c \<noteq> NUL \<and> c \<noteq> LF \<and> c \<noteq> CHR ''\"'') buf slen (if c = CHR ''\"'' then p + 1 else p) 254;
              if k = [] \<or> v = [] then Some r else set_var k v r } } }"

lemma fgets_splits: "fgets n b [] = (l, b', cs) \<Longrightarrow> cs = [] \<and> b = l @ b'"
proof (induction n arbitrary: b l)
  case (Suc n)
  then show ?case by (cases b) (auto split: if_splits prod.splits)
qed simp

text \<open>The lines of the file \<open>txt\<close>.\<close>

function load_lines :: "string \<Rightarrow> string \<Rightarrow> rc \<Rightarrow> rc option" where
  "load_lines buf txt r =
     (let (l, rest, _) = fgets 1023 txt [] in
      if l = [] then Some r
      else let buf = l @ NUL # drop (Suc (length l)) buf in
        do { r \<leftarrow> config_line buf r; load_lines buf rest r })"
  by pat_completeness auto
termination
  by (relation "measure (\<lambda>(buf, txt, r). length txt)") (auto dest: fgets_splits [OF sym])

definition loadconfig :: "string \<Rightarrow> string option \<Rightarrow> rc \<Rightarrow> rc proc" where
  "loadconfig junk cfg r = (case cfg of None \<Rightarrow> Some (Inl (- 1)) | Some txt \<Rightarrow> pret (load_lines junk txt r))"

declare skip_while.simps [simp del] load_lines.simps [simp del]

definition createrc :: string where
  "createrc = ''ftpanonymoususer = ftp'' @ [LF] @ ''ftpanonymouspass = aget@enderunix.org'' @ [LF]"

text \<open>Host and port of the proxy.  \<^verbatim>\<open>strncpy\<close> copies the token to the start of the array it lies in.\<close>

definition is_colon :: "char \<Rightarrow> bool" where
  "is_colon c \<longleftrightarrow> c = CHR '':''"

definition split_proxy :: "rc \<Rightarrow> rc option" where
  "split_proxy r =
     do { h \<leftarrow> str_of (http_proxyhost r);
          if h = [] then Some r
          else (case strtok is_colon (http_proxyhost r) 0 of None \<Rightarrow> Some r
            | Some (s, a, p) \<Rightarrow>
                do { a \<leftarrow> strncpy a (c_str (drop s a)) 255;
                     (case strtok is_colon a p of
                        Some (s, a, _) \<Rightarrow> Some (r\<lparr>http_proxyhost := a, http_proxyport := atoi (c_str (drop s a))\<rparr>)
                      | None \<Rightarrow> Some (r\<lparr>http_proxyhost := a, http_proxyport := 80\<rparr>)) }) }"

text \<open>\<^verbatim>\<open>readrc\<close>: \<open>home\<close> is the home directory, \<open>st\<close> what lies there as \<^verbatim>\<open>.agetrc\<close>: \<open>None\<close> for nothing, \<open>Some None\<close> for something that
  cannot be looked at, otherwise a file, which \<^verbatim>\<open>fopen\<close> may still refuse.  The second result is the file that is created
  if that is possible.\<close>

definition readrc :: "bool \<Rightarrow> string option \<Rightarrow> string option option option \<Rightarrow> string \<Rightarrow> rc \<Rightarrow> (rc \<times> string option) proc" where
  "readrc creatable home st junk r =
     (case home of None \<Rightarrow> Some (Inr (r, None))
      | Some _ \<Rightarrow>
          pbind (case st of None \<Rightarrow> Some (Inr (r, if creatable then Some createrc else None))
                 | Some None \<Rightarrow> Some (Inl 1)
                 | Some (Some cfg) \<Rightarrow> pbind (loadconfig junk cfg r) (\<lambda>r. Some (Inr (r, None))))
            (\<lambda>(r, made). pret (do { r \<leftarrow> split_proxy r; Some (r, made) })))"

section \<open>Lines\<close>

lemma skip_while_run:
  assumes "list_all P x" "\<not> P c" "int (length (a @ x)) \<le> slen"
  shows "skip_while P (a @ x @ c # z) slen (int (length a)) = Some (int (length (a @ x)))"
  using assms
proof (induction x arbitrary: a)
  case Nil
  then show ?case by (subst skip_while.simps) (simp add: rd_at)
next
  case (Cons d x)
  have "skip_while P ((a @ [d]) @ x @ c # z) slen (int (length (a @ [d]))) = Some (int (length ((a @ [d]) @ x)))"
    using Cons.prems by (intro Cons.IH) simp_all
  then show ?case using Cons.prems rd_at [of a d "x @ c # z"] by (subst skip_while.simps) (simp add: add.commute)
qed

lemma copy_while_run:
  assumes "list_all P x" "\<not> P c" "int (length (a @ x)) \<le> slen" "length x \<le> n"
  shows "copy_while P (a @ x @ c # z) slen (int (length a)) n = Some (x, int (length (a @ x)))"
  using assms
proof (induction x arbitrary: a n)
  case Nil
  then show ?case by (cases n) (simp_all add: rd_at)
next
  case (Cons d x)
  then obtain m where n: "n = Suc m" "length x \<le> m" by (cases n) auto
  have "copy_while P ((a @ [d]) @ x @ c # z) slen (int (length (a @ [d]))) m = Some (x, int (length ((a @ [d]) @ x)))"
    using Cons.prems n by (intro Cons.IH) simp_all
  then show ?case using Cons.prems rd_at [of a d "x @ c # z"] by (simp add: n(1) add.commute)
qed

text \<open>A setting, and its line.\<close>

definition setting :: "string \<times> string \<Rightarrow> bool" where
  "setting = (\<lambda>(k, v). k \<noteq> [] \<and> length k \<le> 62 \<and> list_all (\<lambda>c. is_graph c \<and> c \<noteq> CHR ''='') k \<and> hd k \<noteq> CHR ''#''
     \<and> v \<noteq> [] \<and> length v \<le> 254 \<and> list_all (\<lambda>c. c \<noteq> NUL \<and> c \<noteq> LF \<and> c \<noteq> CHR ''\"'') v \<and> \<not> is_space (hd v))"

definition rc_line :: "string \<times> string \<Rightarrow> string" where
  "rc_line = (\<lambda>(k, v). k @ '' = '' @ v @ [LF])"

lemma graph_char: "is_graph c \<Longrightarrow> \<not> is_space c \<and> c \<noteq> NUL \<and> c \<noteq> LF"
  by (auto simp: is_graph_def is_space_def)

lemma config_line_sets:
  assumes "setting (k, v)"
  shows "config_line (rc_line (k, v) @ NUL # z) r = set_var k v r"
proof -
  have k: "k \<noteq> []" "length k \<le> 62" "list_all (\<lambda>c. is_graph c \<and> c \<noteq> CHR ''='') k" "hd k \<noteq> CHR ''#''"
    and v: "v \<noteq> []" "length v \<le> 254" "list_all (\<lambda>c. c \<noteq> NUL \<and> c \<noteq> LF \<and> c \<noteq> CHR ''\"'') v" "\<not> is_space (hd v)"
    using assms by (simp_all add: setting_def)
  obtain d x where kd: "k = d # x" using k(1) by (cases k) auto
  obtain e y where ve: "v = e # y" using v(1) by (cases v) auto
  define b where "b = k @ '' = '' @ v @ [LF] @ NUL # z"
  define slen where "slen = int (length k + 3 + length v + 1)"
  have b: "rc_line (k, v) @ NUL # z = b" by (simp add: rc_line_def b_def)
  have "NUL \<notin> set k" "NUL \<notin> set v" using graph_char [of NUL] k(3) v(3) unfolding list_all_iff by blast+
  then have sl: "strlen b = Some (length k + 3 + length v + 1)"
    using strlen_append [of "k @ '' = '' @ v @ [LF]" z] by (simp add: b_def)
  have d: "rd b 0 = Some d" "d \<noteq> CHR ''#''" using k(4) by (simp_all add: b_def kd rd_def)
  have "\<not> is_space d" using k(3) by (simp add: kd graph_char)
  then have p0: "skip_while is_space b slen 0 = Some 0"
    using skip_while_run [of is_space "[]" d "[]" slen "x @ '' = '' @ v @ [LF] @ NUL # z"] by (simp add: b_def kd slen_def)
  have p1: "copy_while (\<lambda>c. is_graph c \<and> c \<noteq> CHR ''='') b slen 0 62 = Some (k, int (length k))"
    using copy_while_run [of "\<lambda>c. is_graph c \<and> c \<noteq> CHR ''=''" k "CHR '' ''" "[]" slen 62 "''= '' @ v @ [LF] @ NUL # z"] k(2,3)
    by (simp add: b_def slen_def is_graph_def)
  have p2: "skip_while (\<lambda>c. c \<noteq> NUL \<and> c \<noteq> LF \<and> c \<noteq> CHR ''='') b slen (int (length k)) = Some (int (length k) + 1)"
    using skip_while_run [of "\<lambda>c. c \<noteq> NUL \<and> c \<noteq> LF \<and> c \<noteq> CHR ''=''" "'' ''" "CHR ''=''" k slen "'' '' @ v @ [LF] @ NUL # z"]
    by (simp add: b_def slen_def add.commute)
  have p3: "skip_while is_space b slen (int (length k) + 1 + 1) = Some (int (length k) + 3)"
    using skip_while_run [of is_space "'' ''" e "k @ '' =''" slen "y @ [LF] @ NUL # z"] v(4)
    by (simp add: b_def slen_def ve is_space_def add.commute)
  have p4: "rd b (int (length k) + 3) = Some e" "e \<noteq> CHR ''\"''"
    using rd_at [of "k @ '' = ''" e "y @ [LF] @ NUL # z"] v(3) by (simp_all add: b_def ve add.commute)
  have p5: "copy_while (\<lambda>c. c \<noteq> NUL \<and> c \<noteq> LF \<and> c \<noteq> CHR ''\"'') b slen (int (length k) + 3) 254 = Some (v, int (length k) + 3 + int (length v))"
    using copy_while_run [of "\<lambda>c. c \<noteq> NUL \<and> c \<noteq> LF \<and> c \<noteq> CHR ''\"''" v LF "k @ '' = ''" slen 254 "NUL # z"] v(2,3)
    by (simp add: b_def slen_def add.commute)
  show ?thesis unfolding b config_line_def d(1) sl bind.bind_lunit Let_def slen_def [symmetric] p0 p1 p2 p3 p4(1) p5 prod.case
    using d(2) k(1) v(1) p4(2) by (simp add: p2 p3 p4 p5)
qed

definition set_all :: "(string \<times> string) list \<Rightarrow> rc \<Rightarrow> rc option" where
  "set_all kvs r = foldl (\<lambda>m (k, v). Option.bind m (set_var k v)) (Some r) kvs"

lemma foldl_None: "foldl (\<lambda>m (k, v). Option.bind m (set_var k v)) None kvs = None"
  by (induction kvs) auto

lemma set_all_Cons: "set_all ((k, v) # kvs) r = Option.bind (set_var k v r) (set_all kvs)"
  by (cases "set_var k v r") (simp_all add: set_all_def foldl_None)

lemma rc_line_fgets:
  assumes "setting kv"
  shows "fgets 1023 (rc_line kv @ txt) [] = (rc_line kv, txt, [])"
proof -
  obtain k v where kv: "kv = (k, v)" by (cases kv)
  have l: "length k \<le> 62" "length v \<le> 254" "LF \<notin> set k" "LF \<notin> set v"
    using assms graph_char [of LF] unfolding setting_def kv prod.case list_all_iff by blast+
  have "fgets 1023 ((k @ '' = '' @ v) @ LF # txt) [] = ((k @ '' = '' @ v) @ [LF], txt, [])"
    using l by (intro fgets_line) simp_all
  then show ?thesis by (simp add: kv rc_line_def)
qed

lemma load_lines_settings:
  assumes "list_all setting kvs"
  shows "load_lines buf (concat (map rc_line kvs)) r = set_all kvs r"
  using assms
proof (induction kvs arbitrary: buf r)
  case Nil
  have "fgets 1023 [] [] = ([], [], [])" using fgets.simps(2) [of 1022] by (simp only: numeral_eq_Suc pred_numeral_simps)
  then show ?case by (simp add: load_lines.simps set_all_def)
next
  case (Cons kv kvs)
  obtain k v where kv: "kv = (k, v)" by (cases kv)
  have s: "setting (k, v)" using Cons.prems kv by simp
  have ne: "rc_line (k, v) \<noteq> []" by (simp add: rc_line_def)
  have IH: "load_lines buf (concat (map rc_line kvs)) = set_all kvs" for buf
    using Cons.IH Cons.prems by auto
  show ?case unfolding kv list.map concat.simps
    by (subst load_lines.simps) (simp add: rc_line_fgets [OF s] ne config_line_sets [OF s] set_all_Cons IH)
qed

text \<open>
  C38. A configuration file that consists of lines \<^verbatim>\<open>key = value\<close> sets exactly its variables, in the order of the
  lines: the key is at most 62 printable characters, the value at most 254 characters that do not begin with
  space.  Reading does not depend on what the buffer held.
\<close>

theorem loadconfig_settings:
  assumes "list_all setting kvs"
  shows "loadconfig junk (Some (concat (map rc_line kvs))) r = map_option Inr (set_all kvs r)"
  using load_lines_settings [OF assms] by (simp add: loadconfig_def)

text \<open>The file that \<^verbatim>\<open>createrc\<close> writes is read back.\<close>

theorem loadconfig_settings_witness:
  "loadconfig [] (Some createrc) blank_rc = Some (Inr (blank_rc\<lparr>ftpanonymoususer := ''ftp'' @ replicate 253 NUL,
     ftpanonymouspass := ''aget@enderunix.org'' @ replicate 238 NUL\<rparr>))"
proof -
  let ?kvs = "[(''ftpanonymoususer'', ''ftp''), (''ftpanonymouspass'', ''aget@enderunix.org'')]"
  have "list_all setting ?kvs" by code_simp
  from loadconfig_settings [OF this, of "[]" blank_rc]
  show ?thesis by (simp add: createrc_def rc_line_def set_all_def set_var_def blank_rc_def strncpy_def del: replicate.simps)
qed

text \<open>A port after the colon of the proxy is never used: the copy of the host fills the rest of the array with zeros before
  the second token is looked for.\<close>

lemma strtok_zeros: "strtok del (a @ replicate n NUL) p = None" if "length a \<le> p"
  using that by (cases "n - (p - length a)") (simp_all add: strtok_def c_str_def Let_def)

lemma c_str_bound: "s \<le> e \<Longrightarrow> e < length a \<longrightarrow> a ! e = NUL \<Longrightarrow> length (c_str (drop s a)) + s \<le> max e s"
proof (cases "e < length a")
  case True
  assume "s \<le> e" "e < length a \<longrightarrow> a ! e = NUL"
  then have "drop s a ! (e - s) = NUL" "e - s < length (drop s a)" using True by simp_all
  then have "\<not> e - s < length (c_str (drop s a))"
    using takeWhile_nth [of "e - s" "\<lambda>c. c \<noteq> NUL" "drop s a"] set_takeWhileD [OF nth_mem, of "e - s" "\<lambda>c. c \<noteq> NUL" "drop s a"]
    unfolding c_str_def by auto
  then show ?thesis using \<open>s \<le> e\<close> by simp
next
  case False
  assume "s \<le> e"
  have "length (c_str (drop s a)) \<le> length (drop s a)" unfolding c_str_def by (rule length_takeWhile_le)
  then show ?thesis using False \<open>s \<le> e\<close> by auto
qed

lemma strtok_token:
  assumes "strtok del b p = Some (s, a, q)" "b ! 255 = NUL" "length b = 256"
  shows "length (c_str (drop s a)) \<le> q" "length a = 256" "a ! 255 = NUL"
proof -
  define e where "e = s + length (takeWhile (\<lambda>c. \<not> del c) (c_str (drop s b)))"
  have c: "(e < 256 \<and> b ! e \<noteq> NUL \<and> a = b[e := NUL] \<and> q = e + 1) \<or> (\<not> (e < 256 \<and> b ! e \<noteq> NUL) \<and> a = b \<and> q = e)"
    using assms by (auto simp: strtok_def Let_def e_def split: if_splits)
  then have "e < length a \<longrightarrow> a ! e = NUL" using assms(3) by auto
  moreover have "s \<le> e" by (simp add: e_def)
  ultimately show "length (c_str (drop s a)) \<le> q" using c_str_bound [of s e a] c by auto
  show "length a = 256" "a ! 255 = NUL" using c assms(2,3) by (auto simp: nth_list_update)
qed

lemma proxy_port_lost:
  assumes "length (http_proxyhost r) = 256" "http_proxyhost r ! 255 = NUL" "split_proxy r = Some r'"
  shows "http_proxyport r' = http_proxyport r \<or> http_proxyport r' = 80"
proof (cases "str_of (http_proxyhost r) = Some [] \<or> strtok is_colon (http_proxyhost r) 0 = None")
  case True
  then show ?thesis using assms(3) by (auto simp: split_proxy_def split: if_splits bind_splits)
next
  case False
  then obtain s a q where t: "strtok is_colon (http_proxyhost r) 0 = Some (s, a, q)" by auto
  note tt = strtok_token [OF t assms(2,1)]
  let ?t = "c_str (drop s a)"
  have "drop 255 a = [NUL]" using tt(2,3) Cons_nth_drop_Suc [of 255 a] by simp
  then have "strncpy a ?t 255 = Some (take 255 ?t @ replicate (255 - length ?t + 1) NUL)"
    using tt(2) replicate_append_same [of "255 - length ?t" NUL] by (simp add: strncpy_def)
  moreover have "strtok is_colon (take 255 ?t @ replicate (255 - length ?t + 1) NUL) q = None"
    using tt(1) by (intro strtok_zeros) simp
  ultimately show ?thesis using assms(3) False t
    by (auto simp: split_proxy_def split: if_splits bind_splits)
qed

end
