(* ===== verification/AgetMain.thy ===== *)
theory AgetMain
  imports AgetFtpJob AgetRc
begin

text \<open>
  The main function of aget, \<^verbatim>\<open>papps/aget-devel/main.c\<close>: options, the URL, the name of the local file, and the choice between a new
  job and one to resume.  What \<^verbatim>\<open>getopt\<close> returns is an argument: the options with their values, and \<^verbatim>\<open>optind\<close>.
\<close>

section \<open>The code\<close>

fun main_opts :: "(char \<times> string) list \<Rightarrow> request \<times> int \<times> int \<Rightarrow> (request \<times> int \<times> int) proc" where
  "main_opts [] st = Some (Inr st)"
| "main_opts ((c, optarg) # os) (r, fsuggested, nthreads) =
     (if c = CHR ''p'' then main_opts os (r\<lparr>port := atoi optarg\<rparr>, fsuggested, nthreads)
      else if c = CHR ''l'' then
        pbind (pret (strncpy (lfile r) optarg 8191)) (\<lambda>a. main_opts os (r\<lparr>lfile := a\<rparr>, fsuggested, nthreads))
      else if c = CHR ''n'' then
        (if atoi optarg > int MAXTHREADS then Some (Inl 1) else main_opts os (r, 1, atoi optarg))
      else if c = CHR ''h'' then Some (Inl 0)
      else if c = CHR ''v'' then Some (Inl 0)
      else Some (Inl 1))"

text \<open>\<^verbatim>\<open>fullurl\<close>, which is not initialised when \<^verbatim>\<open>optind\<close> is past the arguments.\<close>

definition main_url :: "string list \<Rightarrow> int \<Rightarrow> string proc" where
  "main_url argv optind =
     (if length argv = 2 then Some (Inr (argv ! 1))
      else if optind < int (length argv) then
        (if length argv > 2 then pret (rd argv optind) else Some (Inl 1))
      else if optind = int (length argv) then Some (Inl 1)
      else None)"

text \<open>\<^verbatim>\<open>strncpy(tmp + k, s, n)\<close>.\<close>

definition strncpy_at :: "string \<Rightarrow> nat \<Rightarrow> string \<Rightarrow> nat \<Rightarrow> string option" where
  "strncpy_at tmp k s n = map_option (\<lambda>x. take k tmp @ x) (strncpy (drop k tmp) s n)"

text \<open>The name of the local file behind the working directory, in the array \<^verbatim>\<open>tmp\<close>; a directory that \<^verbatim>\<open>getcwd\<close> does not
  return leaves the array as it was.  The counts of \<^verbatim>\<open>strncpy\<close> are unsigned.\<close>

definition full_name :: "string \<Rightarrow> string \<Rightarrow> string \<Rightarrow> string option" where
  "full_name junk cwd lf =
     do { k \<leftarrow> strlen (if length cwd < 8190 then cwd @ NUL # drop (Suc (length cwd)) junk else junk);
          let tmp = (if length cwd < 8190 then cwd @ NUL # drop (Suc (length cwd)) junk else junk);
          if k + 2 > 8192 then None else do {
            tmp \<leftarrow> strncpy_at tmp k ''/'' (8192 - k - 2);
            k \<leftarrow> strlen tmp;
            if k + 3 > 8192 then None else do {
              tmp \<leftarrow> strncpy_at tmp k lf (8192 - k - 3);
              str_of tmp } } }"

definition main_lfile :: "string \<Rightarrow> string \<Rightarrow> request \<Rightarrow> request option" where
  "main_lfile junk cwd r =
     do { n \<leftarrow> strlen (lfile r);
          lf \<leftarrow> (if n = 0 then do { f \<leftarrow> str_of (rfile r); strncpy (lfile r) f 8190 } else Some (lfile r));
          lf \<leftarrow> str_of lf;
          t \<leftarrow> full_name junk cwd lf;
          a \<leftarrow> strncpy (lfile r) t 8190;
          Some (r\<lparr>lfile := a\<rparr>) }"

text \<open>Everything up to the \<^verbatim>\<open>switch\<close>: the request, \<^verbatim>\<open>fsuggested\<close> and \<^verbatim>\<open>nthreads\<close>.\<close>

definition main_request :: "rc \<Rightarrow> (char \<times> string) list \<Rightarrow> int \<Rightarrow> string list \<Rightarrow> string \<Rightarrow> string \<Rightarrow> (request \<times> int \<times> int) proc" where
  "main_request cf opts optind argv junk cwd =
     pbind (main_opts opts (blank_req, 0, if preferredthread cf \<noteq> - 1 then preferredthread cf else 0)) (\<lambda>(r, fsuggested, nthreads).
       if fsuggested = 1 \<and> nthreads = 0 then Some (Inl 1)
       else pbind (main_url argv optind) (\<lambda>u.
         pbind (parse_url (c_str (ftpanonymoususer cf)) (c_str (ftpanonymouspass cf)) (u @ [NUL]) r) (\<lambda>r.
           pret (do { r \<leftarrow> main_lfile junk cwd r; Some (r, fsuggested, nthreads) }))))"

text \<open>The \<^verbatim>\<open>switch\<close>; \<open>rl\<close> is \<^verbatim>\<open>read_log\<close>, \<open>resume\<close> is \<^verbatim>\<open>resumeDownload\<close>, \<open>http\<close> and \<open>ftp\<close> start a job.\<close>

definition main_job :: "(request \<Rightarrow> hist_data option proc) \<Rightarrow> (hist_data \<Rightarrow> int \<Rightarrow> 'o proc) \<Rightarrow> (int \<Rightarrow> int \<Rightarrow> request \<Rightarrow> 'o proc)
    \<Rightarrow> (int \<Rightarrow> int \<Rightarrow> request \<Rightarrow> 'o proc) \<Rightarrow> request \<times> int \<times> int \<Rightarrow> 'o proc" where
  "main_job rl resume http ftp = (\<lambda>(r, fsuggested, nthreads).
     if proto r = PROTO_HTTP then
       pbind (rl r) (\<lambda>x. case x of Some h \<Rightarrow> resume h PROTO_HTTP | None \<Rightarrow> http fsuggested nthreads r)
     else if proto r = PROTO_FTP then
       pbind (rl r) (\<lambda>x. case x of Some h \<Rightarrow> resume h PROTO_FTP | None \<Rightarrow> ftp fsuggested nthreads r)
     else Some (Inl 0))"

text \<open>The whole program: \<open>cfg\<close> is the outcome of \<^verbatim>\<open>readrc\<close>, which sets the proxy.\<close>

definition aget_main :: "(rc \<times> string option) proc \<Rightarrow> (char \<times> string) list \<Rightarrow> int \<Rightarrow> string list \<Rightarrow> string \<Rightarrow> string
    \<Rightarrow> (request \<Rightarrow> hist_data option proc) \<Rightarrow> (hist_data \<Rightarrow> int \<Rightarrow> 'o proc) \<Rightarrow> (string \<Rightarrow> int \<Rightarrow> int \<Rightarrow> int \<Rightarrow> request \<Rightarrow> 'o proc)
    \<Rightarrow> (string \<Rightarrow> int \<Rightarrow> int \<Rightarrow> int \<Rightarrow> request \<Rightarrow> 'o proc) \<Rightarrow> 'o proc" where
  "aget_main cfg opts optind argv junk cwd rl resume http ftp =
     pbind cfg (\<lambda>(cf, made).
       let ph = c_str (http_proxyhost cf); pp = http_proxyport cf in
       pbind (main_request cf opts optind argv junk cwd) (main_job rl resume (http ph pp) (ftp ph pp)))"

section \<open>The local file\<close>

lemma strncpy_at_end:
  assumes "length s \<le> n" "length d + n \<le> length (d @ e)"
  shows "strncpy_at (d @ e) (length d) s n = Some (d @ s @ replicate (n - length s) NUL @ drop n e)"
  using assms by (simp add: strncpy_at_def strncpy_def)

lemma full_name_fits:
  assumes "length junk = 8192" "NUL \<notin> set cwd" "NUL \<notin> set lf" "length cwd + length lf < 8188"
  shows "full_name junk cwd lf = Some (cwd @ ''/'' @ lf)"
proof -
  let ?e = "NUL # drop (Suc (length cwd)) junk"
  have le: "length cwd + length ?e = 8192" using assms by simp
  have s1: "strlen (cwd @ ?e) = Some (length cwd)" using assms(2) by (rule strlen_append)
  have "strncpy_at (cwd @ ?e) (length cwd) ''/'' (8192 - length cwd - 2) = Some (cwd @ ''/'' @ replicate (8192 - length cwd - 2 - length ''/'') NUL @ drop (8192 - length cwd - 2) ?e)"
    using assms le by (intro strncpy_at_end) simp_all
  moreover obtain m where m: "8192 - length cwd - 2 - length ''/'' = Suc m" "Suc m = 8189 - length cwd" using assms(4) by (cases "8189 - length cwd") auto
  moreover have "replicate (8189 - length cwd) NUL = NUL # replicate m NUL" using m(2) [symmetric] by simp
  ultimately have c1: "strncpy_at (cwd @ ?e) (length cwd) ''/'' (8192 - length cwd - 2)
      = Some ((cwd @ ''/'') @ NUL # replicate m NUL @ drop (8192 - length cwd - 2) ?e)" by simp
  let ?z = "NUL # replicate m NUL @ drop (8192 - length cwd - 2) ?e"
  have lz: "length ?z = 8191 - length cwd" using m(2) assms by simp
  have s2: "strlen ((cwd @ ''/'') @ ?z) = Some (length cwd + 1)" using strlen_append [of "cwd @ ''/''"] assms(2) by simp
  have c2: "strncpy_at ((cwd @ ''/'') @ ?z) (length (cwd @ ''/'')) lf (8192 - (length cwd + 1) - 3)
      = Some ((cwd @ ''/'') @ lf @ replicate (8192 - (length cwd + 1) - 3 - length lf) NUL @ drop (8192 - (length cwd + 1) - 3) ?z)"
    using assms lz by (intro strncpy_at_end) simp_all
  obtain k where k: "8192 - (length cwd + 1) - 3 - length lf = Suc k" using assms(4) by (cases "8188 - length cwd - length lf") auto
  have c3: "str_of ((cwd @ ''/'') @ lf @ replicate (Suc k) NUL @ y) = Some (cwd @ ''/'' @ lf)" for y
    using assms(2,3) c_str_append [of "cwd @ ''/'' @ lf"] by (simp add: str_of_def)
  have "length cwd < 8190" "\<not> 8192 < length cwd + 2" "\<not> 8192 < length cwd + 1 + 3" using assms(4) by simp_all
  then show ?thesis using c2 unfolding full_name_def k by (simp add: s1 [simplified] c1 [simplified] s2 [simplified] c3 [simplified])
qed

lemma main_lfile_named:
  assumes "length junk = 8192" "NUL \<notin> set cwd" "NUL \<notin> set f" "length cwd + length f < 8188" "f \<noteq> []"
    and "lfile r = replicate 8192 NUL" "rfile r = f @ NUL # replicate (8192 - Suc (length f)) NUL"
  shows "main_lfile junk cwd r = Some (r\<lparr>lfile := (cwd @ ''/'' @ f) @ replicate (8192 - length (cwd @ ''/'' @ f)) NUL\<rparr>)"
proof -
  have l0: "strlen (lfile r) = Some 0" by (simp add: assms(6) strlen_def c_str_def)
  have rf: "str_of (rfile r) = Some f" using assms(3,7) by (simp add: str_of_def)
  have cp: "strncpy (lfile r) t 8190 = Some (t @ replicate (8192 - length t) NUL)" if "length t \<le> 8190" for t
  proof -
    have "8192 - length t = (8190 - length t) + 2" using that by simp
    then have "replicate (8190 - length t) NUL @ replicate 2 NUL = replicate (8192 - length t) NUL" by (simp only: replicate_add)
    then show ?thesis using that by (simp add: assms(6) strncpy_def)
  qed
  obtain k where k: "8192 - length f = Suc k" using assms(4) by (cases "8192 - length f") auto
  have so: "str_of (f @ replicate (8192 - length f) NUL) = Some f" using assms(3) by (simp add: k str_of_def)
  have "strncpy (lfile r) f 8190 = Some (f @ replicate (8192 - length f) NUL)" using assms(4) by (intro cp) simp
  moreover have "strncpy (lfile r) (cwd @ ''/'' @ f) 8190 = Some ((cwd @ ''/'' @ f) @ replicate (8192 - length (cwd @ ''/'' @ f)) NUL)"
    using assms(4) by (intro cp) simp
  ultimately show ?thesis
    unfolding main_lfile_def l0 bind.bind_lunit by (simp only: simp_thms if_True rf bind.bind_lunit so full_name_fits [OF assms(1-4)])
qed

section \<open>A request\<close>

text \<open>The request for the path \<open>p\<close> on the host \<open>h\<close>, as the network sees it.\<close>

definition url_request :: "string \<Rightarrow> string \<Rightarrow> request" where
  "url_request h p = blank_req\<lparr>host := h @ NUL # replicate (1024 - Suc (length h)) NUL, url := p @ NUL # replicate (1024 - Suc (length p)) NUL,
     port := 80, proto := PROTO_HTTP\<rparr>"

definition same_target :: "request \<Rightarrow> request \<Rightarrow> bool" where
  "same_target r q \<longleftrightarrow> host r = host q \<and> url r = url q \<and> ip r = ip q \<and> port r = port q \<and> proto r = proto q"

lemma main_request_http:
  assumes h: "\<forall>c \<in> set h. c \<noteq> CHR ''/'' \<and> c \<noteq> CHR '':'' \<and> c \<noteq> NUL" "length h < 1024"
    and p: "dir @ ''/'' @ f = CHR ''/'' # q" "CHR ''/'' \<notin> set f" "NUL \<notin> set dir" "NUL \<notin> set f" "length (dir @ ''/'' @ f) < 1024" "f \<noteq> []"
    and c: "length junk = 8192" "NUL \<notin> set cwd" "length cwd + length f < 8188"
  shows "\<exists>r. main_request cf [] 1 [prog, ''http://'' @ h @ dir @ ''/'' @ f] junk cwd
      = Some (Inr (r, 0, if preferredthread cf \<noteq> - 1 then preferredthread cf else 0))
    \<and> same_target r (url_request h (dir @ ''/'' @ f)) \<and> c_str (lfile r) = cwd @ ''/'' @ f \<and> NUL \<in> set (lfile r)"
proof -
  let ?path = "dir @ ''/'' @ f"
  have "''http://'' = ''http://'' \<and> PROTO_HTTP = PROTO_HTTP \<and> (80 :: int) = 80 \<or> ''http://'' = ''ftp://'' \<and> PROTO_HTTP = PROTO_FTP \<and> (80 :: int) = 21" by simp
  from parse_url_parts [OF this h p(1-5), where ftpuser = "c_str (ftpanonymoususer cf)" and ftppass = "c_str (ftpanonymouspass cf)" and pt = 0
      and lf = "lfile blank_req"] obtain user pass where
    u: "parse_url (c_str (ftpanonymoususer cf)) (c_str (ftpanonymouspass cf)) (''http://'' @ h @ dir @ ''/'' @ f @ [NUL]) (blank_req\<lparr>port := 0, lfile := lfile blank_req\<rparr>)
      = Some (Inr (blank_req\<lparr>port := (if (0 :: int) = 0 then 80 else 0), lfile := lfile blank_req, proto := PROTO_HTTP,
          host := h @ NUL # replicate (1024 - Suc (length h)) NUL, url := ?path @ NUL # replicate (1024 - Suc (length ?path)) NUL,
          rfile := f @ NUL # replicate (8192 - Suc (length f)) NUL, username := user, password := pass\<rparr>))" by blast
  define r where "r = blank_req\<lparr>port := 80, proto := PROTO_HTTP, host := h @ NUL # replicate (1024 - Suc (length h)) NUL,
    url := ?path @ NUL # replicate (1024 - Suc (length ?path)) NUL, rfile := f @ NUL # replicate (8192 - Suc (length f)) NUL, username := user, password := pass\<rparr>"
  have b: "blank_req\<lparr>port := 0, lfile := lfile blank_req\<rparr> = blank_req" by (simp add: blank_req_def)
  have u': "parse_url (c_str (ftpanonymoususer cf)) (c_str (ftpanonymouspass cf)) (''http://'' @ h @ dir @ ''/'' @ f @ [NUL]) blank_req = Some (Inr r)"
    using u unfolding b by (simp add: r_def blank_req_def)
  have rl: "lfile r = replicate 8192 NUL" "rfile r = f @ NUL # replicate (8192 - Suc (length f)) NUL" by (simp_all add: r_def blank_req_def)
  note lf = main_lfile_named [OF c(1,2) p(4) c(3) p(6) rl]
  let ?n = "cwd @ ''/'' @ f"
  obtain k where k: "8192 - length ?n = Suc k" using c(3) by (cases "8192 - length ?n") auto
  have "c_str (?n @ replicate (8192 - length ?n) NUL) = ?n" "NUL \<in> set (?n @ replicate (8192 - length ?n) NUL)"
    using c(2) p(4) c_str_append [of ?n] unfolding k by simp_all
  moreover have "main_request cf [] 1 [prog, ''http://'' @ h @ dir @ ''/'' @ f] junk cwd
      = Some (Inr (r\<lparr>lfile := ?n @ replicate (8192 - length ?n) NUL\<rparr>, 0, if preferredthread cf \<noteq> - 1 then preferredthread cf else 0))"
    using u' lf by (simp add: main_request_def main_url_def)
  moreover have "same_target (r\<lparr>lfile := ?n @ replicate (8192 - length ?n) NUL\<rparr>) (url_request h ?path)"
    by (simp add: same_target_def url_request_def r_def blank_req_def)
  ultimately show ?thesis by (intro exI [of _ "r\<lparr>lfile := ?n @ replicate (8192 - length ?n) NUL\<rparr>"]) simp
qed

section \<open>The arrays of a request\<close>

text \<open>Every array of a request has the size of its declaration.\<close>

definition request_wf :: "request \<Rightarrow> bool" where
  "request_wf r \<longleftrightarrow> length (host r) = 1024 \<and> length (url r) = 1024 \<and> length (rfile r) = 8192 \<and> length (lfile r) = 8192 \<and> length (ip r) = 16
     \<and> length (username r) = 8192 \<and> length (password r) = 8192"

lemma strncpy_length: "strncpy d s n = Some a \<Longrightarrow> length a = length d"
  by (auto simp: strncpy_def split: if_splits)

lemma revstr_length: "revstr s = Some t \<Longrightarrow> length t = length s"
proof -
  assume r: "revstr s = Some t"
  then obtain n where n: "strlen s = Some n" by (auto simp: revstr_def split: bind_splits)
  have "length (c_str s) \<le> length s" unfolding c_str_def by (rule length_takeWhile_le)
  then have "n \<le> length s" using n by (auto simp: strlen_def split: if_splits)
  then show ?thesis using r n by (auto simp: revstr_def Let_def split: if_splits dest!: strncpy_length)
qed

lemma user_loop_length: "user_loop u i s j user = Some (i', s', j', user') \<Longrightarrow> length user' = length user"
proof (induction u i s j user rule: user_loop.induct)
  case (1 u i s j user)
  from "1.prems" show ?case
    by (subst (asm) user_loop.simps) (auto split: bind_splits if_splits, metis "1.IH" wr_length)
qed

lemma pass_loop_length: "pass_loop u s k pass = Some (Inr (s', k', pass')) \<Longrightarrow> length pass' = length pass"
proof (induction u s k pass rule: pass_loop.induct)
  case (1 u s k pass)
  from "1.prems" show ?case
    by (subst (asm) pass_loop.simps) (auto split: bind_splits if_splits, metis "1.IH" wr_length)
qed

lemma path_loop_length: "path_loop u i s a = Some (Inr (i', s', b)) \<Longrightarrow> length b = length a"
proof (induction u i s a rule: path_loop.induct)
  case (1 u i s a)
  from "1.prems" show ?case
    by (subst (asm) path_loop.simps) (auto split: bind_splits if_splits, metis "1.IH" wr_length)
qed

lemma file_loop_length: "file_loop u i s a = Some (Inr (i', b)) \<Longrightarrow> length b = length a"
proof (induction u i s a rule: file_loop.induct)
  case (1 u i s a)
  from "1.prems" show ?case
    by (subst (asm) file_loop.simps) (auto split: bind_splits if_splits, metis "1.IH" wr_length)
qed

lemma credentials_wf: "credentials u i s j k r = Some (Inr (i', s', j', k', q)) \<Longrightarrow> request_wf r \<Longrightarrow> request_wf q"
proof -
  assume c: "credentials u i s j k r = Some (Inr (i', s', j', k', q))" and w: "request_wf r"
  obtain i1 s1 s2 j1 ua ub uc where us: "user_loop u i s j (username r) = Some (i1, s1, j1, ua)" "wr ua (j1 - 1) NUL = Some ub" "revstr ub = Some uc"
      "seek (CHR '':'') u s1 = Some s2"
    using c by (auto simp: credentials_def pbind_def split: option.splits sum.splits bind_splits)
  with c obtain s3 k3 pa pb where ps: "pass_loop u s2 k (password r) = Some (Inr (s3, k3, pa))" "wr pa (k3 - 1) NUL = Some pb"
      "q = r\<lparr>username := uc, password := pb\<rparr>"
    by (auto simp: credentials_def pbind_def split: option.splits sum.splits bind_splits)
  have "length uc = length (username r)" using user_loop_length [OF us(1)] wr_length [OF us(2)] revstr_length [OF us(3)] by simp
  moreover have "length pb = length (password r)" using pass_loop_length [OF ps(1)] wr_length [OF ps(2)] by simp
  ultimately show ?thesis using w ps(3) by (simp add: request_wf_def)
qed

lemma host_loop_wf:
  assumes "host_loop u i s j k r = Some y" "request_wf r" "y = Inr (i', s', q)"
  shows "request_wf q"
proof -
  have "request_wf r \<longrightarrow> (\<forall>i' s' q. y = Inr (i', s', q) \<longrightarrow> request_wf q)"
  proof (rule host_loop.raw_induct [OF _ assms(1)], intro impI allI)
    fix hl u i s j k r ua i' s' q
    assume IH: "\<And>u i s j k r y. hl u i s j k r = Some y \<Longrightarrow> request_wf r \<longrightarrow> (\<forall>i' s' q. y = Inr (i', s', q) \<longrightarrow> request_wf q)"
      and eq: "rd u s \<bind> (\<lambda>c. if c \<noteq> CHR ''/''
         then if MAXHOSTSIZ < i then Some (Inl 1)
              else (if c = CHR '':'' then credentials u i s j k r else Some (Inr (i, s, j, k, r))) \<bind>
                   (\<lambda>x. case x of Inl e \<Rightarrow> Some (Inl e)
                        | Inr (i, s, j, k, r) \<Rightarrow> rd u s \<bind> (\<lambda>c. wr (host r) i c \<bind> (\<lambda>h. hl u (i + 1) (s + 1) j k (r\<lparr>host := h\<rparr>))))
         else Some (Inr (i, s, r))) = Some ua"
      and w: "request_wf r" and ua: "ua = Inr (i', s', q)"
    obtain c where c: "rd u s = Some c" using eq by (cases "rd u s") auto
    show "request_wf q"
    proof (cases "c = CHR ''/''")
      case True
      then show ?thesis using eq c w ua by simp
    next
      case False
      define x where "x = (if c = CHR '':'' then credentials u i s j k r else Some (Inr (i, s, j, k, r)))"
      have "\<exists>i s j k r' d h. x = Some (Inr (i, s, j, k, r')) \<and> wr (host r') i d = Some h \<and> hl u (i + 1) (s + 1) j k (r'\<lparr>host := h\<rparr>) = Some ua"
        using eq c False ua unfolding x_def by (auto split: if_splits bind_splits sum.splits) blast
      then obtain i1 s1 j1 k1 r1 d h where x: "x = Some (Inr (i1, s1, j1, k1, r1))" and h: "wr (host r1) i1 d = Some h"
        and hl: "hl u (i1 + 1) (s1 + 1) j1 k1 (r1\<lparr>host := h\<rparr>) = Some ua" by blast
      have "request_wf r1" using x w credentials_wf unfolding x_def by (auto split: if_splits)
      then have "request_wf (r1\<lparr>host := h\<rparr>)" using wr_length [OF h] by (simp add: request_wf_def)
      then show ?thesis using IH [OF hl] ua by blast
    qed
  qed
  then show ?thesis using assms(2,3) by blast
qed

lemma parse_url_wf:
  assumes "parse_url fu fp u r = Some (Inr q)" "request_wf r"
  shows "request_wf q"
proof -
  obtain r1 where r1: "parse_proto u r = Some (Inr r1)" using assms(1) by (auto simp: parse_url_def pbind_def split: option.splits sum.splits)
  then have w1: "request_wf r1" using assms(2) by (auto simp: parse_proto_def request_wf_def split: if_splits)
  obtain i s r2 h ai s2 a0 a fi f0 f1 f where l: "host_loop u 0 (if proto r1 = PROTO_HTTP then 7 else 6) 0 0 r1 = Some (Inr (i, s, r2))" "wr (host r2) i NUL = Some h"
      "path_loop u 0 s (url r2) = Some (Inr (ai, s2, a0))" "wr a0 ai NUL = Some a" "file_loop u 0 (s2 - 1) (rfile r2) = Some (Inr (fi, f0))"
      "wr f0 fi NUL = Some f1" "revstr f1 = Some f" "anonymous fu fp (r2\<lparr>host := h, url := a, rfile := f\<rparr>) = Some q"
    using assms(1) r1 unfolding parse_url_def
    by (auto simp: pbind_def split: option.splits sum.splits if_splits bind_splits)
  have w2: "request_wf r2" by (rule host_loop_wf [OF l(1) w1 refl])
  have "request_wf (r2\<lparr>host := h, url := a, rfile := f\<rparr>)"
    using w2 wr_length [OF l(2)] path_loop_length [OF l(3)] wr_length [OF l(4)] file_loop_length [OF l(5)] wr_length [OF l(6)] revstr_length [OF l(7)]
    by (simp add: request_wf_def)
  then show ?thesis using l(8)
    by (auto simp: anonymous_def request_wf_def split: bind_splits if_splits dest!: strncpy_length)
qed

lemma main_opts_wf: "main_opts os (r, fs, nt) = Some (Inr (q, fs', nt')) \<Longrightarrow> request_wf r \<Longrightarrow> request_wf q"
proof (induction os arbitrary: r fs nt)
  case (Cons o1 os)
  obtain c a where o: "o1 = (c, a)" by (cases o1)
  from Cons.prems show ?case unfolding o
    by (auto simp: pbind_def request_wf_def split: if_splits option.splits sum.splits dest!: strncpy_length
        dest: Cons.IH [of "r\<lparr>port := x\<rparr>" for x] Cons.IH [of "r\<lparr>lfile := x\<rparr>" for x] Cons.IH [of r])
qed simp

lemma main_lfile_wf: "main_lfile junk cwd r = Some q \<Longrightarrow> request_wf r \<Longrightarrow> request_wf q"
  by (auto simp: main_lfile_def request_wf_def split: bind_splits if_splits dest!: strncpy_length)

lemma head_reply_wf: "head_reply r b = Some (Inr q) \<Longrightarrow> request_wf r \<Longrightarrow> request_wf q"
  by (auto simp: head_reply_def Let_def pbind_def request_wf_def split: option.splits sum.splits if_splits bind_splits)

lemma http_head_wf:
  assumes "http_head_req ph pp resolve sock conn server r = Some (Inr q)" "request_wf r"
  shows "request_wf q"
proof -
  have "\<exists>a x b. strncpy (ip r) a 15 = Some x \<and> head_reply (r\<lparr>ip := x\<rparr>) b = Some (Inr q)"
    using assms(1) unfolding http_head_req_def Let_def pbind_def
    by (auto split: option.splits sum.splits if_splits bind_splits) blast+
  then obtain a x b where x: "strncpy (ip r) a 15 = Some x" "head_reply (r\<lparr>ip := x\<rparr>) b = Some (Inr q)" by blast
  have "request_wf (r\<lparr>ip := x\<rparr>)" using assms(2) strncpy_length [OF x(1)] by (simp add: request_wf_def)
  then show ?thesis by (rule head_reply_wf [OF x(2)])
qed

lemma ftp_head_wf:
  assumes "ftp_head_req resolve e srv r = Some (Inr (q, c))" "request_wf r"
  shows "request_wf q"
proof -
  have "\<exists>a x t n. strncpy (ip r) a 15 = Some x \<and> q = r\<lparr>ip := x, ftp_server_type := t, clength := n\<rparr>"
    using assms(1) unfolding ftp_head_req_def Let_def pbind_def
    by (auto split: option.splits sum.splits if_splits bind_splits) blast+
  then obtain a x t n where x: "strncpy (ip r) a 15 = Some x" "q = r\<lparr>ip := x, ftp_server_type := t, clength := n\<rparr>" by blast
  then show ?thesis using assms(2) strncpy_length [OF x(1)] by (simp add: request_wf_def)
qed



section \<open>A job without a log\<close>

lemma scan_back_total: "0 \<le> s \<Longrightarrow> s < int (length lf) \<Longrightarrow> \<exists>k. scan_back lf s = Some k"
proof (induction lf s rule: scan_back.induct)
  case (1 lf s)
  then show ?case by (subst scan_back.simps) (auto simp: rd_def)
qed

lemma no_log:
  assumes "NUL \<in> set (lfile r)" "c_str (lfile r) \<noteq> []"
  shows "read_log home readable removable r Map.empty = Some (Inr (None, Map.empty))"
proof -
  have l: "str_of (lfile r) = Some (c_str (lfile r))" using assms(1) by (simp add: str_of_def)
  obtain k where "scan_back (c_str (lfile r)) (int (length (c_str (lfile r))) - 1) = Some k"
    using scan_back_total [of "int (length (c_str (lfile r))) - 1" "c_str (lfile r)"] assms(2) by (cases "c_str (lfile r)") auto
  then show ?thesis by (cases home) (simp_all add: read_log_def log_here_def log_home_def open_log_def l)
qed

text \<open>The head request and the download threads see of a request only its target.\<close>

lemma same_target_head:
  assumes "same_target r q"
  shows "head_served ph pp resolve conn server r a n \<longleftrightarrow> head_served ph pp resolve conn server q a n"
    and "sendable (r\<lparr>ip := x, clength := n'\<rparr>) proxy \<longleftrightarrow> sendable (q\<lparr>ip := x, clength := n'\<rparr>) proxy"
  using assms by (simp_all add: same_target_def head_served_def head_text_def sendable_def request_text_def proxy_url_def Let_def)

end
