(* ===== verification/Radix.thy ===== *)
theory Radix
  imports CText
begin

text \<open>
  The sequential parts of the parallel radix sort \<^verbatim>\<open>papps/splash2/codes/kernels/radix/radix.C\<close>: the options, the number
  of digits, the partition of keys and ranks among the processors, the generator of the keys and the test of the
  result.  Values of type \<^verbatim>\<open>long\<close> that are never negative are natural numbers.  The generator computes in
  \<^verbatim>\<open>double\<close> with integers; \<open>dbl\<close> makes every result that a double may not hold exactly undefined.
\<close>

section \<open>The code\<close>

definition MAX_PROCESSORS :: nat where "MAX_PROCESSORS = 64"

definition MAX_RADIX :: nat where "MAX_RADIX = 4096"

text \<open>\<^verbatim>\<open>log_2\<close>.\<close>

function log_loop :: "nat \<Rightarrow> nat \<Rightarrow> nat \<Rightarrow> bool \<Rightarrow> nat \<times> nat" where
  "log_loop number cumulative out done =
     (if cumulative < number \<and> \<not> done \<and> out < 50 then
        (if cumulative = number then log_loop number cumulative out True else log_loop number (cumulative * 2) (out + 1) done)
      else (cumulative, out))"
  by pat_completeness auto
termination
  by (relation "measure (\<lambda>(n, c, out, d). 50 - out)") auto

declare log_loop.simps [simp del]

definition log_2 :: "nat \<Rightarrow> int" where
  "log_2 number = (let (cumulative, out) = log_loop number 1 0 False in if cumulative = number then int out else - 1)"

text \<open>\<^verbatim>\<open>get_max_digits\<close>: the loop does not end for radix 1; \<open>None\<close> also for a division by zero.\<close>

partial_function (option) digits_loop :: "nat \<Rightarrow> nat \<Rightarrow> nat \<Rightarrow> nat option" where
  "digits_loop rad key_val temp =
     (if rad = 0 then None
      else let key_val = key_val div rad in if key_val = 0 then Some temp else digits_loop rad key_val (temp + 1))"

definition get_max_digits :: "nat \<Rightarrow> nat \<Rightarrow> nat option" where
  "get_max_digits rad max_key = digits_loop rad max_key 1"

text \<open>\<^verbatim>\<open>get_log2_radix\<close> and \<^verbatim>\<open>get_log2_keys\<close>, which differ in the bound \<open>m\<close> of the loop; \<open>Inl\<close> is \<^verbatim>\<open>exit\<close>.\<close>

function log2_search :: "nat \<Rightarrow> nat \<Rightarrow> nat \<Rightarrow> nat \<Rightarrow> int + nat" where
  "log2_search m x cumulative out =
     (if out < m then (if cumulative = x then Inr out else log2_search m x (cumulative * 2) (out + 1)) else Inl (- 1))"
  by pat_completeness auto
termination
  by (relation "measure (\<lambda>(m, x, c, out). m - out)") auto

declare log2_search.simps [simp del]

definition get_log2_radix :: "nat \<Rightarrow> int + nat" where "get_log2_radix rad = log2_search 20 rad 1 0"

definition get_log2_keys :: "nat \<Rightarrow> int + nat" where "get_log2_keys num_keys = log2_search 30 num_keys 1 0"

text \<open>The loops of \<^verbatim>\<open>main\<close> that fill \<^verbatim>\<open>key_partition\<close> and \<^verbatim>\<open>rank_partition\<close>; the array has one more entry than there are processors.\<close>

function partition_loop :: "nat \<Rightarrow> nat \<Rightarrow> nat \<Rightarrow> nat \<Rightarrow> nat \<Rightarrow> nat list \<Rightarrow> nat list option" where
  "partition_loop procs amount p sum_i sum_f a =
     (if procs = 0 then None
      else if sum_i < amount then
        do { a \<leftarrow> wr a (int p) sum_i;
             let sum_i = sum_i + amount div procs;
             let sum_f = sum_f + amount mod procs;
             partition_loop procs amount (p + 1) (sum_i + sum_f div procs) (sum_f mod procs) a }
      else wr a (int p) amount)"
  by pat_completeness auto
termination
proof (relation "measure (\<lambda>(procs, amount, p, sum_i, sum_f, a). amount * procs - (sum_i * procs + sum_f mod procs))", simp, goal_cases)
  case (1 procs amount p si sf a a' si' sf')
  have "(si + amount div procs + (sf + amount mod procs) div procs) * procs + (sf + amount mod procs) mod procs = si * procs + sf + amount"
    by (simp add: algebra_simps)
  moreover have "sf mod procs \<le> sf" "(sf + amount mod procs) mod procs mod procs = (sf + amount mod procs) mod procs" by simp_all
  moreover have "si * procs + sf mod procs < amount * procs"
  proof -
    have "sf mod procs < procs" using 1 by simp
    then have "si * procs + sf mod procs < Suc si * procs" by simp
    also have "\<dots> \<le> amount * procs" using 1 by (intro mult_le_mono1) simp
    finally show ?thesis .
  qed
  moreover have "si * procs + sf mod procs < si * procs + sf + amount"
    using 1 mod_less_eq_dividend [of sf procs] by linarith
  ultimately show ?case using 1 by (simp add: diff_less_mono2)
qed

declare partition_loop.simps [simp del]

definition partition_of :: "nat \<Rightarrow> nat \<Rightarrow> nat list option" where
  "partition_of procs amount = partition_loop procs amount 0 0 0 (replicate (procs + 1) 0)"

text \<open>The generator.\<close>

definition RADIX_S :: nat where "RADIX_S = 8388608"

definition RADIX :: nat where "RADIX = 70368744177664"

definition SEED :: nat where "SEED = 314159265"

definition RATIO :: nat where "RATIO = 1220703125"

definition dbl :: "nat \<Rightarrow> nat option" where
  "dbl x = (if x \<le> 2 ^ 53 then Some x else None)"

definition product_mod_46 :: "nat \<Rightarrow> nat \<Rightarrow> nat option" where
  "product_mod_46 t1 t2 =
     do { let a1 = t1 div RADIX_S;
          let a2 = t1 - a1 * RADIX_S;
          let b1 = t2 div RADIX_S;
          let b2 = t2 - b1 * RADIX_S;
          x \<leftarrow> dbl (a1 * b2);
          y \<leftarrow> dbl (a2 * b1);
          t1 \<leftarrow> dbl (x + y);
          let t2 = t1 div RADIX_S;
          let t2 = t1 - t2 * RADIX_S;
          x \<leftarrow> dbl (t2 * RADIX_S);
          y \<leftarrow> dbl (a2 * b2);
          t1 \<leftarrow> dbl (x + y);
          let t2 = t1 div RADIX;
          Some (t1 - t2 * RADIX) }"

fun ran_num_init :: "nat \<Rightarrow> nat \<Rightarrow> nat \<Rightarrow> nat option" where
  "ran_num_init k b t =
     (if k \<noteq> 0 then
        do { let j = k div 2;
             b \<leftarrow> (if j * 2 \<noteq> k then product_mod_46 b t else Some b);
             t \<leftarrow> product_mod_46 t t;
             ran_num_init j b t }
      else Some b)"

declare ran_num_init.simps [simp del]

text \<open>\<^verbatim>\<open>init\<close>.  \<^verbatim>\<open>sum\<close> is kept as the multiple of 1 / RADIX; \<open>scale s\<close> is \<^verbatim>\<open>(long) ((sum / 4.0) * max_key)\<close>, the only
  expression that rounds.\<close>

function init_loop :: "(nat \<Rightarrow> int) \<Rightarrow> nat \<Rightarrow> nat \<Rightarrow> nat \<Rightarrow> nat \<Rightarrow> int list \<Rightarrow> int list option" where
  "init_loop scale i key_stop ran_num acc key_from =
     (if i < key_stop then
        do { ran_num \<leftarrow> product_mod_46 ran_num RATIO;
             acc \<leftarrow> dbl (acc + ran_num);
             ran_num \<leftarrow> product_mod_46 ran_num RATIO;
             acc \<leftarrow> dbl (acc + ran_num);
             ran_num \<leftarrow> product_mod_46 ran_num RATIO;
             acc \<leftarrow> dbl (acc + ran_num);
             key_from \<leftarrow> wr key_from (int i) (scale acc);
             ran_num \<leftarrow> product_mod_46 ran_num RATIO;
             init_loop scale (i + 1) key_stop ran_num ran_num key_from }
      else Some key_from)"
  by pat_completeness auto
termination
  by (relation "measure (\<lambda>(scale, i, stop, r, s, a). stop - i)") auto

declare init_loop.simps [simp del]

definition init :: "(nat \<Rightarrow> int) \<Rightarrow> nat \<Rightarrow> nat \<Rightarrow> int list \<Rightarrow> int list option" where
  "init scale key_start key_stop key_from =
     do { ran_num \<leftarrow> ran_num_init (key_start * 4 + 1) SEED RATIO;
          init_loop scale key_start key_stop ran_num ran_num key_from }"

text \<open>\<^verbatim>\<open>test_sort\<close>: the number of keys out of place.\<close>

fun test_sort :: "int list \<Rightarrow> nat" where
  "test_sort (a # b # ks) = (if a > b then 1 else 0) + test_sort (b # ks)"
| "test_sort ks = 0"

section \<open>Logarithms and digits\<close>

lemma log_loop_power: "i \<le> m \<Longrightarrow> m \<le> 50 \<Longrightarrow> log_loop (2 ^ m) (2 ^ i) i False = (2 ^ m, m)"
proof (induction "m - i" arbitrary: i)
  case 0
  then have "i = m" by simp
  then show ?case by (simp add: log_loop.simps)
next
  case (Suc d)
  then have i: "i < m" by simp
  then have "(2::nat) ^ i < 2 ^ m" by simp
  then show ?case using Suc.hyps(1) [of "Suc i"] Suc.hyps(2) Suc.prems i by (subst log_loop.simps) (simp add: mult.commute)
qed

lemma log_2_power: "m \<le> 50 \<Longrightarrow> log_2 (2 ^ m) = int m"
  using log_loop_power [of 0 m] by (simp add: log_2_def)

lemma log_loop_result: "log_loop n (2 ^ i) i False = (c, out) \<Longrightarrow> c = 2 ^ out"
proof (induction "50 - i" arbitrary: i)
  case 0
  then show ?case by (subst (asm) log_loop.simps) auto
next
  case (Suc d)
  show ?case
  proof (cases "2 ^ i < n \<and> i < 50")
    case True
    then show ?thesis using Suc.hyps(1) [of "Suc i"] Suc.hyps(2) Suc.prems by (subst (asm) log_loop.simps) (auto simp: mult.commute)
  next
    case False
    then have "log_loop n (2 ^ i) i False = (2 ^ i, i)" by (subst log_loop.simps) auto
    then show ?thesis using Suc.prems by simp
  qed
qed

lemma log_2_only_power: "log_2 n \<noteq> - 1 \<Longrightarrow> \<exists>m. n = 2 ^ m \<and> log_2 n = int m"
  using log_loop_result [of n 0] by (auto simp: log_2_def split: prod.splits if_splits)

lemma digits_loop_ends:
  assumes "2 \<le> rad"
  shows "\<exists>d. digits_loop rad kv temp = Some (temp + d) \<and> kv < rad ^ Suc d \<and> (d = 0 \<or> rad ^ d \<le> kv)"
proof (induction kv arbitrary: temp rule: less_induct)
  case (less kv)
  show ?case
  proof (cases "kv div rad = 0")
    case True
    then have "kv < rad" using assms by (simp add: div_eq_0_iff)
    then show ?thesis using True assms by (subst digits_loop.simps) auto
  next
    case False
    then have "kv div rad < kv" using assms by (intro div_less_dividend) (auto intro: Nat.gr0I)
    from less [OF this, of "temp + 1"] obtain d where
      d: "digits_loop rad (kv div rad) (temp + 1) = Some (temp + 1 + d)" "kv div rad < rad ^ Suc d" "d = 0 \<or> rad ^ d \<le> kv div rad" by blast
    have "digits_loop rad kv temp = Some (temp + Suc d)" using d(1) False assms by (subst digits_loop.simps) simp
    moreover have "kv < rad ^ Suc (Suc d)" using d(2) assms by (simp add: div_less_iff_less_mult mult.commute mult.left_commute)
    moreover have "rad ^ Suc d \<le> kv"
    proof -
      have "rad ^ d \<le> kv div rad" using d(3) False by (cases "d = 0") auto
      then have "rad ^ d * rad \<le> kv" using assms by (simp add: less_eq_div_iff_mult_less_eq)
      then show ?thesis by (simp add: mult.commute)
    qed
    ultimately show ?thesis by blast
  qed
qed

lemma get_max_digits_enough:
  assumes "2 \<le> rad"
  shows "\<exists>d. get_max_digits rad m = Some d \<and> 0 < d \<and> m < rad ^ d"
  using digits_loop_ends [OF assms, of m 1] by (auto simp: get_max_digits_def)

lemma digits_loop_one:
  assumes "digits_loop rad kv temp = Some d" "rad = 1" "0 < kv"
  shows False
  using assms(2,3) by (induction rule: digits_loop.raw_induct [OF _ assms(1)]) (auto simp: Let_def split: if_splits)

text \<open>The option \<^verbatim>\<open>-r1\<close>, which is accepted, makes the program run for ever.\<close>

lemma radix_one_hangs: "0 < m \<Longrightarrow> get_max_digits 1 m = None"
  using digits_loop_one [of 1 m 1] by (cases "get_max_digits 1 m") (auto simp: get_max_digits_def)

section \<open>The partition\<close>

lemma partition_loop_result:
  assumes "0 < procs" "0 < amount" "p \<le> procs" "length a = procs + 1"
  shows "partition_loop procs amount p (p * amount div procs) (p * amount mod procs) a
    = Some (take p a @ map (\<lambda>q. q * amount div procs) [p ..< procs] @ [amount])"
  using assms(3,4)
proof (induction "procs - p" arbitrary: p a)
  case 0
  then have p: "p = procs" by simp
  then show ?case using 0 assms(1) by (subst partition_loop.simps) (simp add: list_update_append1 take_Suc_conv_app_nth list_eq_iff_nth_eq nth_append nth_list_update)
next
  case (Suc d)
  then have p: "p < procs" by simp
  then have lt: "p * amount div procs < amount" using assms by (simp add: div_less_iff_less_mult mult.commute)
  let ?f = "p * amount mod procs + amount mod procs"
  have e: "p * amount div procs + amount div procs + ?f div procs = Suc p * amount div procs" "?f mod procs = Suc p * amount mod procs"
  proof -
    have "Suc p * amount = (p * amount div procs + amount div procs) * procs + ?f" by (simp add: algebra_simps)
    then show "p * amount div procs + amount div procs + ?f div procs = Suc p * amount div procs" "?f mod procs = Suc p * amount mod procs"
      using assms(1) by simp_all
  qed
  let ?a = "a[p := p * amount div procs]"
  have "partition_loop procs amount p (p * amount div procs) (p * amount mod procs) a
      = partition_loop procs amount (Suc p) (Suc p * amount div procs) (Suc p * amount mod procs) ?a"
    using lt assms(1) p Suc.prems(2) by (subst partition_loop.simps) (simp add: e del: mult_Suc)
  also have "\<dots> = Some (take (Suc p) ?a @ map (\<lambda>q. q * amount div procs) [Suc p ..< procs] @ [amount])"
    using Suc.hyps(1) [of "Suc p" ?a] Suc.hyps(2) Suc.prems p by simp
  also have "take (Suc p) ?a = take p a @ [p * amount div procs]" using p Suc.prems by (simp add: take_Suc_conv_app_nth)
  finally show ?case using p by (simp add: upt_conv_Cons)
qed

lemma partition_of_eq:
  assumes "0 < procs" "0 < amount"
  shows "partition_of procs amount = Some (map (\<lambda>q. q * amount div procs) [0 ..< procs + 1])"
  using partition_loop_result [OF assms, of 0 "replicate (procs + 1) 0"] assms by (simp add: partition_of_def)

section \<open>The keys\<close>

lemma dbl_small [simp]: "x \<le> 2 ^ 53 \<Longrightarrow> dbl x = Some x"
  by (simp add: dbl_def)

text \<open>The product is exact: no intermediate result needs more than the 53 bits of a double.\<close>

lemma product_mod_46_eq:
  assumes "t1 < RADIX" "t2 < RADIX"
  shows "product_mod_46 t1 t2 = Some (t1 * t2 mod RADIX)"
proof -
  define S a1 a2 b1 b2 where "S = RADIX_S" and "a1 = t1 div RADIX_S" and "a2 = t1 mod RADIX_S" and "b1 = t2 div RADIX_S" and "b2 = t2 mod RADIX_S"
  have SS: "RADIX = S * S" "S = 2 ^ 23" by (simp_all add: RADIX_def RADIX_S_def S_def)
  have m: "t1 - a1 * RADIX_S = a2" "t2 - b1 * RADIX_S = b2" by (simp_all add: a1_def b1_def a2_def b2_def minus_div_mult_eq_mod)
  have lt: "a1 < S" "a2 < S" "b1 < S" "b2 < S"
    using assms unfolding SS(1) a1_def b1_def a2_def b2_def S_def by (simp_all add: less_mult_imp_div_less) (simp_all add: RADIX_S_def)
  have le: "x * y \<le> 2 ^ 46" if "x < S" "y < S" for x y
    using mult_le_mono [of x "2 ^ 23" y "2 ^ 23"] that SS(2) by simp
  define z where "z = a1 * b2 + a2 * b1"
  have z: "z - z div RADIX_S * RADIX_S = z mod S" by (simp add: S_def minus_div_mult_eq_mod)
  have zS: "z mod S < S" by (simp add: SS(2))
  have zd: "z mod S * RADIX_S \<le> 2 ^ 46" using zS SS(2) by (simp add: RADIX_S_def)
  have d: "dbl (a1 * b2) = Some (a1 * b2)" "dbl (a2 * b1) = Some (a2 * b1)" "dbl z = Some z" "dbl (z mod S * RADIX_S) = Some (z mod S * RADIX_S)"
      "dbl (a2 * b2) = Some (a2 * b2)" "dbl (z mod S * RADIX_S + a2 * b2) = Some (z mod S * RADIX_S + a2 * b2)"
    using le [OF lt(1,4)] le [OF lt(2,3)] le [OF lt(2,4)] zd by (auto simp: z_def intro!: dbl_small)
  have "product_mod_46 t1 t2 = Some ((z mod S * S + a2 * b2) mod RADIX)"
    unfolding product_mod_46_def Let_def a1_def [symmetric] b1_def [symmetric] m d bind.bind_lunit z_def [symmetric] z
    by (simp add: S_def minus_div_mult_eq_mod)
  moreover have "(z mod S * S + a2 * b2) mod (S * S) = t1 * t2 mod (S * S)"
  proof -
    have "t1 = a1 * S + a2" "t2 = b1 * S + b2" by (simp_all add: a1_def a2_def b1_def b2_def S_def)
    then have "t1 * t2 = z * S + a2 * b2 + a1 * b1 * (S * S)" by (simp add: z_def algebra_simps)
    then have "t1 * t2 mod (S * S) = (z * S + a2 * b2) mod (S * S)" by simp
    also have "\<dots> = (z * S mod (S * S) + a2 * b2) mod (S * S)" by (rule mod_add_left_eq [symmetric])
    also have "z * S mod (S * S) = z mod S * S" by (simp add: mult_mod_left)
    finally show ?thesis by simp
  qed
  ultimately show ?thesis by (simp add: SS(1))
qed

lemma ran_num_init_eq:
  assumes "b < RADIX" "t < RADIX"
  shows "ran_num_init k b t = Some (b * t ^ k mod RADIX)"
  using assms
proof (induction k arbitrary: b t rule: less_induct)
  case (less k)
  have pos: "0 < RADIX" by (simp add: RADIX_def)
  show ?case
  proof (cases "k = 0")
    case True
    then show ?thesis using less.prems by (subst ran_num_init.simps) simp
  next
    case False
    define b' where "b' = (if odd k then b * t mod RADIX else b)"
    have k2: "k div 2 * 2 \<noteq> k \<longleftrightarrow> odd k" by presburger
    have b': "(if k div 2 * 2 \<noteq> k then product_mod_46 b t else Some b) = Some b'" "b' < RADIX"
      unfolding k2 using product_mod_46_eq [OF less.prems] less.prems pos by (auto simp: b'_def)
    have "ran_num_init k b t = ran_num_init (k div 2) b' (t * t mod RADIX)"
      using False b'(1) product_mod_46_eq [OF less.prems(2,2)] by (subst ran_num_init.simps) (simp add: Let_def)
    also have "\<dots> = Some (b' * (t * t mod RADIX) ^ (k div 2) mod RADIX)"
      using less.IH [of "k div 2"] False b'(2) pos by simp
    also have "b' * (t * t mod RADIX) ^ (k div 2) mod RADIX = b * t ^ k mod RADIX"
    proof -
      have "b' mod RADIX = b * t ^ (k mod 2) mod RADIX" by (cases "odd k") (auto simp: b'_def odd_iff_mod_2_eq_one)
      then have "b' * (t * t mod RADIX) ^ (k div 2) mod RADIX = (b * t ^ (k mod 2)) * (t * t) ^ (k div 2) mod RADIX"
        by (metis mod_mult_eq power_mod)
      also have "(t * t) ^ (k div 2) = t ^ (2 * (k div 2))" by (simp only: power_mult power2_eq_square)
      also have "(b * t ^ (k mod 2)) * t ^ (2 * (k div 2)) = b * t ^ (k mod 2 + 2 * (k div 2))" by (simp only: power_add mult.assoc)
      also have "k mod 2 + 2 * (k div 2) = k" by simp
      finally show ?thesis .
    qed
    finally show ?thesis .
  qed
qed

text \<open>The random numbers, and the key at a place of the array.\<close>

definition ran :: "nat \<Rightarrow> nat" where
  "ran k = SEED * RATIO ^ k mod RADIX"

definition key_at :: "(nat \<Rightarrow> int) \<Rightarrow> nat \<Rightarrow> int" where
  "key_at scale i = scale (ran (4 * i + 1) + ran (4 * i + 2) + ran (4 * i + 3) + ran (4 * i + 4))"

lemma ran_less: "ran k < RADIX" "ran k \<le> 2 ^ 46"
proof -
  show "ran k < RADIX" by (simp add: ran_def RADIX_def)
  then show "ran k \<le> 2 ^ 46" by (simp add: RADIX_def)
qed

lemma ran_next: "product_mod_46 (ran k) RATIO = Some (ran (Suc k))"
proof -
  have "product_mod_46 (ran k) RATIO = Some (ran k * RATIO mod RADIX)" using ran_less(1) by (intro product_mod_46_eq) (simp_all add: RATIO_def RADIX_def)
  also have "ran k * RATIO mod RADIX = ran (Suc k)" by (simp add: ran_def mod_mult_right_eq ac_simps)
  finally show ?thesis .
qed

lemma init_loop_keys:
  assumes "i \<le> stop" "stop \<le> length a"
  shows "init_loop scale i stop (ran (4 * i + 1)) (ran (4 * i + 1)) a = Some (take i a @ map (key_at scale) [i ..< stop] @ drop stop a)"
  using assms
proof (induction "stop - i" arbitrary: i a)
  case 0
  then show ?case by (subst init_loop.simps) simp
next
  case (Suc d)
  then have i: "i < stop" by simp
  have n: "product_mod_46 (ran (4 * i + 1)) RATIO = Some (ran (4 * i + 2))" "product_mod_46 (ran (4 * i + 2)) RATIO = Some (ran (4 * i + 3))"
      "product_mod_46 (ran (4 * i + 3)) RATIO = Some (ran (4 * i + 4))" "product_mod_46 (ran (4 * i + 4)) RATIO = Some (ran (4 * Suc i + 1))"
    using ran_next [of "4 * i + 1"] ran_next [of "4 * i + 2"] ran_next [of "4 * i + 3"] ran_next [of "4 * i + 4"] by (simp_all add: eval_nat_numeral)
  define s1 s2 s3 s4 where "s1 = ran (4 * i + 1)" and "s2 = ran (4 * i + 2)" and "s3 = ran (4 * i + 3)" and "s4 = ran (4 * i + 4)"
  have s: "s1 \<le> 2 ^ 46" "s2 \<le> 2 ^ 46" "s3 \<le> 2 ^ 46" "s4 \<le> 2 ^ 46" by (simp_all only: s1_def s2_def s3_def s4_def ran_less(2))
  have d: "dbl (s1 + s2) = Some (s1 + s2)" "dbl (s1 + s2 + s3) = Some (s1 + s2 + s3)" "dbl (s1 + s2 + s3 + s4) = Some (s1 + s2 + s3 + s4)"
    using s by (auto intro!: dbl_small)
  have k: "scale (s1 + s2 + s3 + s4) = key_at scale i" by (simp only: key_at_def s1_def s2_def s3_def s4_def)
  have "init_loop scale i stop s1 s1 a = init_loop scale (Suc i) stop (ran (4 * Suc i + 1)) (ran (4 * Suc i + 1)) (a[i := key_at scale i])"
    using i Suc.prems(2) d n unfolding s1_def [symmetric] s2_def [symmetric] s3_def [symmetric] s4_def [symmetric]
    by (subst init_loop.simps) (simp add: k)
  also have "\<dots> = Some (take (Suc i) (a[i := key_at scale i]) @ map (key_at scale) [Suc i ..< stop] @ drop stop (a[i := key_at scale i]))"
    using Suc.hyps(1) [of "Suc i" "a[i := key_at scale i]"] Suc.hyps(2) Suc.prems i by simp
  also have "take (Suc i) (a[i := key_at scale i]) = take i a @ [key_at scale i]" using i Suc.prems by (simp add: take_Suc_conv_app_nth)
  finally show ?case using i unfolding s1_def by (simp add: upt_conv_Cons)
qed

lemma init_keys:
  assumes "key_start \<le> key_stop" "key_stop \<le> length a"
  shows "init scale key_start key_stop a = Some (take key_start a @ map (key_at scale) [key_start ..< key_stop] @ drop key_stop a)"
proof -
  have "ran_num_init (key_start * 4 + 1) SEED RATIO = Some (ran (4 * key_start + 1))"
    using ran_num_init_eq [of SEED RATIO "key_start * 4 + 1"] by (simp add: ran_def SEED_def RATIO_def RADIX_def mult.commute)
  then show ?thesis using init_loop_keys [OF assms] by (simp add: init_def)
qed

lemma test_sort_sorted: "test_sort ks = 0 \<longleftrightarrow> sorted ks"
  by (induction ks rule: test_sort.induct) (auto, fastforce)

text \<open>
  C33. The keys do not depend on the number of processors: \<^verbatim>\<open>init\<close> of two parts, each starting from its own jump into the sequence of
  random numbers by \<^verbatim>\<open>ran_num_init\<close>, fills the array as \<^verbatim>\<open>init\<close> of the whole does.
\<close>

theorem init_parts:
  assumes "start \<le> m" "m \<le> stop" "stop \<le> length a"
  shows "do { b \<leftarrow> init scale start m a; init scale m stop b } = init scale start stop a"
proof -
  have "[start ..< stop] = [start ..< m] @ [m ..< stop]" using upt_add_eq_append [of start m "stop - m"] assms by simp
  then show ?thesis
    using assms init_keys [of start m a scale] init_keys [of start stop a scale]
      init_keys [of m stop "take start a @ map (key_at scale) [start ..< m] @ drop m a" scale] by simp
qed

lemma init_parts_witness:
  "do { b \<leftarrow> init int 1 2 [0, 0, 0, 0]; init int 2 4 b } = init int 1 4 [0, 0, 0, 0]"
  by (rule init_parts) simp_all

end
