(* ===== verification/Phases.thy ===== *)
theory Phases
  imports Main
begin

text \<open>
  Programs whose threads meet at barriers, as the SPLASH-2 programs do.  A step of a thread does something, is blocked, or faults.
  The locale \<open>barrier_phases\<close> is the contract of such a program: an invariant for every phase between two barriers that
  the steps of the phase keep, and that gives the invariant of the next phase once all threads wait.  From it follow,
  for every schedule, that no step faults, that runs are bounded, and that a run that cannot go on has ended.
\<close>

datatype 'a outcome = Fault | Blocked | Go 'a

text \<open>A thread that waits at a barrier goes on when all threads have come to it, \<open>passed\<close> being the number of barriers behind a thread.\<close>

definition barrier_step :: "(nat \<Rightarrow> 'l \<times> 's \<Rightarrow> ('l \<times> 's) outcome) \<Rightarrow> ('l \<Rightarrow> bool) \<Rightarrow> ('l \<Rightarrow> nat) \<Rightarrow> ('l \<Rightarrow> 'l) \<Rightarrow> nat \<Rightarrow> 'l list \<times> 's
    \<Rightarrow> ('l list \<times> 's) outcome" where
  "barrier_step stp waiting passed leave t = (\<lambda>(ls, s).
     (if t \<ge> length ls then Blocked
      else if waiting (ls ! t) then
        (if list_all (\<lambda>l. passed (ls ! t) < passed l \<or> passed l = passed (ls ! t) \<and> waiting l) ls
         then Go (ls[t := leave (ls ! t)], s) else Blocked)
      else (case stp t (ls ! t, s) of Fault \<Rightarrow> Fault | Blocked \<Rightarrow> Blocked | Go (l, s) \<Rightarrow> Go (ls[t := l], s))))"

fun run :: "(nat \<Rightarrow> 'a \<Rightarrow> 'a outcome) \<Rightarrow> nat list \<Rightarrow> 'a \<Rightarrow> 'a outcome" where
  "run f [] st = Go st"
| "run f (t # ts) st = (case f t st of Fault \<Rightarrow> Fault | Blocked \<Rightarrow> Blocked | Go st \<Rightarrow> run f ts st)"

locale barrier_phases =
  fixes stp :: "nat \<Rightarrow> 'l \<times> 's \<Rightarrow> ('l \<times> 's) outcome"
    and waiting :: "'l \<Rightarrow> bool"
    and passed :: "'l \<Rightarrow> nat"
    and leave :: "'l \<Rightarrow> 'l"
    and finished :: "'l \<Rightarrow> bool"
    and todo :: "'l \<Rightarrow> nat"
    and J :: "nat \<Rightarrow> 'l list \<Rightarrow> 's \<Rightarrow> bool"
  assumes phase: "J g ls s \<Longrightarrow> t < length ls \<Longrightarrow> passed (ls ! t) = g"
    and keep: "J g ls s \<Longrightarrow> t < length ls \<Longrightarrow> \<not> waiting (ls ! t) \<Longrightarrow>
      stp t (ls ! t, s) = Blocked \<or> (\<exists>l s'. stp t (ls ! t, s) = Go (l, s') \<and> J g (ls[t := l]) s' \<and> todo l < todo (ls ! t))"
    and live: "J g ls s \<Longrightarrow> t < length ls \<Longrightarrow> \<not> waiting (ls ! t) \<Longrightarrow> \<not> finished (ls ! t) \<Longrightarrow>
      \<exists>u < length ls. \<not> waiting (ls ! u) \<and> stp u (ls ! u, s) \<noteq> Blocked"
    and over: "J g ls s \<Longrightarrow> list_all waiting ls \<Longrightarrow> ls \<noteq> [] \<Longrightarrow> J (Suc g) (map leave ls) s"
    and todo_leave: "J g ls s \<Longrightarrow> t < length ls \<Longrightarrow> waiting (ls ! t) \<Longrightarrow> todo (leave (ls ! t)) < todo (ls ! t)"
    and ends: "J g ls s \<Longrightarrow> t < length ls \<Longrightarrow> finished (ls ! t) \<Longrightarrow> u < length ls \<Longrightarrow> \<not> waiting (ls ! u)"
begin

text \<open>Some threads may still be at the barrier that the others have left.\<close>

definition late :: "nat \<Rightarrow> 'l \<Rightarrow> 'l \<Rightarrow> bool" where
  "late g l m \<longleftrightarrow> l = m \<or> waiting l \<and> Suc (passed l) = g \<and> m = leave l \<and> todo m < todo l"

definition inv :: "'l list \<times> 's \<Rightarrow> bool" where
  "inv = (\<lambda>(ls, s). ls \<noteq> [] \<and> (\<exists>g ms. J g ms s \<and> list_all2 (late g) ls ms))"

lemma late_update: "list_all2 (late g) ls ms \<Longrightarrow> late g l m \<Longrightarrow> list_all2 (late g) (ls[t := l]) (ms[t := m])"
  by (rule list_all2_update_cong)

definition remaining :: "'l list \<Rightarrow> nat" where
  "remaining ls = sum_list (map todo ls)"

lemma remaining_update: "t < length ls \<Longrightarrow> todo l < todo (ls ! t) \<Longrightarrow> remaining (ls[t := l]) < remaining ls"
proof -
  assume a: "t < length ls" "todo l < todo (ls ! t)"
  then have "remaining (ls[t := l]) + todo (ls ! t) = remaining ls + todo l"
    using elem_le_sum_list [of t "map todo ls"] by (simp add: remaining_def map_update sum_list_update)
  then show ?thesis using a by simp
qed

lemma leave_late:
  assumes i: "J g ms s" "list_all2 (late g) ls ms" and t: "t < length ls" and w: "waiting (ls ! t)" and p: "Suc (passed (ls ! t)) = g"
  shows "barrier_step stp waiting passed leave t (ls, s) = Go (ls[t := leave (ls ! t)], s)" "list_all2 (late g) (ls[t := leave (ls ! t)]) ms"
    "todo (leave (ls ! t)) < todo (ls ! t)"
proof -
  have len: "length ms = length ls" using i(2) by (simp add: list_all2_lengthD)
  have "late g (ls ! u) (ms ! u)" if "u < length ls" for u using i(2) that by (simp add: list_all2_conv_all_nth)
  then have "passed (ls ! t) < passed (ls ! u) \<or> passed (ls ! u) = passed (ls ! t) \<and> waiting (ls ! u)" if "u < length ls" for u
    using that phase [OF i(1), of u] len p unfolding late_def by (metis Suc_inject lessI)
  then show "barrier_step stp waiting passed leave t (ls, s) = Go (ls[t := leave (ls ! t)], s)"
    using t w by (simp add: barrier_step_def list_all_length)
  have "late g (ls ! t) (ms ! t)" using i(2) t by (simp add: list_all2_conv_all_nth)
  moreover have "ls ! t \<noteq> ms ! t" using phase [OF i(1), of t] t len p by auto
  ultimately have "late g (leave (ls ! t)) (ms ! t)" "todo (leave (ls ! t)) < todo (ls ! t)" by (auto simp: late_def)
  then show "todo (leave (ls ! t)) < todo (ls ! t)" by simp
  from late_update [OF i(2) \<open>late g (leave (ls ! t)) (ms ! t)\<close>, of t] show "list_all2 (late g) (ls[t := leave (ls ! t)]) ms" by simp
qed

lemma open_barrier:
  assumes i: "J g ms s" "list_all2 (late g) ls ms" and t: "t < length ls" "passed (ls ! t) = g"
    and all: "list_all (\<lambda>l. passed (ls ! t) < passed l \<or> passed l = passed (ls ! t) \<and> waiting l) ls"
  shows "ms = ls" "list_all waiting ls"
proof -
  have len: "length ms = length ls" using i(2) by (simp add: list_all2_lengthD)
  have l: "late g (ls ! u) (ms ! u)" "g \<le> passed (ls ! u)" "passed (ls ! u) = g \<Longrightarrow> waiting (ls ! u)" if "u < length ls" for u
    using i(2) all t that by (auto simp: list_all2_conv_all_nth list_all_length)
  then have e: "ms ! u = ls ! u" if "u < length ls" for u using that unfolding late_def by fastforce
  then show "ms = ls" using len by (intro nth_equalityI) auto
  then show "list_all waiting ls" using phase [OF i(1)] l(3) len by (auto simp: list_all_length)
qed

lemma step_inv:
  assumes "inv (ls, s)"
  shows "barrier_step stp waiting passed leave t (ls, s) = Blocked
    \<or> (\<exists>ls' s'. barrier_step stp waiting passed leave t (ls, s) = Go (ls', s') \<and> inv (ls', s') \<and> length ls' = length ls \<and> remaining ls' < remaining ls)"
proof (cases "t < length ls")
  case False
  then show ?thesis by (simp add: barrier_step_def)
next
  case t: True
  obtain g ms where i: "J g ms s" "list_all2 (late g) ls ms" and ne: "ls \<noteq> []" using assms by (auto simp: inv_def)
  have len: "length ms = length ls" using i(2) by (simp add: list_all2_lengthD)
  have l: "late g (ls ! t) (ms ! t)" using i(2) t by (simp add: list_all2_conv_all_nth)
  consider (old) "waiting (ls ! t)" "Suc (passed (ls ! t)) = g" | (bar) "waiting (ls ! t)" "ls ! t = ms ! t" | (run) "\<not> waiting (ls ! t)" "ls ! t = ms ! t"
    using l by (auto simp: late_def)
  then show ?thesis
  proof cases
    case old
    then show ?thesis
      using leave_late [OF i t old] i(1) ne remaining_update [OF t leave_late(3) [OF i t old]] by (auto simp: inv_def)
  next
    case bar
    have g: "passed (ls ! t) = g" using phase [OF i(1)] t len bar(2) by simp
    show ?thesis
    proof (cases "list_all (\<lambda>l. passed (ls ! t) < passed l \<or> passed l = passed (ls ! t) \<and> waiting l) ls")
      case True
      note o = open_barrier [OF i t g True]
      have J: "J (Suc g) (map leave ls) s" using over [OF i(1)] o ne by simp
      have "late (Suc g) (ls[t := leave (ls ! t)] ! u) (map leave ls ! u)" if "u < length ls" for u
        using that o phase [OF i(1), of u] todo_leave [OF i(1), of u] by (cases "u = t") (auto simp: late_def list_all_length)
      then have "list_all2 (late (Suc g)) (ls[t := leave (ls ! t)]) (map leave ls)" by (simp add: list_all2_conv_all_nth)
      moreover have "barrier_step stp waiting passed leave t (ls, s) = Go (ls[t := leave (ls ! t)], s)"
        using True t bar by (simp add: barrier_step_def)
      ultimately show ?thesis using J ne remaining_update [OF t todo_leave [OF i(1), of t, unfolded o(1), OF t bar(1)]] by (auto simp: inv_def)
    next
      case False
      then show ?thesis using t bar by (simp add: barrier_step_def)
    qed
  next
    case run
    have "stp t (ls ! t, s) = Blocked \<or> (\<exists>l s'. stp t (ls ! t, s) = Go (l, s') \<and> J g (ms[t := l]) s' \<and> todo l < todo (ls ! t))"
      using keep [OF i(1), of t] t len run by simp
    then show ?thesis
    proof
      assume "\<exists>l s'. stp t (ls ! t, s) = Go (l, s') \<and> J g (ms[t := l]) s' \<and> todo l < todo (ls ! t)"
      then obtain m s' where m: "stp t (ls ! t, s) = Go (m, s')" "J g (ms[t := m]) s'" "todo m < todo (ls ! t)" by blast
      moreover have "list_all2 (late g) (ls[t := m]) (ms[t := m])" using i(2) by (rule late_update) (simp add: late_def)
      ultimately show ?thesis using t run ne remaining_update [OF t m(3)] by (auto simp: barrier_step_def inv_def)
    qed (use t run in \<open>simp add: barrier_step_def\<close>)
  qed
qed

lemma phases_run:
  assumes "inv (ls, s)"
  shows "run (barrier_step stp waiting passed leave) ts (ls, s) \<noteq> Fault"
    "run (barrier_step stp waiting passed leave) ts (ls, s) = Go (ls', s') \<Longrightarrow>
      inv (ls', s') \<and> length ls' = length ls \<and> length ts + remaining ls' \<le> remaining ls"
proof -
  have "run (barrier_step stp waiting passed leave) ts (ls, s) \<noteq> Fault \<and> (run (barrier_step stp waiting passed leave) ts (ls, s) = Go (ls', s') \<longrightarrow>
      inv (ls', s') \<and> length ls' = length ls \<and> length ts + remaining ls' \<le> remaining ls)"
    using assms
  proof (induction ts arbitrary: ls s)
    case (Cons t ts)
    from step_inv [OF Cons.prems, of t] show ?case
    proof
      assume "\<exists>l1 s1. barrier_step stp waiting passed leave t (ls, s) = Go (l1, s1) \<and> inv (l1, s1) \<and> length l1 = length ls \<and> remaining l1 < remaining ls"
      then obtain l1 s1 where 1: "barrier_step stp waiting passed leave t (ls, s) = Go (l1, s1)" "inv (l1, s1)" "length l1 = length ls" "remaining l1 < remaining ls"
        by blast
      show ?thesis using Cons.IH [OF 1(2)] 1 by auto
    qed simp
  qed auto
  then show "run (barrier_step stp waiting passed leave) ts (ls, s) \<noteq> Fault"
    "run (barrier_step stp waiting passed leave) ts (ls, s) = Go (ls', s') \<Longrightarrow>
      inv (ls', s') \<and> length ls' = length ls \<and> length ts + remaining ls' \<le> remaining ls" by blast+
qed

text \<open>A state in which no thread can move is the end.\<close>

lemma stuck_finished:
  assumes i: "inv (ls, s)" and stuck: "\<And>t. t < length ls \<Longrightarrow> barrier_step stp waiting passed leave t (ls, s) = Blocked"
  shows "list_all finished ls \<and> (\<exists>g. J g ls s)"
proof -
  obtain g ms where i: "J g ms s" "list_all2 (late g) ls ms" and ne: "ls \<noteq> []" using i by (auto simp: inv_def)
  have len: "length ms = length ls" using i(2) by (simp add: list_all2_lengthD)
  have "ms ! t = ls ! t" if t: "t < length ls" for t
  proof -
    have "late g (ls ! t) (ms ! t)" using i(2) t by (simp add: list_all2_conv_all_nth)
    moreover have "\<not> (waiting (ls ! t) \<and> Suc (passed (ls ! t)) = g)" using leave_late(1) [OF i t] stuck [OF t] by auto
    ultimately show ?thesis by (auto simp: late_def)
  qed
  then have e: "ms = ls" using len by (intro nth_equalityI) auto
  have p: "passed (ls ! t) = g" if "t < length ls" for t using phase [OF i(1)] that e by simp
  have "\<not> list_all waiting ls"
  proof
    assume w: "list_all waiting ls"
    then have "barrier_step stp waiting passed leave 0 (ls, s) \<noteq> Blocked" using ne p by (simp add: barrier_step_def list_all_length)
    then show False using stuck [of 0] ne by simp
  qed
  then obtain t where t: "t < length ls" "\<not> waiting (ls ! t)" by (auto simp: list_all_length)
  have fin: "finished (ls ! t)" if "t < length ls" "\<not> waiting (ls ! t)" for t
  proof (rule ccontr)
    assume "\<not> finished (ls ! t)"
    from live [OF i(1), of t] this that e obtain u where u: "u < length ls" "\<not> waiting (ls ! u)" "stp u (ls ! u, s) \<noteq> Blocked" by auto
    then have "barrier_step stp waiting passed leave u (ls, s) \<noteq> Blocked" by (auto simp: barrier_step_def split: outcome.splits)
    then show False using stuck [OF u(1)] by simp
  qed
  then have "\<not> waiting (ls ! u)" if "u < length ls" for u using ends [OF i(1), of t u] t e that by simp
  then show ?thesis using fin i(1) e by (auto simp: list_all_length)
qed

text \<open>Every run can be completed.\<close>

lemma run_ends:
  assumes "inv (ls, s)"
  shows "\<exists>ts ls' s'. run (barrier_step stp waiting passed leave) ts (ls, s) = Go (ls', s') \<and> inv (ls', s')
    \<and> (\<forall>t < length ls'. barrier_step stp waiting passed leave t (ls', s') = Blocked)"
  using assms
proof (induction "remaining ls" arbitrary: ls s rule: less_induct)
  case less
  show ?case
  proof (cases "\<forall>t < length ls. barrier_step stp waiting passed leave t (ls, s) = Blocked")
    case True
    then show ?thesis using less.prems by (intro exI [of _ "[]"] exI [of _ ls] exI [of _ s]) simp
  next
    case False
    then obtain t l1 s1 where 1: "barrier_step stp waiting passed leave t (ls, s) = Go (l1, s1)" "inv (l1, s1)" "remaining l1 < remaining ls"
      using step_inv [OF less.prems] by blast
    then obtain ts ls' s' where "run (barrier_step stp waiting passed leave) ts (l1, s1) = Go (ls', s')" "inv (ls', s')"
      "\<forall>t < length ls'. barrier_step stp waiting passed leave t (ls', s') = Blocked" using less.hyps by blast
    then show ?thesis using 1 by (intro exI [of _ "t # ts"]) auto
  qed
qed

end

end
