(* ===== verification/RadixSort.thy ===== *)
theory RadixSort
  imports Radix Phases
begin

text \<open>
  The parallel sort itself: \<^verbatim>\<open>slave_sort\<close> of \<^verbatim>\<open>papps/splash2/codes/kernels/radix/radix.C\<close> with the macros of
  \<^verbatim>\<open>null_macros/c.m4.null.det\<close>.  Every processor counts the digits of its keys, the counts are added up along a tree whose
  nodes have flags to wait for, and every processor moves its keys to the places so computed.  A thread is named by \<^verbatim>\<open>MyNum\<close>.
  A step of a thread is the code between two synchronisations, or, where keys are counted and moved, one turn of the loop.
\<close>

section \<open>Data\<close>

text \<open>A node of the tree; \<open>pause\<close> is the \<^verbatim>\<open>Flag\<close> of \<^verbatim>\<open>done\<close>.\<close>

record prefix_node =
  densities :: "nat list"
  ranks :: "nat list"
  pause :: nat

text \<open>The arrays \<^verbatim>\<open>key[0]\<close> and \<^verbatim>\<open>key[1]\<close>, the tree and \<^verbatim>\<open>final\<close>.\<close>

record global_memory =
  key :: "int list list"
  prefix_tree :: "prefix_node list"
  final_key :: nat

text \<open>What \<^verbatim>\<open>main\<close> has computed before the threads start.\<close>

record radix_conf =
  number_of_processors :: nat
  radix :: nat
  log2_radix :: nat
  num_keys :: nat
  max_num_digits :: nat
  key_partition :: "nat list"
  key_scale :: "nat \<Rightarrow> int"

datatype radix_pc = RInit | RBar1 | RBar2 | RZero | RCount | RDensity | RBar3 | RLeaf | RSetUp | RUpTest | RCombine | RBar4
  | RDown | RCopy | RSignal | RRank | RBar5 | RStart | RMove | RBar6 | RBarEnd | RLast | RDone

text \<open>The variables of a thread, with \<^verbatim>\<open>rank_me[MyNum]\<close> and \<^verbatim>\<open>gp[MyNum].rank_ff\<close>, which no other thread uses; \<open>nd\<close> is the
  node \<^verbatim>\<open>n\<close>, and \<open>barriers\<close> the number of barriers passed.\<close>

record rthread =
  rpc :: radix_pc
  barriers :: nat
  loopnum :: nat
  rfrom :: nat
  rto :: nat
  ri :: nat
  rank_me :: "nat list"
  key_density :: "nat list"
  rank_ff :: "nat list"
  roffset :: nat
  rlevel :: nat
  rbase :: nat
  nd :: nat
  my_node :: nat
  their_node :: nat

section \<open>The code\<close>

text \<open>\<^verbatim>\<open>(key & bb) >> shiftnum\<close>.\<close>

definition digit :: "radix_conf \<Rightarrow> nat \<Rightarrow> int \<Rightarrow> int" where
  "digit c loop k =
     (let shiftnum = loop * log2_radix c; bb = push_bit shiftnum (int (radix c) - 1)
      in drop_bit shiftnum (Bit_Operations.and k bb))"

text \<open>\<^verbatim>\<open>key_density[i] = key_density[i-1] + rank_me_mynum[i]\<close>.\<close>

fun sums :: "nat \<Rightarrow> nat list \<Rightarrow> nat list" where
  "sums a [] = []"
| "sums a (x # xs) = (a + x) # sums (a + x) xs"

text \<open>\<^verbatim>\<open>for (i = 0; i < r; i++) dst[i] = src[i]\<close>, and with \<^verbatim>\<open>src[i] + src2[i]\<close>.\<close>

definition copy_first :: "nat \<Rightarrow> 'a list \<Rightarrow> 'a list \<Rightarrow> 'a list option" where
  "copy_first r dst src = (if r \<le> length dst \<and> r \<le> length src then Some (take r src @ drop r dst) else None)"

definition add_first :: "nat \<Rightarrow> nat list \<Rightarrow> nat list \<Rightarrow> nat list \<Rightarrow> nat list option" where
  "add_first r dst src src2 =
     (if r \<le> length src \<and> r \<le> length src2 then copy_first r dst (map2 (+) (take r src) (take r src2)) else None)"

text \<open>\<^verbatim>\<open>SETPAUSE\<close>, and \<^verbatim>\<open>WAITPAUSE\<close> with \<^verbatim>\<open>CLEARPAUSE\<close>, which keep the mutex of the flag in between: the thread is blocked while the
  flag is 0.  The macro tests the flag once; \<^verbatim>\<open>det_cond_wait\<close> returns only after the broadcast of \<^verbatim>\<open>SETPAUSE\<close>, when the flag is set.\<close>

definition set_node :: "nat \<Rightarrow> prefix_node \<Rightarrow> global_memory \<Rightarrow> global_memory" where
  "set_node x n s = s\<lparr>prefix_tree := (prefix_tree s)[x := n]\<rparr>"

definition SETPAUSE :: "nat \<Rightarrow> global_memory \<Rightarrow> global_memory option" where
  "SETPAUSE x s = map_option (\<lambda>n. set_node x (n\<lparr>pause := 1\<rparr>) s) (rd (prefix_tree s) (int x))"

definition WAITPAUSE :: "nat \<Rightarrow> global_memory \<Rightarrow> global_memory outcome" where
  "WAITPAUSE x s =
     (case rd (prefix_tree s) (int x) of None \<Rightarrow> Fault
      | Some n \<Rightarrow> if pause n = 0 then Blocked else Go (set_node x (n\<lparr>pause := 0\<rparr>) s))"

text \<open>\<^verbatim>\<open>while ((offset & 0x1) != 0) { offset >>= 1; base += level; level >>= 1; }\<close>\<close>

function climb :: "nat \<Rightarrow> nat \<Rightarrow> nat \<Rightarrow> nat \<times> nat \<times> nat" where
  "climb offset level base = (if odd offset then climb (offset div 2) (level div 2) (base + level) else (offset, level, base))"
  by pat_completeness auto
termination
  by (relation "measure (\<lambda>(offset, level, base). offset)") (auto elim: oddE)

declare climb.simps [simp del]

text \<open>The loop that adds the ranks of the nodes to the left.\<close>

fun rank_loop :: "nat \<Rightarrow> prefix_node list \<Rightarrow> nat \<Rightarrow> nat \<Rightarrow> nat \<Rightarrow> nat list \<Rightarrow> nat list option" where
  "rank_loop r tree offset level base ff =
     (if offset \<noteq> 0 then
        do { ff \<leftarrow> (if odd offset then
                      do { l \<leftarrow> rd tree (int base + int offset - 1); add_first r ff ff (ranks l) }
                    else Some ff);
             rank_loop r tree (offset div 2) (level div 2) (base + level) ff }
      else Some ff)"

declare rank_loop.simps [simp del]

text \<open>\<^verbatim>\<open>for (i = 1; i < r; i++) ff[i] += d[i - 1]\<close>\<close>

definition add_shifted :: "nat \<Rightarrow> nat list \<Rightarrow> nat list \<Rightarrow> nat list option" where
  "add_shifted r ff d = (if r \<le> length d \<and> length ff = r then Some (map2 (+) ff (0 # take (r - 1) d)) else None)"

definition go :: "'a option \<Rightarrow> 'a outcome" where
  "go m = (case m of None \<Rightarrow> Fault | Some x \<Rightarrow> Go x)"

text \<open>Lines 474 to 497: the counts of the digits among the keys of the thread.\<close>

definition count_step :: "radix_conf \<Rightarrow> nat \<Rightarrow> rthread \<Rightarrow> global_memory \<Rightarrow> rthread option" where
  "count_step c t l s =
     do { stop \<leftarrow> rd (key_partition c) (int t + 1);
          if ri l < stop then
            do { a \<leftarrow> rd (key s) (int (rfrom l));
                 k \<leftarrow> rd a (int (ri l));
                 x \<leftarrow> rd (rank_me l) (digit c (loopnum l) k);
                 m \<leftarrow> wr (rank_me l) (digit c (loopnum l) k) (x + 1);
                 Some (l\<lparr>rank_me := m, ri := ri l + 1\<rparr>) }
          else Some (l\<lparr>rpc := RDensity\<rparr>) }"

text \<open>Lines 502 to 513: the leaf of the thread.\<close>

definition leaf_step :: "radix_conf \<Rightarrow> nat \<Rightarrow> rthread \<Rightarrow> global_memory \<Rightarrow> (rthread \<times> global_memory) option" where
  "leaf_step c t l s =
     do { n \<leftarrow> rd (prefix_tree s) (int t);
          d \<leftarrow> copy_first (radix c) (densities n) (key_density l);
          r \<leftarrow> copy_first (radix c) (ranks n) (rank_me l);
          Some (l\<lparr>nd := t, roffset := t, rlevel := number_of_processors c div 2, rbase := number_of_processors c,
                  rpc := (if even t then RSetUp else RUpTest)\<rparr>,
                set_node t (n\<lparr>densities := d, ranks := r\<rparr>) s) }"

text \<open>Lines 523 to 538: the node above \<^verbatim>\<open>r\<close> and its left neighbour; the ranks of the last node of a level are not needed.\<close>

definition combine_step :: "radix_conf \<Rightarrow> rthread \<Rightarrow> global_memory \<Rightarrow> (rthread \<times> global_memory) option" where
  "combine_step c l s =
     do { r \<leftarrow> rd (prefix_tree s) (int (nd l));
          lf \<leftarrow> rd (prefix_tree s) (int (nd l) - 1);
          n \<leftarrow> rd (prefix_tree s) (int (rbase l + roffset l));
          d \<leftarrow> add_first (radix c) (densities n) (densities r) (densities lf);
          k \<leftarrow> (if int (roffset l) \<noteq> int (rlevel l) - 1 then add_first (radix c) (ranks n) (ranks r) (ranks lf) else Some (ranks n));
          Some (l\<lparr>nd := rbase l + roffset l, rbase := rbase l + rlevel l, rlevel := rlevel l div 2,
                  rpc := (if even (roffset l) then RSetUp else RUpTest)\<rparr>,
                set_node (rbase l + roffset l) (n\<lparr>densities := d, ranks := k\<rparr>) s) }"

text \<open>Lines 543 to 569: the node of the thread, whose densities are to be those of the root, and the node it takes them from.\<close>

definition down_step :: "radix_conf \<Rightarrow> nat \<Rightarrow> rthread \<Rightarrow> global_memory \<Rightarrow> (rthread \<times> global_memory) outcome" where
  "down_step c t l s =
     (if Suc t \<noteq> number_of_processors c then
        (let (offset, level, base) = climb t (number_of_processors c) 0;
             my = base + offset;
             (offset2, level2, base2) = climb (offset div 2) (level div 2) (base + level)
         in (case WAITPAUSE my s of Fault \<Rightarrow> Fault | Blocked \<Rightarrow> Blocked
             | Go s \<Rightarrow> Go (l\<lparr>my_node := my, their_node := base2 + offset2, rpc := RCopy\<rparr>, s)))
      else Go (l\<lparr>my_node := 2 * number_of_processors c - 2, roffset := t, rlevel := number_of_processors c, rbase := 0, rpc := RSignal\<rparr>, s))"

definition copy_step :: "radix_conf \<Rightarrow> nat \<Rightarrow> rthread \<Rightarrow> global_memory \<Rightarrow> (rthread \<times> global_memory) option" where
  "copy_step c t l s =
     do { m \<leftarrow> rd (prefix_tree s) (int (my_node l));
          n \<leftarrow> rd (prefix_tree s) (int (their_node l));
          d \<leftarrow> copy_first (radix c) (densities m) (densities n);
          Some (l\<lparr>roffset := t, rlevel := number_of_processors c, rbase := 0, rpc := RSignal\<rparr>, set_node (my_node l) (m\<lparr>densities := d\<rparr>) s) }"

text \<open>One turn of the loop in lines 573 to 578.\<close>

definition signal_step :: "rthread \<Rightarrow> global_memory \<Rightarrow> (rthread \<times> global_memory) option" where
  "signal_step l s =
     (if odd (roffset l) then
        do { s \<leftarrow> SETPAUSE (rbase l + roffset l - 1) s;
             Some (l\<lparr>roffset := roffset l div 2, rbase := rbase l + rlevel l, rlevel := rlevel l div 2\<rparr>, s) }
      else Some (l\<lparr>rpc := RRank\<rparr>, s))"

text \<open>Lines 579 to 599.\<close>

definition rank_step :: "radix_conf \<Rightarrow> nat \<Rightarrow> rthread \<Rightarrow> global_memory \<Rightarrow> rthread option" where
  "rank_step c t l s =
     do { ff \<leftarrow> rank_loop (radix c) (prefix_tree s) t (number_of_processors c) 0 (replicate (radix c) 0);
          m \<leftarrow> rd (prefix_tree s) (int (my_node l));
          ff \<leftarrow> add_shifted (radix c) ff (densities m);
          Some (l\<lparr>rank_ff := ff, rpc := RBar5\<rparr>) }"

text \<open>One turn of the loop in lines 614 to 620, and lines 626 to 629.\<close>

definition move_step :: "radix_conf \<Rightarrow> nat \<Rightarrow> rthread \<Rightarrow> global_memory \<Rightarrow> (rthread \<times> global_memory) option" where
  "move_step c t l s =
     do { stop \<leftarrow> rd (key_partition c) (int t + 1);
          if ri l < stop then
            do { a \<leftarrow> rd (key s) (int (rfrom l));
                 k \<leftarrow> rd a (int (ri l));
                 tmp \<leftarrow> rd (rank_ff l) (digit c (loopnum l) k);
                 b \<leftarrow> rd (key s) (int (rto l));
                 b \<leftarrow> wr b (int tmp) k;
                 f \<leftarrow> wr (rank_ff l) (digit c (loopnum l) k) (tmp + 1);
                 Some (l\<lparr>rank_ff := f, ri := ri l + 1\<rparr>, s\<lparr>key := (key s)[rto l := b]\<rparr>) }
          else if loopnum l \<noteq> max_num_digits c - 1
          then Some (l\<lparr>rfrom := Bit_Operations.xor (rfrom l) 1, rto := Bit_Operations.xor (rto l) 1, rpc := RBar6\<rparr>, s)
          else Some (l\<lparr>rpc := RBar6\<rparr>, s) }"

text \<open>\<^verbatim>\<open>slave_sort\<close>; line 455 fills the part of the keys that belongs to the thread.\<close>

definition radix_step :: "radix_conf \<Rightarrow> nat \<Rightarrow> rthread \<times> global_memory \<Rightarrow> (rthread \<times> global_memory) outcome" where
  "radix_step c t = (\<lambda>(l, s).
     (case rpc l of
        RInit \<Rightarrow>
          go (do { start \<leftarrow> rd (key_partition c) (int t);
                   stop \<leftarrow> rd (key_partition c) (int t + 1);
                   a \<leftarrow> rd (key s) (int (rfrom l));
                   a \<leftarrow> init (key_scale c) start stop a;
                   Some (l\<lparr>rpc := RBar1\<rparr>, s\<lparr>key := (key s)[rfrom l := a]\<rparr>) })
      | RZero \<Rightarrow>
          go (do { start \<leftarrow> rd (key_partition c) (int t);
                   Some (l\<lparr>rank_me := replicate (radix c) 0, ri := start, rpc := RCount\<rparr>, s) })
      | RCount \<Rightarrow> go (map_option (\<lambda>l. (l, s)) (count_step c t l s))
      | RDensity \<Rightarrow> Go (l\<lparr>key_density := sums 0 (rank_me l), rpc := RBar3\<rparr>, s)
      | RLeaf \<Rightarrow> go (leaf_step c t l s)
      | RSetUp \<Rightarrow> go (map_option (\<lambda>s. (l\<lparr>rpc := RUpTest\<rparr>, s)) (SETPAUSE (rbase l + roffset l div 2) s))
      | RUpTest \<Rightarrow>
          (if odd (roffset l) then
             (case WAITPAUSE (rbase l + roffset l div 2) s of Fault \<Rightarrow> Fault | Blocked \<Rightarrow> Blocked
              | Go s \<Rightarrow> Go (l\<lparr>roffset := roffset l div 2, rpc := RCombine\<rparr>, s))
           else Go (l\<lparr>rpc := RBar4\<rparr>, s))
      | RCombine \<Rightarrow> go (combine_step c l s)
      | RDown \<Rightarrow> down_step c t l s
      | RCopy \<Rightarrow> go (copy_step c t l s)
      | RSignal \<Rightarrow> go (signal_step l s)
      | RRank \<Rightarrow> go (map_option (\<lambda>l. (l, s)) (rank_step c t l s))
      | RStart \<Rightarrow> go (do { start \<leftarrow> rd (key_partition c) (int t); Some (l\<lparr>ri := start, rpc := RMove\<rparr>, s) })
      | RMove \<Rightarrow> go (move_step c t l s)
      | RLast \<Rightarrow> Go (l\<lparr>rpc := RDone\<rparr>, if t = 0 then s\<lparr>final_key := rto l\<rparr> else s)
      | _ \<Rightarrow> Blocked))"

text \<open>\<^verbatim>\<open>BARRIER\<close>: who waits, and where a thread goes on.\<close>

definition at_barrier :: "rthread \<Rightarrow> bool" where
  "at_barrier l \<longleftrightarrow> rpc l \<in> {RBar1, RBar2, RBar3, RBar4, RBar5, RBar6, RBarEnd}"

definition next_digit :: "radix_conf \<Rightarrow> nat \<Rightarrow> rthread \<Rightarrow> rthread" where
  "next_digit c i l = l\<lparr>loopnum := i, rpc := (if i < max_num_digits c then RZero else RBarEnd)\<rparr>"

definition leave_barrier :: "radix_conf \<Rightarrow> rthread \<Rightarrow> rthread" where
  "leave_barrier c l =
     (let m = l\<lparr>barriers := barriers l + 1\<rparr> in
      case rpc l of
        RBar1 \<Rightarrow> m\<lparr>rpc := RBar2\<rparr>
      | RBar2 \<Rightarrow> next_digit c 0 m
      | RBar3 \<Rightarrow> m\<lparr>rpc := RLeaf\<rparr>
      | RBar4 \<Rightarrow> m\<lparr>rpc := RDown\<rparr>
      | RBar5 \<Rightarrow> m\<lparr>rpc := RStart\<rparr>
      | RBar6 \<Rightarrow> next_digit c (loopnum l + 1) m
      | _ \<Rightarrow> m\<lparr>rpc := RLast\<rparr>)"

abbreviation slave_step :: "radix_conf \<Rightarrow> nat \<Rightarrow> rthread list \<times> global_memory \<Rightarrow> (rthread list \<times> global_memory) outcome" where
  "slave_step c \<equiv> barrier_step (radix_step c) at_barrier barriers (leave_barrier c)"

definition new_thread :: "radix_conf \<Rightarrow> rthread" where
  "new_thread c = \<lparr>rpc = RInit, barriers = 0, loopnum = 0, rfrom = 0, rto = 1, ri = 0, rank_me = replicate (radix c) 0, key_density = replicate (radix c) 0,
     rank_ff = replicate (radix c) 0, roffset = 0, rlevel = 0, rbase = 0, nd = 0, my_node = 0, their_node = 0\<rparr>"

text \<open>The memory as \<^verbatim>\<open>main\<close> leaves it: the arrays have any content, the flags are cleared.\<close>

definition memory_ok :: "radix_conf \<Rightarrow> global_memory \<Rightarrow> bool" where
  "memory_ok c s \<longleftrightarrow> length (key s) = 2 \<and> list_all (\<lambda>a. length a = num_keys c) (key s) \<and> length (prefix_tree s) = 2 * MAX_PROCESSORS
     \<and> list_all (\<lambda>n. length (densities n) = MAX_RADIX \<and> length (ranks n) = MAX_RADIX) (prefix_tree s)"

end
