(* ===== verification/RadixTree.thy ===== *)
theory RadixTree
  imports RadixSort
begin

text \<open>
  The tree of the radix sort for \<open>2 ^ k\<close> processors: where its nodes lie in \<^verbatim>\<open>prefix_tree\<close>, which thread computes which node, which threads
  wait for each other, and what the nodes hold.
\<close>

section \<open>Places\<close>

text \<open>The node with the number \<open>x\<close> of the level \<open>j\<close>, the leaves being level 0.\<close>

definition tix :: "nat \<Rightarrow> nat \<Rightarrow> nat \<Rightarrow> nat" where
  "tix k j x = 2 ^ (k + 1) - 2 ^ (k + 1 - j) + x"

lemma tix_0 [simp]: "tix k 0 x = x"
  by (simp add: tix_def)

lemma tix_add: "tix k j 0 + x = tix k j x"
  by (simp add: tix_def)

lemma tix_Suc: "j \<le> k \<Longrightarrow> tix k j 0 + 2 ^ (k - j) = tix k (Suc j) 0"
proof -
  assume j: "j \<le> k"
  then have "(2::nat) ^ (k + 1 - j) = 2 * 2 ^ (k - j)" by (simp add: Suc_diff_le)
  moreover have "(2::nat) ^ (k - j) \<le> 2 ^ k" by (simp add: power_increasing)
  ultimately show ?thesis using j by (simp add: tix_def)
qed

lemma tix_less: "j \<le> k \<Longrightarrow> x < 2 ^ (k - j) \<Longrightarrow> tix k j x < tix k (Suc j) 0"
  using tix_Suc [of j k] by (simp add: tix_def)

lemma tix_mono: "i \<le> j \<Longrightarrow> j \<le> k + 1 \<Longrightarrow> tix k i 0 \<le> tix k j 0"
  unfolding tix_def by (simp add: diff_le_mono2 power_increasing)

lemma tix_inj:
  assumes "j \<le> k" "x < 2 ^ (k - j)" "j' \<le> k" "x' < 2 ^ (k - j')"
  shows "tix k j x = tix k j' x' \<longleftrightarrow> j = j' \<and> x = x'"
proof -
  have "tix k a y < tix k b z" if "a < b" "b \<le> k" "y < 2 ^ (k - a)" for a b y z
    using tix_less [of a k y] tix_mono [of "Suc a" b k] tix_add [of k b z] that by linarith
  from this [of j j' x x'] this [of j' j x' x] show ?thesis using assms
    by (cases j j' rule: linorder_cases) (auto simp: tix_def)
qed

lemma tix_bound: "j \<le> k \<Longrightarrow> x < 2 ^ (k - j) \<Longrightarrow> tix k j x < 2 ^ (k + 1) - 1"
  using tix_less [of j k x] tix_mono [of "Suc j" "k + 1" k] by (simp add: tix_def)

lemma tix_root: "tix k k 0 = 2 * 2 ^ k - 2" "tix k (Suc k) 0 = 2 * 2 ^ k - 1"
  by (simp_all add: tix_def)

section \<open>Threads\<close>

text \<open>The level of the last node that a thread computes: the number of ones at the end of its number.\<close>

function tr :: "nat \<Rightarrow> nat" where
  "tr t = (if odd t then Suc (tr (t div 2)) else 0)"
  by pat_completeness auto
termination
  by (relation "measure id") (auto elim: oddE)

declare tr.simps [simp del]

lemma tr_rec: "odd t \<Longrightarrow> tr t = Suc (tr (t div 2))" "even t \<Longrightarrow> tr t = 0"
  by (subst tr.simps, simp)+

lemma div_Suc: "t div 2 ^ Suc i = t div 2 div 2 ^ i" for t :: nat
  by (simp add: div_mult2_eq)

lemma div_Suc2: "t div 2 ^ Suc j = t div 2 ^ j div 2" for t :: nat
  by (simp only: power_Suc2 div_mult2_eq)

lemma tr_odd: "i < tr t \<Longrightarrow> odd (t div 2 ^ i)"
proof (induction i arbitrary: t)
  case 0
  then show ?case using tr_rec(2) [of t] by (cases "odd t") simp_all
next
  case (Suc i)
  then have "odd t" using tr_rec(2) [of t] by (cases "odd t") simp_all
  then have "i < tr (t div 2)" using Suc.prems tr_rec(1) [of t] by simp
  then show ?case unfolding div_Suc by (rule Suc.IH)
qed

lemma tr_even: "even (t div 2 ^ tr t)"
proof (induction t rule: less_induct)
  case (less t)
  show ?case
  proof (cases "odd t")
    case True
    then have "t div 2 < t" by (auto elim: oddE)
    then show ?thesis unfolding tr_rec(1) [OF True] div_Suc by (rule less)
  next
    case False
    then show ?thesis using tr_rec(2) [of t] by simp
  qed
qed

lemma even_tr: "j \<le> tr t \<Longrightarrow> even (t div 2 ^ j) \<longleftrightarrow> j = tr t"
  using tr_odd [of j t] tr_even [of t] by (cases "j = tr t") auto

text \<open>A thread computes the nodes above it as long as it is their last leaf.\<close>

lemma last_leaf: "j \<le> tr t \<Longrightarrow> Suc t = Suc (t div 2 ^ j) * 2 ^ j"
proof (induction j)
  case (Suc j)
  then have "odd (t div 2 ^ j)" using tr_odd by simp
  then have "Suc (t div 2 ^ j) = 2 * Suc (t div 2 ^ Suc j)" unfolding div_Suc2 by (auto elim: oddE)
  then show ?case using Suc by simp
qed simp

lemma leaf_eq: "i \<le> tr t \<Longrightarrow> i \<le> tr u \<Longrightarrow> t div 2 ^ i = u div 2 ^ i \<Longrightarrow> t = u"
  using last_leaf [of i t] last_leaf [of i u] by simp

lemma tr_le: "t < 2 ^ k \<Longrightarrow> tr t \<le> k"
proof (rule ccontr)
  assume t: "t < 2 ^ k" "\<not> tr t \<le> k"
  then have "odd (t div 2 ^ k)" using tr_odd [of k t] by simp
  then show False using t(1) by simp
qed

lemma node_range: "t < 2 ^ k \<Longrightarrow> j \<le> k \<Longrightarrow> t div 2 ^ j < 2 ^ (k - j)" for t :: nat
  using less_mult_imp_div_less [of t "2 ^ (k - j)" "2 ^ j"] by (simp add: power_add [symmetric])

lemma tr_full: "t < 2 ^ k \<Longrightarrow> tr t = k \<longleftrightarrow> Suc t = 2 ^ k"
proof
  assume "t < 2 ^ k" "tr t = k"
  then show "Suc t = 2 ^ k" using last_leaf [of k t] by simp
next
  assume t: "t < 2 ^ k" "Suc t = 2 ^ k"
  show "tr t = k"
  proof (rule ccontr)
    assume "tr t \<noteq> k"
    then have lt: "tr t < k" using tr_le [OF t(1)] by simp
    have "Suc (t div 2 ^ tr t) * 2 ^ tr t = 2 ^ (k - tr t) * 2 ^ tr t"
      using last_leaf [of "tr t" t] t(2) lt by (simp flip: power_add)
    then have "Suc (t div 2 ^ tr t) = 2 ^ (k - tr t)" by (simp only: mult_cancel2) simp
    then have "odd (t div 2 ^ tr t)" using lt by (metis even_Suc even_power even_numeral zero_less_diff)
    then show False using tr_even by simp
  qed
qed

lemma tix_owner:
  assumes "t < 2 ^ k" "i \<le> tr t" "u < 2 ^ k" "j \<le> tr u"
  shows "tix k i (t div 2 ^ i) = tix k j (u div 2 ^ j) \<longleftrightarrow> i = j \<and> t = u"
proof -
  have "i \<le> k" "j \<le> k" using assms tr_le [of t k] tr_le [of u k] by linarith+
  then show ?thesis
    using tix_inj [of i k "t div 2 ^ i" j "u div 2 ^ j"] node_range [of t k i] node_range [of u k j] leaf_eq [of i t u] assms by auto
qed

text \<open>The thread that computes a node.\<close>

lemma owner:
  assumes "j \<le> k" "y < 2 ^ (k - j)"
  shows "Suc y * 2 ^ j - 1 < 2 ^ k" "j \<le> tr (Suc y * 2 ^ j - 1)" "(Suc y * 2 ^ j - 1) div 2 ^ j = y"
proof -
  let ?t = "Suc y * 2 ^ j - 1"
  have pos: "0 < (2::nat) ^ j" by simp
  have "Suc y * 2 ^ j \<le> 2 ^ (k - j) * 2 ^ j" using assms(2) by (intro mult_le_mono1) simp
  also have "\<dots> = 2 ^ k" using assms(1) by (simp add: power_add [symmetric])
  finally show "?t < 2 ^ k" using pos by (metis Suc_le_eq Suc_pred' nat_0_less_mult_iff zero_less_Suc)
  have d: "?t div 2 ^ i = Suc y * 2 ^ (j - i) - 1" if "i \<le> j" for i
  proof -
    define q where "q = (2::nat) ^ i"
    have q: "0 < q" by (simp add: q_def)
    obtain m where m: "Suc y * 2 ^ (j - i) = Suc m" by (cases "Suc y * 2 ^ (j - i)") auto
    have "(2::nat) ^ j = 2 ^ (j - i) * q" using that by (simp add: q_def power_add [symmetric])
    then have "Suc y * 2 ^ j = Suc m * q" unfolding m [symmetric] by (simp only: mult.assoc)
    then have "?t = (q - 1) + m * q" using q by simp
    then have "?t div q = m + (q - 1) div q" using q by (simp only: div_mult_self1)
    also have "(q - 1) div q = 0" using q by simp
    finally have "?t div 2 ^ i = m" by (simp only: q_def add_0_right)
    then show ?thesis by (simp only: m diff_Suc_1)
  qed
  show "?t div 2 ^ j = y" using d [of j] by simp
  show "j \<le> tr ?t"
  proof (rule ccontr)
    assume "\<not> j \<le> tr ?t"
    then have lt: "tr ?t < j" by simp
    then have "even (Suc y * 2 ^ (j - tr ?t))" by simp
    then have "odd (Suc y * 2 ^ (j - tr ?t) - 1)" by simp
    then show False using d [of "tr ?t"] lt tr_even [of ?t] by simp
  qed
qed

text \<open>The thread to the right, which waits for a thread on the way up and tells it the sum on the way down.\<close>

lemma right_thread:
  assumes "t < 2 ^ k" "tr t < k"
  shows "t + 2 ^ tr t < 2 ^ k" "tr t < tr (t + 2 ^ tr t)" "(t + 2 ^ tr t) div 2 ^ tr t = Suc (t div 2 ^ tr t)"
    "(t + 2 ^ tr t) div 2 ^ Suc (tr t) = t div 2 ^ Suc (tr t)"
proof -
  let ?m = "tr t" and ?o = "t div 2 ^ tr t"
  have o: "even ?o" by (rule tr_even)
  have lt: "?o < 2 ^ (k - ?m)" using node_range [OF assms(1), of ?m] assms(2) by simp
  have "even ((2::nat) ^ (k - ?m))" using assms(2) by simp
  then have lt2: "Suc ?o < 2 ^ (k - ?m)" using lt o by (metis Suc_lessI even_Suc)
  have s: "Suc (t + 2 ^ ?m) = Suc (Suc ?o) * 2 ^ ?m" using last_leaf [of ?m t] by simp
  also have "\<dots> \<le> 2 ^ (k - ?m) * 2 ^ ?m" using lt2 by (intro mult_le_mono1) simp
  also have "\<dots> = 2 ^ k" using assms(2) by (simp flip: power_add)
  finally show "t + 2 ^ ?m < 2 ^ k" by simp
  show d: "(t + 2 ^ ?m) div 2 ^ ?m = Suc ?o" by (simp add: div_add_self2)
  then show "(t + 2 ^ ?m) div 2 ^ Suc ?m = t div 2 ^ Suc ?m" unfolding div_Suc2 d using o by (auto elim: evenE)
  show "?m < tr (t + 2 ^ ?m)"
  proof -
    have "i < tr (t + 2 ^ i0)" if "\<And>j. j \<le> i \<Longrightarrow> odd ((t + 2 ^ i0) div 2 ^ j)" for i i0
    proof (rule ccontr)
      assume "\<not> i < tr (t + 2 ^ i0)"
      then have "odd ((t + 2 ^ i0) div 2 ^ tr (t + 2 ^ i0))" by (intro that) simp
      then show False using tr_even by simp
    qed
    moreover have "odd ((t + 2 ^ ?m) div 2 ^ j)" if "j \<le> ?m" for j
    proof (cases "j = ?m")
      case True
      then show ?thesis using d o by simp
    next
      case False
      have "(2::nat) ^ ?m = 2 ^ (?m - j) * 2 ^ j" using that by (simp add: power_add [symmetric])
      then have "(t + 2 ^ ?m) div 2 ^ j = 2 ^ (?m - j) + t div 2 ^ j" by (simp only: div_mult_self1 [of "2 ^ j"]) simp
      moreover have "odd (t div 2 ^ j)" "even ((2::nat) ^ (?m - j))" using tr_odd [of j t] that False by simp_all
      ultimately show ?thesis by simp
    qed
    ultimately show ?thesis by blast
  qed
qed

lemma tr_eqI:
  assumes "\<And>j. j < i \<Longrightarrow> odd (t div 2 ^ j)" "even (t div 2 ^ i)"
  shows "tr t = i"
  using assms(1) [of "tr t"] assms(2) tr_even [of t] tr_odd [of i t] by (cases "tr t" i rule: linorder_cases) auto

lemma left_thread:
  assumes "i < tr t"
  shows "2 ^ i \<le> t" "tr (t - 2 ^ i) = i"
proof -
  have o: "odd (t div 2 ^ i)" by (rule tr_odd [OF assms])
  then show le: "2 ^ i \<le> t" by (metis div_less even_zero not_le)
  have d: "t div 2 ^ j = 2 ^ (i - j) + (t - 2 ^ i) div 2 ^ j" if "j \<le> i" for j
  proof -
    have "(2::nat) ^ i = 2 ^ (i - j) * 2 ^ j" using that by (simp add: power_add [symmetric])
    then have "t = (t - 2 ^ i) + 2 ^ (i - j) * 2 ^ j" using le by simp
    then show ?thesis by (metis div_mult_self1 power_not_zero zero_neq_numeral)
  qed
  show "tr (t - 2 ^ i) = i"
  proof (rule tr_eqI)
    show "odd ((t - 2 ^ i) div 2 ^ j)" if "j < i" for j
    proof -
      have "odd (t div 2 ^ j)" "even ((2::nat) ^ (i - j))" using tr_odd [of j t] assms that by simp_all
      then show ?thesis using d [of j] that by simp
    qed
    show "even ((t - 2 ^ i) div 2 ^ i)" using d [of i] o by simp
  qed
qed

lemma climb_up:
  assumes "j \<le> tr t" "tr t \<le> k"
  shows "climb (t div 2 ^ j) (2 ^ (k - j)) (tix k j 0) = (t div 2 ^ tr t, 2 ^ (k - tr t), tix k (tr t) 0)"
  using assms
proof (induction "tr t - j" arbitrary: j)
  case 0
  then have "j = tr t" by simp
  then show ?case using tr_even [of t] by (subst climb.simps) simp
next
  case (Suc d)
  then have j: "j < tr t" by simp
  then have "k - j = Suc (k - Suc j)" using Suc.prems by linarith
  then have "(2::nat) ^ (k - j) div 2 = 2 ^ (k - Suc j)" by simp
  then have "climb (t div 2 ^ j) (2 ^ (k - j)) (tix k j 0) = climb (t div 2 ^ Suc j) (2 ^ (k - Suc j)) (tix k (Suc j) 0)"
    using tr_odd [OF j] j Suc.prems by (subst climb.simps) (simp add: tix_Suc div_Suc2 del: power_Suc)
  then show ?case using Suc.hyps(1) [of "Suc j"] Suc.hyps(2) Suc.prems j by simp
qed

section \<open>Sums\<close>

definition nsum :: "(nat \<Rightarrow> nat) \<Rightarrow> nat \<Rightarrow> nat \<Rightarrow> nat" where
  "nsum f j x = (\<Sum>t \<in> {x * 2 ^ j ..< Suc x * 2 ^ j}. f t)"

lemma nsum_0 [simp]: "nsum f 0 x = f x"
  by (simp add: nsum_def)

lemma nsum_Suc: "nsum f (Suc j) x = nsum f j (Suc (2 * x)) + nsum f j (2 * x)"
proof -
  have "{x * 2 ^ Suc j ..< Suc x * 2 ^ Suc j} = {2 * x * 2 ^ j ..< Suc (2 * x) * 2 ^ j} \<union> {Suc (2 * x) * 2 ^ j ..< Suc (Suc (2 * x)) * 2 ^ j}"
    by (subst ivl_disj_un_two(3)) (simp_all add: algebra_simps)
  then show ?thesis unfolding nsum_def by (simp only:) (subst sum.union_disjoint; simp)
qed

lemma nsum_before: "(\<Sum>t < x * 2 ^ j. f t) + nsum f j x = (\<Sum>t < Suc x * 2 ^ j. f t)"
  unfolding nsum_def lessThan_atLeast0 by (rule sum.atLeastLessThan_concat) simp_all

lemma nsum_root: "nsum f k 0 = (\<Sum>t < 2 ^ k. f t)"
  using nsum_before [of f 0 k] by simp

end
