(* ===== verification/RadixUp.thy ===== *)
theory RadixUp
  imports RadixTree
begin

text \<open>
  The phase of the radix sort in which the counts are added up along the tree, between the barriers 3 and 4 of \<^verbatim>\<open>slave_sort\<close>: which
  flags are set when, and what the nodes hold.  \<open>cn t d\<close> is the number of keys with digit \<open>d\<close> that thread \<open>t\<close> has counted.
\<close>

section \<open>Arrays and nodes\<close>

text \<open>The first entries of an array.\<close>

definition first :: "nat \<Rightarrow> nat list \<Rightarrow> (nat \<Rightarrow> nat) \<Rightarrow> bool" where
  "first r a f \<longleftrightarrow> r \<le> length a \<and> take r a = map f [0 ..< r]"

lemma copy_first_first:
  assumes "r \<le> length dst" "first r src f"
  shows "\<exists>d. copy_first r dst src = Some d \<and> length d = length dst \<and> first r d f"
  using assms by (auto simp: copy_first_def first_def)

lemma add_first_first:
  assumes "r \<le> length dst" "first r src f" "first r src2 g"
  shows "\<exists>d. add_first r dst src src2 = Some d \<and> length d = length dst \<and> first r d (\<lambda>x. f x + g x)"
proof -
  have "map2 (+) (map f [0 ..< r]) (map g [0 ..< r]) = map (\<lambda>x. f x + g x) [0 ..< r]" by (simp add: zip_map_map zip_same_conv_map)
  then show ?thesis
    using copy_first_first [OF assms(1), of "map2 (+) (take r src) (take r src2)" "\<lambda>x. f x + g x"] assms(2,3) by (simp add: add_first_def first_def)
qed

lemma first_cong: "first r a f \<Longrightarrow> (\<And>x. x < r \<Longrightarrow> f x = g x) \<Longrightarrow> first r a g"
  by (simp add: first_def)

lemma set_node_sel [simp]:
  "key (set_node x n s) = key s" "final_key (set_node x n s) = final_key s" "length (prefix_tree (set_node x n s)) = length (prefix_tree s)"
  by (simp_all add: set_node_def)

lemma set_node_nth: "x < length (prefix_tree s) \<Longrightarrow> prefix_tree (set_node x n s) ! y = (if y = x then n else prefix_tree s ! y)"
  by (simp add: set_node_def)

lemma set_node_ok:
  "memory_ok c s \<Longrightarrow> length (densities n) = MAX_RADIX \<Longrightarrow> length (ranks n) = MAX_RADIX \<Longrightarrow> memory_ok c (set_node x n s)"
  unfolding memory_ok_def set_node_def by (auto simp: list_all_iff dest!: set_update_subset_insert [THEN subsetD])

lemma memory_nodes:
  assumes "memory_ok c s" "x < 2 * MAX_PROCESSORS"
  shows "rd (prefix_tree s) (int x) = Some (prefix_tree s ! x)" "x < length (prefix_tree s)"
    "length (densities (prefix_tree s ! x)) = MAX_RADIX" "length (ranks (prefix_tree s ! x)) = MAX_RADIX"
  using assms by (simp_all add: memory_ok_def list_all_length)

text \<open>The configurations for which the program works: a power of two processors, and a radix that fits the tables.\<close>

definition conf_ok :: "radix_conf \<Rightarrow> nat \<Rightarrow> nat \<Rightarrow> bool" where
  "conf_ok c k b \<longleftrightarrow> number_of_processors c = 2 ^ k \<and> 2 ^ k \<le> MAX_PROCESSORS \<and> radix c = 2 ^ b \<and> 0 < b \<and> 2 ^ b \<le> MAX_RADIX \<and> log2_radix c = b
     \<and> 0 < num_keys c \<and> 0 < max_num_digits c \<and> key_partition c = map (\<lambda>q. q * num_keys c div 2 ^ k) [0 ..< 2 ^ k + 1]"

lemma conf_nodes:
  assumes "conf_ok c k b" "memory_ok c s" "x < 2 * 2 ^ k"
  shows "rd (prefix_tree s) (int x) = Some (prefix_tree s ! x)" "x < length (prefix_tree s)"
    "length (densities (prefix_tree s ! x)) = MAX_RADIX" "length (ranks (prefix_tree s ! x)) = MAX_RADIX" "radix c \<le> MAX_RADIX"
proof -
  have "x < 2 * MAX_PROCESSORS" using assms(1,3) unfolding conf_ok_def by linarith
  note m = memory_nodes [OF assms(2) this]
  show "rd (prefix_tree s) (int x) = Some (prefix_tree s ! x)" "x < length (prefix_tree s)"
    "length (densities (prefix_tree s ! x)) = MAX_RADIX" "length (ranks (prefix_tree s ! x)) = MAX_RADIX" by (fact m)+
  show "radix c \<le> MAX_RADIX" using assms(1) by (simp add: conf_ok_def)
qed

text \<open>A node that holds the sums of its leaves; the ranks of the last node of a level are left out.\<close>

definition den :: "(nat \<Rightarrow> nat \<Rightarrow> nat) \<Rightarrow> nat \<Rightarrow> nat \<Rightarrow> nat" where
  "den cn t d = (\<Sum>e \<le> d. cn t e)"

definition node_ranks :: "nat \<Rightarrow> nat \<Rightarrow> (nat \<Rightarrow> nat \<Rightarrow> nat) \<Rightarrow> nat \<Rightarrow> nat \<Rightarrow> prefix_node \<Rightarrow> bool" where
  "node_ranks r k cn j x n \<longleftrightarrow> (j = 0 \<or> Suc x \<noteq> 2 ^ (k - j) \<longrightarrow> first r (ranks n) (\<lambda>d. nsum (\<lambda>t. cn t d) j x))"

definition node_sum :: "nat \<Rightarrow> nat \<Rightarrow> (nat \<Rightarrow> nat \<Rightarrow> nat) \<Rightarrow> nat \<Rightarrow> nat \<Rightarrow> prefix_node \<Rightarrow> bool" where
  "node_sum r k cn j x n \<longleftrightarrow> first r (densities n) (\<lambda>d. nsum (\<lambda>t. den cn t d) j x) \<and> node_ranks r k cn j x n"

section \<open>Flags and sums\<close>

text \<open>\<open>S t\<close>: thread \<open>t\<close> has set the flag above its last node; \<open>W t\<close>: the number of flags that \<open>t\<close> has waited for.\<close>

definition up_flags :: "nat \<Rightarrow> global_memory \<Rightarrow> (nat \<Rightarrow> bool) \<Rightarrow> (nat \<Rightarrow> nat) \<Rightarrow> bool" where
  "up_flags k s S W \<longleftrightarrow> (\<forall>t < 2 ^ k. pause (prefix_tree s ! t) = 0)
     \<and> (\<forall>t < 2 ^ k. \<forall>i < tr t. pause (prefix_tree s ! tix k (Suc i) (t div 2 ^ Suc i)) = (if S (t - 2 ^ i) \<and> W t \<le> i then 1 else 0)
          \<and> (i < W t \<longrightarrow> S (t - 2 ^ i)))"

text \<open>\<open>D t\<close>: the number of nodes that \<open>t\<close> has computed.\<close>

definition up_sums :: "nat \<Rightarrow> nat \<Rightarrow> (nat \<Rightarrow> nat \<Rightarrow> nat) \<Rightarrow> global_memory \<Rightarrow> (nat \<Rightarrow> nat) \<Rightarrow> bool" where
  "up_sums r k cn s D \<longleftrightarrow> (\<forall>t < 2 ^ k. D t \<le> Suc (tr t) \<and> (\<forall>i < D t. node_sum r k cn i (t div 2 ^ i) (prefix_tree s ! tix k i (t div 2 ^ i))))"

lemma up_flagsD:
  assumes "up_flags k s S W" "t < 2 ^ k"
  shows "pause (prefix_tree s ! t) = 0"
    "i < tr t \<Longrightarrow> pause (prefix_tree s ! tix k (Suc i) (t div 2 ^ Suc i)) = (if S (t - 2 ^ i) \<and> W t \<le> i then 1 else 0)"
    "i < tr t \<Longrightarrow> i < W t \<Longrightarrow> S (t - 2 ^ i)"
  using assms unfolding up_flags_def by blast+

lemma up_sumsD:
  assumes "up_sums r k cn s D" "t < 2 ^ k" "i < D t"
  shows "node_sum r k cn i (t div 2 ^ i) (prefix_tree s ! tix k i (t div 2 ^ i))"
  using assms unfolding up_sums_def by blast

lemma up_flags_cong:
  assumes "up_flags k s S W" "\<And>t. t < 2 ^ k \<Longrightarrow> S' t = S t \<and> W' t = W t" "\<And>x. pause (prefix_tree s' ! x) = pause (prefix_tree s ! x)"
  shows "up_flags k s' S' W'"
  using assms unfolding up_flags_def by (metis diff_le_self le_less_trans)

lemma up_sums_cong:
  assumes "up_sums r k cn s D" "\<And>t. t < 2 ^ k \<Longrightarrow> D' t = D t"
    "\<And>x. densities (prefix_tree s' ! x) = densities (prefix_tree s ! x) \<and> ranks (prefix_tree s' ! x) = ranks (prefix_tree s ! x)"
  shows "up_sums r k cn s' D'"
  using assms unfolding up_sums_def node_sum_def node_ranks_def by simp

text \<open>The flag that a thread sets is the one its right neighbour waits for.\<close>

lemma up_flags_set:
  assumes f: "up_flags k s S W" and t: "t < 2 ^ k" and S: "\<not> S t"
    and s': "\<And>x. pause (prefix_tree s' ! x) = (if x = tix k (Suc (tr t)) (t div 2 ^ Suc (tr t)) then 1 else pause (prefix_tree s ! x))"
  shows "up_flags k s' (S(t := True)) W"
proof -
  let ?x = "tix k (Suc (tr t)) (t div 2 ^ Suc (tr t))"
  have trk: "tr t \<le> k" by (rule tr_le [OF t])
  have leaf: "u \<noteq> ?x" if "u < 2 ^ k" for u
    using tix_mono [of 1 "Suc (tr t)" k] that trk by (simp add: tix_def)
  have pair: "tix k (Suc i) (u div 2 ^ Suc i) = ?x \<longleftrightarrow> u - 2 ^ i = t" if u: "u < 2 ^ k" and i: "i < tr u" for u i
  proof
    assume e: "tix k (Suc i) (u div 2 ^ Suc i) = ?x"
    have iu: "Suc i \<le> k" "u div 2 ^ Suc i < 2 ^ (k - Suc i)" using i tr_le [OF u] node_range [OF u, of "Suc i"] by simp_all
    have lt: "tr t < k"
    proof (rule ccontr)
      assume "\<not> tr t < k"
      then have "tr t = k" using trk by simp
      then show False using e tix_bound [OF iu] t by (simp add: tix_root)
    qed
    then have "Suc i = Suc (tr t) \<and> u div 2 ^ Suc i = t div 2 ^ Suc (tr t)"
      using tix_inj [OF iu, of "Suc (tr t)" "t div 2 ^ Suc (tr t)"] e node_range [OF t, of "Suc (tr t)"] Suc_leI by blast
    then have i': "i = tr t" and d: "u div 2 ^ Suc (tr t) = (t + 2 ^ tr t) div 2 ^ Suc (tr t)"
      unfolding right_thread(4) [OF t lt] by (auto simp del: power_Suc)
    then have "u = t + 2 ^ tr t" using leaf_eq [of "Suc (tr t)" u "t + 2 ^ tr t"] right_thread(2) [OF t lt] i by simp
    then show "u - 2 ^ i = t" using i' by simp
  next
    assume e: "u - 2 ^ i = t"
    note l = left_thread [OF i]
    have "i = tr t" "u = t + 2 ^ tr t" using l e by auto
    moreover have "tr t < k" using tr_le [OF u] i \<open>i = tr t\<close> by simp
    ultimately show "tix k (Suc i) (u div 2 ^ Suc i) = ?x" using right_thread(4) [OF t] by simp
  qed
  show ?thesis unfolding up_flags_def
  proof (intro conjI allI impI)
    fix u i :: nat assume u: "u < 2 ^ k" "i < tr u"
    have h: "pause (prefix_tree s ! tix k (Suc i) (u div 2 ^ Suc i)) = (if S (u - 2 ^ i) \<and> W u \<le> i then 1 else 0)" "i < W u \<longrightarrow> S (u - 2 ^ i)"
      using f u unfolding up_flags_def by blast+
    then show "pause (prefix_tree s' ! tix k (Suc i) (u div 2 ^ Suc i)) = (if (S(t := True)) (u - 2 ^ i) \<and> W u \<le> i then 1 else 0)"
      unfolding s' pair [OF u] using S by (auto simp del: power_Suc)
    show "(S(t := True)) (u - 2 ^ i)" if "i < W u" using h(2) that by simp
  next
    fix u :: nat assume "u < 2 ^ k"
    then show "pause (prefix_tree s' ! u) = 0" using f leaf unfolding up_flags_def s' by simp
  qed
qed

lemma up_flags_wait:
  assumes f: "up_flags k s S W" and t: "t < 2 ^ k" and i: "i < tr t" "W t = i" and S: "S (t - 2 ^ i)"
    and s': "\<And>x. pause (prefix_tree s' ! x) = (if x = tix k (Suc i) (t div 2 ^ Suc i) then 0 else pause (prefix_tree s ! x))"
  shows "up_flags k s' S (W(t := Suc i))"
proof -
  have leaf: "pause (prefix_tree s' ! u) = 0" if "u < 2 ^ k" for u using f that unfolding up_flags_def s' by simp
  have other: "tix k (Suc j) (u div 2 ^ Suc j) = tix k (Suc i) (t div 2 ^ Suc i) \<longleftrightarrow> j = i \<and> u = t" if "u < 2 ^ k" "j < tr u" for u j
    using tix_owner [OF that(1) _ t, of "Suc j" "Suc i"] that(2) i(1) by auto
  show ?thesis unfolding up_flags_def
  proof (intro conjI allI impI)
    fix u j :: nat assume u: "u < 2 ^ k" "j < tr u"
    have h: "pause (prefix_tree s ! tix k (Suc j) (u div 2 ^ Suc j)) = (if S (u - 2 ^ j) \<and> W u \<le> j then 1 else 0)" "j < W u \<longrightarrow> S (u - 2 ^ j)"
      using f u unfolding up_flags_def by blast+
    show "pause (prefix_tree s' ! tix k (Suc j) (u div 2 ^ Suc j)) = (if S (u - 2 ^ j) \<and> (W(t := Suc i)) u \<le> j then 1 else 0)"
      using h other [OF u] i(2) unfolding s' by (auto simp: less_Suc_eq_le)
    show "S (u - 2 ^ j)" if "j < (W(t := Suc i)) u" using h that S i(2) by (cases "u = t") (auto simp: less_Suc_eq)
  qed (rule leaf)
qed

lemma up_sums_new:
  assumes v: "up_sums r k cn s D" and t: "t < 2 ^ k" "D t \<le> tr t"
    and n: "node_sum r k cn (D t) (t div 2 ^ D t) (prefix_tree s' ! tix k (D t) (t div 2 ^ D t))"
    and s': "\<And>x. x \<noteq> tix k (D t) (t div 2 ^ D t) \<Longrightarrow> prefix_tree s' ! x = prefix_tree s ! x"
  shows "up_sums r k cn s' (D(t := Suc (D t)))"
  unfolding up_sums_def
proof (intro allI impI conjI)
  fix u :: nat assume u: "u < 2 ^ k"
  have v': "D u \<le> Suc (tr u)" "\<And>i. i < D u \<Longrightarrow> node_sum r k cn i (u div 2 ^ i) (prefix_tree s ! tix k i (u div 2 ^ i))"
    using v u unfolding up_sums_def by blast+
  show "(D(t := Suc (D t))) u \<le> Suc (tr u)" using v'(1) t(2) by simp
  fix i :: nat assume i: "i < (D(t := Suc (D t))) u"
  show "node_sum r k cn i (u div 2 ^ i) (prefix_tree s' ! tix k i (u div 2 ^ i))"
  proof (cases "u = t \<and> i = D t")
    case True
    then show ?thesis using n by simp
  next
    case False
    then have iu: "i < D u" using i by (auto split: if_splits)
    have "i \<le> tr u" using iu v'(1) by simp
    then have "tix k i (u div 2 ^ i) \<noteq> tix k (D t) (t div 2 ^ D t)" using tix_owner [OF u _ t] False by blast
    then show ?thesis using v'(2) [OF iu] s' by simp
  qed
qed

section \<open>The threads\<close>

text \<open>Thread \<open>t\<close>, which has computed its nodes up to the level \<open>j\<close>.\<close>

definition up_thread :: "nat \<Rightarrow> nat \<Rightarrow> nat \<Rightarrow> rthread \<Rightarrow> bool" where
  "up_thread k t j l \<longleftrightarrow> rpc l \<in> {RLeaf, RSetUp, RUpTest, RCombine, RBar4} \<and> j \<le> tr t
     \<and> (rpc l = RLeaf \<longrightarrow> j = 0) \<and> (rpc l \<in> {RSetUp, RBar4} \<longrightarrow> j = tr t)
     \<and> (rpc l \<in> {RSetUp, RUpTest} \<longrightarrow> roffset l = t div 2 ^ j)
     \<and> (rpc l = RCombine \<longrightarrow> j < tr t \<and> roffset l = t div 2 ^ Suc j)
     \<and> (rpc l \<in> {RSetUp, RUpTest, RCombine} \<longrightarrow> rbase l = tix k (Suc j) 0 \<and> rlevel l = 2 ^ k div 2 ^ Suc j \<and> nd l = tix k j (t div 2 ^ j))"

definition up_sent :: "nat \<Rightarrow> nat \<Rightarrow> rthread \<Rightarrow> bool" where
  "up_sent t j l \<longleftrightarrow> rpc l = RBar4 \<or> rpc l = RUpTest \<and> j = tr t"

definition up_waits :: "nat \<Rightarrow> rthread \<Rightarrow> nat" where
  "up_waits j l = (if rpc l = RCombine then Suc j else j)"

definition up_done :: "nat \<Rightarrow> rthread \<Rightarrow> nat" where
  "up_done j l = (if rpc l = RLeaf then 0 else Suc j)"

definition up_inv :: "radix_conf \<Rightarrow> nat \<Rightarrow> (nat \<Rightarrow> nat \<Rightarrow> nat) \<Rightarrow> (nat \<Rightarrow> nat) \<Rightarrow> rthread list \<Rightarrow> global_memory \<Rightarrow> bool" where
  "up_inv c k cn jl ls s \<longleftrightarrow> (\<forall>t < 2 ^ k. up_thread k t (jl t) (ls ! t))
     \<and> up_flags k s (\<lambda>t. up_sent t (jl t) (ls ! t)) (\<lambda>t. up_waits (jl t) (ls ! t)) \<and> up_sums (radix c) k cn s (\<lambda>t. up_done (jl t) (ls ! t))"

text \<open>Steps to the next barrier.\<close>

definition phase_todo :: "radix_conf \<Rightarrow> rthread \<Rightarrow> nat" where
  "phase_todo c l =
     (case rpc l of RInit \<Rightarrow> 1 | RZero \<Rightarrow> num_keys c + 3 | RCount \<Rightarrow> num_keys c - ri l + 2 | RDensity \<Rightarrow> 1
      | RLeaf \<Rightarrow> 3 * number_of_processors c + 3 | RSetUp \<Rightarrow> 3 * roffset l + 2 | RUpTest \<Rightarrow> 3 * roffset l + 1 | RCombine \<Rightarrow> 3 * roffset l + 3
      | RDown \<Rightarrow> number_of_processors c + 5 | RCopy \<Rightarrow> number_of_processors c + 4 | RSignal \<Rightarrow> roffset l + 2 | RRank \<Rightarrow> 1
      | RStart \<Rightarrow> num_keys c + 2 | RMove \<Rightarrow> num_keys c - ri l + 1 | RLast \<Rightarrow> 1 | _ \<Rightarrow> 0)"

text \<open>What a thread keeps while it works on the tree.\<close>

definition same_data :: "rthread \<Rightarrow> rthread \<Rightarrow> bool" where
  "same_data l m \<longleftrightarrow> barriers l = barriers m \<and> loopnum l = loopnum m \<and> rfrom l = rfrom m \<and> rto l = rto m \<and> rank_me l = rank_me m \<and> key_density l = key_density m"

lemma up_inv_step:
  assumes i: "up_inv c k cn jl ls s" and t: "t < 2 ^ k" and len: "length ls = 2 ^ k" and th: "up_thread k t j l"
    and f: "up_flags k s' ((\<lambda>t. up_sent t (jl t) (ls ! t))(t := up_sent t j l)) ((\<lambda>t. up_waits (jl t) (ls ! t))(t := up_waits j l))"
    and v: "up_sums (radix c) k cn s' ((\<lambda>t. up_done (jl t) (ls ! t))(t := up_done j l))"
  shows "up_inv c k cn (jl(t := j)) (ls[t := l]) s'"
  unfolding up_inv_def
proof (intro conjI allI impI)
  show "up_thread k u ((jl(t := j)) u) (ls[t := l] ! u)" if "u < 2 ^ k" for u
    using i th that len unfolding up_inv_def by (cases "u = t") auto
  show "up_flags k s' (\<lambda>u. up_sent u ((jl(t := j)) u) (ls[t := l] ! u)) (\<lambda>u. up_waits ((jl(t := j)) u) (ls[t := l] ! u))"
    using t len by (intro up_flags_cong [OF f]) auto
  show "up_sums (radix c) k cn s' (\<lambda>u. up_done ((jl(t := j)) u) (ls[t := l] ! u))"
    using t len by (intro up_sums_cong [OF v]) auto
qed

text \<open>When nothing is sent or waited for, or computed, only the other half is to be shown.\<close>

lemma up_inv_flags:
  assumes "up_inv c k cn jl ls s" "up_sent t j l = up_sent t (jl t) (ls ! t)" "up_waits j l = up_waits (jl t) (ls ! t)"
    "\<And>x. pause (prefix_tree s' ! x) = pause (prefix_tree s ! x)"
  shows "up_flags k s' ((\<lambda>t. up_sent t (jl t) (ls ! t))(t := up_sent t j l)) ((\<lambda>t. up_waits (jl t) (ls ! t))(t := up_waits j l))"
proof -
  have "up_flags k s (\<lambda>t. up_sent t (jl t) (ls ! t)) (\<lambda>t. up_waits (jl t) (ls ! t))" using assms(1) by (simp add: up_inv_def)
  then show ?thesis by (rule up_flags_cong [OF _ _ assms(4)]) (use assms(2,3) in simp)
qed

lemma up_inv_sums:
  assumes "up_inv c k cn jl ls s" "up_done j l = up_done (jl t) (ls ! t)"
    "\<And>x. densities (prefix_tree s' ! x) = densities (prefix_tree s ! x) \<and> ranks (prefix_tree s' ! x) = ranks (prefix_tree s ! x)"
  shows "up_sums (radix c) k cn s' ((\<lambda>t. up_done (jl t) (ls ! t))(t := up_done j l))"
proof -
  have "up_sums (radix c) k cn s (\<lambda>t. up_done (jl t) (ls ! t))" using assms(1) by (simp add: up_inv_def)
  then show ?thesis by (rule up_sums_cong [OF _ _ assms(3)]) (use assms(2) in simp)
qed

lemma up_leaf:
  assumes c: "conf_ok c k b" "memory_ok c s" and i: "up_inv c k cn jl ls s" and t: "t < 2 ^ k" and len: "length ls = 2 ^ k"
    and d: "first (radix c) (rank_me (ls ! t)) (cn t)" "first (radix c) (key_density (ls ! t)) (den cn t)" and pc: "rpc (ls ! t) = RLeaf"
  shows "\<exists>l s' j. radix_step c t (ls ! t, s) = Go (l, s') \<and> up_inv c k cn (jl(t := j)) (ls[t := l]) s' \<and> memory_ok c s' \<and> key s' = key s
    \<and> same_data l (ls ! t) \<and> phase_todo c l < phase_todo c (ls ! t)"
proof -
  let ?n = "prefix_tree s ! t"
  have x: "t < 2 * 2 ^ k" using t by simp
  note m = conf_nodes [OF c x]
  from copy_first_first [OF _ d(2), of "densities ?n"] m(3,5) obtain a where
    a: "copy_first (radix c) (densities ?n) (key_density (ls ! t)) = Some a" "length a = MAX_RADIX" "first (radix c) a (den cn t)" by auto
  from copy_first_first [OF _ d(1), of "ranks ?n"] m(4,5) obtain r where
    r: "copy_first (radix c) (ranks ?n) (rank_me (ls ! t)) = Some r" "length r = MAX_RADIX" "first (radix c) r (cn t)" by auto
  define l where "l = (ls ! t)\<lparr>nd := t, roffset := t, rlevel := number_of_processors c div 2, rbase := number_of_processors c,
                  rpc := (if even t then RSetUp else RUpTest)\<rparr>"
  define s' where "s' = set_node t (?n\<lparr>densities := a, ranks := r\<rparr>) s"
  have j: "jl t = 0" using i t pc unfolding up_inv_def up_thread_def by auto
  have P: "number_of_processors c = 2 ^ k" using c(1) by (simp add: conf_ok_def)
  have s: "radix_step c t (ls ! t, s) = Go (l, s')" using pc m(1) a(1) r(1) by (simp add: radix_step_def leaf_step_def go_def l_def s'_def)
  have nth: "prefix_tree s' ! y = (if y = t then ?n\<lparr>densities := a, ranks := r\<rparr> else prefix_tree s ! y)" for y
    unfolding s'_def by (rule set_node_nth [OF m(2)])
  have tr: "even t \<longleftrightarrow> tr t = 0" using even_tr [of 0 t] by auto
  have th: "up_thread k t 0 l" using tix_Suc [of 0 k] tr by (auto simp: up_thread_def l_def P)
  have f: "up_flags k s' ((\<lambda>t. up_sent t (jl t) (ls ! t))(t := up_sent t 0 l)) ((\<lambda>t. up_waits (jl t) (ls ! t))(t := up_waits 0 l))"
    by (rule up_inv_flags [OF i]) (use pc j tr nth in \<open>auto simp: up_sent_def up_waits_def l_def\<close>)
  have "up_sums (radix c) k cn s (\<lambda>t. up_done (jl t) (ls ! t))" using i by (simp add: up_inv_def)
  then have "up_sums (radix c) k cn s' ((\<lambda>t. up_done (jl t) (ls ! t))(t := Suc (up_done (jl t) (ls ! t))))"
    by (rule up_sums_new [OF _ t]) (use pc nth a(3) r(3) in \<open>simp_all add: up_done_def node_sum_def node_ranks_def\<close>)
  then have v: "up_sums (radix c) k cn s' ((\<lambda>t. up_done (jl t) (ls ! t))(t := up_done 0 l))" using pc by (simp add: up_done_def l_def)
  have "up_inv c k cn (jl(t := 0)) (ls[t := l]) s'" by (rule up_inv_step [OF i t len th f v])
  moreover have "memory_ok c s'" unfolding s'_def using c(2) by (rule set_node_ok) (use a(2) r(2) in simp_all)
  moreover have "phase_todo c l < phase_todo c (ls ! t)" using pc t by (simp add: phase_todo_def l_def P)
  ultimately show ?thesis using s by (intro exI [of _ l] exI [of _ s'] exI [of _ 0]) (simp add: s'_def l_def same_data_def)
qed

lemma SETPAUSE_eq: "x < length (prefix_tree s) \<Longrightarrow> SETPAUSE x s = Some (set_node x ((prefix_tree s ! x)\<lparr>pause := 1\<rparr>) s)"
  by (simp add: SETPAUSE_def)

lemma WAITPAUSE_eq:
  "x < length (prefix_tree s) \<Longrightarrow>
    WAITPAUSE x s = (if pause (prefix_tree s ! x) = 0 then Blocked else Go (set_node x ((prefix_tree s ! x)\<lparr>pause := 0\<rparr>) s))"
  by (simp add: WAITPAUSE_def)

text \<open>The place of the node above.\<close>

lemma above:
  assumes "t < 2 ^ k" "j \<le> k"
  shows "tix k (Suc j) 0 + t div 2 ^ j div 2 = tix k (Suc j) (t div 2 ^ Suc j)" "tix k (Suc j) (t div 2 ^ Suc j) < 2 * 2 ^ k"
proof -
  show "tix k (Suc j) 0 + t div 2 ^ j div 2 = tix k (Suc j) (t div 2 ^ Suc j)" unfolding div_Suc2 by (simp only: tix_add)
  show "tix k (Suc j) (t div 2 ^ Suc j) < 2 * 2 ^ k"
  proof (cases "j = k")
    case True
    then show ?thesis using assms(1) by (simp add: tix_root)
  next
    case False
    then show ?thesis using tix_bound [of "Suc j" k "t div 2 ^ Suc j"] node_range [OF assms(1), of "Suc j"] assms(2) by simp
  qed
qed

lemma up_set:
  assumes c: "conf_ok c k b" "memory_ok c s" and i: "up_inv c k cn jl ls s" and t: "t < 2 ^ k" and len: "length ls = 2 ^ k"
    and pc: "rpc (ls ! t) = RSetUp"
  shows "\<exists>l s' j. radix_step c t (ls ! t, s) = Go (l, s') \<and> up_inv c k cn (jl(t := j)) (ls[t := l]) s' \<and> memory_ok c s' \<and> key s' = key s
    \<and> same_data l (ls ! t) \<and> phase_todo c l < phase_todo c (ls ! t)"
proof -
  have th: "up_thread k t (jl t) (ls ! t)" using i t by (simp add: up_inv_def)
  then have j: "jl t = tr t" "roffset (ls ! t) = t div 2 ^ tr t" "rbase (ls ! t) = tix k (Suc (tr t)) 0"
    using pc by (auto simp: up_thread_def)
  let ?x = "tix k (Suc (tr t)) (t div 2 ^ Suc (tr t))"
  note a = above [OF t tr_le [OF t]]
  note m = conf_nodes [OF c a(2)]
  define l where "l = (ls ! t)\<lparr>rpc := RUpTest\<rparr>"
  define s' where "s' = set_node ?x ((prefix_tree s ! ?x)\<lparr>pause := 1\<rparr>) s"
  have s: "radix_step c t (ls ! t, s) = Go (l, s')" using pc a(1) m(2) by (simp add: radix_step_def go_def j SETPAUSE_eq l_def s'_def)
  have nth: "prefix_tree s' ! y = (if y = ?x then (prefix_tree s ! ?x)\<lparr>pause := 1\<rparr> else prefix_tree s ! y)" for y
    unfolding s'_def by (rule set_node_nth [OF m(2)])
  have th': "up_thread k t (tr t) l" using th pc by (simp add: up_thread_def l_def j)
  have "up_flags k s (\<lambda>t. up_sent t (jl t) (ls ! t)) (\<lambda>t. up_waits (jl t) (ls ! t))" using i by (simp add: up_inv_def)
  then have "up_flags k s' ((\<lambda>t. up_sent t (jl t) (ls ! t))(t := True)) (\<lambda>t. up_waits (jl t) (ls ! t))"
    by (rule up_flags_set [OF _ t]) (use pc nth in \<open>auto simp: up_sent_def\<close>)
  then have f: "up_flags k s' ((\<lambda>t. up_sent t (jl t) (ls ! t))(t := up_sent t (tr t) l)) ((\<lambda>t. up_waits (jl t) (ls ! t))(t := up_waits (tr t) l))"
    by (rule up_flags_cong) (use pc j in \<open>auto simp: up_sent_def up_waits_def l_def\<close>)
  have v: "up_sums (radix c) k cn s' ((\<lambda>t. up_done (jl t) (ls ! t))(t := up_done (tr t) l))"
    by (rule up_inv_sums [OF i]) (use pc j nth in \<open>auto simp: up_done_def l_def\<close>)
  have "up_inv c k cn (jl(t := tr t)) (ls[t := l]) s'" by (rule up_inv_step [OF i t len th' f v])
  moreover have "memory_ok c s'" unfolding s'_def using c(2) by (rule set_node_ok) (use m(3,4) in simp_all)
  moreover have "phase_todo c l < phase_todo c (ls ! t)" using pc by (simp add: phase_todo_def l_def)
  ultimately show ?thesis using s by (intro exI [of _ l] exI [of _ s'] exI [of _ "tr t"]) (simp add: s'_def l_def same_data_def)
qed

lemma up_exit:
  assumes i: "up_inv c k cn jl ls s" and t: "t < 2 ^ k" and len: "length ls = 2 ^ k" and pc: "rpc (ls ! t) = RUpTest" and e: "jl t = tr t"
  shows "\<exists>l. radix_step c t (ls ! t, s) = Go (l, s) \<and> up_inv c k cn jl (ls[t := l]) s \<and> same_data l (ls ! t) \<and> phase_todo c l < phase_todo c (ls ! t)"
proof -
  have th: "up_thread k t (jl t) (ls ! t)" using i t by (simp add: up_inv_def)
  then have j: "roffset (ls ! t) = t div 2 ^ tr t" using pc e by (auto simp: up_thread_def)
  define l where "l = (ls ! t)\<lparr>rpc := RBar4\<rparr>"
  have s: "radix_step c t (ls ! t, s) = Go (l, s)" using pc j tr_even [of t] by (simp add: radix_step_def l_def)
  have th': "up_thread k t (tr t) l" using th pc by (simp add: up_thread_def l_def e)
  have f: "up_flags k s ((\<lambda>t. up_sent t (jl t) (ls ! t))(t := up_sent t (tr t) l)) ((\<lambda>t. up_waits (jl t) (ls ! t))(t := up_waits (tr t) l))"
    by (rule up_inv_flags [OF i]) (use pc e in \<open>auto simp: up_sent_def up_waits_def l_def\<close>)
  have v: "up_sums (radix c) k cn s ((\<lambda>t. up_done (jl t) (ls ! t))(t := up_done (tr t) l))"
    by (rule up_inv_sums [OF i]) (use pc e in \<open>auto simp: up_done_def l_def\<close>)
  have "up_inv c k cn (jl(t := tr t)) (ls[t := l]) s" by (rule up_inv_step [OF i t len th' f v])
  then show ?thesis using s pc e by (intro exI [of _ l]) (auto simp: l_def same_data_def phase_todo_def fun_upd_idem)
qed

text \<open>A thread that waits finds the flag set as soon as its left neighbour is done.\<close>

lemma up_wait:
  assumes c: "conf_ok c k b" "memory_ok c s" and i: "up_inv c k cn jl ls s" and t: "t < 2 ^ k" and len: "length ls = 2 ^ k"
    and pc: "rpc (ls ! t) = RUpTest" and e: "jl t < tr t"
  shows "if up_sent (t - 2 ^ jl t) (jl (t - 2 ^ jl t)) (ls ! (t - 2 ^ jl t))
    then \<exists>l s' j. radix_step c t (ls ! t, s) = Go (l, s') \<and> up_inv c k cn (jl(t := j)) (ls[t := l]) s' \<and> memory_ok c s' \<and> key s' = key s
      \<and> same_data l (ls ! t) \<and> phase_todo c l < phase_todo c (ls ! t)
    else radix_step c t (ls ! t, s) = Blocked"
proof -
  have th: "up_thread k t (jl t) (ls ! t)" using i t by (simp add: up_inv_def)
  then have j: "roffset (ls ! t) = t div 2 ^ jl t" "rbase (ls ! t) = tix k (Suc (jl t)) 0" using pc by (auto simp: up_thread_def)
  let ?x = "tix k (Suc (jl t)) (t div 2 ^ Suc (jl t))"
  let ?S = "\<lambda>t. up_sent t (jl t) (ls ! t)" and ?W = "\<lambda>t. up_waits (jl t) (ls ! t)"
  have "jl t \<le> k" using e tr_le [OF t] by simp
  note a = above [OF t this]
  note m = conf_nodes [OF c a(2)]
  have od: "odd (t div 2 ^ jl t)" by (rule tr_odd [OF e])
  have fl: "up_flags k s ?S ?W" using i by (simp add: up_inv_def)
  have W: "?W t = jl t" using pc by (simp add: up_waits_def)
  have p: "pause (prefix_tree s ! ?x) = (if ?S (t - 2 ^ jl t) then 1 else 0)" using fl t e W unfolding up_flags_def by auto
  have st: "radix_step c t (ls ! t, s) = (if pause (prefix_tree s ! ?x) = 0 then Blocked
      else Go ((ls ! t)\<lparr>roffset := t div 2 ^ Suc (jl t), rpc := RCombine\<rparr>, set_node ?x ((prefix_tree s ! ?x)\<lparr>pause := 0\<rparr>) s))"
    using pc od a(1) m(2) by (simp add: radix_step_def j WAITPAUSE_eq div_Suc2 del: power_Suc)
  show ?thesis
  proof (cases "?S (t - 2 ^ jl t)")
    case False
    then show ?thesis using st p by simp
  next
    case True
    define l where "l = (ls ! t)\<lparr>roffset := t div 2 ^ Suc (jl t), rpc := RCombine\<rparr>"
    define s' where "s' = set_node ?x ((prefix_tree s ! ?x)\<lparr>pause := 0\<rparr>) s"
    have s: "radix_step c t (ls ! t, s) = Go (l, s')" using st p True by (simp add: l_def s'_def)
    have nth: "prefix_tree s' ! y = (if y = ?x then (prefix_tree s ! ?x)\<lparr>pause := 0\<rparr> else prefix_tree s ! y)" for y
      unfolding s'_def by (rule set_node_nth [OF m(2)])
    have th': "up_thread k t (jl t) l" using th pc e by (simp add: up_thread_def l_def)
    have "up_flags k s' ?S (?W(t := Suc (jl t)))"
      by (rule up_flags_wait [OF fl t e W True]) (use nth in simp)
    then have f: "up_flags k s' (?S(t := up_sent t (jl t) l)) (?W(t := up_waits (jl t) l))"
      by (rule up_flags_cong) (use pc e in \<open>auto simp: up_sent_def up_waits_def l_def\<close>)
    have v: "up_sums (radix c) k cn s' ((\<lambda>t. up_done (jl t) (ls ! t))(t := up_done (jl t) l))"
      by (rule up_inv_sums [OF i]) (use pc nth in \<open>auto simp: up_done_def l_def\<close>)
    have "up_inv c k cn (jl(t := jl t)) (ls[t := l]) s'" by (rule up_inv_step [OF i t len th' f v])
    moreover have "memory_ok c s'" unfolding s'_def using c(2) by (rule set_node_ok) (use m(3,4) in simp_all)
    moreover have "phase_todo c l < phase_todo c (ls ! t)"
      using pc od by (auto simp: phase_todo_def l_def j div_Suc2 simp del: power_Suc elim!: oddE)
    ultimately have "\<exists>l s' j. radix_step c t (ls ! t, s) = Go (l, s') \<and> up_inv c k cn (jl(t := j)) (ls[t := l]) s' \<and> memory_ok c s' \<and> key s' = key s
      \<and> same_data l (ls ! t) \<and> phase_todo c l < phase_todo c (ls ! t)"
      using s by (intro exI [of _ l] exI [of _ s'] exI [of _ "jl t"]) (simp add: s'_def l_def same_data_def)
    then show ?thesis using True by simp
  qed
qed

text \<open>The two nodes below the one that a thread computes next.\<close>

lemma below:
  assumes t: "t < 2 ^ k" and j: "j < tr t"
  shows "t div 2 ^ j = Suc (2 * (t div 2 ^ Suc j))" "(t - 2 ^ j) div 2 ^ j = 2 * (t div 2 ^ Suc j)" "t - 2 ^ j < 2 ^ k" "tr (t - 2 ^ j) = j"
    "int (tix k j (t div 2 ^ j)) - 1 = int (tix k j ((t - 2 ^ j) div 2 ^ j))"
proof -
  note l = left_thread [OF j]
  show d1: "t div 2 ^ j = Suc (2 * (t div 2 ^ Suc j))" unfolding div_Suc2 using tr_odd [OF j] by (auto elim: oddE)
  show lt: "t - 2 ^ j < 2 ^ k" using t by simp
  show tr: "tr (t - 2 ^ j) = j" by (rule l(2))
  have "(t - 2 ^ j + 2 ^ tr (t - 2 ^ j)) div 2 ^ tr (t - 2 ^ j) = Suc ((t - 2 ^ j) div 2 ^ tr (t - 2 ^ j))"
    using tr j tr_le [OF t] by (intro right_thread(3) [OF lt]) simp
  then show d2: "(t - 2 ^ j) div 2 ^ j = 2 * (t div 2 ^ Suc j)" using l d1 by simp
  show "int (tix k j (t div 2 ^ j)) - 1 = int (tix k j ((t - 2 ^ j) div 2 ^ j))" unfolding d1 d2 by (simp add: tix_def)
qed

lemma node_combine:
  assumes t: "t < 2 ^ k" and j: "j < tr t" and r: "node_sum r k cn j (t div 2 ^ j) a" and l: "node_sum r k cn j ((t - 2 ^ j) div 2 ^ j) b"
    and n: "r \<le> length (densities n)" "r \<le> length (ranks n)"
  shows "\<exists>d. add_first r (densities n) (densities a) (densities b) = Some d \<and> length d = length (densities n)
      \<and> first r d (\<lambda>d. nsum (\<lambda>t. den cn t d) (Suc j) (t div 2 ^ Suc j))"
    "Suc (t div 2 ^ Suc j) \<noteq> 2 ^ (k - Suc j) \<Longrightarrow> \<exists>d. add_first r (ranks n) (ranks a) (ranks b) = Some d \<and> length d = length (ranks n)
      \<and> first r d (\<lambda>d. nsum (\<lambda>t. cn t d) (Suc j) (t div 2 ^ Suc j))"
proof -
  note e = below [OF t j]
  show "\<exists>d. add_first r (densities n) (densities a) (densities b) = Some d \<and> length d = length (densities n)
      \<and> first r d (\<lambda>d. nsum (\<lambda>t. den cn t d) (Suc j) (t div 2 ^ Suc j))"
    using add_first_first [OF n(1), of "densities a" _ "densities b"] r l unfolding node_sum_def e(1,2) nsum_Suc by blast
  assume x: "Suc (t div 2 ^ Suc j) \<noteq> 2 ^ (k - Suc j)"
  have k: "k - j = Suc (k - Suc j)" using j tr_le [OF t] by linarith
  have "Suc (Suc (2 * (t div 2 ^ Suc j))) \<noteq> 2 ^ (k - j)" using x unfolding k by simp
  then have "first r (ranks a) (\<lambda>d. nsum (\<lambda>t. cn t d) j (Suc (2 * (t div 2 ^ Suc j))))"
    using r unfolding node_sum_def node_ranks_def e(1) by blast
  moreover have "Suc (2 * (t div 2 ^ Suc j)) \<noteq> 2 ^ (k - j)" unfolding k by (metis Suc_double_not_eq_double power_Suc)
  then have "first r (ranks b) (\<lambda>d. nsum (\<lambda>t. cn t d) j (2 * (t div 2 ^ Suc j)))"
    using l unfolding node_sum_def node_ranks_def e(2) by blast
  ultimately show "\<exists>d. add_first r (ranks n) (ranks a) (ranks b) = Some d \<and> length d = length (ranks n)
      \<and> first r d (\<lambda>d. nsum (\<lambda>t. cn t d) (Suc j) (t div 2 ^ Suc j))"
    using add_first_first [OF n(2), of "ranks a" _ "ranks b"] unfolding nsum_Suc by blast
qed

lemma up_sent_thread: "up_thread k u j l \<Longrightarrow> up_sent u j l \<Longrightarrow> j = tr u \<and> rpc l \<noteq> RLeaf"
  unfolding up_thread_def up_sent_def by (cases "rpc l") simp_all

lemma up_inputs:
  assumes i: "up_inv c k cn jl ls s" and t: "t < 2 ^ k" and pc: "rpc (ls ! t) = RCombine" and j: "jl t = j" and u: "t - 2 ^ j = u"
  shows "node_sum (radix c) k cn j (t div 2 ^ j) (prefix_tree s ! tix k j (t div 2 ^ j))"
    "node_sum (radix c) k cn j (u div 2 ^ j) (prefix_tree s ! tix k j (u div 2 ^ j))"
proof -
  have "up_thread k t j (ls ! t)" using i t j by (auto simp: up_inv_def)
  then have jt: "j < tr t" using pc by (simp add: up_thread_def)
  have u2: "u < 2 ^ k" "tr u = j" using below(3,4) [OF t jt] u by simp_all
  have D: "up_sums (radix c) k cn s (\<lambda>t. up_done (jl t) (ls ! t))" using i by (simp add: up_inv_def)
  have "j < up_done (jl t) (ls ! t)" using pc j by (simp add: up_done_def)
  with D t show "node_sum (radix c) k cn j (t div 2 ^ j) (prefix_tree s ! tix k j (t div 2 ^ j))" by (rule up_sumsD)
  have fl: "up_flags k s (\<lambda>t. up_sent t (jl t) (ls ! t)) (\<lambda>t. up_waits (jl t) (ls ! t))" using i by (simp add: up_inv_def)
  have "j < up_waits (jl t) (ls ! t)" using pc j by (simp add: up_waits_def)
  from up_flagsD(3) [OF fl t jt this] have "up_sent u (jl u) (ls ! u)" unfolding u .
  moreover have "up_thread k u (jl u) (ls ! u)" using i u2(1) by (simp add: up_inv_def)
  ultimately have "jl u = tr u" "rpc (ls ! u) \<noteq> RLeaf" using up_sent_thread by blast+
  then have "j < up_done (jl u) (ls ! u)" using u2(2) by (simp add: up_done_def)
  with D u2(1) show "node_sum (radix c) k cn j (u div 2 ^ j) (prefix_tree s ! tix k j (u div 2 ^ j))" by (rule up_sumsD)
qed

lemma up_combine:
  assumes c: "conf_ok c k b" "memory_ok c s" and i: "up_inv c k cn jl ls s" and t: "t < 2 ^ k" and len: "length ls = 2 ^ k"
    and pc: "rpc (ls ! t) = RCombine"
  shows "\<exists>l s' j. radix_step c t (ls ! t, s) = Go (l, s') \<and> up_inv c k cn (jl(t := j)) (ls[t := l]) s' \<and> memory_ok c s' \<and> key s' = key s
    \<and> same_data l (ls ! t) \<and> phase_todo c l < phase_todo c (ls ! t)"
proof -
  let ?j = "jl t" and ?y = "t div 2 ^ Suc (jl t)"
  have th: "up_thread k t ?j (ls ! t)" using i t by (simp add: up_inv_def)
  then have j: "?j < tr t" and f: "roffset (ls ! t) = ?y" "rbase (ls ! t) = tix k (Suc ?j) 0" "rlevel (ls ! t) = 2 ^ k div 2 ^ Suc ?j" "nd (ls ! t) = tix k ?j (t div 2 ^ ?j)"
    using pc by (auto simp: up_thread_def)
  have jk: "?j < k" using j tr_le [OF t] by simp
  let ?x = "tix k (Suc ?j) ?y" and ?a = "prefix_tree s ! tix k ?j (t div 2 ^ ?j)" and ?b = "prefix_tree s ! tix k ?j ((t - 2 ^ ?j) div 2 ^ ?j)"
  let ?n = "prefix_tree s ! ?x"
  note e = below [OF t j] and g = up_inputs [OF i t pc refl refl]
  have lt: "tix k ?j (t div 2 ^ ?j) < 2 * 2 ^ k" "tix k ?j ((t - 2 ^ ?j) div 2 ^ ?j) < 2 * 2 ^ k" "?x < 2 * 2 ^ k"
    using tix_bound [of ?j k "t div 2 ^ ?j"] tix_bound [of ?j k "(t - 2 ^ ?j) div 2 ^ ?j"] node_range [OF t, of ?j] node_range [OF e(3), of ?j] above(2) [OF t, of ?j] jk
    by simp_all
  note m = conf_nodes [OF c lt(3)]
  have rds: "rd (prefix_tree s) (int (tix k ?j (t div 2 ^ ?j))) = Some ?a" "rd (prefix_tree s) (int (tix k ?j (t div 2 ^ ?j)) - 1) = Some ?b"
    unfolding e(5) by (rule conf_nodes(1) [OF c lt(1)] conf_nodes(1) [OF c lt(2)])+
  have len2: "radix c \<le> length (densities ?n)" "radix c \<le> length (ranks ?n)" using m by simp_all
  note nc = node_combine [OF t j g len2]
  obtain d where d: "add_first (radix c) (densities ?n) (densities ?a) (densities ?b) = Some d" "length d = MAX_RADIX"
      "first (radix c) d (\<lambda>d. nsum (\<lambda>t. den cn t d) (Suc ?j) ?y)" using nc(1) m(3) by auto
  have lv: "int (roffset (ls ! t)) \<noteq> int (rlevel (ls ! t)) - 1 \<longleftrightarrow> Suc ?y \<noteq> 2 ^ (k - Suc ?j)"
    using jk power_diff [of "2::nat" "Suc ?j" k] unfolding f by (simp del: power_Suc) linarith
  obtain r where r: "(if int (roffset (ls ! t)) \<noteq> int (rlevel (ls ! t)) - 1 then add_first (radix c) (ranks ?n) (ranks ?a) (ranks ?b) else Some (ranks ?n)) = Some r"
      "length r = MAX_RADIX" "Suc ?y \<noteq> 2 ^ (k - Suc ?j) \<Longrightarrow> first (radix c) r (\<lambda>d. nsum (\<lambda>t. cn t d) (Suc ?j) ?y)"
    using nc(2) m(4) unfolding lv by (cases "Suc ?y \<noteq> 2 ^ (k - Suc ?j)") auto
  define l where "l = (ls ! t)\<lparr>nd := ?x, rbase := tix k (Suc (Suc ?j)) 0, rlevel := 2 ^ k div 2 ^ Suc (Suc ?j),
      rpc := (if even (roffset (ls ! t)) then RSetUp else RUpTest)\<rparr>"
  define s' where "s' = set_node ?x (?n\<lparr>densities := d, ranks := r\<rparr>) s"
  have q: "rbase (ls ! t) + roffset (ls ! t) = ?x" "rbase (ls ! t) + rlevel (ls ! t) = tix k (Suc (Suc ?j)) 0" "rlevel (ls ! t) div 2 = 2 ^ k div 2 ^ Suc (Suc ?j)"
    using tix_Suc [of "Suc ?j" k] jk power_diff [of "2::nat" "Suc ?j" k] unfolding f div_Suc2 [of "2 ^ k" "Suc ?j"] by (simp_all add: tix_add)
  have s: "radix_step c t (ls ! t, s) = Go (l, s')"
    by (simp add: radix_step_def combine_step_def go_def pc f(4) q rds m(1) d(1) r(1) l_def s'_def del: power_Suc)
  have nth: "prefix_tree s' ! y = (if y = ?x then ?n\<lparr>densities := d, ranks := r\<rparr> else prefix_tree s ! y)" for y
    unfolding s'_def by (rule set_node_nth [OF m(2)])
  have ev: "even (roffset (ls ! t)) \<longleftrightarrow> Suc ?j = tr t" unfolding f(1) using even_tr [of "Suc ?j" t] j by simp
  have th': "up_thread k t (Suc ?j) l" using j ev f(1) by (auto simp: up_thread_def l_def simp del: power_Suc)
  have fl: "up_flags k s' ((\<lambda>t. up_sent t (jl t) (ls ! t))(t := up_sent t (Suc ?j) l)) ((\<lambda>t. up_waits (jl t) (ls ! t))(t := up_waits (Suc ?j) l))"
    by (rule up_inv_flags [OF i]) (use pc ev nth in \<open>auto simp: up_sent_def up_waits_def l_def\<close>)
  have "up_sums (radix c) k cn s (\<lambda>t. up_done (jl t) (ls ! t))" using i by (simp add: up_inv_def)
  then have "up_sums (radix c) k cn s' ((\<lambda>t. up_done (jl t) (ls ! t))(t := Suc (up_done (jl t) (ls ! t))))"
    by (rule up_sums_new [OF _ t]) (use pc j nth d(3) r(3) in \<open>simp_all add: up_done_def node_sum_def node_ranks_def del: power_Suc\<close>)
  then have v: "up_sums (radix c) k cn s' ((\<lambda>t. up_done (jl t) (ls ! t))(t := up_done (Suc ?j) l))" using pc by (simp add: up_done_def l_def)
  have "up_inv c k cn (jl(t := Suc ?j)) (ls[t := l]) s'" by (rule up_inv_step [OF i t len th' fl v])
  moreover have "memory_ok c s'" unfolding s'_def using c(2) by (rule set_node_ok) (use d(2) r(2) in simp_all)
  moreover have "phase_todo c l < phase_todo c (ls ! t)" using pc f(1) by (simp add: phase_todo_def l_def)
  ultimately show ?thesis using s by (intro exI [of _ l] exI [of _ s'] exI [of _ "Suc ?j"]) (simp add: s'_def l_def same_data_def)
qed

section \<open>The phase\<close>

definition counted :: "radix_conf \<Rightarrow> nat \<Rightarrow> (nat \<Rightarrow> nat \<Rightarrow> nat) \<Rightarrow> rthread list \<Rightarrow> bool" where
  "counted c k cn ls \<longleftrightarrow> (\<forall>t < 2 ^ k. first (radix c) (rank_me (ls ! t)) (cn t) \<and> first (radix c) (key_density (ls ! t)) (den cn t))"

lemma up_keep:
  assumes c: "conf_ok c k b" "memory_ok c s" and i: "up_inv c k cn jl ls s" and t: "t < 2 ^ k" and len: "length ls = 2 ^ k"
    and d: "counted c k cn ls" and nb: "\<not> at_barrier (ls ! t)"
  shows "radix_step c t (ls ! t, s) = Blocked \<or> (\<exists>l s' j. radix_step c t (ls ! t, s) = Go (l, s') \<and> up_inv c k cn j (ls[t := l]) s'
    \<and> memory_ok c s' \<and> key s' = key s \<and> same_data l (ls ! t) \<and> phase_todo c l < phase_todo c (ls ! t))"
proof -
  have th: "up_thread k t (jl t) (ls ! t)" using i t by (simp add: up_inv_def)
  then have "rpc (ls ! t) \<in> {RLeaf, RSetUp, RUpTest, RCombine}" using nb by (auto simp: up_thread_def at_barrier_def)
  then consider "rpc (ls ! t) = RLeaf" | "rpc (ls ! t) = RSetUp" | "rpc (ls ! t) = RCombine" | "rpc (ls ! t) = RUpTest" "jl t = tr t"
    | "rpc (ls ! t) = RUpTest" "jl t < tr t"
    using th unfolding up_thread_def by (metis empty_iff insert_iff le_neq_implies_less)
  then show ?thesis
  proof cases
    case 1
    then show ?thesis using up_leaf [OF c i t len] d t unfolding counted_def by blast
  next
    case 2
    then show ?thesis using up_set [OF c i t len] by blast
  next
    case 3
    then show ?thesis using up_combine [OF c i t len] by blast
  next
    case 4
    then show ?thesis using up_exit [OF i t len] c(2) by blast
  next
    case 5
    then show ?thesis using up_wait [OF c i t len] by (auto split: if_splits)
  qed
qed

lemma up_live:
  assumes c: "conf_ok c k b" "memory_ok c s" and i: "up_inv c k cn jl ls s" and len: "length ls = 2 ^ k" and d: "counted c k cn ls"
    and t: "t < 2 ^ k" "\<not> at_barrier (ls ! t)"
  shows "\<exists>u < 2 ^ k. \<not> at_barrier (ls ! u) \<and> radix_step c u (ls ! u, s) \<noteq> Blocked"
proof -
  define u where "u = (LEAST u. u < 2 ^ k \<and> \<not> at_barrier (ls ! u))"
  have u: "u < 2 ^ k" "\<not> at_barrier (ls ! u)" unfolding u_def using LeastI [of "\<lambda>u. u < 2 ^ k \<and> \<not> at_barrier (ls ! u)" t] t by blast+
  have least: "at_barrier (ls ! v)" if "v < u" for v using not_less_Least [of v "\<lambda>u. u < 2 ^ k \<and> \<not> at_barrier (ls ! u)"] that u(1) unfolding u_def [symmetric] by auto
  have th: "up_thread k v (jl v) (ls ! v)" if "v < 2 ^ k" for v using i that by (simp add: up_inv_def)
  have "radix_step c u (ls ! u, s) \<noteq> Blocked"
  proof (cases "rpc (ls ! u) = RUpTest \<and> jl u < tr u")
    case True
    let ?v = "u - 2 ^ jl u"
    have "0 < (2::nat) ^ jl u" by simp
    then have v: "?v < u" using left_thread(1) [of "jl u" u] True by linarith
    then have "at_barrier (ls ! ?v)" "up_thread k ?v (jl ?v) (ls ! ?v)" using least th u(1) by simp_all
    then have "rpc (ls ! ?v) = RBar4" unfolding up_thread_def at_barrier_def by (cases "rpc (ls ! ?v)") simp_all
    then have "up_sent ?v (jl ?v) (ls ! ?v)" by (simp add: up_sent_def)
    then show ?thesis using up_wait [OF c i u(1) len, of] True by auto
  next
    case False
    have "rpc (ls ! u) \<in> {RLeaf, RSetUp, RUpTest, RCombine}" using th [OF u(1)] u(2) by (auto simp: up_thread_def at_barrier_def)
    then consider "rpc (ls ! u) = RLeaf" | "rpc (ls ! u) = RSetUp" | "rpc (ls ! u) = RCombine" | "rpc (ls ! u) = RUpTest" "jl u = tr u"
      using th [OF u(1)] False unfolding up_thread_def by (metis empty_iff insert_iff le_neq_implies_less)
    then show ?thesis
    proof cases
      case 1
      then show ?thesis using up_leaf [OF c i u(1) len] d u(1) unfolding counted_def by fastforce
    next
      case 2
      then show ?thesis using up_set [OF c i u(1) len] by fastforce
    next
      case 3
      then show ?thesis using up_combine [OF c i u(1) len] by fastforce
    next
      case 4
      then show ?thesis using up_exit [OF i u(1) len] by fastforce
    qed
  qed
  then show ?thesis using u by blast
qed

text \<open>Before and after the phase all flags are cleared.\<close>

definition quiet :: "nat \<Rightarrow> global_memory \<Rightarrow> bool" where
  "quiet k s \<longleftrightarrow> (\<forall>j \<le> k. \<forall>y < 2 ^ (k - j). pause (prefix_tree s ! tix k j y) = 0)"

lemma up_begin:
  assumes "quiet k s" "\<And>t. t < 2 ^ k \<Longrightarrow> rpc (ls ! t) = RLeaf"
  shows "up_inv c k cn (\<lambda>_. 0) ls s"
proof -
  have "up_thread k t 0 (ls ! t)" if "t < 2 ^ k" for t using assms(2) [OF that] by (simp add: up_thread_def)
  moreover have "up_flags k s (\<lambda>t. up_sent t 0 (ls ! t)) (\<lambda>t. up_waits 0 (ls ! t))"
  proof -
    have "pause (prefix_tree s ! t) = 0" if "t < 2 ^ k" for t using assms(1) that unfolding quiet_def by (metis diff_zero le0 tix_0)
    moreover have "pause (prefix_tree s ! tix k (Suc i) (t div 2 ^ Suc i)) = 0" "\<not> up_sent (t - 2 ^ i) 0 (ls ! (t - 2 ^ i))" "up_waits 0 (ls ! t) = 0"
      if "t < 2 ^ k" "i < tr t" for t i
    proof -
      have "Suc i \<le> k" using that tr_le [of t k] by simp
      then show "pause (prefix_tree s ! tix k (Suc i) (t div 2 ^ Suc i)) = 0" using assms(1) node_range [OF that(1)] unfolding quiet_def by blast
      have "rpc (ls ! (t - 2 ^ i)) = RLeaf" "rpc (ls ! t) = RLeaf" using assms(2) that(1) by simp_all
      then show "\<not> up_sent (t - 2 ^ i) 0 (ls ! (t - 2 ^ i))" "up_waits 0 (ls ! t) = 0" by (simp_all add: up_sent_def up_waits_def)
    qed
    ultimately show ?thesis unfolding up_flags_def by auto
  qed
  moreover have "up_sums (radix c) k cn s (\<lambda>t. up_done 0 (ls ! t))" using assms(2) by (simp add: up_sums_def up_done_def)
  ultimately show ?thesis by (simp add: up_inv_def)
qed

lemma up_end:
  assumes i: "up_inv c k cn jl ls s" and a: "\<forall>t < 2 ^ k. at_barrier (ls ! t)"
  shows "\<And>t. t < 2 ^ k \<Longrightarrow> rpc (ls ! t) = RBar4" "quiet k s" "up_sums (radix c) k cn s (\<lambda>t. Suc (tr t))"
proof -
  have th: "up_thread k t (jl t) (ls ! t)" if "t < 2 ^ k" for t using i that by (simp add: up_inv_def)
  show pc: "rpc (ls ! t) = RBar4" if "t < 2 ^ k" for t
    using th [OF that] a [rule_format, OF that] unfolding up_thread_def at_barrier_def by (cases "rpc (ls ! t)") simp_all
  have jt: "jl t = tr t" if "t < 2 ^ k" for t using th [OF that] pc [OF that] by (simp add: up_thread_def)
  have fl: "up_flags k s (\<lambda>t. up_sent t (jl t) (ls ! t)) (\<lambda>t. up_waits (jl t) (ls ! t))" using i by (simp add: up_inv_def)
  have "pause (prefix_tree s ! tix k j y) = 0" if j: "j \<le> k" and y: "y < 2 ^ (k - j)" for j y
  proof (cases j)
    case 0
    then show ?thesis using up_flagsD(1) [OF fl, of y] y by simp
  next
    case (Suc i)
    define t where "t = Suc y * 2 ^ j - 1"
    have t: "t < 2 ^ k" "j \<le> tr t" "t div 2 ^ j = y" using owner [OF j y] by (simp_all only: t_def)
    have "i < tr t" using t(2) Suc by simp
    moreover have "\<not> up_waits (jl t) (ls ! t) \<le> i" using jt [OF t(1)] pc [OF t(1)] t(2) Suc by (simp add: up_waits_def)
    ultimately have "pause (prefix_tree s ! tix k (Suc i) (t div 2 ^ Suc i)) = 0" using up_flagsD(2) [OF fl t(1)] by presburger
    then show ?thesis using t(3) by (simp only: Suc)
  qed
  then show "quiet k s" by (simp add: quiet_def)
  have "up_sums (radix c) k cn s (\<lambda>t. up_done (jl t) (ls ! t))" using i by (simp add: up_inv_def)
  then show "up_sums (radix c) k cn s (\<lambda>t. Suc (tr t))" by (rule up_sums_cong) (simp_all add: up_done_def pc jt)
qed

end
