(* ===== verification/RadixDown.thy ===== *)
theory RadixDown
  imports RadixUp
begin

text \<open>
  The phase between the barriers 4 and 5 of \<^verbatim>\<open>slave_sort\<close>: the densities of the root come down the tree, every thread waiting for the
  flag of its node, and every thread computes where its keys of each digit are to go.
\<close>

section \<open>Ranks\<close>

definition all_ranks :: "nat \<Rightarrow> nat \<Rightarrow> (nat \<Rightarrow> nat \<Rightarrow> nat) \<Rightarrow> global_memory \<Rightarrow> bool" where
  "all_ranks r k cn s \<longleftrightarrow> (\<forall>j \<le> k. \<forall>y < 2 ^ (k - j). node_ranks r k cn j y (prefix_tree s ! tix k j y))"

lemma all_ranks_cong:
  assumes "all_ranks r k cn s" "\<And>x. ranks (prefix_tree s' ! x) = ranks (prefix_tree s ! x)"
  shows "all_ranks r k cn s'"
  using assms(1) unfolding all_ranks_def node_ranks_def assms(2) .

lemma rank_loop_sum:
  assumes c: "conf_ok c k b" "memory_ok c s" and a: "all_ranks (radix c) k cn s" and t: "t < 2 ^ k" and j: "j \<le> k"
    and ff: "length ff = radix c" "first (radix c) ff f"
  shows "\<exists>gg. rank_loop (radix c) (prefix_tree s) (t div 2 ^ j) (2 ^ (k - j)) (tix k j 0) ff = Some gg \<and> length gg = radix c
    \<and> first (radix c) gg (\<lambda>d. f d + (\<Sum>u < t div 2 ^ j * 2 ^ j. cn u d))"
  using j ff
proof (induction "k - j" arbitrary: j ff f)
  case 0
  then have "t div 2 ^ j = 0" using t by simp
  then show ?case using 0 by (subst rank_loop.simps) simp
next
  case (Suc x)
  let ?o = "t div 2 ^ j"
  have j: "j < k" using Suc.hyps(2) by simp
  show ?case
  proof (cases "?o = 0")
    case True
    then show ?thesis using Suc.prems by (subst rank_loop.simps) simp
  next
    case False
    have lv: "(2::nat) ^ (k - j) div 2 = 2 ^ (k - Suc j)"
    proof -
      have "k - j = Suc (k - Suc j)" using j by linarith
      then show ?thesis by simp
    qed
    have "\<exists>hh. (if odd ?o then do { l \<leftarrow> rd (prefix_tree s) (int (tix k j 0) + int ?o - 1); add_first (radix c) ff ff (ranks l) } else Some ff) = Some hh
        \<and> length hh = radix c \<and> first (radix c) hh (\<lambda>d. f d + (if odd ?o then nsum (\<lambda>u. cn u d) j (?o - 1) else 0))"
    proof (cases "odd ?o")
      case True
      then obtain y where y: "?o = Suc y" by (cases ?o) auto
      have yr: "Suc y < 2 ^ (k - j)" using node_range [OF t, of j] j y by simp
      have lt: "tix k j y < 2 * 2 ^ k" using tix_bound [of j k y] j yr by simp
      have "rd (prefix_tree s) (int (tix k j 0) + int ?o - 1) = Some (prefix_tree s ! tix k j y)"
        using conf_nodes(1) [OF c lt] by (simp add: y tix_def)
      moreover have "first (radix c) (ranks (prefix_tree s ! tix k j y)) (\<lambda>d. nsum (\<lambda>u. cn u d) j y)"
        using a j yr unfolding all_ranks_def node_ranks_def by simp
      ultimately show ?thesis using add_first_first [of "radix c" ff ff f] Suc.prems True y by auto
    qed (use Suc.prems in simp)
    then obtain hh where hh: "(if odd ?o then do { l \<leftarrow> rd (prefix_tree s) (int (tix k j 0) + int ?o - 1); add_first (radix c) ff ff (ranks l) } else Some ff) = Some hh"
        "length hh = radix c" "first (radix c) hh (\<lambda>d. f d + (if odd ?o then nsum (\<lambda>u. cn u d) j (?o - 1) else 0))" by blast
    have "rank_loop (radix c) (prefix_tree s) ?o (2 ^ (k - j)) (tix k j 0) ff
        = rank_loop (radix c) (prefix_tree s) (t div 2 ^ Suc j) (2 ^ (k - Suc j)) (tix k (Suc j) 0) hh"
      using False j by (subst rank_loop.simps) (simp add: hh(1) lv div_Suc2 tix_Suc del: power_Suc)
    moreover from Suc.hyps(1) [of "Suc j" hh] Suc.hyps(2) j hh(2,3) obtain gg where
      "rank_loop (radix c) (prefix_tree s) (t div 2 ^ Suc j) (2 ^ (k - Suc j)) (tix k (Suc j) 0) hh = Some gg" "length gg = radix c"
      "first (radix c) gg (\<lambda>d. f d + (if odd ?o then nsum (\<lambda>u. cn u d) j (?o - 1) else 0) + (\<Sum>u < t div 2 ^ Suc j * 2 ^ Suc j. cn u d))" by fastforce
    moreover have "(if odd ?o then nsum (\<lambda>u. cn u d) j (?o - 1) else 0) + (\<Sum>u < t div 2 ^ Suc j * 2 ^ Suc j. cn u d) = (\<Sum>u < ?o * 2 ^ j. cn u d)" for d
    proof (cases "odd ?o")
      case True
      then have q: "?o = Suc (2 * (t div 2 ^ Suc j))" unfolding div_Suc2 by (auto elim: oddE)
      then obtain x where x: "?o = Suc x" "t div 2 ^ Suc j * 2 ^ Suc j = x * 2 ^ j" by simp
      show ?thesis unfolding x using True nsum_before [of "\<lambda>u. cn u d" x j] x(1) by (simp only: not_False_eq_True if_True diff_Suc_1 add.commute)
    next
      case False
      then have "?o = 2 * (t div 2 ^ Suc j)" unfolding div_Suc2 by (auto elim: evenE)
      then have "t div 2 ^ Suc j * 2 ^ Suc j = ?o * 2 ^ j" by simp
      then show ?thesis using False by (simp del: power_Suc)
    qed
    ultimately show ?thesis by (auto simp: add.assoc)
  qed
qed

lemma add_shifted_first:
  assumes "0 < r" "length ff = r" "first r ff f" "first r d g"
  shows "\<exists>gg. add_shifted r ff d = Some gg \<and> length gg = r \<and> first r gg (\<lambda>x. f x + (if x = 0 then 0 else g (x - 1)))"
proof -
  obtain q where q: "r = Suc q" using assms(1) by (cases r) auto
  have ff: "ff = map f [0 ..< r]" and d: "take r d = map g [0 ..< r]" "r \<le> length d" using assms by (simp_all add: first_def)
  have "take q d = map g [0 ..< q]" using arg_cong [OF d(1), of "take q"] q by (simp add: take_map min_def)
  then have "0 # take q d = map (\<lambda>x. if x = 0 then 0 else g (x - 1)) [0 ..< r]"
    unfolding q by (simp add: upt_conv_Cons map_Suc_upt [symmetric] del: upt_Suc)
  then have "map2 (+) ff (0 # take (r - 1) d) = map (\<lambda>x. f x + (if x = 0 then 0 else g (x - 1))) [0 ..< r]"
    unfolding ff using q by (simp add: zip_map_map zip_same_conv_map del: upt_Suc)
  then show ?thesis using assms(2) d(2) by (simp add: add_shifted_def first_def)
qed

section \<open>Flags and densities\<close>

text \<open>The last node that a thread has computed.\<close>

definition top_node :: "nat \<Rightarrow> nat \<Rightarrow> nat" where
  "top_node k t = tix k (tr t) (t div 2 ^ tr t)"

lemma top_node_inj: "t < 2 ^ k \<Longrightarrow> u < 2 ^ k \<Longrightarrow> top_node k t = top_node k u \<longleftrightarrow> t = u"
  unfolding top_node_def using tix_owner [of t k "tr t" u "tr u"] by auto

lemma top_node_bound: "t < 2 ^ k \<Longrightarrow> top_node k t < 2 * 2 ^ k"
  unfolding top_node_def using tix_bound [of "tr t" k "t div 2 ^ tr t"] node_range [of t k "tr t"] tr_le [of t k] by simp

lemma top_node_last: "t < 2 ^ k \<Longrightarrow> tr t = k \<Longrightarrow> top_node k t = tix k k 0"
  by (simp add: top_node_def)

text \<open>\<open>G t\<close>: the number of threads to the left that thread \<open>t\<close> has told; \<open>W t\<close>: thread \<open>t\<close> has waited for its flag.\<close>

definition down_flags :: "nat \<Rightarrow> global_memory \<Rightarrow> (nat \<Rightarrow> nat) \<Rightarrow> (nat \<Rightarrow> bool) \<Rightarrow> bool" where
  "down_flags k s G W \<longleftrightarrow>
     (\<forall>t < 2 ^ k. tr t < k \<longrightarrow> pause (prefix_tree s ! top_node k t) = (if tr t < G (t + 2 ^ tr t) \<and> \<not> W t then 1 else 0) \<and> (W t \<longrightarrow> tr t < G (t + 2 ^ tr t)))
     \<and> (\<forall>j \<le> k. \<forall>y < 2 ^ (k - j). odd y \<or> j = k \<longrightarrow> pause (prefix_tree s ! tix k j y) = 0)"

text \<open>\<open>R t\<close>: the node of \<open>t\<close> has the densities of the root.\<close>

definition down_sums :: "nat \<Rightarrow> nat \<Rightarrow> (nat \<Rightarrow> nat \<Rightarrow> nat) \<Rightarrow> global_memory \<Rightarrow> (nat \<Rightarrow> bool) \<Rightarrow> bool" where
  "down_sums r k cn s R \<longleftrightarrow> all_ranks r k cn s
     \<and> (\<forall>t < 2 ^ k. R t \<longrightarrow> first r (densities (prefix_tree s ! top_node k t)) (\<lambda>d. \<Sum>u < 2 ^ k. den cn u d))"

lemma down_flagsD:
  assumes "down_flags k s G W" "t < 2 ^ k" "tr t < k"
  shows "pause (prefix_tree s ! top_node k t) = (if tr t < G (t + 2 ^ tr t) \<and> \<not> W t then 1 else 0)" "W t \<Longrightarrow> tr t < G (t + 2 ^ tr t)"
  using assms unfolding down_flags_def by blast+

lemma down_flags_rest: "down_flags k s G W \<Longrightarrow> j \<le> k \<Longrightarrow> y < 2 ^ (k - j) \<Longrightarrow> odd y \<or> j = k \<Longrightarrow> pause (prefix_tree s ! tix k j y) = 0"
  by (simp add: down_flags_def)

lemma down_flags_cong:
  assumes "down_flags k s G W" "\<And>t. t < 2 ^ k \<Longrightarrow> G' t = G t" "\<And>t. t < 2 ^ k \<Longrightarrow> tr t < k \<Longrightarrow> W' t = W t"
    "\<And>x. pause (prefix_tree s' ! x) = pause (prefix_tree s ! x)"
  shows "down_flags k s' G' W'"
proof -
  have "G' (t + 2 ^ tr t) = G (t + 2 ^ tr t)" if "t < 2 ^ k" "tr t < k" for t using assms(2) right_thread(1) [OF that] by blast
  then show ?thesis using assms unfolding down_flags_def by simp
qed

lemma down_sums_cong:
  assumes "down_sums r k cn s R" "\<And>t. t < 2 ^ k \<Longrightarrow> R' t = R t"
    "\<And>x. densities (prefix_tree s' ! x) = densities (prefix_tree s ! x) \<and> ranks (prefix_tree s' ! x) = ranks (prefix_tree s ! x)"
  shows "down_sums r k cn s' R'"
  using assms(1,2) all_ranks_cong [of r k cn s s'] assms(3) unfolding down_sums_def by auto

text \<open>A thread waits for the flag of its node.\<close>

lemma top_node_other:
  assumes "j \<le> k" "y < 2 ^ (k - j)" "odd y \<or> j = k" "t < 2 ^ k" "tr t < k"
  shows "tix k j y \<noteq> top_node k t"
  using tix_inj [OF assms(1,2), of "tr t" "t div 2 ^ tr t"] node_range [OF assms(4), of "tr t"] assms tr_even [of t] unfolding top_node_def by auto

lemma down_flags_wait:
  assumes f: "down_flags k s G W" and t: "t < 2 ^ k" "tr t < k" and g: "tr t < G (t + 2 ^ tr t)"
    and s': "\<And>x. pause (prefix_tree s' ! x) = (if x = top_node k t then 0 else pause (prefix_tree s ! x))"
  shows "down_flags k s' G (W(t := True))"
  unfolding down_flags_def
proof (intro conjI allI impI)
  fix u :: nat assume u: "u < 2 ^ k" "tr u < k"
  show "pause (prefix_tree s' ! top_node k u) = (if tr u < G (u + 2 ^ tr u) \<and> \<not> (W(t := True)) u then 1 else 0)"
    using down_flagsD(1) [OF f u] top_node_inj [OF u(1) t(1)] unfolding s' by auto
  show "tr u < G (u + 2 ^ tr u)" if "(W(t := True)) u" using down_flagsD(2) [OF f u] that g by (cases "u = t") simp_all
next
  fix j y :: nat assume "j \<le> k" "y < 2 ^ (k - j)" "odd y \<or> j = k"
  then show "pause (prefix_tree s' ! tix k j y) = 0" using f unfolding s' down_flags_def by simp
qed

text \<open>A thread sets the flag of a node to its left.\<close>

lemma down_flags_set:
  assumes f: "down_flags k s G W" and t: "t < 2 ^ k" and i: "i < tr t" "G t = i"
    and s': "\<And>x. pause (prefix_tree s' ! x) = (if x = top_node k (t - 2 ^ i) then 1 else pause (prefix_tree s ! x))"
  shows "down_flags k s' (G(t := Suc i)) W"
proof -
  define v where "v = t - 2 ^ i"
  note l = left_thread [OF i(1)]
  have v: "v < 2 ^ k" "tr v = i" "v + 2 ^ tr v = t" "tr v < k" using l t i tr_le [OF t] by (simp_all add: v_def)
  have only: "u = v" if "u < 2 ^ k" "tr u = i" "u + 2 ^ tr u = t" for u using that v by simp
  show ?thesis unfolding down_flags_def
  proof (intro conjI allI impI)
    fix u :: nat assume u: "u < 2 ^ k" "tr u < k"
    have w: "\<not> W v" using down_flagsD(2) [OF f v(1,4)] i(2) v(2,3) by auto
    show "pause (prefix_tree s' ! top_node k u) = (if tr u < (G(t := Suc i)) (u + 2 ^ tr u) \<and> \<not> W u then 1 else 0)"
    proof (cases "u = v")
      case True
      then show ?thesis unfolding s' v_def [symmetric] using v w by simp
    next
      case False
      then have "tr u < (G(t := Suc i)) (u + 2 ^ tr u) \<longleftrightarrow> tr u < G (u + 2 ^ tr u)" using only [OF u(1)] i(2) by (auto simp: less_Suc_eq)
      then show ?thesis unfolding s' v_def [symmetric] using down_flagsD(1) [OF f u] top_node_inj [OF u(1) v(1)] False by simp
    qed
    show "tr u < (G(t := Suc i)) (u + 2 ^ tr u)" if "W u"
      using down_flagsD(2) [OF f u that] i(2) by (auto simp: less_Suc_eq)
  next
    fix j y :: nat assume a: "j \<le> k" "y < 2 ^ (k - j)" "odd y \<or> j = k"
    then show "pause (prefix_tree s' ! tix k j y) = 0"
      using f top_node_other [OF a v(1,4)] unfolding s' v_def [symmetric] down_flags_def by simp
  qed
qed

lemma down_sums_new:
  assumes v: "down_sums r k cn s R" and t: "t < 2 ^ k"
    and n: "first r (densities (prefix_tree s' ! top_node k t)) (\<lambda>d. \<Sum>u < 2 ^ k. den cn u d)"
    and s': "\<And>x. x \<noteq> top_node k t \<Longrightarrow> prefix_tree s' ! x = prefix_tree s ! x" "ranks (prefix_tree s' ! top_node k t) = ranks (prefix_tree s ! top_node k t)"
  shows "down_sums r k cn s' (R(t := True))"
proof -
  have "ranks (prefix_tree s' ! x) = ranks (prefix_tree s ! x)" for x using s' by (cases "x = top_node k t") simp_all
  then have "all_ranks r k cn s'" using v all_ranks_cong [of r k cn s s'] unfolding down_sums_def by blast
  moreover have "first r (densities (prefix_tree s' ! top_node k u)) (\<lambda>d. \<Sum>u < 2 ^ k. den cn u d)" if "u < 2 ^ k" "(R(t := True)) u" for u
  proof (cases "u = t")
    case True
    then show ?thesis using n by simp
  next
    case False
    then show ?thesis using v that s'(1) [of "top_node k u"] top_node_inj [OF that(1) t] unfolding down_sums_def by auto
  qed
  ultimately show ?thesis unfolding down_sums_def by blast
qed

section \<open>The threads\<close>

definition ranked :: "radix_conf \<Rightarrow> nat \<Rightarrow> (nat \<Rightarrow> nat \<Rightarrow> nat) \<Rightarrow> nat \<Rightarrow> rthread \<Rightarrow> bool" where
  "ranked c k cn t l \<longleftrightarrow> length (rank_ff l) = radix c
     \<and> first (radix c) (rank_ff l) (\<lambda>d. (\<Sum>u < t. cn u d) + (if d = 0 then 0 else \<Sum>u < 2 ^ k. den cn u (d - 1)))"

text \<open>Thread \<open>t\<close>, which has told \<open>i\<close> threads.\<close>

definition down_thread :: "radix_conf \<Rightarrow> nat \<Rightarrow> (nat \<Rightarrow> nat \<Rightarrow> nat) \<Rightarrow> nat \<Rightarrow> nat \<Rightarrow> rthread \<Rightarrow> bool" where
  "down_thread c k cn t i l \<longleftrightarrow> rpc l \<in> {RDown, RCopy, RSignal, RRank, RBar5} \<and> (rpc l \<in> {RDown, RCopy} \<longrightarrow> i = 0)
     \<and> (rpc l = RCopy \<longrightarrow> tr t < k \<and> my_node l = top_node k t \<and> their_node l = top_node k (t + 2 ^ tr t))
     \<and> (rpc l \<in> {RSignal, RRank} \<longrightarrow> my_node l = top_node k t)
     \<and> (rpc l = RSignal \<longrightarrow> i \<le> tr t \<and> roffset l = t div 2 ^ i \<and> rlevel l = 2 ^ (k - i) \<and> rbase l = tix k i 0)
     \<and> (rpc l \<in> {RRank, RBar5} \<longrightarrow> i = tr t) \<and> (rpc l = RBar5 \<longrightarrow> ranked c k cn t l)"

definition down_ready :: "nat \<Rightarrow> nat \<Rightarrow> rthread \<Rightarrow> bool" where
  "down_ready k t l \<longleftrightarrow> tr t = k \<or> rpc l \<in> {RSignal, RRank, RBar5}"

definition down_inv :: "radix_conf \<Rightarrow> nat \<Rightarrow> (nat \<Rightarrow> nat \<Rightarrow> nat) \<Rightarrow> (nat \<Rightarrow> nat) \<Rightarrow> rthread list \<Rightarrow> global_memory \<Rightarrow> bool" where
  "down_inv c k cn gl ls s \<longleftrightarrow> (\<forall>t < 2 ^ k. down_thread c k cn t (gl t) (ls ! t))
     \<and> down_flags k s gl (\<lambda>t. rpc (ls ! t) \<noteq> RDown) \<and> down_sums (radix c) k cn s (\<lambda>t. down_ready k t (ls ! t))"

lemma down_inv_step:
  assumes i: "down_inv c k cn gl ls s" and t: "t < 2 ^ k" and len: "length ls = 2 ^ k" and th: "down_thread c k cn t g l"
    and f: "down_flags k s' (gl(t := g)) ((\<lambda>t. rpc (ls ! t) \<noteq> RDown)(t := rpc l \<noteq> RDown))"
    and v: "down_sums (radix c) k cn s' ((\<lambda>t. down_ready k t (ls ! t))(t := down_ready k t l))"
  shows "down_inv c k cn (gl(t := g)) (ls[t := l]) s'"
  unfolding down_inv_def
proof (intro conjI allI impI)
  show "down_thread c k cn u ((gl(t := g)) u) (ls[t := l] ! u)" if "u < 2 ^ k" for u
    using i th that len unfolding down_inv_def by (cases "u = t") auto
  show "down_flags k s' (gl(t := g)) (\<lambda>u. rpc (ls[t := l] ! u) \<noteq> RDown)"
    using t len by (intro down_flags_cong [OF f]) (auto simp: nth_list_update)
  show "down_sums (radix c) k cn s' (\<lambda>u. down_ready k u (ls[t := l] ! u))"
    using t len by (intro down_sums_cong [OF v]) (auto simp: nth_list_update)
qed

lemma down_inv_flags:
  assumes "down_inv c k cn gl ls s" "g = gl t" "tr t < k \<Longrightarrow> (rpc l \<noteq> RDown) = (rpc (ls ! t) \<noteq> RDown)"
    "\<And>x. pause (prefix_tree s' ! x) = pause (prefix_tree s ! x)"
  shows "down_flags k s' (gl(t := g)) ((\<lambda>t. rpc (ls ! t) \<noteq> RDown)(t := rpc l \<noteq> RDown))"
proof -
  have "down_flags k s gl (\<lambda>t. rpc (ls ! t) \<noteq> RDown)" using assms(1) by (simp add: down_inv_def)
  then show ?thesis by (rule down_flags_cong [OF _ _ _ assms(4)]) (use assms(2,3) in auto)
qed

lemma down_inv_sums:
  assumes "down_inv c k cn gl ls s" "down_ready k t l = down_ready k t (ls ! t)"
    "\<And>x. densities (prefix_tree s' ! x) = densities (prefix_tree s ! x) \<and> ranks (prefix_tree s' ! x) = ranks (prefix_tree s ! x)"
  shows "down_sums (radix c) k cn s' ((\<lambda>t. down_ready k t (ls ! t))(t := down_ready k t l))"
proof -
  have "down_sums (radix c) k cn s (\<lambda>t. down_ready k t (ls ! t))" using assms(1) by (simp add: down_inv_def)
  then show ?thesis by (rule down_sums_cong [OF _ _ assms(3)]) (use assms(2) in simp)
qed

text \<open>The result of a step.\<close>

definition down_goes :: "radix_conf \<Rightarrow> nat \<Rightarrow> (nat \<Rightarrow> nat \<Rightarrow> nat) \<Rightarrow> nat \<Rightarrow> rthread list \<Rightarrow> global_memory \<Rightarrow> bool" where
  "down_goes c k cn t ls s \<longleftrightarrow> (\<exists>l s' g. radix_step c t (ls ! t, s) = Go (l, s') \<and> down_inv c k cn g (ls[t := l]) s'
     \<and> memory_ok c s' \<and> key s' = key s \<and> same_data l (ls ! t) \<and> phase_todo c l < phase_todo c (ls ! t))"

lemma down_goesI:
  "radix_step c t (ls ! t, s) = Go (l, s') \<Longrightarrow> down_inv c k cn g (ls[t := l]) s' \<Longrightarrow> memory_ok c s' \<Longrightarrow> key s' = key s \<Longrightarrow> same_data l (ls ! t)
    \<Longrightarrow> phase_todo c l < phase_todo c (ls ! t) \<Longrightarrow> down_goes c k cn t ls s"
  unfolding down_goes_def by blast

text \<open>The last thread has the root.\<close>

lemma down_last:
  assumes c: "conf_ok c k b" "memory_ok c s" and i: "down_inv c k cn gl ls s" and t: "t < 2 ^ k" "tr t = k" and len: "length ls = 2 ^ k"
    and pc: "rpc (ls ! t) = RDown"
  shows "down_goes c k cn t ls s"
proof -
  have P: "number_of_processors c = 2 ^ k" using c(1) by (simp add: conf_ok_def)
  define l where "l = (ls ! t)\<lparr>my_node := top_node k t, roffset := t, rlevel := 2 ^ k, rbase := 0, rpc := RSignal\<rparr>"
  have "Suc t = 2 ^ k" using tr_full [OF t(1)] t(2) by simp
  then have s: "radix_step c t (ls ! t, s) = Go (l, s)"
    using pc top_node_last [OF t] by (simp add: radix_step_def down_step_def P l_def tix_root)
  have g: "gl t = 0" using i t(1) pc by (auto simp: down_inv_def down_thread_def)
  have th: "down_thread c k cn t 0 l" by (simp add: down_thread_def l_def)
  have f: "down_flags k s (gl(t := 0)) ((\<lambda>t. rpc (ls ! t) \<noteq> RDown)(t := rpc l \<noteq> RDown))"
    by (rule down_inv_flags [OF i]) (use g t(2) in simp_all)
  have v: "down_sums (radix c) k cn s ((\<lambda>t. down_ready k t (ls ! t))(t := down_ready k t l))"
    by (rule down_inv_sums [OF i]) (use t(2) in \<open>simp_all add: down_ready_def\<close>)
  have "down_inv c k cn (gl(t := 0)) (ls[t := l]) s" by (rule down_inv_step [OF i t(1) len th f v])
  moreover have "phase_todo c l < phase_todo c (ls ! t)" using pc t(1) by (simp add: phase_todo_def l_def P)
  ultimately show ?thesis using s c(2) by (intro down_goesI) (simp_all add: l_def same_data_def)
qed

lemma down_nodes:
  assumes t: "t < 2 ^ k" "tr t < k"
  shows "climb t (2 ^ k) 0 = (t div 2 ^ tr t, 2 ^ (k - tr t), tix k (tr t) 0)"
    "climb (t div 2 ^ tr t div 2) (2 ^ (k - tr t) div 2) (tix k (tr t) (2 ^ (k - tr t)))
      = ((t + 2 ^ tr t) div 2 ^ tr (t + 2 ^ tr t), 2 ^ (k - tr (t + 2 ^ tr t)), tix k (tr (t + 2 ^ tr t)) 0)"
proof -
  show "climb t (2 ^ k) 0 = (t div 2 ^ tr t, 2 ^ (k - tr t), tix k (tr t) 0)" using climb_up [of 0 t k] t(2) by simp
  define v where "v = t + 2 ^ tr t"
  note r = right_thread [OF t, folded v_def]
  have "k - tr t = Suc (k - Suc (tr t))" using t(2) by linarith
  then have h: "(2::nat) ^ (k - tr t) div 2 = 2 ^ (k - Suc (tr t))" by simp
  have "climb (v div 2 ^ Suc (tr t)) (2 ^ (k - Suc (tr t))) (tix k (Suc (tr t)) 0) = (v div 2 ^ tr v, 2 ^ (k - tr v), tix k (tr v) 0)"
    using r(2) tr_le [OF r(1)] by (intro climb_up) simp_all
  moreover have "tix k (tr t) (2 ^ (k - tr t)) = tix k (Suc (tr t)) 0" using tix_Suc [of "tr t" k] t(2) by (simp add: tix_add)
  ultimately show "climb (t div 2 ^ tr t div 2) (2 ^ (k - tr t) div 2) (tix k (tr t) (2 ^ (k - tr t)))
      = ((t + 2 ^ tr t) div 2 ^ tr (t + 2 ^ tr t), 2 ^ (k - tr (t + 2 ^ tr t)), tix k (tr (t + 2 ^ tr t)) 0)"
    unfolding h div_Suc2 [symmetric] v_def [symmetric] r(4) by (simp only:)
qed

lemma down_wait:
  assumes c: "conf_ok c k b" "memory_ok c s" and i: "down_inv c k cn gl ls s" and t: "t < 2 ^ k" "tr t < k" and len: "length ls = 2 ^ k"
    and pc: "rpc (ls ! t) = RDown"
  shows "if tr t < gl (t + 2 ^ tr t) then down_goes c k cn t ls s else radix_step c t (ls ! t, s) = Blocked"
proof -
  have P: "number_of_processors c = 2 ^ k" using c(1) by (simp add: conf_ok_def)
  let ?x = "top_node k t"
  note m = conf_nodes [OF c top_node_bound [OF t(1)]]
  have fl: "down_flags k s gl (\<lambda>t. rpc (ls ! t) \<noteq> RDown)" using i by (simp add: down_inv_def)
  have p: "pause (prefix_tree s ! ?x) = (if tr t < gl (t + 2 ^ tr t) then 1 else 0)" using down_flagsD(1) [OF fl t] pc by simp
  have "Suc t \<noteq> 2 ^ k" using tr_full [OF t(1)] t(2) by simp
  then have st: "radix_step c t (ls ! t, s) = (if pause (prefix_tree s ! ?x) = 0 then Blocked
      else Go ((ls ! t)\<lparr>my_node := ?x, their_node := top_node k (t + 2 ^ tr t), rpc := RCopy\<rparr>, set_node ?x ((prefix_tree s ! ?x)\<lparr>pause := 0\<rparr>) s))"
    using pc m(2) by (simp add: radix_step_def down_step_def P down_nodes [OF t] tix_add top_node_def WAITPAUSE_eq Let_def)
  show ?thesis
  proof (cases "tr t < gl (t + 2 ^ tr t)")
    case False
    then show ?thesis using st p by simp
  next
    case True
    define l where "l = (ls ! t)\<lparr>my_node := ?x, their_node := top_node k (t + 2 ^ tr t), rpc := RCopy\<rparr>"
    define s' where "s' = set_node ?x ((prefix_tree s ! ?x)\<lparr>pause := 0\<rparr>) s"
    have s: "radix_step c t (ls ! t, s) = Go (l, s')" using st p True by (simp add: l_def s'_def)
    have nth: "prefix_tree s' ! y = (if y = ?x then (prefix_tree s ! ?x)\<lparr>pause := 0\<rparr> else prefix_tree s ! y)" for y
      unfolding s'_def by (rule set_node_nth [OF m(2)])
    have g: "gl t = 0" using i t(1) pc by (auto simp: down_inv_def down_thread_def)
    have th: "down_thread c k cn t 0 l" using t(2) by (simp add: down_thread_def l_def)
    have "down_flags k s' gl ((\<lambda>t. rpc (ls ! t) \<noteq> RDown)(t := True))"
      by (rule down_flags_wait [OF fl t True]) (use nth in simp)
    then have f: "down_flags k s' (gl(t := 0)) ((\<lambda>t. rpc (ls ! t) \<noteq> RDown)(t := rpc l \<noteq> RDown))"
      using g by (simp add: l_def fun_upd_idem)
    have v: "down_sums (radix c) k cn s' ((\<lambda>t. down_ready k t (ls ! t))(t := down_ready k t l))"
      by (rule down_inv_sums [OF i]) (use pc t(2) nth in \<open>auto simp: down_ready_def l_def\<close>)
    have "down_inv c k cn (gl(t := 0)) (ls[t := l]) s'" by (rule down_inv_step [OF i t(1) len th f v])
    moreover have "memory_ok c s'" unfolding s'_def using c(2) by (rule set_node_ok) (use m(3,4) in simp_all)
    moreover have "phase_todo c l < phase_todo c (ls ! t)" using pc by (simp add: phase_todo_def l_def)
    ultimately have "down_goes c k cn t ls s" by (intro down_goesI [OF s]) (simp_all add: s'_def l_def same_data_def)
    then show ?thesis using True by simp
  qed
qed

lemma down_copy:
  assumes c: "conf_ok c k b" "memory_ok c s" and i: "down_inv c k cn gl ls s" and t: "t < 2 ^ k" and len: "length ls = 2 ^ k"
    and pc: "rpc (ls ! t) = RCopy"
  shows "down_goes c k cn t ls s"
proof -
  let ?x = "top_node k t" and ?v = "t + 2 ^ tr t"
  have P: "number_of_processors c = 2 ^ k" using c(1) by (simp add: conf_ok_def)
  have th: "down_thread c k cn u (gl u) (ls ! u)" if "u < 2 ^ k" for u using i that by (simp add: down_inv_def)
  have l0: "gl t = 0" "tr t < k" "my_node (ls ! t) = ?x" "their_node (ls ! t) = top_node k ?v" using th [OF t] pc by (auto simp: down_thread_def)
  have vl: "?v < 2 ^ k" by (rule right_thread(1) [OF t l0(2)])
  note m = conf_nodes [OF c top_node_bound [OF t]] and m2 = conf_nodes [OF c top_node_bound [OF vl]]
  have fl: "down_flags k s gl (\<lambda>t. rpc (ls ! t) \<noteq> RDown)" and su: "down_sums (radix c) k cn s (\<lambda>t. down_ready k t (ls ! t))"
    using i by (simp_all add: down_inv_def)
  have "0 < gl ?v" using down_flagsD(2) [OF fl t l0(2)] pc by simp
  then have "down_ready k ?v (ls ! ?v)" using th [OF vl] unfolding down_thread_def down_ready_def by auto
  then have "first (radix c) (densities (prefix_tree s ! top_node k ?v)) (\<lambda>d. \<Sum>u < 2 ^ k. den cn u d)" using su vl unfolding down_sums_def by blast
  from copy_first_first [OF _ this, of "densities (prefix_tree s ! ?x)"] m(3,5) obtain d where
    d: "copy_first (radix c) (densities (prefix_tree s ! ?x)) (densities (prefix_tree s ! top_node k ?v)) = Some d"
      "length d = MAX_RADIX" "first (radix c) d (\<lambda>d. \<Sum>u < 2 ^ k. den cn u d)" by auto
  define l where "l = (ls ! t)\<lparr>roffset := t, rlevel := 2 ^ k, rbase := 0, rpc := RSignal\<rparr>"
  define s' where "s' = set_node ?x ((prefix_tree s ! ?x)\<lparr>densities := d\<rparr>) s"
  have s: "radix_step c t (ls ! t, s) = Go (l, s')" using pc m(1) m2(1) d(1) by (simp add: radix_step_def go_def copy_step_def l0 P l_def s'_def)
  have nth: "prefix_tree s' ! y = (if y = ?x then (prefix_tree s ! ?x)\<lparr>densities := d\<rparr> else prefix_tree s ! y)" for y
    unfolding s'_def by (rule set_node_nth [OF m(2)])
  have th': "down_thread c k cn t 0 l" using l0 by (simp add: down_thread_def l_def)
  have f: "down_flags k s' (gl(t := 0)) ((\<lambda>t. rpc (ls ! t) \<noteq> RDown)(t := rpc l \<noteq> RDown))"
    by (rule down_inv_flags [OF i]) (use l0 pc nth in \<open>auto simp: l_def\<close>)
  have "down_sums (radix c) k cn s' ((\<lambda>t. down_ready k t (ls ! t))(t := True))"
    by (rule down_sums_new [OF su t]) (use nth d in simp_all)
  then have v: "down_sums (radix c) k cn s' ((\<lambda>t. down_ready k t (ls ! t))(t := down_ready k t l))" by (simp add: down_ready_def l_def)
  have "down_inv c k cn (gl(t := 0)) (ls[t := l]) s'" by (rule down_inv_step [OF i t len th' f v])
  moreover have "memory_ok c s'" unfolding s'_def using c(2) by (rule set_node_ok) (use m(4) d(2) in simp_all)
  moreover have "phase_todo c l < phase_todo c (ls ! t)" using pc t by (simp add: phase_todo_def l_def P)
  ultimately show ?thesis by (intro down_goesI [OF s]) (simp_all add: s'_def l_def same_data_def)
qed

lemma left_node:
  assumes "i < tr t" "t < 2 ^ k"
  shows "tix k i 0 + t div 2 ^ i - 1 = top_node k (t - 2 ^ i)" "t - 2 ^ i < 2 ^ k"
proof -
  note l = left_thread [OF assms(1)]
  have "t = (t - 2 ^ i) + 2 ^ i" using l(1) by simp
  then have "t div 2 ^ i = Suc ((t - 2 ^ i) div 2 ^ i)" by (metis add.commute div_add_self2 plus_1_eq_Suc power_not_zero zero_neq_numeral)
  then show "tix k i 0 + t div 2 ^ i - 1 = top_node k (t - 2 ^ i)" unfolding top_node_def l(2) by (simp add: tix_add [symmetric, of k i "(t - 2 ^ i) div 2 ^ i"])
  show "t - 2 ^ i < 2 ^ k" using assms(2) by simp
qed

lemma down_signal:
  assumes c: "conf_ok c k b" "memory_ok c s" and i: "down_inv c k cn gl ls s" and t: "t < 2 ^ k" and len: "length ls = 2 ^ k"
    and pc: "rpc (ls ! t) = RSignal" and lt: "gl t < tr t"
  shows "down_goes c k cn t ls s"
proof -
  define j where "j = gl t"
  have th: "down_thread c k cn t j (ls ! t)" using i t by (simp add: down_inv_def j_def)
  have l0: "my_node (ls ! t) = top_node k t" "roffset (ls ! t) = t div 2 ^ j" "rlevel (ls ! t) = 2 ^ (k - j)" "rbase (ls ! t) = tix k j 0"
    using th pc by (auto simp: down_thread_def)
  have j: "j < tr t" "j < k" using lt tr_le [OF t] by (simp_all add: j_def)
  let ?x = "top_node k (t - 2 ^ j)"
  note n = left_node [OF j(1) t]
  note m = conf_nodes [OF c top_node_bound [OF n(2)]]
  have "k - j = Suc (k - Suc j)" using j(2) by linarith
  then have lv: "(2::nat) ^ (k - j) div 2 = 2 ^ (k - Suc j)" by simp
  define l where "l = (ls ! t)\<lparr>roffset := t div 2 ^ Suc j, rbase := tix k (Suc j) 0, rlevel := 2 ^ (k - Suc j)\<rparr>"
  define s' where "s' = set_node ?x ((prefix_tree s ! ?x)\<lparr>pause := 1\<rparr>) s"
  have s: "radix_step c t (ls ! t, s) = Go (l, s')"
    using pc tr_odd [OF j(1)] n(1) m(2) lv tix_Suc [of j k] j(2)
    by (simp add: radix_step_def go_def signal_step_def l0 SETPAUSE_eq l_def s'_def div_Suc2 del: power_Suc)
  have nth: "prefix_tree s' ! y = (if y = ?x then (prefix_tree s ! ?x)\<lparr>pause := 1\<rparr> else prefix_tree s ! y)" for y
    unfolding s'_def by (rule set_node_nth [OF m(2)])
  have th': "down_thread c k cn t (Suc j) l" using l0 pc j(1) by (simp add: down_thread_def l_def del: power_Suc)
  have "down_flags k s gl (\<lambda>t. rpc (ls ! t) \<noteq> RDown)" using i by (simp add: down_inv_def)
  then have "down_flags k s' (gl(t := Suc j)) (\<lambda>t. rpc (ls ! t) \<noteq> RDown)"
    by (rule down_flags_set [OF _ t j(1)]) (use nth in \<open>simp_all add: j_def\<close>)
  then have f: "down_flags k s' (gl(t := Suc j)) ((\<lambda>t. rpc (ls ! t) \<noteq> RDown)(t := rpc l \<noteq> RDown))"
    by (rule down_flags_cong) (use pc in \<open>auto simp: l_def\<close>)
  have v: "down_sums (radix c) k cn s' ((\<lambda>t. down_ready k t (ls ! t))(t := down_ready k t l))"
    by (rule down_inv_sums [OF i]) (use pc nth in \<open>auto simp: down_ready_def l_def\<close>)
  have "down_inv c k cn (gl(t := Suc j)) (ls[t := l]) s'" by (rule down_inv_step [OF i t len th' f v])
  moreover have "memory_ok c s'" unfolding s'_def using c(2) by (rule set_node_ok) (use m(3,4) in simp_all)
  moreover have "phase_todo c l < phase_todo c (ls ! t)"
    using pc tr_odd [OF j(1)] by (auto simp: phase_todo_def l_def l0 div_Suc2 elim: oddE simp del: power_Suc)
  ultimately show ?thesis by (intro down_goesI [OF s]) (simp_all add: s'_def l_def same_data_def)
qed

lemma down_exit:
  assumes c: "conf_ok c k b" "memory_ok c s" and i: "down_inv c k cn gl ls s" and t: "t < 2 ^ k" and len: "length ls = 2 ^ k"
    and pc: "rpc (ls ! t) = RSignal" and e: "gl t = tr t"
  shows "down_goes c k cn t ls s"
proof -
  have th: "down_thread c k cn t (tr t) (ls ! t)" using i t e by (auto simp: down_inv_def)
  have l0: "my_node (ls ! t) = top_node k t" "roffset (ls ! t) = t div 2 ^ tr t" using th pc by (auto simp: down_thread_def)
  define l where "l = (ls ! t)\<lparr>rpc := RRank\<rparr>"
  have s: "radix_step c t (ls ! t, s) = Go (l, s)" using pc tr_even [of t] by (simp add: radix_step_def go_def signal_step_def l0 l_def)
  have th': "down_thread c k cn t (tr t) l" using l0 by (simp add: down_thread_def l_def)
  have f: "down_flags k s (gl(t := tr t)) ((\<lambda>t. rpc (ls ! t) \<noteq> RDown)(t := rpc l \<noteq> RDown))"
    by (rule down_inv_flags [OF i]) (use e pc in \<open>simp_all add: l_def\<close>)
  have v: "down_sums (radix c) k cn s ((\<lambda>t. down_ready k t (ls ! t))(t := down_ready k t l))"
    by (rule down_inv_sums [OF i]) (use pc in \<open>simp_all add: down_ready_def l_def\<close>)
  have "down_inv c k cn (gl(t := tr t)) (ls[t := l]) s" by (rule down_inv_step [OF i t len th' f v])
  moreover have "phase_todo c l < phase_todo c (ls ! t)" using pc by (simp add: phase_todo_def l_def)
  ultimately show ?thesis using c(2) by (intro down_goesI [OF s]) (simp_all add: l_def same_data_def)
qed

lemma down_rank:
  assumes c: "conf_ok c k b" "memory_ok c s" and i: "down_inv c k cn gl ls s" and t: "t < 2 ^ k" and len: "length ls = 2 ^ k"
    and pc: "rpc (ls ! t) = RRank"
  shows "down_goes c k cn t ls s"
proof -
  have P: "number_of_processors c = 2 ^ k" "0 < radix c" using c(1) by (simp_all add: conf_ok_def)
  have l0: "my_node (ls ! t) = top_node k t" "gl t = tr t" using i t pc by (auto simp: down_inv_def down_thread_def)
  note m = conf_nodes [OF c top_node_bound [OF t]]
  have "down_sums (radix c) k cn s (\<lambda>t. down_ready k t (ls ! t))" using i by (simp add: down_inv_def)
  then have a: "all_ranks (radix c) k cn s" "first (radix c) (densities (prefix_tree s ! top_node k t)) (\<lambda>d. \<Sum>u < 2 ^ k. den cn u d)"
    using t pc unfolding down_sums_def down_ready_def by auto
  have z: "first (radix c) (replicate (radix c) 0) (\<lambda>d. 0)" by (simp add: first_def map_replicate_const)
  obtain ff where ff: "rank_loop (radix c) (prefix_tree s) t (2 ^ k) 0 (replicate (radix c) 0) = Some ff" "length ff = radix c"
      "first (radix c) ff (\<lambda>d. \<Sum>u < t. cn u d)"
    using rank_loop_sum [OF c a(1) t, of 0 "replicate (radix c) 0" "\<lambda>d. 0"] z by auto
  obtain gg where gg: "add_shifted (radix c) ff (densities (prefix_tree s ! top_node k t)) = Some gg" "length gg = radix c"
      "first (radix c) gg (\<lambda>d. (\<Sum>u < t. cn u d) + (if d = 0 then 0 else \<Sum>u < 2 ^ k. den cn u (d - 1)))"
    using add_shifted_first [OF P(2) ff(2,3) a(2)] by auto
  define l where "l = (ls ! t)\<lparr>rank_ff := gg, rpc := RBar5\<rparr>"
  have s: "radix_step c t (ls ! t, s) = Go (l, s)" using pc m(1) ff(1) gg(1) by (simp add: radix_step_def go_def rank_step_def l0 P l_def)
  have th': "down_thread c k cn t (tr t) l" using gg(2,3) by (simp add: down_thread_def l_def ranked_def)
  have f: "down_flags k s (gl(t := tr t)) ((\<lambda>t. rpc (ls ! t) \<noteq> RDown)(t := rpc l \<noteq> RDown))"
    by (rule down_inv_flags [OF i]) (use l0 pc in \<open>simp_all add: l_def\<close>)
  have v: "down_sums (radix c) k cn s ((\<lambda>t. down_ready k t (ls ! t))(t := down_ready k t l))"
    by (rule down_inv_sums [OF i]) (use pc in \<open>simp_all add: down_ready_def l_def\<close>)
  have "down_inv c k cn (gl(t := tr t)) (ls[t := l]) s" by (rule down_inv_step [OF i t len th' f v])
  moreover have "phase_todo c l < phase_todo c (ls ! t)" using pc by (simp add: phase_todo_def l_def)
  ultimately show ?thesis using c(2) by (intro down_goesI [OF s]) (simp_all add: l_def same_data_def)
qed

lemma down_signals: "down_thread c k cn t i l \<Longrightarrow> rpc l = RSignal \<Longrightarrow> i \<le> tr t"
  by (simp add: down_thread_def)

text \<open>A thread that is not at the barrier goes on, or waits for the thread to its right.\<close>

lemma down_keep:
  assumes c: "conf_ok c k b" "memory_ok c s" and i: "down_inv c k cn gl ls s" and t: "t < 2 ^ k" and len: "length ls = 2 ^ k"
    and nb: "\<not> at_barrier (ls ! t)"
  shows "down_goes c k cn t ls s \<or> radix_step c t (ls ! t, s) = Blocked \<and> tr t < k \<and> gl (t + 2 ^ tr t) \<le> tr t"
proof -
  have th: "down_thread c k cn t (gl t) (ls ! t)" using i t by (simp add: down_inv_def)
  then have "rpc (ls ! t) \<in> {RDown, RCopy, RSignal, RRank}" using nb by (auto simp: down_thread_def at_barrier_def)
  then consider "rpc (ls ! t) = RDown" "tr t = k" | "rpc (ls ! t) = RDown" "tr t < k" | "rpc (ls ! t) = RCopy"
    | "rpc (ls ! t) = RSignal" "gl t < tr t" | "rpc (ls ! t) = RSignal" "gl t = tr t" | "rpc (ls ! t) = RRank"
    using down_signals [OF th] tr_le [OF t] by (cases "rpc (ls ! t)") (auto simp: order_le_less)
  then show ?thesis
  proof cases
    case 1
    then show ?thesis using down_last [OF c i t _ len] by blast
  next
    case 2
    then show ?thesis using down_wait [OF c i t _ len] by (auto split: if_splits)
  next
    case 3
    then show ?thesis using down_copy [OF c i t len] by blast
  next
    case 4
    then show ?thesis using down_signal [OF c i t len] by blast
  next
    case 5
    then show ?thesis using down_exit [OF c i t len] by blast
  next
    case 6
    then show ?thesis using down_rank [OF c i t len] by blast
  qed
qed

lemma down_live:
  assumes c: "conf_ok c k b" "memory_ok c s" and i: "down_inv c k cn gl ls s" and len: "length ls = 2 ^ k"
    and t: "t < 2 ^ k" "\<not> at_barrier (ls ! t)"
  shows "\<exists>u < 2 ^ k. \<not> at_barrier (ls ! u) \<and> radix_step c u (ls ! u, s) \<noteq> Blocked"
proof -
  define B where "B = {u. u < 2 ^ k \<and> \<not> at_barrier (ls ! u)}"
  define u where "u = Max B"
  have B: "finite B" "t \<in> B" using t by (simp_all add: B_def)
  have "u \<in> B" unfolding u_def using Max_in [OF B(1)] B(2) by blast
  then have u: "u < 2 ^ k" "\<not> at_barrier (ls ! u)" by (simp_all add: B_def)
  have most: "at_barrier (ls ! v)" if "u < v" "v < 2 ^ k" for v
  proof (rule ccontr)
    assume "\<not> at_barrier (ls ! v)"
    then have "v \<in> B" using that(2) by (simp add: B_def)
    then show False using Max_ge [OF B(1)] that(1) unfolding u_def by fastforce
  qed
  have "radix_step c u (ls ! u, s) \<noteq> Blocked"
  proof
    assume bl: "radix_step c u (ls ! u, s) = Blocked"
    then have "\<not> down_goes c k cn u ls s" by (auto simp: down_goes_def)
    then have w: "tr u < k" "gl (u + 2 ^ tr u) \<le> tr u" using down_keep [OF c i u(1) len u(2)] by blast+
    note r = right_thread [OF u(1) w(1)]
    have "at_barrier (ls ! (u + 2 ^ tr u))" using most r(1) by simp
    moreover have "down_thread c k cn (u + 2 ^ tr u) (gl (u + 2 ^ tr u)) (ls ! (u + 2 ^ tr u))" using i r(1) by (simp add: down_inv_def)
    ultimately have "gl (u + 2 ^ tr u) = tr (u + 2 ^ tr u)" unfolding down_thread_def at_barrier_def by (cases "rpc (ls ! (u + 2 ^ tr u))") simp_all
    then show False using w(2) r(2) by simp
  qed
  then show ?thesis using u by blast
qed

lemma down_begin:
  assumes q: "quiet k s" and v: "up_sums (radix c) k cn s (\<lambda>t. Suc (tr t))" and pc: "\<And>t. t < 2 ^ k \<Longrightarrow> rpc (ls ! t) = RDown"
  shows "down_inv c k cn (\<lambda>_. 0) ls s"
  unfolding down_inv_def
proof (intro conjI allI impI)
  show "down_thread c k cn t 0 (ls ! t)" if "t < 2 ^ k" for t using pc [OF that] by (simp add: down_thread_def)
  have "pause (prefix_tree s ! top_node k t) = 0" if "t < 2 ^ k" for t
    using q node_range [OF that tr_le [OF that]] tr_le [OF that] unfolding quiet_def top_node_def by blast
  then show "down_flags k s (\<lambda>_. 0) (\<lambda>t. rpc (ls ! t) \<noteq> RDown)" using q pc unfolding down_flags_def quiet_def by simp
  have sum: "node_sum (radix c) k cn j y (prefix_tree s ! tix k j y)" if "j \<le> k" "y < 2 ^ (k - j)" for j y
  proof -
    define t where "t = Suc y * 2 ^ j - 1"
    have t: "t < 2 ^ k" "j \<le> tr t" "t div 2 ^ j = y" using owner [OF that] by (simp_all only: t_def)
    then show ?thesis using up_sumsD [OF v t(1), of j] by simp
  qed
  have "first (radix c) (densities (prefix_tree s ! top_node k t)) (\<lambda>d. \<Sum>u < 2 ^ k. den cn u d)"
    if t: "t < 2 ^ k" "down_ready k t (ls ! t)" for t
  proof -
    have "tr t = k" using t pc [OF t(1)] by (simp add: down_ready_def)
    then have "top_node k t = tix k k 0" by (rule top_node_last [OF t(1)])
    then show ?thesis using sum [of k 0] unfolding node_sum_def by (simp add: nsum_root)
  qed
  then show "down_sums (radix c) k cn s (\<lambda>t. down_ready k t (ls ! t))" using sum unfolding down_sums_def all_ranks_def node_sum_def by blast
qed

lemma down_end:
  assumes i: "down_inv c k cn gl ls s" and a: "\<forall>t < 2 ^ k. at_barrier (ls ! t)"
  shows "\<And>t. t < 2 ^ k \<Longrightarrow> rpc (ls ! t) = RBar5 \<and> ranked c k cn t (ls ! t)" "quiet k s"
proof -
  have th: "down_thread c k cn t (gl t) (ls ! t)" if "t < 2 ^ k" for t using i that by (simp add: down_inv_def)
  show pc: "rpc (ls ! t) = RBar5 \<and> ranked c k cn t (ls ! t)" if "t < 2 ^ k" for t
    using th [OF that] a [rule_format, OF that] unfolding down_thread_def at_barrier_def by (cases "rpc (ls ! t)") simp_all
  have fl: "down_flags k s gl (\<lambda>t. rpc (ls ! t) \<noteq> RDown)" using i by (simp add: down_inv_def)
  have "pause (prefix_tree s ! tix k j y) = 0" if j: "j \<le> k" and y: "y < 2 ^ (k - j)" for j y
  proof (cases "odd y \<or> j = k")
    case True
    then show ?thesis by (rule down_flags_rest [OF fl j y])
  next
    case False
    define t where "t = Suc y * 2 ^ j - 1"
    have t: "t < 2 ^ k" "j \<le> tr t" "t div 2 ^ j = y" using owner [OF j y] by (simp_all only: t_def)
    then have jt: "j = tr t" using even_tr [OF t(2)] False by simp
    then have "tix k j y = top_node k t" using t(3) by (simp add: top_node_def)
    then show ?thesis using down_flagsD(1) [OF fl t(1)] pc [OF t(1)] jt False j by simp
  qed
  then show "quiet k s" by (simp add: quiet_def)
qed

end
