(* ===== verification/RadixKeys.thy ===== *)
theory RadixKeys
  imports RadixDown "HOL-Library.Multiset"
begin

text \<open>
  What one pass of the radix sort computes: the place of every key, from the numbers of keys with a smaller digit and of
  earlier keys with the same digit.  The places are a permutation, and moving the keys to them keeps the order of the
  lower digits.
\<close>

section \<open>Places\<close>

text \<open>The number of the first \<open>m\<close> keys with digit \<open>d\<close>, \<open>D q\<close> being the digit of key \<open>q\<close>; the place for the next key with digit \<open>d\<close> at
  position \<open>q\<close> of \<open>n\<close> keys.\<close>

fun cnt :: "(nat \<Rightarrow> nat) \<Rightarrow> nat \<Rightarrow> nat \<Rightarrow> nat" where
  "cnt D 0 d = 0"
| "cnt D (Suc m) d = cnt D m d + (if D m = d then 1 else 0)"

definition place :: "(nat \<Rightarrow> nat) \<Rightarrow> nat \<Rightarrow> nat \<Rightarrow> nat \<Rightarrow> nat" where
  "place D n q d = (\<Sum>e < d. cnt D n e) + cnt D q d"

lemma cnt_mono: "m \<le> m' \<Longrightarrow> cnt D m d \<le> cnt D m' d"
  by (induction rule: dec_induct) auto

lemma cnt_less: "q < m \<Longrightarrow> D q = d \<Longrightarrow> cnt D q d < cnt D m d"
  using cnt_mono [of "Suc q" m D d] by simp

lemma cnt_total: "(\<And>q. q < m \<Longrightarrow> D q < r) \<Longrightarrow> (\<Sum>e < r. cnt D m e) = m"
  by (induction m) (simp_all add: sum.distrib)

lemma place_below:
  assumes "q < n" "D q < d"
  shows "place D n q (D q) < (\<Sum>e < d. cnt D n e)"
proof -
  have "place D n q (D q) < (\<Sum>e < Suc (D q). cnt D n e)" using cnt_less [of q n D] assms(1) by (simp add: place_def)
  also have "\<dots> \<le> (\<Sum>e < d. cnt D n e)" using assms(2) by (intro sum_mono2) auto
  finally show ?thesis .
qed

lemma place_less: "q < n \<Longrightarrow> D q < D p \<or> D q = D p \<and> q < p \<Longrightarrow> place D n q (D q) < place D n p (D p)"
  using place_below [of q n D "D p"] cnt_less [of q p D] by (auto simp: place_def)

lemma place_inj: "q < n \<Longrightarrow> p < n \<Longrightarrow> place D n q (D q) = place D n p (D p) \<longleftrightarrow> q = p"
  using place_less [of q n D p] place_less [of p n D q] by (metis less_irrefl linorder_cases)

lemma place_order: "q < n \<Longrightarrow> p < n \<Longrightarrow> place D n q (D q) < place D n p (D p) \<longleftrightarrow> D q < D p \<or> D q = D p \<and> q < p"
  using place_less [of q n D p] place_less [of p n D q] by (metis less_asym linorder_cases)

lemma place_bound: "q < n \<Longrightarrow> (\<And>q. q < n \<Longrightarrow> D q < r) \<Longrightarrow> place D n q (D q) < n"
  using place_below [of q n D r] cnt_total [of n D r] by simp

lemma place_onto:
  assumes "x < n" "\<And>q. q < n \<Longrightarrow> D q < r"
  shows "\<exists>q < n. place D n q (D q) = x"
proof -
  have "(\<lambda>q. place D n q (D q)) ` {..< n} = {..< n}"
    by (rule endo_inj_surj) (use place_bound [OF _ assms(2)] place_inj in \<open>auto simp: inj_on_def\<close>)
  then show ?thesis using assms(1) by (metis (no_types, lifting) imageE lessThan_iff)
qed

section \<open>The parts of the threads\<close>

lemma cnt_add: "cnt D (a + m) d = cnt D a d + cnt (\<lambda>q. D (a + q)) m d"
  by (induction m) simp_all

lemma cnt_parts:
  assumes "f 0 = 0" "\<And>u. u < t \<Longrightarrow> f u \<le> f (Suc u)"
  shows "(\<Sum>u < t. cnt D (f (Suc u)) d - cnt D (f u) d) = cnt D (f t) d"
  using assms(2)
proof (induction t)
  case (Suc t)
  then have "cnt D (f t) d \<le> cnt D (f (Suc t)) d" by (intro cnt_mono) simp
  then show ?case using Suc by simp
qed (simp add: assms(1))

text \<open>The place for a thread to start at.\<close>

lemma start_place:
  assumes f: "f 0 = 0" "f P = n" "\<And>u. u < P \<Longrightarrow> f u \<le> f (Suc u)" and t: "t \<le> P"
    and cn: "\<And>u d. u < P \<Longrightarrow> cn u d = cnt D (f (Suc u)) d - cnt D (f u) d"
  shows "(\<Sum>u < t. cn u d) + (if d = 0 then 0 else \<Sum>u < P. den cn u (d - 1)) = place D n (f t) d"
proof -
  have s: "(\<Sum>u < t. cn u e) = cnt D (f t) e" if "t \<le> P" for t e
  proof -
    have "(\<Sum>u < t. cn u e) = (\<Sum>u < t. cnt D (f (Suc u)) e - cnt D (f u) e)" using that cn by (intro sum.cong) auto
    also have "\<dots> = cnt D (f t) e" using f that by (intro cnt_parts) auto
    finally show ?thesis .
  qed
  have "(\<Sum>u < P. den cn u (d - 1)) = (\<Sum>e < d. cnt D n e)" if "d \<noteq> 0"
  proof -
    have "{..d - 1} = {..< d}" using that by auto
    then have "(\<Sum>u < P. den cn u (d - 1)) = (\<Sum>u < P. \<Sum>e < d. cn u e)" by (simp only: den_def)
    also have "\<dots> = (\<Sum>e < d. \<Sum>u < P. cn u e)" by (rule sum.swap)
    also have "\<dots> = (\<Sum>e < d. cnt D n e)" using s [of P] f(2) by simp
    finally show ?thesis .
  qed
  then show ?thesis using s [OF t] by (auto simp: place_def)
qed

section \<open>Digits\<close>

lemma digit_eq: "radix c = 2 ^ b \<Longrightarrow> log2_radix c = b \<Longrightarrow> digit c i k = k div (2 ^ b) ^ i mod 2 ^ b"
proof -
  assume c: "radix c = 2 ^ b" "log2_radix c = b"
  have "digit c i k = Bit_Operations.and (drop_bit (i * b) k) (mask b)"
    by (simp add: digit_def c Let_def drop_bit_and mask_eq_exp_minus_1) (simp add: drop_bit_eq_div push_bit_eq_mult)
  also have "\<dots> = drop_bit (i * b) k mod 2 ^ b" by (simp add: take_bit_eq_mod flip: take_bit_eq_mask)
  finally show ?thesis by (simp add: drop_bit_eq_div mult.commute power_mult)
qed

lemma digit_range: "conf_ok c k b \<Longrightarrow> 0 \<le> digit c i x \<and> nat (digit c i x) < radix c"
  using digit_eq [of c b i x] by (simp add: conf_ok_def nat_less_iff)

lemma mod_digits: "x mod (r * m) = m * (x div m mod r) + x mod m" if "0 < r" "0 < m" for x r m :: int
  using zmod_zmult2_eq [of r x m] that by (simp add: mult.commute)

section \<open>A pass\<close>

text \<open>\<open>L\<close> has the keys of \<open>K\<close> at their places.\<close>

definition moved :: "(nat \<Rightarrow> nat) \<Rightarrow> 'a list \<Rightarrow> 'a list \<Rightarrow> bool" where
  "moved D K L \<longleftrightarrow> length L = length K \<and> (\<forall>q < length K. L ! place D (length K) q (D q) = K ! q)"

lemma moved_mset:
  assumes m: "moved D K L" and D: "\<And>q. q < length K \<Longrightarrow> D q < r"
  shows "mset L = mset K"
proof -
  let ?n = "length K" and ?p = "\<lambda>q. place D (length K) q (D q)"
  have inj: "inj_on ?p {..< ?n}" using place_inj by (auto simp: inj_on_def)
  have "?p ` {..< ?n} = {..< ?n}" by (rule endo_inj_surj) (use place_bound [OF _ D] inj in auto)
  then have e: "image_mset ?p (mset_set {..< ?n}) = mset_set {..< ?n}" using image_mset_mset_set [OF inj] by simp
  have nth: "mset M = image_mset (nth M) (mset_set {..< length M})" for M :: "'a list"
    by (metis lessThan_atLeast0 map_nth mset_map mset_upt)
  have "mset L = image_mset (nth L) (image_mset ?p (mset_set {..< ?n}))" using nth [of L] m e by (simp add: moved_def)
  also have "\<dots> = image_mset (nth K) (mset_set {..< ?n})" using m by (auto simp: moved_def image_mset.compositionality comp_def intro!: image_mset_cong)
  finally show ?thesis using nth [of K] by simp
qed

lemma moved_sorted:
  assumes m: "moved D K L" and D: "\<And>q. q < length K \<Longrightarrow> int (D q) = K ! q div M mod R \<and> D q < r" and RM: "0 < R" "0 < M"
    and s: "sorted (map (\<lambda>x. x mod M) K)"
  shows "sorted (map (\<lambda>x. x mod (R * M)) L)"
  unfolding sorted_iff_nth_mono_less
proof (intro allI impI)
  fix x y assume xy: "x < y" "y < length (map (\<lambda>x. x mod (R * M)) L)"
  let ?n = "length K"
  have len: "length L = ?n" using m by (simp add: moved_def)
  obtain q p where q: "q < ?n" "place D ?n q (D q) = x" and p: "p < ?n" "place D ?n p (D p) = y"
    using place_onto [of x ?n D r] place_onto [of y ?n D r] D xy len by auto
  have LK: "L ! x = K ! q" "L ! y = K ! p" using m q p by (auto simp: moved_def)
  have o: "D q < D p \<or> D q = D p \<and> q < p" using place_order [OF q(1) p(1), of D] q(2) p(2) xy(1) by simp
  have "K ! q mod (R * M) \<le> K ! p mod (R * M)"
  proof (cases "D q < D p")
    case True
    then have "int (D q) + 1 \<le> int (D p)" by simp
    then have "M * int (D q) + M \<le> M * int (D p)" using RM(2) mult_left_mono [of "int (D q) + 1" "int (D p)" M] by (simp add: distrib_left)
    moreover have "K ! q mod M < M" "0 \<le> K ! p mod M" using RM(2) by simp_all
    ultimately show ?thesis using D [OF q(1)] D [OF p(1)] unfolding mod_digits [OF RM] by simp
  next
    case False
    then have "D q = D p" "K ! q mod M \<le> K ! p mod M" using o s q p by (auto simp: sorted_iff_nth_mono_less)
    then show ?thesis using D [OF q(1)] D [OF p(1)] unfolding mod_digits [OF RM] by simp
  qed
  then show "map (\<lambda>x. x mod (R * M)) L ! x \<le> map (\<lambda>x. x mod (R * M)) L ! y" using xy len LK by simp
qed

end
