(* ===== verification/RadixPhases.thy ===== *)
theory RadixPhases
  imports RadixKeys
begin

text \<open>
  The phases of the radix sort in which the threads work on their parts of the keys: filling them, counting the digits,
  and moving the keys to their places.
\<close>

section \<open>Parts\<close>

definition part :: "radix_conf \<Rightarrow> nat \<Rightarrow> nat \<Rightarrow> nat" where
  "part c k t = t * num_keys c div 2 ^ k"

lemma part_ends [simp]: "part c k 0 = 0" "part c k (2 ^ k) = num_keys c"
  by (simp_all add: part_def)

lemma part_mono: "t \<le> u \<Longrightarrow> part c k t \<le> part c k u"
  by (simp add: part_def div_le_mono)

lemma part_Suc: "part c k t \<le> part c k (Suc t)"
  by (simp add: part_mono)

lemma part_bound: "t \<le> 2 ^ k \<Longrightarrow> part c k t \<le> num_keys c"
  using part_mono [of t "2 ^ k" c k] by simp

lemma part_unique:
  assumes "part c k t \<le> q" "q < part c k (Suc t)" "part c k u \<le> q" "q < part c k (Suc u)"
  shows "t = u"
proof (rule ccontr)
  assume "t \<noteq> u"
  then have "Suc t \<le> u \<or> Suc u \<le> t" by linarith
  then show False using part_mono [of "Suc t" u c k] part_mono [of "Suc u" t c k] assms by linarith
qed

lemma part_exists:
  assumes "q < num_keys c"
  shows "\<exists>t < 2 ^ k. part c k t \<le> q \<and> q < part c k (Suc t)"
proof -
  have "\<exists>t. q < part c k t" using assms part_ends(2) by metis
  then obtain t where t: "q < part c k t" "\<And>u. u < t \<Longrightarrow> \<not> q < part c k u" using exists_least_iff [of "\<lambda>t. q < part c k t"] by blast
  have "t \<noteq> 0" using t(1) by (metis not_less0 part_ends(1))
  then obtain u where u: "t = Suc u" by (cases t) auto
  have "u < 2 ^ k"
  proof (rule ccontr)
    assume "\<not> u < 2 ^ k"
    then show False using t(2) [of "2 ^ k"] assms u by simp
  qed
  then show ?thesis using t u by (metis lessI not_less)
qed

lemma conf_part: "conf_ok c k b \<Longrightarrow> t \<le> 2 ^ k \<Longrightarrow> rd (key_partition c) (int t) = Some (part c k t)"
proof -
  assume c: "conf_ok c k b" and t: "t \<le> 2 ^ k"
  have "key_partition c = map (\<lambda>q. q * num_keys c div 2 ^ k) [0 ..< 2 ^ k + 1]" using c by (simp only: conf_ok_def)
  then have p: "length (key_partition c) = 2 ^ k + 1" "key_partition c ! t = part c k t" using t by (simp_all add: part_def nth_map_upt del: upt_Suc)
  have "int t < int (length (key_partition c))" unfolding of_nat_less_iff using p(1) t by simp
  then show ?thesis by (simp add: rd_def p(2))
qed

lemma conf_stop: "conf_ok c k b \<Longrightarrow> t < 2 ^ k \<Longrightarrow> rd (key_partition c) (int t + 1) = Some (part c k (Suc t))"
  using conf_part [of c k b "Suc t"] by (simp add: add.commute)

lemma memory_keys:
  assumes "memory_ok c s" "x < 2"
  shows "rd (key s) (int x) = Some (key s ! x)" "length (key s ! x) = num_keys c" "length (key s) = 2"
  using assms by (simp_all add: memory_ok_def list_all_length)

lemma key_update_ok: "memory_ok c s \<Longrightarrow> length a = num_keys c \<Longrightarrow> memory_ok c (s\<lparr>key := (key s)[x := a]\<rparr>)"
  by (cases "x < 2") (auto simp: memory_ok_def list_all_length nth_list_update)

lemma quiet_keys [simp]: "quiet k (s\<lparr>key := a\<rparr>) = quiet k s" "quiet k (s\<lparr>final_key := x\<rparr>) = quiet k s"
  by (simp_all add: quiet_def)

text \<open>A step of a thread that keeps the invariant of the phase.\<close>

definition goes :: "radix_conf \<Rightarrow> (rthread list \<Rightarrow> global_memory \<Rightarrow> bool) \<Rightarrow> nat \<Rightarrow> rthread list \<Rightarrow> global_memory \<Rightarrow> bool" where
  "goes c I t ls s \<longleftrightarrow> (\<exists>l s'. radix_step c t (ls ! t, s) = Go (l, s') \<and> I (ls[t := l]) s' \<and> memory_ok c s' \<and> barriers l = barriers (ls ! t)
     \<and> phase_todo c l < phase_todo c (ls ! t))"

lemma goesI:
  "radix_step c t (ls ! t, s) = Go (l, s') \<Longrightarrow> I (ls[t := l]) s' \<Longrightarrow> memory_ok c s' \<Longrightarrow> barriers l = barriers (ls ! t) \<Longrightarrow> phase_todo c l < phase_todo c (ls ! t)
    \<Longrightarrow> goes c I t ls s"
  unfolding goes_def by blast

lemma all_update: "\<forall>u < n. P u (ls ! u) \<Longrightarrow> P t l \<Longrightarrow> length ls = n \<Longrightarrow> u < n \<Longrightarrow> P u (ls[t := l] ! u)"
  by (cases "u = t") simp_all

section \<open>Filling the keys\<close>

definition init_thread :: "radix_conf \<Rightarrow> nat \<Rightarrow> global_memory \<Rightarrow> nat \<Rightarrow> rthread \<Rightarrow> bool" where
  "init_thread c k s t l \<longleftrightarrow> rpc l \<in> {RInit, RBar1} \<and> rfrom l = 0 \<and> rto l = 1
     \<and> (rpc l = RBar1 \<longrightarrow> (\<forall>q. part c k t \<le> q \<longrightarrow> q < part c k (Suc t) \<longrightarrow> key s ! 0 ! q = key_at (key_scale c) q))"

definition init_inv :: "radix_conf \<Rightarrow> nat \<Rightarrow> rthread list \<Rightarrow> global_memory \<Rightarrow> bool" where
  "init_inv c k ls s \<longleftrightarrow> quiet k s \<and> (\<forall>t < 2 ^ k. init_thread c k s t (ls ! t))"

lemma filled_nth:
  "m \<le> n \<Longrightarrow> n \<le> length a \<Longrightarrow> q < length a \<Longrightarrow> (take m a @ map f [m ..< n] @ drop n a) ! q = (if m \<le> q \<and> q < n then f q else a ! q)"
  by (auto simp: nth_append)

lemma init_go:
  assumes c: "conf_ok c k b" "memory_ok c s" and i: "init_inv c k ls s" and t: "t < 2 ^ k" and len: "length ls = 2 ^ k"
    and nb: "\<not> at_barrier (ls ! t)"
  shows "goes c (init_inv c k) t ls s"
proof -
  have th: "init_thread c k s u (ls ! u)" if "u < 2 ^ k" for u using i that by (simp add: init_inv_def)
  have l0: "rpc (ls ! t) = RInit" "rfrom (ls ! t) = 0" "rto (ls ! t) = 1" using th [OF t] nb by (auto simp: init_thread_def at_barrier_def)
  note m = memory_keys [OF c(2), of 0, simplified]
  have b: "part c k t \<le> part c k (Suc t)" "part c k (Suc t) \<le> num_keys c" using t by (simp_all add: part_Suc part_bound)
  define a where "a = take (part c k t) (key s ! 0) @ map (key_at (key_scale c)) [part c k t ..< part c k (Suc t)] @ drop (part c k (Suc t)) (key s ! 0)"
  define l where "l = (ls ! t)\<lparr>rpc := RBar1\<rparr>"
  define s' where "s' = s\<lparr>key := (key s)[0 := a]\<rparr>"
  have a: "init (key_scale c) (part c k t) (part c k (Suc t)) (key s ! 0) = Some a"
    unfolding a_def by (rule init_keys) (use b m in simp_all)
  have s: "radix_step c t (ls ! t, s) = Go (l, s')"
    using l0 a m by (simp add: radix_step_def go_def conf_part [OF c(1)] conf_stop [OF c(1)] t less_imp_le l_def s'_def)
  have la: "length a = num_keys c" using b m by (simp add: a_def)
  have n: "key s' ! 0 ! q = (if part c k t \<le> q \<and> q < part c k (Suc t) then key_at (key_scale c) q else key s ! 0 ! q)" if "q < num_keys c" for q
    using filled_nth [OF b(1), of "key s ! 0" q] b(2) m that by (simp add: s'_def a_def)
  have th': "init_thread c k s' u (ls[t := l] ! u)" if u: "u < 2 ^ k" for u
  proof -
    have "key s' ! 0 ! q = key_at (key_scale c) q" if q: "part c k u \<le> q" "q < part c k (Suc u)" "u \<noteq> t \<Longrightarrow> rpc (ls ! u) = RBar1" for q
    proof -
      have "q < num_keys c" using q(2) part_bound [of "Suc u" k c] u by simp
      then show ?thesis using n part_unique [of c k u q t] q th [OF u] unfolding init_thread_def by auto
    qed
    then show ?thesis using th [OF u] l0 u len unfolding init_thread_def by (cases "u = t") (auto simp: l_def)
  qed
  have "init_inv c k (ls[t := l]) s'" using i th' by (simp add: init_inv_def s'_def)
  moreover have "memory_ok c s'" unfolding s'_def by (rule key_update_ok [OF c(2) la])
  moreover have "phase_todo c l < phase_todo c (ls ! t)" using l0 by (simp add: phase_todo_def l_def)
  ultimately show ?thesis by (intro goesI [OF s]) (simp_all add: l_def)
qed

lemma init_end:
  assumes c: "memory_ok c s" and i: "init_inv c k ls s" and a: "\<forall>t < 2 ^ k. at_barrier (ls ! t)"
  shows "\<And>t. t < 2 ^ k \<Longrightarrow> rpc (ls ! t) = RBar1 \<and> rfrom (ls ! t) = 0 \<and> rto (ls ! t) = 1" "quiet k s"
    "key s ! 0 = map (key_at (key_scale c)) [0 ..< num_keys c]"
proof -
  have th: "init_thread c k s u (ls ! u)" if "u < 2 ^ k" for u using i that by (simp add: init_inv_def)
  show pc: "rpc (ls ! t) = RBar1 \<and> rfrom (ls ! t) = 0 \<and> rto (ls ! t) = 1" if "t < 2 ^ k" for t
    using th [OF that] a [rule_format, OF that] by (auto simp: init_thread_def at_barrier_def)
  show "quiet k s" using i by (simp add: init_inv_def)
  note m = memory_keys [OF c, of 0, simplified]
  show "key s ! 0 = map (key_at (key_scale c)) [0 ..< num_keys c]"
  proof (rule nth_equalityI)
    fix q assume "q < length (key s ! 0)"
    then have q: "q < num_keys c" using m by simp
    then obtain t where t: "t < 2 ^ k" "part c k t \<le> q" "q < part c k (Suc t)" using part_exists by blast
    then show "key s ! 0 ! q = map (key_at (key_scale c)) [0 ..< num_keys c] ! q" using th [OF t(1)] pc [OF t(1)] q by (simp add: init_thread_def)
  qed (use m in simp)
qed

section \<open>Counting\<close>

text \<open>The digit of key \<open>q\<close>, and the number of keys with a digit in a part.\<close>

definition digit_at :: "radix_conf \<Rightarrow> nat \<Rightarrow> int list \<Rightarrow> nat \<Rightarrow> nat" where
  "digit_at c i K q = nat (digit c i (K ! q))"

definition counts :: "radix_conf \<Rightarrow> nat \<Rightarrow> nat \<Rightarrow> int list \<Rightarrow> nat \<Rightarrow> nat \<Rightarrow> nat" where
  "counts c k i K t d = cnt (digit_at c i K) (part c k (Suc t)) d - cnt (digit_at c i K) (part c k t) d"

text \<open>What the variables of a thread are in the pass for digit \<open>i\<close>.\<close>

definition in_pass :: "nat \<Rightarrow> rthread \<Rightarrow> bool" where
  "in_pass i l \<longleftrightarrow> loopnum l = i \<and> rfrom l = i mod 2 \<and> rto l = 1 - i mod 2"

definition count_thread :: "radix_conf \<Rightarrow> nat \<Rightarrow> nat \<Rightarrow> int list \<Rightarrow> nat \<Rightarrow> rthread \<Rightarrow> bool" where
  "count_thread c k i K t l \<longleftrightarrow> rpc l \<in> {RZero, RCount, RDensity, RBar3} \<and> in_pass i l
     \<and> (rpc l = RCount \<longrightarrow> part c k t \<le> ri l \<and> ri l \<le> part c k (Suc t)
          \<and> rank_me l = map (\<lambda>d. cnt (digit_at c i K) (ri l) d - cnt (digit_at c i K) (part c k t) d) [0 ..< radix c])
     \<and> (rpc l \<in> {RDensity, RBar3} \<longrightarrow> rank_me l = map (counts c k i K t) [0 ..< radix c])
     \<and> (rpc l = RBar3 \<longrightarrow> key_density l = map (den (counts c k i K) t) [0 ..< radix c])"

definition count_inv :: "radix_conf \<Rightarrow> nat \<Rightarrow> nat \<Rightarrow> int list \<Rightarrow> rthread list \<Rightarrow> global_memory \<Rightarrow> bool" where
  "count_inv c k i K ls s \<longleftrightarrow> quiet k s \<and> key s ! (i mod 2) = K \<and> (\<forall>t < 2 ^ k. count_thread c k i K t (ls ! t))"

lemma sums_den: "sums a (map f [m ..< m + n]) = map (\<lambda>d. a + (\<Sum>e \<in> {m .. d}. f e)) [m ..< m + n]"
proof (induction n arbitrary: a m)
  case (Suc n)
  have u: "[m ..< m + Suc n] = m # [Suc m ..< Suc m + n]" by (simp add: upt_conv_Cons)
  have "a + f m + (\<Sum>e \<in> {Suc m .. d}. f e) = a + (\<Sum>e \<in> {m .. d}. f e)" if "Suc m \<le> d" for d
    using that by (simp add: sum.atLeast_Suc_atMost)
  then show ?case unfolding u using Suc.IH [of "a + f m" "Suc m"] by auto
qed simp

lemma sums_all: "sums 0 (map (cn t) [0 ..< r]) = map (den cn t) [0 ..< r]"
  using sums_den [of 0 "cn t" 0 r] by (simp add: den_def atLeast0AtMost)

lemma count_go:
  assumes c: "conf_ok c k b" "memory_ok c s" and i: "count_inv c k i K ls s" and t: "t < 2 ^ k" and len: "length ls = 2 ^ k"
    and nb: "\<not> at_barrier (ls ! t)"
  shows "goes c (count_inv c k i K) t ls s"
proof -
  have th: "count_thread c k i K t (ls ! t)" using i t by (simp add: count_inv_def)
  have stay: "count_inv c k i K (ls[t := l]) s" if "count_thread c k i K t l" for l
    using i all_update [of "2 ^ k" "count_thread c k i K" ls t l] that len unfolding count_inv_def by simp
  have K: "key s ! (i mod 2) = K" using i by (simp add: count_inv_def)
  note m = memory_keys [OF c(2), of "i mod 2", unfolded K, simplified]
  have fr: "rfrom (ls ! t) = i mod 2" "loopnum (ls ! t) = i" "in_pass i (ls ! t)" using th by (simp_all add: count_thread_def in_pass_def)
  have b: "part c k t \<le> part c k (Suc t)" "part c k (Suc t) \<le> num_keys c" using t by (simp_all add: part_Suc part_bound)
  let ?D = "digit_at c i K" and ?p = "part c k t"
  have "rpc (ls ! t) \<in> {RZero, RCount, RDensity}" using th nb by (auto simp: count_thread_def at_barrier_def)
  then consider "rpc (ls ! t) = RZero" | "rpc (ls ! t) = RDensity" | "rpc (ls ! t) = RCount" by blast
  then show ?thesis
  proof cases
    case 1
    define l where "l = (ls ! t)\<lparr>rank_me := replicate (radix c) 0, ri := ?p, rpc := RCount\<rparr>"
    have s: "radix_step c t (ls ! t, s) = Go (l, s)" using 1 t by (simp add: radix_step_def go_def conf_part [OF c(1)] l_def)
    have "count_thread c k i K t l" using fr(3) b(1) by (simp add: count_thread_def l_def in_pass_def map_replicate_const)
    then show ?thesis using 1 c(2) b by (intro goesI [OF s] stay) (simp_all add: phase_todo_def l_def)
  next
    case 2
    define l where "l = (ls ! t)\<lparr>key_density := sums 0 (rank_me (ls ! t)), rpc := RBar3\<rparr>"
    have s: "radix_step c t (ls ! t, s) = Go (l, s)" using 2 by (simp add: radix_step_def l_def)
    have "count_thread c k i K t l" using th 2 by (simp add: count_thread_def l_def in_pass_def sums_all)
    then show ?thesis using 2 c(2) by (intro goesI [OF s] stay) (simp_all add: phase_todo_def l_def)
  next
    case 3
    define q where "q = ri (ls ! t)"
    have q: "?p \<le> q" "q \<le> part c k (Suc t)" "rank_me (ls ! t) = map (\<lambda>d. cnt ?D q d - cnt ?D ?p d) [0 ..< radix c]"
      using th 3 by (simp_all add: count_thread_def q_def)
    show ?thesis
    proof (cases "q < part c k (Suc t)")
      case True
      have dr: "0 \<le> digit c i (K ! q)" "?D q < radix c" using digit_range [OF c(1)] by (simp_all add: digit_at_def)
      have qn: "q < length K" using True b(2) m(2) by simp
      define l where "l = (ls ! t)\<lparr>rank_me := (rank_me (ls ! t))[?D q := Suc (rank_me (ls ! t) ! ?D q)], ri := Suc q\<rparr>"
      have s: "radix_step c t (ls ! t, s) = Go (l, s)"
        using 3 t dr qn True m(1) fr q(3) by (simp add: radix_step_def go_def count_step_def conf_stop [OF c(1)] l_def q_def [symmetric] K digit_at_def nat_less_iff)
      have "cnt ?D ?p d \<le> cnt ?D q d" for d using q(1) by (rule cnt_mono)
      then have "rank_me l = map (\<lambda>d. cnt ?D (Suc q) d - cnt ?D ?p d) [0 ..< radix c]"
        using q(3) dr(2) by (auto simp: l_def Suc_diff_le intro!: nth_equalityI simp: nth_list_update)
      then have "count_thread c k i K t l" using fr(3) 3 q(1) True by (simp add: count_thread_def l_def in_pass_def)
      then show ?thesis using 3 c(2) True b(2) by (intro goesI [OF s] stay) (simp_all add: phase_todo_def l_def q_def)
    next
      case False
      define l where "l = (ls ! t)\<lparr>rpc := RDensity\<rparr>"
      have s: "radix_step c t (ls ! t, s) = Go (l, s)"
        using 3 t False by (simp add: radix_step_def go_def count_step_def conf_stop [OF c(1)] l_def q_def [symmetric])
      have "count_thread c k i K t l" using fr(3) q False by (simp add: count_thread_def l_def in_pass_def counts_def [abs_def])
      then show ?thesis using 3 c(2) by (intro goesI [OF s] stay) (simp_all add: phase_todo_def l_def)
    qed
  qed
qed

lemma count_begin: "quiet k s \<Longrightarrow> (\<And>t. t < 2 ^ k \<Longrightarrow> rpc (ls ! t) = RZero \<and> in_pass i (ls ! t)) \<Longrightarrow> count_inv c k i (key s ! (i mod 2)) ls s"
  by (simp add: count_inv_def count_thread_def)

lemma count_end:
  assumes i: "count_inv c k i K ls s" and a: "\<forall>t < 2 ^ k. at_barrier (ls ! t)"
  shows "\<And>t. t < 2 ^ k \<Longrightarrow> rpc (ls ! t) = RBar3 \<and> in_pass i (ls ! t)" "quiet k s" "counted c k (counts c k i K) ls" "key s ! (i mod 2) = K"
proof -
  have th: "count_thread c k i K t (ls ! t)" if "t < 2 ^ k" for t using i that by (simp add: count_inv_def)
  show pc: "rpc (ls ! t) = RBar3 \<and> in_pass i (ls ! t)" if "t < 2 ^ k" for t
    using th [OF that] a [rule_format, OF that] by (auto simp: count_thread_def at_barrier_def)
  show "quiet k s" "key s ! (i mod 2) = K" using i by (simp_all add: count_inv_def)
  show "counted c k (counts c k i K) ls" using th pc by (auto simp: counted_def count_thread_def first_def)
qed

end
