(* ===== verification/RadixMove.thy ===== *)
theory RadixMove
  imports RadixPhases
begin

text \<open>
  The last phase of a pass of the radix sort: the keys are moved to their places in the other array.
\<close>

definition after_pass :: "radix_conf \<Rightarrow> nat \<Rightarrow> rthread \<Rightarrow> bool" where
  "after_pass c i l \<longleftrightarrow> loopnum l = i \<and> (let j = (if i \<noteq> max_num_digits c - 1 then Suc i else i) in rfrom l = j mod 2 \<and> rto l = 1 - j mod 2)"

definition move_thread :: "radix_conf \<Rightarrow> nat \<Rightarrow> nat \<Rightarrow> int list \<Rightarrow> nat \<Rightarrow> rthread \<Rightarrow> bool" where
  "move_thread c k i K t l \<longleftrightarrow> rpc l \<in> {RStart, RMove, RBar6} \<and> (if rpc l = RBar6 then after_pass c i l else in_pass i l)
     \<and> (rpc l = RStart \<longrightarrow> rank_ff l = map (place (digit_at c i K) (num_keys c) (part c k t)) [0 ..< radix c])
     \<and> (rpc l = RMove \<longrightarrow> part c k t \<le> ri l \<and> ri l \<le> part c k (Suc t)
          \<and> rank_ff l = map (place (digit_at c i K) (num_keys c) (ri l)) [0 ..< radix c])"

text \<open>How far the thread has come.\<close>

definition moved_to :: "radix_conf \<Rightarrow> nat \<Rightarrow> nat \<Rightarrow> rthread \<Rightarrow> nat" where
  "moved_to c k t l = (case rpc l of RStart \<Rightarrow> part c k t | RMove \<Rightarrow> ri l | _ \<Rightarrow> part c k (Suc t))"

definition in_place :: "radix_conf \<Rightarrow> nat \<Rightarrow> nat \<Rightarrow> int list \<Rightarrow> global_memory \<Rightarrow> nat \<Rightarrow> rthread \<Rightarrow> bool" where
  "in_place c k i K s t l \<longleftrightarrow> (\<forall>q. part c k t \<le> q \<longrightarrow> q < moved_to c k t l \<longrightarrow>
     key s ! (1 - i mod 2) ! place (digit_at c i K) (num_keys c) q (digit_at c i K q) = K ! q)"

definition move_inv :: "radix_conf \<Rightarrow> nat \<Rightarrow> nat \<Rightarrow> int list \<Rightarrow> rthread list \<Rightarrow> global_memory \<Rightarrow> bool" where
  "move_inv c k i K ls s \<longleftrightarrow> quiet k s \<and> key s ! (i mod 2) = K \<and> (\<forall>t < 2 ^ k. move_thread c k i K t (ls ! t)) \<and> (\<forall>t < 2 ^ k. in_place c k i K s t (ls ! t))"

lemma move_thread_to: "move_thread c k i K t l \<Longrightarrow> part c k t \<le> moved_to c k t l \<and> moved_to c k t l \<le> part c k (Suc t)"
  using part_Suc [of c k t] by (cases "rpc l") (simp_all add: move_thread_def moved_to_def)

lemma flip: "Bit_Operations.xor (i mod 2) 1 = Suc i mod 2" "Bit_Operations.xor (1 - i mod 2) 1 = 1 - Suc i mod 2" for i :: nat
proof -
  have "i mod 2 = 0 \<and> Suc i mod 2 = 1 \<or> i mod 2 = 1 \<and> Suc i mod 2 = 0" by presburger
  then show "Bit_Operations.xor (i mod 2) 1 = Suc i mod 2" "Bit_Operations.xor (1 - i mod 2) 1 = 1 - Suc i mod 2" by auto
qed

lemma move_stay:
  assumes i: "move_inv c k i K ls s" and len: "length ls = 2 ^ k" and th: "move_thread c k i K t l" and e: "moved_to c k t l = moved_to c k t (ls ! t)" and t: "t < 2 ^ k"
  shows "move_inv c k i K (ls[t := l]) s"
proof -
  have "in_place c k i K s t l" using i t e by (simp add: move_inv_def in_place_def)
  then show ?thesis
    using i th len all_update [of "2 ^ k" "move_thread c k i K" ls t l] all_update [of "2 ^ k" "in_place c k i K s" ls t l] unfolding move_inv_def by simp
qed

lemma move_key:
  assumes c: "conf_ok c k b" "memory_ok c s" and i: "move_inv c k i K ls s" and t: "t < 2 ^ k" and len: "length ls = 2 ^ k"
    and pc: "rpc (ls ! t) = RMove" and lt: "ri (ls ! t) < part c k (Suc t)"
  shows "goes c (move_inv c k i K) t ls s"
proof -
  let ?D = "digit_at c i K" and ?n = "num_keys c" and ?to = "1 - i mod 2"
  have th: "move_thread c k i K u (ls ! u)" and pl: "in_place c k i K s u (ls ! u)" if "u < 2 ^ k" for u using i that by (simp_all add: move_inv_def)
  define q where "q = ri (ls ! t)"
  have q: "part c k t \<le> q" "q < part c k (Suc t)" "rank_ff (ls ! t) = map (place ?D ?n q) [0 ..< radix c]" "in_pass i (ls ! t)"
    using th [OF t] pc lt by (simp_all add: move_thread_def q_def)
  have fr: "rfrom (ls ! t) = i mod 2" "rto (ls ! t) = ?to" "loopnum (ls ! t) = i" using q(4) by (simp_all add: in_pass_def)
  have K: "key s ! (i mod 2) = K" using i by (simp add: move_inv_def)
  note m = memory_keys [OF c(2), of "i mod 2", unfolded K, simplified] and m2 = memory_keys [OF c(2), of ?to, simplified]
  have dr: "0 \<le> digit c i (K ! p)" "?D p < radix c" for p using digit_range [OF c(1)] by (simp_all add: digit_at_def)
  have qn: "q < ?n" using q(2) part_bound [of "Suc t" k c] t by simp
  define x where "x = place ?D ?n q (?D q)"
  have x: "x < ?n" unfolding x_def by (rule place_bound [OF qn dr(2)])
  define l where "l = (ls ! t)\<lparr>rank_ff := (rank_ff (ls ! t))[?D q := Suc x], ri := Suc q\<rparr>"
  define s' where "s' = s\<lparr>key := (key s)[?to := (key s ! ?to)[x := K ! q]]\<rparr>"
  have tmp: "rd (rank_ff (ls ! t)) (digit c i (K ! q)) = Some x" "wr (rank_ff (ls ! t)) (digit c i (K ! q)) (x + 1) = Some ((rank_ff (ls ! t))[?D q := Suc x])"
    using dr [of q] q(3) by (simp_all add: digit_at_def nat_less_iff x_def)
  have s: "radix_step c t (ls ! t, s) = Go (l, s')"
    using pc t q(2) qn m m2 x tmp fr unfolding l_def s'_def
    by (simp add: radix_step_def go_def move_step_def conf_stop [OF c(1)] q_def [symmetric] K)
  have ne: "?to \<noteq> i mod 2" by presburger
  have keys: "key s' ! (i mod 2) = K" "key s' ! ?to ! y = (if y = x then K ! q else key s ! ?to ! y)" for y
    using K ne m2 x by (simp_all add: s'_def)
  have "rank_ff l = map (place ?D ?n (Suc q)) [0 ..< radix c]"
    using q(3) dr(2) by (auto simp: l_def x_def place_def intro!: nth_equalityI simp: nth_list_update)
  then have th': "move_thread c k i K t l" using q pc by (simp add: move_thread_def l_def in_pass_def)
  have "in_place c k i K s' u (ls[t := l] ! u)" if u: "u < 2 ^ k" for u
    unfolding in_place_def keys(2)
  proof (intro allI impI)
    fix p assume p: "part c k u \<le> p" "p < moved_to c k u (ls[t := l] ! u)"
    have "p = q \<or> p < moved_to c k u (ls ! u)" using p pc u len by (cases "u = t") (auto simp: moved_to_def l_def q_def)
    moreover have "p < ?n" if "p < moved_to c k u (ls ! u)" using move_thread_to [OF th [OF u]] part_bound [of "Suc u" k c] u that by simp
    ultimately show "(if place ?D ?n p (?D p) = x then K ! q else key s ! ?to ! place ?D ?n p (?D p)) = K ! p"
      using place_inj [of p ?n q ?D] qn pl [OF u] p(1) unfolding in_place_def x_def by auto
  qed
  moreover have "move_thread c k i K u (ls[t := l] ! u)" if "u < 2 ^ k" for u using th th' that len by (cases "u = t") simp_all
  ultimately have "move_inv c k i K (ls[t := l]) s'" using i keys(1) by (simp add: move_inv_def s'_def)
  moreover have "memory_ok c s'" unfolding s'_def by (rule key_update_ok [OF c(2)]) (simp add: m2)
  moreover have "phase_todo c l < phase_todo c (ls ! t)" using pc qn by (simp add: phase_todo_def l_def q_def)
  ultimately show ?thesis by (intro goesI [OF s]) (simp_all add: l_def)
qed

lemma move_go:
  assumes c: "conf_ok c k b" "memory_ok c s" and i: "move_inv c k i K ls s" and t: "t < 2 ^ k" and len: "length ls = 2 ^ k"
    and nb: "\<not> at_barrier (ls ! t)"
  shows "goes c (move_inv c k i K) t ls s"
proof -
  have th: "move_thread c k i K t (ls ! t)" using i t by (simp add: move_inv_def)
  have b: "part c k t \<le> part c k (Suc t)" "part c k (Suc t) \<le> num_keys c" using t by (simp_all add: part_Suc part_bound)
  have "rpc (ls ! t) \<in> {RStart, RMove}" using th nb by (auto simp: move_thread_def at_barrier_def)
  then consider "rpc (ls ! t) = RStart" | "rpc (ls ! t) = RMove" "ri (ls ! t) < part c k (Suc t)" | "rpc (ls ! t) = RMove" "\<not> ri (ls ! t) < part c k (Suc t)" by blast
  then show ?thesis
  proof cases
    case 1
    define l where "l = (ls ! t)\<lparr>ri := part c k t, rpc := RMove\<rparr>"
    have s: "radix_step c t (ls ! t, s) = Go (l, s)" using 1 t by (simp add: radix_step_def go_def conf_part [OF c(1)] l_def)
    have th': "move_thread c k i K t l" using th 1 b(1) by (simp add: move_thread_def l_def in_pass_def)
    have "move_inv c k i K (ls[t := l]) s" by (rule move_stay [OF i len th' _ t]) (simp add: moved_to_def l_def 1)
    then show ?thesis using 1 c(2) by (intro goesI [OF s]) (simp_all add: phase_todo_def l_def)
  next
    case 2
    then show ?thesis by (rule move_key [OF c i t len])
  next
    case 3
    have p: "in_pass i (ls ! t)" "ri (ls ! t) = part c k (Suc t)" using th 3 by (simp_all add: move_thread_def)
    define l where "l = (if i \<noteq> max_num_digits c - 1 then (ls ! t)\<lparr>rfrom := Suc i mod 2, rto := 1 - Suc i mod 2, rpc := RBar6\<rparr> else (ls ! t)\<lparr>rpc := RBar6\<rparr>)"
    have l: "rpc l = RBar6" "barriers l = barriers (ls ! t)" by (simp_all add: l_def)
    have s: "radix_step c t (ls ! t, s) = Go (l, s)"
      using 3 t p(1) by (simp add: radix_step_def go_def move_step_def conf_stop [OF c(1)] l_def in_pass_def flip [simplified])
    have th': "move_thread c k i K t l" using p(1) by (simp add: move_thread_def l_def after_pass_def in_pass_def Let_def)
    have "move_inv c k i K (ls[t := l]) s" by (rule move_stay [OF i len th' _ t]) (simp add: moved_to_def l(1) 3(1) p(2))
    then show ?thesis using 3 c(2) l by (intro goesI [OF s]) (simp_all add: phase_todo_def)
  qed
qed

lemma move_begin:
  assumes "conf_ok c k b" "quiet k s" "\<And>t. t < 2 ^ k \<Longrightarrow> rpc (ls ! t) = RStart \<and> in_pass i (ls ! t) \<and> ranked c k (counts c k i K) t (ls ! t)" "key s ! (i mod 2) = K"
  shows "move_inv c k i K ls s"
proof -
  have "rank_ff (ls ! t) = map (place (digit_at c i K) (num_keys c) (part c k t)) [0 ..< radix c]" if t: "t < 2 ^ k" for t
  proof -
    have "(\<Sum>u < t. counts c k i K u d) + (if d = 0 then 0 else \<Sum>u < 2 ^ k. den (counts c k i K) u (d - 1)) = place (digit_at c i K) (num_keys c) (part c k t) d" for d
      by (rule start_place [where f = "part c k"]) (use t in \<open>simp_all add: part_Suc counts_def\<close>)
    then show ?thesis using assms(3) [OF t] by (auto simp: ranked_def first_def)
  qed
  then show ?thesis using assms(2-4) by (simp add: move_inv_def move_thread_def in_place_def moved_to_def)
qed

lemma move_end:
  assumes c: "memory_ok c s" and i: "move_inv c k i K ls s" and a: "\<forall>t < 2 ^ k. at_barrier (ls ! t)"
  shows "\<And>t. t < 2 ^ k \<Longrightarrow> rpc (ls ! t) = RBar6 \<and> after_pass c i (ls ! t)" "quiet k s" "moved (digit_at c i K) K (key s ! (1 - i mod 2))"
proof -
  have th: "move_thread c k i K t (ls ! t)" and pl: "in_place c k i K s t (ls ! t)" if "t < 2 ^ k" for t using i that by (simp_all add: move_inv_def)
  show pc: "rpc (ls ! t) = RBar6 \<and> after_pass c i (ls ! t)" if "t < 2 ^ k" for t
    using th [OF that] a [rule_format, OF that] by (auto simp: move_thread_def at_barrier_def)
  show "quiet k s" using i by (simp add: move_inv_def)
  have K: "key s ! (i mod 2) = K" using i by (simp add: move_inv_def)
  note m = memory_keys [OF c, of "i mod 2", unfolded K, simplified] and m2 = memory_keys [OF c, of "1 - i mod 2", simplified]
  show "moved (digit_at c i K) K (key s ! (1 - i mod 2))" unfolding moved_def
  proof (intro conjI allI impI)
    fix q assume "q < length K"
    then have "q < num_keys c" using m by simp
    then obtain t where t: "t < 2 ^ k" "part c k t \<le> q" "q < part c k (Suc t)" using part_exists by blast
    then show "key s ! (1 - i mod 2) ! place (digit_at c i K) (length K) q (digit_at c i K q) = K ! q"
      using pl [OF t(1)] pc [OF t(1)] m by (simp add: in_place_def moved_to_def)
  qed (use m m2 in simp)
qed

end
