(* ===== verification/RadixProof.thy ===== *)
theory RadixProof
  imports RadixMove
begin

text \<open>
  The radix sort as a whole: the invariant of every phase, which makes the program an instance of \<open>barrier_phases\<close>, and what follows
  for every schedule.
\<close>

section \<open>The invariants of the phases\<close>

text \<open>The keys before the pass for digit \<open>i\<close>: those that were filled in, sorted by their last \<open>i\<close> digits.\<close>

definition keys_ok :: "radix_conf \<Rightarrow> nat \<Rightarrow> int list \<Rightarrow> bool" where
  "keys_ok c i K \<longleftrightarrow> mset K = mset (map (key_at (key_scale c)) [0 ..< num_keys c]) \<and> sorted (map (\<lambda>x. x mod int (radix c) ^ i) K)"

definition start_inv :: "radix_conf \<Rightarrow> nat \<Rightarrow> rthread list \<Rightarrow> global_memory \<Rightarrow> bool" where
  "start_inv c k ls s \<longleftrightarrow> quiet k s \<and> key s ! 0 = map (key_at (key_scale c)) [0 ..< num_keys c]
     \<and> (\<forall>t < 2 ^ k. rpc (ls ! t) = RBar2 \<and> rfrom (ls ! t) = 0 \<and> rto (ls ! t) = 1)"

definition tree_data :: "nat \<Rightarrow> nat \<Rightarrow> int list \<Rightarrow> rthread list \<Rightarrow> global_memory \<Rightarrow> bool" where
  "tree_data k i K ls s \<longleftrightarrow> key s ! (i mod 2) = K \<and> (\<forall>t < 2 ^ k. in_pass i (ls ! t))"

definition pass_inv :: "radix_conf \<Rightarrow> nat \<Rightarrow> nat \<Rightarrow> nat \<Rightarrow> rthread list \<Rightarrow> global_memory \<Rightarrow> bool" where
  "pass_inv c k i h ls s \<longleftrightarrow> (\<exists>K. keys_ok c i K \<and>
     (h = 0 \<and> count_inv c k i K ls s
      \<or> h = 1 \<and> tree_data k i K ls s \<and> counted c k (counts c k i K) ls \<and> (\<exists>jl. up_inv c k (counts c k i K) jl ls s)
      \<or> h = 2 \<and> tree_data k i K ls s \<and> (\<exists>gl. down_inv c k (counts c k i K) gl ls s)
      \<or> h = 3 \<and> move_inv c k i K ls s))"

definition last_inv :: "radix_conf \<Rightarrow> nat \<Rightarrow> radix_pc set \<Rightarrow> rthread list \<Rightarrow> global_memory \<Rightarrow> bool" where
  "last_inv c k pcs ls s \<longleftrightarrow> keys_ok c (max_num_digits c) (key s ! (max_num_digits c mod 2))
     \<and> (\<forall>t < 2 ^ k. rpc (ls ! t) \<in> pcs \<and> rto (ls ! t) = max_num_digits c mod 2) \<and> (rpc (ls ! 0) = RDone \<longrightarrow> final_key s = max_num_digits c mod 2)"

text \<open>The invariant after \<open>g\<close> barriers: two before the passes, four in each, and one at the end.\<close>

definition phase_inv :: "radix_conf \<Rightarrow> nat \<Rightarrow> nat \<Rightarrow> rthread list \<Rightarrow> global_memory \<Rightarrow> bool" where
  "phase_inv c k g =
     (if g = 0 then init_inv c k else if g = 1 then start_inv c k
      else if g < 2 + 4 * max_num_digits c then pass_inv c k ((g - 2) div 4) ((g - 2) mod 4)
      else if g = 2 + 4 * max_num_digits c then last_inv c k {RBarEnd}
      else if g = 3 + 4 * max_num_digits c then last_inv c k {RLast, RDone} else (\<lambda>_ _. False))"

definition radix_J :: "radix_conf \<Rightarrow> nat \<Rightarrow> nat \<Rightarrow> nat \<Rightarrow> rthread list \<Rightarrow> global_memory \<Rightarrow> bool" where
  "radix_J c k b g ls s \<longleftrightarrow> conf_ok c k b \<and> memory_ok c s \<and> length ls = 2 ^ k \<and> (\<forall>t < 2 ^ k. barriers (ls ! t) = g) \<and> phase_inv c k g ls s"

lemma phase_simps [simp]:
  "phase_inv c k 0 = init_inv c k" "phase_inv c k (Suc 0) = start_inv c k"
  "phase_inv c k (2 + 4 * max_num_digits c) = last_inv c k {RBarEnd}" "phase_inv c k (3 + 4 * max_num_digits c) = last_inv c k {RLast, RDone}"
  by (simp_all add: phase_inv_def)

lemma phase_pass: "i < max_num_digits c \<Longrightarrow> h < 4 \<Longrightarrow> phase_inv c k (2 + 4 * i + h) = pass_inv c k i h"
  by (simp add: phase_inv_def)

text \<open>The phases.\<close>

lemma phase_cases:
  assumes "phase_inv c k g ls s"
  obtains "g = 0" "init_inv c k ls s" | "g = 1" "start_inv c k ls s"
  | i h where "i < max_num_digits c" "h < 4" "g = 2 + 4 * i + h" "pass_inv c k i h ls s"
  | "g = 2 + 4 * max_num_digits c" "last_inv c k {RBarEnd} ls s" | "g = 3 + 4 * max_num_digits c" "last_inv c k {RLast, RDone} ls s"
proof (cases "2 \<le> g \<and> g < 2 + 4 * max_num_digits c")
  case True
  then have "(g - 2) div 4 < max_num_digits c" "(g - 2) mod 4 < 4" "g = 2 + 4 * ((g - 2) div 4) + (g - 2) mod 4" by (auto simp: less_mult_imp_div_less mult.commute)
  moreover have "pass_inv c k ((g - 2) div 4) ((g - 2) mod 4) ls s" using assms True by (auto simp: phase_inv_def)
  ultimately show ?thesis by (rule that(3))
next
  case False
  then show ?thesis using assms that(1,2,4,5) unfolding phase_inv_def by (auto split: if_splits)
qed

lemma pass_cases:
  assumes "pass_inv c k i h ls s"
  obtains K where "h = 0" "keys_ok c i K" "count_inv c k i K ls s"
  | K jl where "h = 1" "keys_ok c i K" "tree_data k i K ls s" "counted c k (counts c k i K) ls" "up_inv c k (counts c k i K) jl ls s"
  | K gl where "h = 2" "keys_ok c i K" "tree_data k i K ls s" "down_inv c k (counts c k i K) gl ls s"
  | K where "h = 3" "keys_ok c i K" "move_inv c k i K ls s"
  using assms unfolding pass_inv_def by blast

section \<open>Steps\<close>

lemma goes_mono: "goes c I t ls s \<Longrightarrow> (\<And>ls s. I ls s \<Longrightarrow> I' ls s) \<Longrightarrow> goes c I' t ls s"
  unfolding goes_def by blast

lemma same_pass: "same_data l m \<Longrightarrow> in_pass i m \<Longrightarrow> in_pass i l"
  by (simp add: same_data_def in_pass_def)

lemma same_tree: "tree_data k i K ls s \<Longrightarrow> length ls = 2 ^ k \<Longrightarrow> t < 2 ^ k \<Longrightarrow> same_data l (ls ! t) \<Longrightarrow> key s' = key s \<Longrightarrow> tree_data k i K (ls[t := l]) s'"
  unfolding tree_data_def by (auto intro!: all_update [of "2 ^ k" "\<lambda>_. in_pass i"] intro: same_pass)

lemma same_counted: "counted c k cn ls \<Longrightarrow> length ls = 2 ^ k \<Longrightarrow> t < 2 ^ k \<Longrightarrow> same_data l (ls ! t) \<Longrightarrow> counted c k cn (ls[t := l])"
  unfolding counted_def same_data_def by (auto simp: nth_list_update)

lemma pass_keep:
  assumes c: "conf_ok c k b" "memory_ok c s" and p: "pass_inv c k i h ls s" and t: "t < 2 ^ k" and len: "length ls = 2 ^ k" and nb: "\<not> at_barrier (ls ! t)"
  shows "radix_step c t (ls ! t, s) = Blocked \<or> goes c (pass_inv c k i h) t ls s"
  using p
proof (cases rule: pass_cases)
  case (1 K)
  from count_go [OF c 1(3) t len nb] have "goes c (pass_inv c k i h) t ls s" by (rule goes_mono) (use 1 in \<open>auto simp: pass_inv_def\<close>)
  then show ?thesis by blast
next
  case (2 K jl)
  show ?thesis
  proof (cases "radix_step c t (ls ! t, s) = Blocked")
    case False
    with up_keep [OF c 2(5) t len 2(4) nb] obtain l s' j where
      l: "radix_step c t (ls ! t, s) = Go (l, s')" "up_inv c k (counts c k i K) j (ls[t := l]) s'" "memory_ok c s'" "key s' = key s" "same_data l (ls ! t)"
        "phase_todo c l < phase_todo c (ls ! t)" by blast
    have "pass_inv c k i h (ls[t := l]) s'"
      using 2 l same_tree [OF 2(3) len t l(5,4)] same_counted [OF 2(4) len t l(5)] unfolding pass_inv_def by blast
    then have "goes c (pass_inv c k i h) t ls s" using l by (intro goesI [OF l(1)]) (simp_all add: same_data_def)
    then show ?thesis by blast
  qed simp
next
  case (3 K gl)
  show ?thesis
  proof (cases "radix_step c t (ls ! t, s) = Blocked")
    case False
    with down_keep [OF c 3(4) t len nb] obtain l s' j where
      l: "radix_step c t (ls ! t, s) = Go (l, s')" "down_inv c k (counts c k i K) j (ls[t := l]) s'" "memory_ok c s'" "key s' = key s" "same_data l (ls ! t)"
        "phase_todo c l < phase_todo c (ls ! t)" unfolding down_goes_def by blast
    have "pass_inv c k i h (ls[t := l]) s'" using 3 l same_tree [OF 3(3) len t l(5,4)] unfolding pass_inv_def by blast
    then have "goes c (pass_inv c k i h) t ls s" using l by (intro goesI [OF l(1)]) (simp_all add: same_data_def)
    then show ?thesis by blast
  qed simp
next
  case (4 K)
  from move_go [OF c 4(3) t len nb] have "goes c (pass_inv c k i h) t ls s" by (rule goes_mono) (use 4 in \<open>auto simp: pass_inv_def\<close>)
  then show ?thesis by blast
qed

lemma pass_live:
  assumes c: "conf_ok c k b" "memory_ok c s" and p: "pass_inv c k i h ls s" and t: "t < 2 ^ k" and len: "length ls = 2 ^ k" and nb: "\<not> at_barrier (ls ! t)"
  shows "\<exists>u < 2 ^ k. \<not> at_barrier (ls ! u) \<and> radix_step c u (ls ! u, s) \<noteq> Blocked"
  using p
proof (cases rule: pass_cases)
  case (1 K)
  then show ?thesis using count_go [OF c 1(3) t len nb] t nb unfolding goes_def by auto
next
  case (2 K jl)
  then show ?thesis using up_live [OF c _ len _ t nb] by blast
next
  case (3 K gl)
  then show ?thesis using down_live [OF c _ len t nb] by blast
next
  case (4 K)
  then show ?thesis using move_go [OF c 4(3) t len nb] t nb unfolding goes_def by auto
qed

lemma last_step:
  assumes i: "last_inv c k {RLast, RDone} ls s" "memory_ok c s" and t: "t < 2 ^ k" and len: "length ls = 2 ^ k"
  shows "if rpc (ls ! t) = RDone then radix_step c t (ls ! t, s) = Blocked else goes c (last_inv c k {RLast, RDone}) t ls s"
proof (cases "rpc (ls ! t) = RDone")
  case False
  then have pc: "rpc (ls ! t) = RLast" "rto (ls ! t) = max_num_digits c mod 2" using i(1) t by (auto simp: last_inv_def)
  define l where "l = (ls ! t)\<lparr>rpc := RDone\<rparr>"
  define s' where "s' = (if t = 0 then s\<lparr>final_key := rto (ls ! t)\<rparr> else s)"
  have s: "radix_step c t (ls ! t, s) = Go (l, s')" using pc by (simp add: radix_step_def l_def s'_def)
  have "last_inv c k {RLast, RDone} (ls[t := l]) s'" using i(1) pc len t unfolding last_inv_def by (auto simp: l_def s'_def nth_list_update)
  moreover have "memory_ok c s'" using i(2) by (simp add: s'_def memory_ok_def)
  ultimately show ?thesis using pc by (auto intro!: goesI [OF s] simp: l_def phase_todo_def)
qed (simp add: radix_step_def)

section \<open>Barriers\<close>

lemma leave_same: "in_pass i (leave_barrier c l) = in_pass i l" "rank_me (leave_barrier c l) = rank_me l" "key_density (leave_barrier c l) = key_density l"
  "rank_ff (leave_barrier c l) = rank_ff l" if "rpc l \<in> {RBar3, RBar4, RBar5}"
  using that by (auto simp: leave_barrier_def in_pass_def)

lemma leave_counted: "counted c k cn ls \<Longrightarrow> length ls = 2 ^ k \<Longrightarrow> (\<And>t. t < 2 ^ k \<Longrightarrow> rpc (ls ! t) = RBar3) \<Longrightarrow> counted c k cn (map (leave_barrier c) ls)"
  by (simp add: counted_def leave_same)

lemma sorted_const: "sorted (map (\<lambda>x. y) K)"
  by (simp add: map_replicate_const)

lemma keys_pass:
  assumes c: "conf_ok c k b" and K: "keys_ok c i K" and m: "moved (digit_at c i K) K L"
  shows "keys_ok c (Suc i) L"
proof -
  have D: "int (digit_at c i K q) = K ! q div int (radix c) ^ i mod int (radix c) \<and> digit_at c i K q < radix c" for q
    using digit_range [OF c, of i "K ! q"] digit_eq [of c b i "K ! q"] c by (simp add: digit_at_def conf_ok_def)
  have "mset L = mset K" by (rule moved_mset [OF m]) (use D in blast)
  moreover have "sorted (map (\<lambda>x. x mod (int (radix c) * int (radix c) ^ i)) L)"
    by (rule moved_sorted [OF m D]) (use K c in \<open>simp_all add: keys_ok_def conf_ok_def\<close>)
  ultimately show ?thesis using K by (simp add: keys_ok_def)
qed

lemma one_minus_mod: "1 - i mod 2 = Suc i mod 2" for i :: nat
  by presburger

lemma pass_over:
  assumes c: "conf_ok c k b" "memory_ok c s" and p: "pass_inv c k i h ls s" and i: "i < max_num_digits c" and g: "g = 2 + 4 * i + h" and len: "length ls = 2 ^ k"
    and a: "\<forall>t < 2 ^ k. at_barrier (ls ! t)"
  shows "phase_inv c k (Suc g) (map (leave_barrier c) ls) s"
  using p
proof (cases rule: pass_cases)
  case (1 K)
  note e = count_end [OF 1(3) a]
  have "up_inv c k (counts c k i K) (\<lambda>_. 0) (map (leave_barrier c) ls) s" by (rule up_begin [OF e(2)]) (use e(1) len in \<open>simp add: leave_barrier_def\<close>)
  moreover have "tree_data k i K (map (leave_barrier c) ls) s" using e len by (simp add: tree_data_def leave_same)
  moreover have "counted c k (counts c k i K) (map (leave_barrier c) ls)" by (rule leave_counted [OF e(3) len]) (use e(1) in blast)
  ultimately have "pass_inv c k i 1 (map (leave_barrier c) ls) s" using 1 unfolding pass_inv_def by blast
  moreover have "Suc g = 2 + 4 * i + 1" using g 1(1) by simp
  ultimately show ?thesis using phase_pass [OF i, of 1 k] by (simp only:)
next
  case (2 K jl)
  note e = up_end [OF 2(5) a]
  have "down_inv c k (counts c k i K) (\<lambda>_. 0) (map (leave_barrier c) ls) s" by (rule down_begin [OF e(2,3)]) (use e(1) len in \<open>simp add: leave_barrier_def\<close>)
  moreover have "tree_data k i K (map (leave_barrier c) ls) s" using e(1) 2(3) len by (simp add: tree_data_def leave_same)
  ultimately have "pass_inv c k i 2 (map (leave_barrier c) ls) s" using 2 unfolding pass_inv_def by blast
  moreover have "Suc g = 2 + 4 * i + 2" using g 2(1) by simp
  ultimately show ?thesis using phase_pass [OF i, of 2 k] by (simp only:)
next
  case (3 K gl)
  note e = down_end [OF 3(4) a]
  have "move_inv c k i K (map (leave_barrier c) ls) s"
    by (rule move_begin [OF c(1) e(2)]) (use e(1) 3(3) len in \<open>simp_all add: leave_same tree_data_def ranked_def, simp add: leave_barrier_def\<close>)
  then have "pass_inv c k i 3 (map (leave_barrier c) ls) s" using 3 unfolding pass_inv_def by blast
  moreover have "Suc g = 2 + 4 * i + 3" using g 3(1) by simp
  ultimately show ?thesis using phase_pass [OF i, of 3 k] by (simp only:)
next
  case (4 K)
  note e = move_end [OF c(2) 4(3) a]
  have K: "keys_ok c (Suc i) (key s ! (Suc i mod 2))" using keys_pass [OF c(1) 4(2) e(3)] by (simp only: one_minus_mod)
  show ?thesis
  proof (cases "Suc i < max_num_digits c")
    case True
    have f: "rpc (ls ! t) = RBar6" "loopnum (ls ! t) = i" "rfrom (ls ! t) = Suc i mod 2" "rto (ls ! t) = 1 - Suc i mod 2" if "t < 2 ^ k" for t
      using e(1) [OF that] True by (auto simp: after_pass_def Let_def split: if_splits)
    have "count_inv c k (Suc i) (key s ! (Suc i mod 2)) (map (leave_barrier c) ls) s"
      by (rule count_begin [OF e(2)]) (use f True len in \<open>simp add: leave_barrier_def next_digit_def in_pass_def\<close>)
    then have "pass_inv c k (Suc i) 0 (map (leave_barrier c) ls) s" using K unfolding pass_inv_def by blast
    moreover have "Suc g = 2 + 4 * Suc i + 0" using g 4(1) by simp
    ultimately show ?thesis using phase_pass [OF True, of 0 k] by (simp only:)
  next
    case False
    then have d: "max_num_digits c = Suc i" using i by simp
    have "rto (ls ! t) = Suc i mod 2" if "t < 2 ^ k" for t using e(1) [OF that] d by (simp add: after_pass_def one_minus_mod [simplified])
    then have "last_inv c k {RBarEnd} (map (leave_barrier c) ls) s" using e(1) K d len by (simp add: last_inv_def leave_barrier_def next_digit_def after_pass_def)
    moreover have "Suc g = 2 + 4 * max_num_digits c" using g 4(1) d by simp
    ultimately show ?thesis by (simp only: phase_simps)
  qed
qed

lemma phase_over:
  assumes c: "conf_ok c k b" "memory_ok c s" and p: "phase_inv c k g ls s" and len: "length ls = 2 ^ k" and a: "\<forall>t < 2 ^ k. at_barrier (ls ! t)"
  shows "phase_inv c k (Suc g) (map (leave_barrier c) ls) s"
  using p
proof (cases rule: phase_cases)
  case 1
  note e = init_end [OF c(2) 1(2) a]
  have "start_inv c k (map (leave_barrier c) ls) s" using e len by (simp add: start_inv_def leave_barrier_def)
  then show ?thesis using 1 by simp
next
  case 2
  have d: "0 < max_num_digits c" using c(1) by (simp add: conf_ok_def)
  have "count_inv c k 0 (key s ! (0 mod 2)) (map (leave_barrier c) ls) s"
    by (rule count_begin) (use 2 d len in \<open>simp_all add: start_inv_def leave_barrier_def next_digit_def in_pass_def\<close>)
  moreover have "keys_ok c 0 (key s ! 0)" using 2 by (simp add: keys_ok_def start_inv_def sorted_const del: map_map)
  ultimately have "pass_inv c k 0 0 (map (leave_barrier c) ls) s" by (auto simp: pass_inv_def)
  then show ?thesis using 2 phase_pass [OF d, of 0 k] by (simp add: numeral_2_eq_2)
next
  case (3 i h)
  show ?thesis by (rule pass_over [OF c 3(4,1,3) len a])
next
  case 4
  have "last_inv c k {RLast, RDone} (map (leave_barrier c) ls) s" using 4 len by (simp add: last_inv_def leave_barrier_def)
  moreover have "Suc g = 3 + 4 * max_num_digits c" using 4(1) by simp
  ultimately show ?thesis by (simp only: phase_simps)
next
  case 5
  then have "rpc (ls ! 0) \<in> {RLast, RDone}" by (simp add: last_inv_def)
  then show ?thesis using a [rule_format, of 0] by (auto simp: at_barrier_def)
qed

section \<open>The contract\<close>

text \<open>A bound for the steps of a thread: those of the phase, and at most \<open>n + 3 P + 5\<close> for every later one.\<close>

definition todo :: "radix_conf \<Rightarrow> rthread \<Rightarrow> nat" where
  "todo c l = (3 + 4 * max_num_digits c - barriers l) * (num_keys c + 3 * number_of_processors c + 6) + phase_todo c l"

lemma todo_phase: "barriers l = barriers m \<Longrightarrow> phase_todo c l < phase_todo c m \<Longrightarrow> todo c l < todo c m"
  by (simp add: todo_def)

lemma todo_leave:
  assumes "barriers l < 3 + 4 * max_num_digits c"
  shows "todo c (leave_barrier c l) < todo c l"
proof -
  let ?w = "num_keys c + 3 * number_of_processors c + 6"
  have p: "phase_todo c (leave_barrier c l) < ?w" "barriers (leave_barrier c l) = Suc (barriers l)"
    by (cases "rpc l"; simp add: leave_barrier_def next_digit_def phase_todo_def Let_def)+
  obtain d where d: "3 + 4 * max_num_digits c - barriers l = Suc d" using assms by (cases "3 + 4 * max_num_digits c - barriers l") auto
  then have "3 + 4 * max_num_digits c - Suc (barriers l) = d" by simp
  then show ?thesis unfolding todo_def p(2) d using p(1) by simp
qed

lemma phase_bound: "phase_inv c k g ls s \<Longrightarrow> g \<le> 3 + 4 * max_num_digits c"
  by (auto simp: phase_inv_def split: if_splits)

lemma phase_keep:
  assumes c: "conf_ok c k b" "memory_ok c s" and p: "phase_inv c k g ls s" and t: "t < 2 ^ k" and len: "length ls = 2 ^ k" and nb: "\<not> at_barrier (ls ! t)"
  shows "radix_step c t (ls ! t, s) = Blocked \<or> goes c (phase_inv c k g) t ls s"
  using p
proof (cases rule: phase_cases)
  case 1
  then show ?thesis using init_go [OF c 1(2) t len nb] by simp
next
  case 2
  then show ?thesis using nb t by (simp add: start_inv_def at_barrier_def)
next
  case (3 i h)
  show ?thesis using pass_keep [OF c 3(4) t len nb] unfolding 3(3) phase_pass [OF 3(1,2)] .
next
  case 4
  then show ?thesis using nb t by (simp add: last_inv_def at_barrier_def)
next
  case 5
  then show ?thesis using last_step [OF 5(2) c(2) t len] unfolding 5(1) phase_simps by (auto split: if_splits)
qed

lemma phase_live:
  assumes c: "conf_ok c k b" "memory_ok c s" and p: "phase_inv c k g ls s" and t: "t < 2 ^ k" and len: "length ls = 2 ^ k" and nb: "\<not> at_barrier (ls ! t)"
    and nd: "rpc (ls ! t) \<noteq> RDone"
  shows "\<exists>u < 2 ^ k. \<not> at_barrier (ls ! u) \<and> radix_step c u (ls ! u, s) \<noteq> Blocked"
  using p
proof (cases rule: phase_cases)
  case 1
  then show ?thesis using init_go [OF c 1(2) t len nb] t nb unfolding goes_def by auto
next
  case 2
  then show ?thesis using nb t by (simp add: start_inv_def at_barrier_def)
next
  case (3 i h)
  show ?thesis by (rule pass_live [OF c 3(4) t len nb])
next
  case 4
  then show ?thesis using nb t by (simp add: last_inv_def at_barrier_def)
next
  case 5
  then show ?thesis using last_step [OF 5(2) c(2) t len] nd t nb unfolding goes_def by auto
qed

lemma done_last: "phase_inv c k g ls s \<Longrightarrow> t < 2 ^ k \<Longrightarrow> rpc (ls ! t) = RDone \<Longrightarrow> g = 3 + 4 * max_num_digits c \<and> last_inv c k {RLast, RDone} ls s"
proof (erule phase_cases)
  fix i h assume t: "t < 2 ^ k" "rpc (ls ! t) = RDone" and p: "pass_inv c k i h ls s"
  have "rpc (ls ! t) \<noteq> RDone" using p
  proof (cases rule: pass_cases)
    case (1 K)
    then have "count_thread c k i K t (ls ! t)" using t(1) by (simp add: count_inv_def)
    then show ?thesis by (auto simp: count_thread_def)
  next
    case (2 K jl)
    then have "up_thread k t (jl t) (ls ! t)" using t(1) by (simp add: up_inv_def)
    then show ?thesis unfolding up_thread_def by (cases "rpc (ls ! t)") simp_all
  next
    case (3 K gl)
    then have "down_thread c k (counts c k i K) t (gl t) (ls ! t)" using t(1) by (simp add: down_inv_def)
    then show ?thesis unfolding down_thread_def by (cases "rpc (ls ! t)") simp_all
  next
    case (4 K)
    then have "move_thread c k i K t (ls ! t)" using t(1) by (simp add: move_inv_def)
    then show ?thesis by (auto simp: move_thread_def)
  qed
  then show ?thesis using t(2) by simp
qed (auto simp: init_inv_def init_thread_def start_inv_def last_inv_def)

lemma last_running: "last_inv c k {RLast, RDone} ls s \<Longrightarrow> u < 2 ^ k \<Longrightarrow> \<not> at_barrier (ls ! u)"
  by (auto simp: last_inv_def at_barrier_def)

interpretation rp: barrier_phases "radix_step c" at_barrier barriers "leave_barrier c" "\<lambda>l. rpc l = RDone" "todo c" "radix_J c k b" for c k b
proof
  fix g ls s t
  assume J: "radix_J c k b g ls s" and t: "t < length ls"
  then have c: "conf_ok c k b" "memory_ok c s" "length ls = 2 ^ k" "phase_inv c k g ls s" and t': "t < 2 ^ k" and bar: "\<forall>t < 2 ^ k. barriers (ls ! t) = g"
    by (simp_all add: radix_J_def)
  show b: "barriers (ls ! t) = g" using bar t' by blast
  show "radix_step c t (ls ! t, s) = Blocked \<or> (\<exists>l s'. radix_step c t (ls ! t, s) = Go (l, s') \<and> radix_J c k b g (ls[t := l]) s' \<and> todo c l < todo c (ls ! t))"
    if nb: "\<not> at_barrier (ls ! t)"
  proof -
    have "radix_J c k b g (ls[t := l]) s'" if "phase_inv c k g (ls[t := l]) s'" "memory_ok c s'" "barriers l = barriers (ls ! t)" for l s'
      using that c bar b all_update [of "2 ^ k" "\<lambda>_ l. barriers l = g" ls t l] by (simp add: radix_J_def)
    then show ?thesis using phase_keep [OF c(1,2,4) t' c(3) nb] todo_phase unfolding goes_def by blast
  qed
  show "\<exists>u < length ls. \<not> at_barrier (ls ! u) \<and> radix_step c u (ls ! u, s) \<noteq> Blocked" if "\<not> at_barrier (ls ! t)" "rpc (ls ! t) \<noteq> RDone"
    using phase_live [OF c(1,2,4) t' c(3) that] c(3) by simp
  show "todo c (leave_barrier c (ls ! t)) < todo c (ls ! t)" if "at_barrier (ls ! t)"
  proof (rule todo_leave)
    have "g \<noteq> 3 + 4 * max_num_digits c" using last_running [of c k ls s t] c(4) t' that by auto
    then show "barriers (ls ! t) < 3 + 4 * max_num_digits c" using phase_bound [OF c(4)] b by simp
  qed
  show "\<not> at_barrier (ls ! u)" if "rpc (ls ! t) = RDone" "u < length ls" for u
    using done_last [OF c(4) t' that(1)] last_running [of c k ls s u] that(2) c(3) by simp
next
  fix g ls s
  assume J: "radix_J c k b g ls s" and a: "list_all at_barrier ls" and ne: "ls \<noteq> []"
  then have c: "conf_ok c k b" "memory_ok c s" "length ls = 2 ^ k" "phase_inv c k g ls s" and bar: "\<forall>t < 2 ^ k. barriers (ls ! t) = g"
    by (simp_all add: radix_J_def)
  have a': "\<forall>t < 2 ^ k. at_barrier (ls ! t)" using a c(3) by (simp add: list_all_length)
  have "barriers (leave_barrier c l) = Suc (barriers l)" for l by (cases "rpc l") (simp_all add: leave_barrier_def next_digit_def Let_def)
  then show "radix_J c k b (Suc g) (map (leave_barrier c) ls) s"
    using phase_over [OF c(1,2,4,3) a'] c bar by (simp add: radix_J_def)
qed

end
