(* ===== verification/RadixMain.thy ===== *)
theory RadixMain
  imports RadixProof
begin

text \<open>
  \<^verbatim>\<open>main\<close> of the radix sort: the options, what is computed before the threads start, and the run of the threads.  For every schedule
  the keys are sorted at the end.
\<close>

section \<open>The code\<close>

record radix_args =
  arg_p :: int
  arg_r :: int
  arg_n :: int
  arg_m :: int
  arg_s :: bool
  arg_t :: bool
  arg_o :: bool

definition default_args :: radix_args where
  "default_args = \<lparr>arg_p = 1, arg_r = 1024, arg_n = 262144, arg_m = 524288, arg_s = False, arg_t = False, arg_o = False\<rparr>"

text \<open>The options that \<^verbatim>\<open>getopt\<close> finds, with their arguments; \<open>Inl\<close> is \<^verbatim>\<open>exit\<close>.  An unknown option is passed over.\<close>

definition radix_option :: "char \<Rightarrow> string \<Rightarrow> radix_args \<Rightarrow> int + radix_args" where
  "radix_option c optarg a =
     (let x = atoi optarg in
      if c = CHR ''p'' then (if x < 1 then Inl (- 1) else if x > int MAX_PROCESSORS then Inl (- 1) else Inr (a\<lparr>arg_p := x\<rparr>))
      else if c = CHR ''r'' then (if x < 1 then Inl (- 1) else if log_2 (nat x) = - 1 then Inl (- 1) else Inr (a\<lparr>arg_r := x\<rparr>))
      else if c = CHR ''n'' then (if x < 1 then Inl (- 1) else Inr (a\<lparr>arg_n := x\<rparr>))
      else if c = CHR ''m'' then (if x < 1 then Inl (- 1) else Inr (a\<lparr>arg_m := x\<rparr>))
      else if c = CHR ''s'' then Inr (a\<lparr>arg_s := \<not> arg_s a\<rparr>)
      else if c = CHR ''t'' then Inr (a\<lparr>arg_t := \<not> arg_t a\<rparr>)
      else if c = CHR ''o'' then Inr (a\<lparr>arg_o := \<not> arg_o a\<rparr>)
      else if c = CHR ''h'' then Inl 0
      else Inr a)"

fun radix_opts :: "(char \<times> string) list \<Rightarrow> radix_args \<Rightarrow> int + radix_args" where
  "radix_opts [] a = Inr a"
| "radix_opts ((c, optarg) # os) a = (case radix_option c optarg a of Inl e \<Rightarrow> Inl e | Inr a \<Rightarrow> radix_opts os a)"

text \<open>What \<^verbatim>\<open>main\<close> computes; the partition of the ranks is not used afterwards.\<close>

definition radix_setup :: "radix_args \<Rightarrow> (nat \<Rightarrow> int) \<Rightarrow> radix_conf option" where
  "radix_setup a scale =
     do { d \<leftarrow> get_max_digits (nat (arg_r a)) (nat (arg_m a));
          kp \<leftarrow> partition_of (nat (arg_p a)) (nat (arg_n a));
          rp \<leftarrow> partition_of (nat (arg_p a)) (nat (arg_r a));
          Some \<lparr>number_of_processors = nat (arg_p a), radix = nat (arg_r a), log2_radix = nat (log_2 (nat (arg_r a))), num_keys = nat (arg_n a),
                max_num_digits = d, key_partition = kp, key_scale = scale\<rparr> }"

text \<open>The memory when the threads start: the arrays have any content, and \<^verbatim>\<open>PAUSEINIT\<close> has cleared the flags of the nodes in use.\<close>

definition main_memory :: "radix_conf \<Rightarrow> global_memory \<Rightarrow> bool" where
  "main_memory c s \<longleftrightarrow> memory_ok c s \<and> list_all (\<lambda>n. pause n = 0) (take (2 * number_of_processors c) (prefix_tree s))"

text \<open>\<^verbatim>\<open>CREATE(slave_sort, number_of_processors)\<close> and a schedule of the threads; \<^verbatim>\<open>MyNum\<close> is the index of the thread.\<close>

definition radix_run :: "radix_conf \<Rightarrow> global_memory \<Rightarrow> nat list \<Rightarrow> (rthread list \<times> global_memory) outcome" where
  "radix_run c s ts = run (slave_step c) ts (replicate (number_of_processors c) (new_thread c), s)"

section \<open>Options and configuration\<close>

definition args_ok :: "radix_args \<Rightarrow> bool" where
  "args_ok a \<longleftrightarrow> 1 \<le> arg_p a \<and> arg_p a \<le> int MAX_PROCESSORS \<and> 1 \<le> arg_r a \<and> log_2 (nat (arg_r a)) \<noteq> - 1 \<and> 1 \<le> arg_n a \<and> 1 \<le> arg_m a"

lemma default_ok: "args_ok default_args"
proof -
  have "log_2 1024 = 10" using log_2_power [of 10] by simp
  then show ?thesis by (simp add: args_ok_def default_args_def MAX_PROCESSORS_def)
qed

lemma radix_option_ok: "radix_option c optarg a = Inr a' \<Longrightarrow> args_ok a \<Longrightarrow> args_ok a'"
  unfolding radix_option_def args_ok_def Let_def by (auto split: if_splits)

lemma radix_opts_ok: "radix_opts os a = Inr a' \<Longrightarrow> args_ok a \<Longrightarrow> args_ok a'"
  by (induction os a rule: radix_opts.induct) (auto split: sum.splits dest: radix_option_ok)

lemma radix_setup_ok:
  assumes a: "args_ok a" and p: "arg_p a = 2 ^ k" and r: "2 \<le> arg_r a" "arg_r a \<le> int MAX_RADIX"
  shows "\<exists>c b. radix_setup a scale = Some c \<and> conf_ok c k b \<and> num_keys c = nat (arg_n a) \<and> key_scale c = scale \<and> number_of_processors c = 2 ^ k
    \<and> arg_m a < int (radix c) ^ max_num_digits c"
proof -
  obtain b where b: "nat (arg_r a) = 2 ^ b" "log_2 (nat (arg_r a)) = int b" using a log_2_only_power unfolding args_ok_def by blast
  have b0: "0 < b" using b(1) r(1) by (cases b) auto
  have P: "nat (arg_p a) = 2 ^ k" using p by (simp add: nat_power_eq)
  have "2 \<le> nat (arg_r a)" using r(1) by simp
  then obtain d where d: "get_max_digits (nat (arg_r a)) (nat (arg_m a)) = Some d" "0 < d" "nat (arg_m a) < nat (arg_r a) ^ d" using get_max_digits_enough by blast
  have n: "0 < nat (arg_n a)" "0 < nat (arg_r a)" using a by (auto simp: args_ok_def)
  have kp: "partition_of (nat (arg_p a)) (nat (arg_n a)) = Some (map (\<lambda>q. q * nat (arg_n a) div 2 ^ k) [0 ..< 2 ^ k + 1])"
    "\<exists>q. partition_of (nat (arg_p a)) (nat (arg_r a)) = Some q" unfolding P using n partition_of_eq by (simp_all del: upt_Suc)
  define c where "c = \<lparr>number_of_processors = nat (arg_p a), radix = nat (arg_r a), log2_radix = nat (log_2 (nat (arg_r a))), num_keys = nat (arg_n a),
    max_num_digits = d, key_partition = map (\<lambda>q. q * nat (arg_n a) div 2 ^ k) [0 ..< 2 ^ k + 1], key_scale = scale\<rparr>"
  have "radix_setup a scale = Some c" using d(1) kp by (auto simp: radix_setup_def c_def)
  moreover have "conf_ok c k b" using P b b0 d(2) n a p r(2) unfolding conf_ok_def c_def args_ok_def by (simp del: upt_Suc)
  moreover have "arg_m a < int (radix c) ^ max_num_digits c" using d(3) a by (simp add: c_def args_ok_def nat_less_iff)
  moreover have "num_keys c = nat (arg_n a)" "key_scale c = scale" "number_of_processors c = 2 ^ k" using P by (simp_all add: c_def)
  ultimately show ?thesis by blast
qed

section \<open>The sort\<close>

lemma start_J:
  assumes c: "conf_ok c k b" and m: "main_memory c s"
  shows "radix_J c k b 0 (replicate (2 ^ k) (new_thread c)) s"
proof -
  have P: "number_of_processors c = 2 ^ k" and m': "memory_ok c s" using c m by (simp_all add: conf_ok_def main_memory_def)
  have "pause (prefix_tree s ! x) = 0" if "x < 2 * 2 ^ k" for x
    using m conf_nodes(2) [OF c m' that] that unfolding main_memory_def P list_all_length by simp
  moreover have "tix k j y < 2 * 2 ^ k" if "j \<le> k" "y < 2 ^ (k - j)" for j y using tix_bound [OF that] by simp
  ultimately have "quiet k s" by (simp add: quiet_def)
  then have "init_inv c k (replicate (2 ^ k) (new_thread c)) s" by (simp add: init_inv_def init_thread_def new_thread_def)
  then show ?thesis using c m' by (simp add: radix_J_def new_thread_def)
qed

lemma sorted_mod: "sorted (map (\<lambda>x. x mod m) K) \<Longrightarrow> (\<And>x. x \<in> set K \<Longrightarrow> 0 \<le> x \<and> x < m) \<Longrightarrow> sorted K" for m :: int
proof -
  assume s: "sorted (map (\<lambda>x. x mod m) K)" and r: "\<And>x. x \<in> set K \<Longrightarrow> 0 \<le> x \<and> x < m"
  have "map (\<lambda>x. x mod m) K = K" by (rule map_idI) (simp add: r)
  then show ?thesis using s by simp
qed

lemma key_at_range: "\<forall>x \<le> 4 * RADIX. 0 \<le> scale x \<and> scale x \<le> m \<Longrightarrow> 0 \<le> key_at scale i \<and> key_at scale i \<le> m"
  unfolding key_at_def using ran_less(1) [of "4 * i + 1"] ran_less(1) [of "4 * i + 2"] ran_less(1) [of "4 * i + 3"] ran_less(1) [of "4 * i + 4"] by simp

lemma end_sorted:
  assumes J: "radix_J c k b g ls s" and d: "list_all (\<lambda>l. rpc l = RDone) ls" and sc: "\<forall>x \<le> 4 * RADIX. 0 \<le> key_scale c x \<and> key_scale c x \<le> m"
    and m: "m < int (radix c) ^ max_num_digits c"
  shows "sorted (key s ! final_key s) \<and> mset (key s ! final_key s) = mset (map (key_at (key_scale c)) [0 ..< num_keys c])"
proof -
  have "length ls = 2 ^ k" "phase_inv c k g ls s" using J by (simp_all add: radix_J_def)
  moreover from this have pc: "rpc (ls ! 0) = RDone" using d by (simp add: list_all_length)
  ultimately have i: "last_inv c k {RLast, RDone} ls s" using done_last [of c k g ls s 0] by simp
  define K where "K = key s ! final_key s"
  have K: "mset K = mset (map (key_at (key_scale c)) [0 ..< num_keys c])" "sorted (map (\<lambda>x. x mod int (radix c) ^ max_num_digits c) K)"
    using i pc by (simp_all add: last_inv_def keys_ok_def K_def)
  have "set K = set (map (key_at (key_scale c)) [0 ..< num_keys c])" using K(1) by (rule mset_eq_setD)
  then have "\<exists>q. x = key_at (key_scale c) q" if "x \<in> set K" for x using that by auto
  moreover have "0 \<le> key_at (key_scale c) q \<and> key_at (key_scale c) q < int (radix c) ^ max_num_digits c" for q
    using key_at_range [OF sc, of q] m by linarith
  ultimately have "0 \<le> x \<and> x < int (radix c) ^ max_num_digits c" if "x \<in> set K" for x using that by blast
  then have "sorted K" by (rule sorted_mod [OF K(2)])
  then show ?thesis using K(1) by (simp add: K_def)
qed

text \<open>The end of a run.\<close>

definition sorted_end :: "(nat \<Rightarrow> int) \<Rightarrow> nat \<Rightarrow> rthread list \<times> global_memory \<Rightarrow> bool" where
  "sorted_end scale n = (\<lambda>(ls, s). list_all (\<lambda>l. rpc l = RDone) ls \<and> sorted (key s ! final_key s) \<and> test_sort (key s ! final_key s) = 0
     \<and> mset (key s ! final_key s) = mset (map (key_at scale) [0 ..< n]))"

lemma run_sorted:
  assumes c: "conf_ok c k b" and m: "main_memory c s" and sc: "\<forall>x \<le> 4 * RADIX. 0 \<le> key_scale c x \<and> key_scale c x \<le> m" "m < int (radix c) ^ max_num_digits c"
  shows "radix_run c s ts \<noteq> Fault"
    "radix_run c s ts = Go (ls, s') \<Longrightarrow> length ts \<le> 2 ^ k * todo c (new_thread c) \<and> (\<exists>us e. run (slave_step c) us (ls, s') = Go e \<and> sorted_end (key_scale c) (num_keys c) e)
       \<and> ((\<forall>t < 2 ^ k. slave_step c t (ls, s') = Blocked) \<longrightarrow> sorted_end (key_scale c) (num_keys c) (ls, s'))"
proof -
  have P: "number_of_processors c = 2 ^ k" using c by (simp add: conf_ok_def)
  let ?ls = "replicate (2 ^ k) (new_thread c)"
  have i: "rp.inv c k b (?ls, s)" unfolding rp.inv_def using start_J [OF c m] by (auto simp: rp.late_def list_all2_same intro!: exI [of _ 0] exI [of _ ?ls])
  show "radix_run c s ts \<noteq> Fault" using rp.phases_run(1) [OF i] by (simp add: radix_run_def P)
  assume "radix_run c s ts = Go (ls, s')"
  then have r: "rp.inv c k b (ls, s')" "length ls = 2 ^ k" "length ts \<le> rp.remaining c ?ls" using rp.phases_run(2) [OF i, of ts ls s'] by (auto simp: radix_run_def P)
  have e: "sorted_end (key_scale c) (num_keys c) (l, x)" if inv: "rp.inv c k b (l, x)" and stuck: "\<forall>t < length l. slave_step c t (l, x) = Blocked" for l x
  proof -
    obtain g where "list_all (\<lambda>l. rpc l = RDone) l" "radix_J c k b g l x" using rp.stuck_finished [OF inv] stuck by blast
    then show ?thesis using end_sorted [OF _ _ sc] by (simp add: sorted_end_def test_sort_sorted)
  qed
  have "\<exists>us e. run (slave_step c) us (ls, s') = Go e \<and> sorted_end (key_scale c) (num_keys c) e" using rp.run_ends [OF r(1)] e by blast
  moreover have "length ts \<le> 2 ^ k * todo c (new_thread c)" using r(3) by (simp add: rp.remaining_def sum_list_replicate)
  ultimately show "length ts \<le> 2 ^ k * todo c (new_thread c) \<and> (\<exists>us e. run (slave_step c) us (ls, s') = Go e \<and> sorted_end (key_scale c) (num_keys c) e)
       \<and> ((\<forall>t < 2 ^ k. slave_step c t (ls, s') = Blocked) \<longrightarrow> sorted_end (key_scale c) (num_keys c) (ls, s'))"
    using e [OF r(1)] r(2) by simp
qed

text \<open>
  C6. The radix sort sorts.  For options that \<^verbatim>\<open>main\<close> accepts, a number of processors that is a power of two and a radix from 2 to
  \<^verbatim>\<open>MAX_RADIX\<close>, neither of which \<^verbatim>\<open>main\<close> checks, every schedule of the threads is free of faults and no longer than a fixed bound, can be
  continued to the end, and when no thread can move all threads have returned and \<^verbatim>\<open>key[final]\<close> has the generated keys in order,
  so that \<^verbatim>\<open>test_sort\<close> finds no key out of place.  \<open>scale\<close> is the conversion of the sum of four random numbers to a key, with values
  from 0 to \<^verbatim>\<open>max_key\<close>.
\<close>

theorem radix_sorts:
  assumes "radix_opts os default_args = Inr a" "arg_p a = 2 ^ k" "2 \<le> arg_r a" "arg_r a \<le> int MAX_RADIX"
    and "\<forall>x \<le> 4 * RADIX. 0 \<le> scale x \<and> scale x \<le> arg_m a"
  shows "\<exists>c. radix_setup a scale = Some c \<and> (\<forall>s. main_memory c s \<longrightarrow> (\<forall>ts.
    (case radix_run c s ts of
       Fault \<Rightarrow> False
     | Blocked \<Rightarrow> True
     | Go e \<Rightarrow> length ts \<le> 2 ^ k * ((3 + 4 * max_num_digits c) * (nat (arg_n a) + 3 * 2 ^ k + 6) + 1)
         \<and> (\<exists>us e'. run (slave_step c) us e = Go e' \<and> sorted_end scale (nat (arg_n a)) e')
         \<and> ((\<forall>t < 2 ^ k. slave_step c t e = Blocked) \<longrightarrow> sorted_end scale (nat (arg_n a)) e))))"
proof -
  have a: "args_ok a" using radix_opts_ok [OF assms(1) default_ok] .
  obtain c b where c: "radix_setup a scale = Some c" "conf_ok c k b" "num_keys c = nat (arg_n a)" "key_scale c = scale" "number_of_processors c = 2 ^ k"
      "arg_m a < int (radix c) ^ max_num_digits c"
    using radix_setup_ok [OF a assms(2-4)] by blast
  have t: "todo c (new_thread c) = (3 + 4 * max_num_digits c) * (nat (arg_n a) + 3 * 2 ^ k + 6) + 1"
    by (simp add: todo_def new_thread_def phase_todo_def c)
  have sc: "\<forall>x \<le> 4 * RADIX. 0 \<le> key_scale c x \<and> key_scale c x \<le> arg_m a" using assms(5) by (simp only: c(4))
  show ?thesis
  proof (intro exI [of _ c] conjI c(1) allI impI)
    fix s ts assume "main_memory c s"
    note r = run_sorted [OF c(2) this sc c(6), unfolded t c(3,4)]
    show "case radix_run c s ts of Fault \<Rightarrow> False | Blocked \<Rightarrow> True
      | Go e \<Rightarrow> length ts \<le> 2 ^ k * ((3 + 4 * max_num_digits c) * (nat (arg_n a) + 3 * 2 ^ k + 6) + 1)
         \<and> (\<exists>us e'. run (slave_step c) us e = Go e' \<and> sorted_end scale (nat (arg_n a)) e')
         \<and> ((\<forall>t < 2 ^ k. slave_step c t e = Blocked) \<longrightarrow> sorted_end scale (nat (arg_n a)) e)"
    proof (cases "radix_run c s ts")
      case (Go e)
      then show ?thesis using r(2) [of ts "fst e" "snd e"] by simp
    qed (use r(1) in simp_all)
  qed
qed

definition demo_memory :: "radix_conf \<Rightarrow> global_memory" where
  "demo_memory c = \<lparr>key = replicate 2 (replicate (num_keys c) 7),
     prefix_tree = replicate (2 * MAX_PROCESSORS) \<lparr>densities = replicate MAX_RADIX 5, ranks = replicate MAX_RADIX 5, pause = 0\<rparr>, final_key = 9\<rparr>"

lemma demo_memory_ok: "main_memory c (demo_memory c)"
  unfolding main_memory_def memory_ok_def demo_memory_def by (simp add: list_all_length del: replicate.simps)

text \<open>Four processors that sort five keys from 0 to 6 with radix 4.\<close>

lemma radix_sorts_witness:
  "\<exists>c us e. radix_setup (default_args\<lparr>arg_p := 4, arg_r := 4, arg_n := 5, arg_m := 6\<rparr>) (\<lambda>x. int (x mod 7)) = Some c
    \<and> run (slave_step c) us (replicate (number_of_processors c) (new_thread c), demo_memory c) = Go e \<and> sorted_end (\<lambda>x. int (x mod 7)) 5 e"
proof -
  let ?a = "default_args\<lparr>arg_p := 4, arg_r := 4, arg_n := 5, arg_m := 6\<rparr>"
  have l: "log_2 4 = 2" using log_2_power [of 2] by simp
  have n: "atoi ''4'' = 4" "atoi ''5'' = 5" "atoi ''6'' = 6" by code_simp+
  have o: "radix_opts [(CHR ''p'', ''4''), (CHR ''r'', ''4''), (CHR ''n'', ''5''), (CHR ''m'', ''6'')] default_args = Inr ?a"
    by (simp add: radix_option_def n l MAX_PROCESSORS_def)
  have "int (x mod 7) \<le> 6" for x using pos_mod_bound [of 7 "int x"] by (simp add: zmod_int)
  then have h: "arg_p ?a = 2 ^ 2" "2 \<le> arg_r ?a" "arg_r ?a \<le> int MAX_RADIX" "\<forall>x \<le> 4 * RADIX. 0 \<le> int (x mod 7) \<and> int (x mod 7) \<le> arg_m ?a"
    by (simp_all add: MAX_RADIX_def)
  obtain c where c: "radix_setup ?a (\<lambda>x. int (x mod 7)) = Some c"
      "\<forall>s. main_memory c s \<longrightarrow> (\<forall>ts. case radix_run c s ts of Fault \<Rightarrow> False | Blocked \<Rightarrow> True
        | Go e \<Rightarrow> length ts \<le> 2 ^ 2 * ((3 + 4 * max_num_digits c) * (nat (arg_n ?a) + 3 * 2 ^ 2 + 6) + 1)
          \<and> (\<exists>us e'. run (slave_step c) us e = Go e' \<and> sorted_end (\<lambda>x. int (x mod 7)) (nat (arg_n ?a)) e')
          \<and> ((\<forall>t < 2 ^ 2. slave_step c t e = Blocked) \<longrightarrow> sorted_end (\<lambda>x. int (x mod 7)) (nat (arg_n ?a)) e))"
    using radix_sorts [OF o h] by blast
  from c(2) [rule_format, OF demo_memory_ok, of "[]"] show ?thesis using c(1) by (auto simp: radix_run_def)
qed

end
