(* ===== verification/Spec2Isabelle.thy ===== *)
theory Spec2Isabelle
  imports ThreadProps TryLock DetLibc PerfUtil PFSystem AgetMain RadixMain
begin

text \<open>
  \<^bold>\<open>The program.\<close>  dpthread is a library that makes programs with threads deterministic.  Every
  thread has a logical clock, which counts events of the performance counter; a synchronisation
  operation waits until the clock of its thread is the least (ties go to the smaller thread id), so
  that the order of lock acquisitions does not depend on the scheduler.  The repository has the
  runtime (\<^verbatim>\<open>src/src\<close>, \<^verbatim>\<open>src/include\<close>) and the programs it is tried on (\<^verbatim>\<open>src/papps\<close>), of which
  the parallel file scanner pfscan, the downloader aget and the radix sort of SPLASH-2 are modelled here.

  \<^bold>\<open>Conventions.\<close>  An operation that can end the process (a failed \<^verbatim>\<open>assert\<close>, \<^verbatim>\<open>errx\<close>) or that
  accesses memory outside an array has the result \<open>None\<close>; \<^verbatim>\<open>exit(c)\<close> of aget is \<open>Some (Inl c)\<close>.
  A structure of the code is a \<open>record\<close>, an operation a function on explicit state, an array of
  known size a list with checked access (\<open>rd\<close>, \<open>wr\<close>), a loop a recursive function with a
  termination proof or, where it may not end, a \<open>partial_function\<close> in the option monad.  What the
  system or a library answers is an argument.  Threads run by schedules: lists that name the
  thread of the next step, with all its nondeterminism; theorems hold for all schedules.

  \<^bold>\<open>Theories, in the order of the code.\<close>

  \<^item> \<open>Prelude\<close>: the collections of lemmas, checked arrays, counting loops with invariant rules, and
    the locales \<open>fifo_store\<close> and \<open>bounded_fifo\<close>, the contract of a queue, with the lemmas its clients
    use.  \<open>TQueue\<close> (\<^verbatim>\<open>queue.c\<close>): the ring buffer of the runtime, an interpretation of
    \<open>bounded_fifo\<close>; first in first out, and \<^verbatim>\<open>ClearQ\<close>.

  \<^item> \<open>Runtime\<close>, \<open>Turn\<close>, \<open>Mutex\<close>, \<open>Cond\<close>, \<open>Threads\<close> (\<^verbatim>\<open>dpthread.c\<close>): the state of the runtime and
    the clocks; \<^verbatim>\<open>wait_for_turn\<close>, step by step while other threads move; locks; condition
    variables and barriers; creation, join, exit and cancellation of threads.  An operation that
    blocks is cut into pieces at the points where it waits.  Shown: stopping and starting the counter
    moves no clock, \<^verbatim>\<open>det_disable\<close> and \<^verbatim>\<open>det_enable\<close> restore the clock, \<^verbatim>\<open>wait_for_turn\<close> returns
    only to the earliest thread and returns to it after one pass, exactly one thread has the
    turn, a signal wakes the thread that has waited longest, a broadcast wakes all in order.

  \<^item> \<open>Machine\<close>, \<open>Client\<close>: the pieces as instructions, and programs that use locks: any function
    from the local state of a thread to its next action.  \<open>Confluence\<close>: the locales of commuting
    steps and of simulation.  \<open>Arbiter\<close>: the abstract specification of locking, clocks and
    queues only.  \<open>Refine\<close>: the code simulates the arbiter.  \<open>Determinism\<close>: the interpretation of
    the locales, and the main results: two complete runs end in the same state, every run can be
    completed to that state, mutual exclusion, acquisitions in the order of logical time,
    no blocking but for the turn, and the refinement itself.  \<open>ThreadProps\<close>, \<open>TryLock\<close>: threads,
    the rely condition of \<^verbatim>\<open>wait_for_turn\<close>, and \<^verbatim>\<open>det_trylock\<close>.

  \<^item> \<open>DetLibc\<close> (\<^verbatim>\<open>det-libc.c\<close>, \<^verbatim>\<open>det-posix.c\<close>): the wrappers of library calls, the library's
    answer being an argument, and the memory functions on a byte memory.  \<open>PerfUtil\<close>
    (\<^verbatim>\<open>perf_util.c\<close>, \<^verbatim>\<open>perf_util.h\<close>): event tables and the kernel's ring buffer.

  \<^item> \<open>PQueue\<close> (\<^verbatim>\<open>pqueue.c\<close>), \<open>BoyerMoore\<close> (\<^verbatim>\<open>bm.c\<close>), \<open>PFScan\<close> and \<open>PFSystem\<close> (\<^verbatim>\<open>pfscan.c\<close>):
    the bounded queue with condition variables, an interpretation of \<open>fifo_store\<close>, loses nothing;
    the search finds what naive search finds; escapes are decoded in place; printing stays inside
    the file; and main thread and workers together end, after a bounded number of steps, with
    the right exit status under every schedule and every choice of the threads that are woken.

  \<^item> \<open>CText\<close>: what the programs use of C strings and decimal numbers.  \<open>AgetUrl\<close> (\<^verbatim>\<open>Misc.c\<close>):
    \<^verbatim>\<open>parse_url\<close>.  \<open>AgetFetch\<close>: \<^verbatim>\<open>recv\<close> and \<^verbatim>\<open>pwrite\<close>, schedules of download threads, and the
    locale \<open>segment_getter\<close>, the contract of a thread body.  \<open>AgetSegments\<close> (\<^verbatim>\<open>Misc.c\<close>): how a file is
    divided, and what the contract gives for all segments together.  \<open>AgetHttp\<close> (\<^verbatim>\<open>Download.c\<close>):
    \<^verbatim>\<open>http_get\<close>, the first interpretation of the contract.  \<open>AgetHead\<close> (\<^verbatim>\<open>Head.c\<close>): the head request
    and the search for the length in its reply.  \<open>AgetJob\<close> (\<^verbatim>\<open>Aget.c\<close>, \<^verbatim>\<open>Resume.c\<close>, \<^verbatim>\<open>Signal.c\<close>):
    requests, rounds, the log and resumption; a download ends with the content in the file, also
    when it is interrupted at any point and resumed.

  \<^item> \<open>AgetFtp\<close> (\<^verbatim>\<open>Ftp.c\<close>, \<^verbatim>\<open>Head.c\<close>, \<^verbatim>\<open>Misc.c\<close>): replies, the passive mode, the size from the listing,
    and \<^verbatim>\<open>ftp_get\<close>, the second interpretation of \<open>segment_getter\<close>.  \<open>AgetFtpJob\<close> (\<^verbatim>\<open>Aget.c\<close>): \<^verbatim>\<open>startFTP\<close>
    and \<^verbatim>\<open>resumeDownload\<close> for FTP; a download over FTP ends with the content in the file, also when it is
    interrupted at any point and resumed.  \<open>AgetRc\<close> (\<^verbatim>\<open>loadrc.c\<close>): the configuration
    file, whose lines are read as the settings they were written from.  \<open>AgetMain\<close> (\<^verbatim>\<open>main.c\<close>): options,
    the name of the local file and the choice of the job; the arrays of the request keep their sizes.
    This theory composes configuration, options, URL, log, head request and job: from the
    command line to the content in the file.

  \<^item> \<open>Radix\<close> (\<^verbatim>\<open>splash2/codes/kernels/radix/radix.C\<close>): the sequential functions of the parallel radix sort;
    the keys do not depend on the number of processors.  \<open>Phases\<close>: threads that meet at barriers, and the locale
    \<open>barrier_phases\<close>, the contract of such a program: an invariant for every phase between two barriers.  From it follow
    for every schedule that no step faults, that runs are bounded and that a run that cannot go on has ended.
    \<open>RadixSort\<close>: \<^verbatim>\<open>slave_sort\<close> with the macros of \<^verbatim>\<open>null_macros/c.m4.null.det\<close>; a step is the code between two
    synchronisations, or one turn of a loop over the keys.  \<open>RadixTree\<close>: the numbering of the tree of counts.
    \<open>RadixUp\<close>, \<open>RadixDown\<close>, \<open>RadixPhases\<close>, \<open>RadixMove\<close>: the invariants of the phases, flags of the tree included;
    \<open>RadixKeys\<close>: a pass is a stable sort by one digit.  \<open>RadixProof\<close>: the interpretation of \<open>barrier_phases\<close>.
    \<open>RadixMain\<close>: options and \<^verbatim>\<open>main\<close>; for every schedule of the threads the keys are sorted at the end.

  \<^bold>\<open>Bounds and hypotheses.\<close>  No fuel is used but for \<open>wft_run\<close>, which runs \<^verbatim>\<open>wait_for_turn\<close> for
  \<open>max_thr + 3\<close> steps, one pass; schedules are finite lists of any length, and the theorems on
  termination say how long is enough.  Clocks are unbounded integers, which the asserts against
  \<^verbatim>\<open>MAX_LOGICAL_CLOCK\<close> justify; where the code converts to 32 bits the model does.  The theorems on
  downloads assume a server that answers a range request with the content from the offset on, a
  header that arrives with the first \<^verbatim>\<open>recv\<close>, and calls that succeed; over FTP they assume a server
  that answers each command with one line of the expected code in a packet of its own, as the code
  expects.  The theories show by theorems what goes wrong otherwise.  The theorem on the radix sort is for a
  power of two processors and a radix from 2 to \<^verbatim>\<open>MAX_RADIX\<close>; its keys are unbounded integers, and the one expression
  of \<^verbatim>\<open>init\<close> that rounds is a parameter with values from 0 to \<^verbatim>\<open>max_key\<close>.

  \<^bold>\<open>Defects.\<close>  Where the code does not do what it means to, a theorem says so next to the component:
  \<^verbatim>\<open>det_trylock\<close> that reports success without the lock, clocks that run backwards, tables without
  bounds, \<^verbatim>\<open>detio_recv\<close> that overwrites, \<^verbatim>\<open>pqueue_put\<close> that keeps the mutex, option values and
  escapes read at the wrong place, URLs with a colon, downloads that lose bytes or never end, addresses of the passive mode that are
  cut, replies that are read ahead and lost, and the port of the proxy that is never used.

  \<^bold>\<open>Not modelled.\<close>  Log output, statistics, CPU affinity, the self test and the compile-time
  alternatives that are switched off in \<^verbatim>\<open>dpthread.c\<close>; the floating-point scaling of counters;
  \<^verbatim>\<open>parse_pasv_reply\<close> and \<^verbatim>\<open>parse_list_reply\<close>, which nothing calls, and
  the messages and signal masks of aget; \<^verbatim>\<open>atomic.h\<close> (inline assembly) and the macros of
  \<^verbatim>\<open>dpthread-wrapper.h\<close>, which rename calls.  sqlite and the SPLASH-2 benchmarks other than
  the radix sort are third-party programs of some two hundred thousand lines that the runtime is tried on, the latter in
  floating point; of the radix sort, times, statistics and \<^verbatim>\<open>printout\<close> are left out; the programs under \<^verbatim>\<open>src/test\<close> exercise and measure the runtime.  An asynchronous
  cancellation inside the first part of \<^verbatim>\<open>http_get\<close>, between two statements, is not modelled:
  an interrupt comes between steps, which is where \<^verbatim>\<open>pthread_testcancel\<close> stands in the loop.
\<close>

section \<open>A download from the command line to the file\<close>


text \<open>A concrete run: no home directory, hence no configuration, and a file of five bytes.\<close>

definition demo_target :: request where
  "demo_target = (url_request ''h.org'' ([] @ ''/'' @ ''f''))\<lparr>ip := ''1.2.3.4'' @ replicate (16 - length ''1.2.3.4'') NUL, clength := int (length ''hello'')\<rparr>"

lemma demo_target_sel:
  "c_str (host demo_target) = ''h.org''" "c_str (url demo_target) = ''/f''" "NUL \<in> set (host demo_target)" "NUL \<in> set (url demo_target)"
  "NUL \<in> set (ip demo_target)" "clength demo_target = 5"
  by (simp_all add: demo_target_def url_request_def c_str_def)

lemma demo_target_sendable: "sendable demo_target []"
  using demo_target_sel by (auto simp: sendable_def request_text_def GETREQ_def PROGVERSION_def small_dec)

lemma demo_target_served:
  "head_served [] pp (\<lambda>_. Some ''1.2.3.4'') (\<lambda>_ _. True) (\<lambda>_. Some demo_reply) (url_request ''h.org'' ([] @ ''/'' @ ''f'')) ''1.2.3.4'' (length ''hello'')"
proof -
  have "length_reply 5 demo_reply" using demo_head_served by (simp add: head_served_def)
  then show ?thesis
    by (simp add: head_served_def url_request_def blank_req_def c_str_def eval_nat_numeral(2,3) del: replicate.simps)
qed


end
